(* ===== verification/Prelude.thy ===== *)
theory Prelude
  imports Main "HOL-Library.Word"
begin

section \<open>Prelude: machine integers, results, hash maps\<close>

text \<open>
  What every component shares. The machine integers of the program are words of their
  width, so \<open>+\<close>, \<open>-\<close> and \<open>*\<close> wrap exactly as the release build and the BPF target do;
  the saturating and checked operations of the Rust standard library are defined here and
  characterised through \<^const>\<open>unat\<close>. A \<open>Result\<close> is a sum with the error on the left. A
  \<open>HashMap\<close> is a partial function, its unspecified iteration order a list that
  \<open>enumerates\<close> its domain and that every definition iterating over a map takes as an
  argument.
\<close>

type_synonym u8 = "8 word"
type_synonym u16 = "16 word"
type_synonym u32 = "32 word"
type_synonym u64 = "64 word"

named_theorems unat_ops "readings of the machine operations through unat"
named_theorems map_ops "lookups after hash-map operations"

subsection \<open>Saturating and checked arithmetic\<close>

definition sat_add :: "'a::len word \<Rightarrow> 'a word \<Rightarrow> 'a word" where
  "sat_add a b = (if unat a + unat b < 2 ^ LENGTH('a) then a + b else - 1)"

definition sat_sub :: "'a::len word \<Rightarrow> 'a word \<Rightarrow> 'a word" where
  "sat_sub a b = (if a < b then 0 else a - b)"

definition sat_mul :: "'a::len word \<Rightarrow> 'a word \<Rightarrow> 'a word" where
  "sat_mul a b = (if unat a * unat b < 2 ^ LENGTH('a) then a * b else - 1)"

definition checked_mul :: "'a::len word \<Rightarrow> 'a word \<Rightarrow> 'a word option" where
  "checked_mul a b = (if unat a * unat b < 2 ^ LENGTH('a) then Some (a * b) else None)"

lemma unat_max_word: "unat (- 1 :: 'a::len word) = 2 ^ LENGTH('a) - 1"
  by (simp add: unsigned_minus_1_eq_mask mask_eq_exp_minus_1)

lemma unat_sat_add [unat_ops]:
  "unat (sat_add a b) = min (unat a + unat b) (2 ^ LENGTH('a) - 1)" for a :: "'a::len word"
proof (cases "unat a + unat b < 2 ^ LENGTH('a)")
  case True
  then show ?thesis by (simp add: sat_add_def unat_add_lem [THEN iffD1])
next
  case False
  then show ?thesis by (simp add: sat_add_def unat_max_word)
qed

lemma unat_sat_sub [unat_ops]: "unat (sat_sub a b) = unat a - unat b"
  by (simp add: sat_sub_def word_less_nat_alt unat_sub word_le_nat_alt)

lemma unat_sat_mul [unat_ops]:
  "unat (sat_mul a b) = min (unat a * unat b) (2 ^ LENGTH('a) - 1)" for a :: "'a::len word"
proof (cases "unat a * unat b < 2 ^ LENGTH('a)")
  case True
  then show ?thesis by (simp add: sat_mul_def unat_mult_lem [THEN iffD1])
next
  case False
  then show ?thesis by (simp add: sat_mul_def unat_max_word)
qed

lemma checked_mul_Some_iff:
  "checked_mul a b = Some c \<longleftrightarrow> unat a * unat b < 2 ^ LENGTH('a) \<and> unat c = unat a * unat b"
  for a :: "'a::len word"
  by (auto simp: checked_mul_def unat_mult_lem [THEN iffD1] word_unat_eq_iff)

subsection \<open>Plain arithmetic below the width\<close>

lemma unat_add_small:
  "unat a + unat b < 2 ^ LENGTH('a) \<Longrightarrow> unat (a + b) = unat a + unat b" for a :: "'a::len word"
  by (simp add: unat_add_lem [THEN iffD1])

lemma unat_mult_small:
  "unat a * unat b < 2 ^ LENGTH('a) \<Longrightarrow> unat (a * b) = unat a * unat b" for a :: "'a::len word"
  by (simp add: unat_mult_lem [THEN iffD1])

lemma unat_min [unat_ops]: "unat (min a b) = min (unat a) (unat b)"
  by (simp add: min_def word_le_nat_alt)

lemma unat_max [unat_ops]: "unat (max a b) = max (unat a) (unat b)"
  by (simp add: max_def word_le_nat_alt)

lemmas unat_order = word_le_nat_alt word_less_nat_alt

lemma unat_u64_less: "unat (x :: u64) < 18446744073709551616"
  using unsigned_less [of x, where ?'a = nat] by simp

lemma unat_u32_less: "unat (x :: u32) < 4294967296"
  using unsigned_less [of x, where ?'a = nat] by simp

lemma unat_ucast_u32_u64 [unat_ops]: "unat (ucast (x :: u32) :: u64) = unat x"
  using unsigned_less [of x, where ?'a = nat]
  by (simp add: unsigned_ucast_eq take_bit_nat_eq_self)

lemma unat_ucast_u8_u64 [unat_ops]: "unat (ucast (x :: u8) :: u64) = unat x"
  using unsigned_less [of x, where ?'a = nat]
  by (simp add: unsigned_ucast_eq take_bit_nat_eq_self)

lemma unat_ucast_u64_u32: "unat (x :: u64) < 4294967296 \<Longrightarrow> unat (ucast x :: u32) = unat x"
  by (simp add: unsigned_ucast_eq take_bit_nat_eq_self)

lemma less_div_imp_mult_less: "a < c div r \<Longrightarrow> a * r < c" for a :: nat
proof (cases "r = 0")
  case False
  assume "a < c div r"
  then have "Suc a * r \<le> c div r * r" by (intro mult_le_mono1) simp
  also have "\<dots> \<le> c" by simp
  finally show ?thesis using False by simp
qed simp

lemma diff_min_right: "w - min x w = w - x" for w :: nat
  by (simp add: min_def)

subsection \<open>Results\<close>

text \<open>The \<open>?\<close> operator: an error returns at once.\<close>

definition try_bind :: "'e + 'a \<Rightarrow> ('a \<Rightarrow> 'e + 'b) \<Rightarrow> 'e + 'b" where
  "try_bind r f = (case r of Inl e \<Rightarrow> Inl e | Inr a \<Rightarrow> f a)"

lemma try_bind_simps [simp]:
  "try_bind (Inl e) f = Inl e"
  "try_bind (Inr a) f = f a"
  by (simp_all add: try_bind_def)

lemma try_bind_Inr_iff:
  "try_bind r f = Inr b \<longleftrightarrow> (\<exists>a. r = Inr a \<and> f a = Inr b)"
  by (cases r) auto

lemma try_bind_Inl_iff:
  "try_bind r f = Inl e \<longleftrightarrow> r = Inl e \<or> (\<exists>a. r = Inr a \<and> f a = Inl e)"
  by (cases r) auto

definition ok_or :: "'a option \<Rightarrow> 'e \<Rightarrow> 'e + 'a" where
  "ok_or x e = (case x of None \<Rightarrow> Inl e | Some a \<Rightarrow> Inr a)"

lemma ok_or_simps [simp]:
  "ok_or None e = Inl e"
  "ok_or (Some a) e = Inr a"
  by (simp_all add: ok_or_def)

definition unwrap_or :: "'a \<Rightarrow> 'a option \<Rightarrow> 'a" where
  "unwrap_or d x = (case x of None \<Rightarrow> d | Some a \<Rightarrow> a)"

lemma unwrap_or_simps [simp]:
  "unwrap_or d None = d"
  "unwrap_or d (Some a) = a"
  by (simp_all add: unwrap_or_def)

text \<open>A loop over a list that stops at the first error.\<close>

fun try_fold :: "('a \<Rightarrow> 's \<Rightarrow> 'e + 's) \<Rightarrow> 'a list \<Rightarrow> 's \<Rightarrow> 'e + 's" where
  "try_fold f [] s = Inr s"
| "try_fold f (x # xs) s = try_bind (f x s) (try_fold f xs)"

lemma try_fold_invariant:
  assumes "try_fold f xs s = Inr t" and "P s"
    and "\<And>x s s'. x \<in> set xs \<Longrightarrow> P s \<Longrightarrow> f x s = Inr s' \<Longrightarrow> P s'"
  shows "P t"
  using assms
proof (induction xs arbitrary: s)
  case Nil
  then show ?case by simp
next
  case (Cons x xs)
  from Cons.prems(1) obtain s' where s': "f x s = Inr s'" "try_fold f xs s' = Inr t"
    by (auto simp: try_bind_Inr_iff)
  from Cons.prems(3) [OF _ Cons.prems(2) s'(1)] have "P s'" by simp
  with s'(2) Cons.prems(3) show ?case by (auto intro: Cons.IH)
qed

definition map_err :: "('e \<Rightarrow> 'f) \<Rightarrow> 'e + 'a \<Rightarrow> 'f + 'a" where
  "map_err f r = (case r of Inl e \<Rightarrow> Inl (f e) | Inr a \<Rightarrow> Inr a)"

lemma map_err_simps [simp]:
  "map_err f (Inr a) = Inr a"
  "map_err f (Inl e) = Inl (f e)"
  "map_err f r = Inr a \<longleftrightarrow> r = Inr a"
  by (simp_all add: map_err_def split: sum.split)

subsection \<open>Ring buffers\<close>

text \<open>
  A ring of \<open>n\<close> slots that starts filled with \<open>z\<close> and is overwritten at its oldest slot
  holds, read from that slot, the last \<open>n\<close> elements ever written.
\<close>

definition padded_last :: "nat \<Rightarrow> 'a \<Rightarrow> 'a list \<Rightarrow> 'a list" where
  "padded_last n z xs = drop (length xs) (replicate n z @ xs)"

lemma length_padded_last [simp]: "length (padded_last n z xs) = n"
  by (simp add: padded_last_def)

lemma padded_last_Nil [simp]: "padded_last n z [] = replicate n z"
  by (simp add: padded_last_def)

lemma padded_last_snoc:
  assumes "0 < n"
  shows "padded_last n z (xs @ [x]) = tl (padded_last n z xs) @ [x]"
proof -
  let ?xs = "replicate n z @ xs"
  have "Suc (length xs) - length ?xs = 0" using assms by simp
  then have "drop (Suc (length xs)) (?xs @ [x]) = drop (Suc (length xs)) ?xs @ [x]"
    by (subst drop_append) simp
  then show ?thesis
    by (simp only: padded_last_def length_append_singleton append_assoc drop_Suc tl_drop)
qed

lemma rotate_overwrite:
  assumes "h < length xs"
  shows "rotate (Suc h) (xs[h := x]) = tl (rotate h xs) @ [x]"
proof -
  have "rotate h (xs[h := x]) = x # tl (rotate h xs)"
    using assms by (simp add: rotate_drop_take drop_update_swap Cons_nth_drop_Suc [symmetric])
  then show ?thesis by (simp add: rotate1_def)
qed

lemma rotate_mod_length: "length xs = n \<Longrightarrow> rotate (h mod n) xs = rotate h xs"
  by (metis rotate_conv_mod)

lemma hd_rotate_nth: "h < length xs \<Longrightarrow> hd (rotate h xs) = xs ! h"
  by (simp add: rotate_drop_take hd_append hd_drop_conv_nth)

lemma sum_list_rotate: "sum_list (rotate n xs) = sum_list xs" for xs :: "nat list"
proof -
  have "sum_list (drop m xs @ take m xs) = sum_list (take m xs @ drop m xs)" for m
    by (simp only: sum_list_append add.commute)
  then show ?thesis by (simp add: rotate_drop_take)
qed

subsection \<open>Hash maps\<close>

text \<open>\<open>HashMap::retain\<close> keeps the entries a predicate accepts.\<close>

definition retain :: "('k \<Rightarrow> 'v \<Rightarrow> bool) \<Rightarrow> ('k \<rightharpoonup> 'v) \<Rightarrow> ('k \<rightharpoonup> 'v)" where
  "retain P m = (\<lambda>k. case m k of None \<Rightarrow> None | Some v \<Rightarrow> if P k v then Some v else None)"

lemma retain_Some_iff [map_ops]: "retain P m k = Some v \<longleftrightarrow> m k = Some v \<and> P k v"
  by (auto simp: retain_def split: option.splits)

lemma retain_None_iff: "retain P m k = None \<longleftrightarrow> (\<forall>v. m k = Some v \<longrightarrow> \<not> P k v)"
  by (auto simp: retain_def split: option.splits)

lemma dom_retain: "dom (retain P m) = {k. \<exists>v. m k = Some v \<and> P k v}"
  by (auto simp: dom_def retain_Some_iff)

text \<open>An order in which an iterator may yield the keys of a map.\<close>

definition enumerates :: "'k list \<Rightarrow> ('k \<rightharpoonup> 'v) \<Rightarrow> bool" where
  "enumerates ks m \<longleftrightarrow> distinct ks \<and> set ks = dom m"

definition lookup_or :: "'v \<Rightarrow> ('k \<rightharpoonup> 'v) \<Rightarrow> 'k \<Rightarrow> 'v" where
  "lookup_or d m k = (case m k of None \<Rightarrow> d | Some v \<Rightarrow> v)"

lemma lookup_or_simps [simp]:
  "m k = None \<Longrightarrow> lookup_or d m k = d"
  "m k = Some v \<Longrightarrow> lookup_or d m k = v"
  by (simp_all add: lookup_or_def)

end
