(* ===== verification/Strings.thy ===== *)
theory Strings
  imports Prelude
begin

section \<open>Strings: what the parsers use of the standard library\<close>

text \<open>
  A Rust string is the list of its characters; the characters modelled are the code points
  up to 255, which include every character the parsers distinguish and the white space of
  that range. \<open>trim\<close>, \<open>split_once\<close>, \<open>strip_suffix\<close>, ASCII case folding and the integer and
  IPv4 parsers of the standard library are defined here.
\<close>

definition is_whitespace :: "char \<Rightarrow> bool" where
  "is_whitespace c \<longleftrightarrow>
     (let n = of_char c :: nat in 9 \<le> n \<and> n \<le> 13 \<or> n = 32 \<or> n = 133 \<or> n = 160)"

definition trim :: "string \<Rightarrow> string" where
  "trim s = rev (dropWhile is_whitespace (rev (dropWhile is_whitespace s)))"

definition is_digit :: "char \<Rightarrow> bool" where
  "is_digit c \<longleftrightarrow> 48 \<le> (of_char c :: nat) \<and> (of_char c :: nat) \<le> 57"

definition digit_val :: "char \<Rightarrow> nat" where
  "digit_val c = of_char c - 48"

definition to_lower :: "char \<Rightarrow> char" where
  "to_lower c = (let n = of_char c :: nat in if 65 \<le> n \<and> n \<le> 90 then char_of (n + 32) else c)"

definition digits_val :: "string \<Rightarrow> nat" where
  "digits_val s = foldl (\<lambda>n c. 10 * n + digit_val c) 0 s"

text \<open>\<open>str::parse\<close> for an unsigned integer with \<open>bound\<close> values: an optional plus sign, then at
  least one digit, and nothing else; \<open>None\<close> on any other text and on overflow.\<close>

definition parse_unsigned :: "nat \<Rightarrow> string \<Rightarrow> nat option" where
  "parse_unsigned bound s =
     (let ds = (if s \<noteq> [] \<and> hd s = CHR ''+'' then tl s else s)
      in if ds \<noteq> [] \<and> list_all is_digit ds \<and> digits_val ds < bound
         then Some (digits_val ds) else None)"

fun split_once :: "char \<Rightarrow> string \<Rightarrow> (string \<times> string) option" where
  "split_once d [] = None"
| "split_once d (c # cs) =
     (if c = d then Some ([], cs)
      else map_option (\<lambda>(a, b). (c # a, b)) (split_once d cs))"

fun split_all :: "char \<Rightarrow> string \<Rightarrow> string list" where
  "split_all d [] = [[]]"
| "split_all d (c # cs) =
     (if c = d then [] # split_all d cs
      else case split_all d cs of [] \<Rightarrow> [[c]] | p # ps \<Rightarrow> (c # p) # ps)"

lemma split_once_Some_iff:
  "split_once d s = Some (a, b) \<longleftrightarrow> s = a @ d # b \<and> d \<notin> set a"
proof (induction s arbitrary: a)
  case (Cons c cs)
  show ?case
  proof (cases a)
    case Nil
    then show ?thesis by auto
  next
    case (Cons x a')
    then show ?thesis using Cons.IH [of a'] by auto
  qed
qed simp

text \<open>\<open>Ipv4Addr::from_str\<close>: four decimal octets without leading zeros, separated by dots.\<close>

definition parse_octet :: "string \<Rightarrow> nat option" where
  "parse_octet s =
     (if s \<noteq> [] \<and> length s \<le> 3 \<and> list_all is_digit s \<and> (length s = 1 \<or> hd s \<noteq> CHR ''0'')
         \<and> digits_val s \<le> 255
      then Some (digits_val s) else None)"

definition parse_ipv4 :: "string \<Rightarrow> u32 option" where
  "parse_ipv4 s =
     (case map parse_octet (split_all CHR ''.'' s) of
        [Some a, Some b, Some c, Some d] \<Rightarrow>
          Some (word_of_nat (((a * 256 + b) * 256 + c) * 256 + d))
      | _ \<Rightarrow> None)"

text \<open>Decimal display of a number and of an address.\<close>

fun show_nat :: "nat \<Rightarrow> string" where
  "show_nat n = (if n < 10 then [char_of (48 + n)] else show_nat (n div 10) @ [char_of (48 + n mod 10)])"

declare show_nat.simps [simp del]

definition show_ipv4 :: "u32 \<Rightarrow> string" where
  "show_ipv4 ip =
     (let n = unat ip in
      show_nat (n div 16777216) @ ''.'' @ show_nat (n div 65536 mod 256) @ ''.''
      @ show_nat (n div 256 mod 256) @ ''.'' @ show_nat (n mod 256))"

subsection \<open>Round trip\<close>

lemma of_char_digit [simp]: "d < 10 \<Longrightarrow> (of_char (char_of (48 + d) :: char) :: nat) = 48 + d" for d :: nat
  by (simp add: of_char_of)

lemma is_digit_char [simp]: "d < 10 \<Longrightarrow> is_digit (char_of (48 + d))" for d :: nat
  by (simp add: is_digit_def)

lemma digit_val_char [simp]: "d < 10 \<Longrightarrow> digit_val (char_of (48 + d)) = d" for d :: nat
  by (simp add: digit_val_def)

lemma digits_val_snoc [simp]: "digits_val (s @ [c]) = 10 * digits_val s + digit_val c"
  by (simp add: digits_val_def)

lemma digits_val_Nil [simp]: "digits_val [] = 0"
  by (simp add: digits_val_def)

lemma show_nat_digits: "show_nat n \<noteq> [] \<and> list_all is_digit (show_nat n) \<and> digits_val (show_nat n) = n"
proof (induction n rule: show_nat.induct)
  case (1 n)
  show ?case
  proof (cases "n < 10")
    case True
    then show ?thesis
      using digits_val_snoc [of "[]" "char_of (48 + n)"]
      by (simp add: show_nat.simps [of n] del: digits_val_snoc)
  next
    case False
    with 1 show ?thesis by (simp add: show_nat.simps [of n])
  qed
qed

lemma hd_show_nat: "10 \<le> n \<Longrightarrow> hd (show_nat n) \<noteq> CHR ''0''"
proof (induction n rule: show_nat.induct)
  case (1 n)
  have "hd (show_nat n) = hd (show_nat (n div 10))"
    using 1(2) show_nat_digits [of "n div 10"] by (simp add: show_nat.simps [of n])
  moreover have "hd (show_nat (n div 10)) \<noteq> CHR ''0''"
  proof (cases "n div 10 < 10")
    case True
    have "of_char (char_of (48 + n div 10) :: char) \<noteq> (of_char CHR ''0'' :: nat)"
      using 1(2) True by (subst of_char_digit) simp_all
    then have "char_of (48 + n div 10) \<noteq> CHR ''0''" by metis
    with True show ?thesis by (simp add: show_nat.simps [of "n div 10"])
  next
    case False
    with 1 show ?thesis by simp
  qed
  ultimately show ?case by simp
qed

lemma length_show_nat: "n < 1000 \<Longrightarrow> length (show_nat n) \<le> 3" "n < 10 \<Longrightarrow> length (show_nat n) = 1"
proof -
  show "n < 10 \<Longrightarrow> length (show_nat n) = 1" by (simp add: show_nat.simps)
  assume "n < 1000"
  then show "length (show_nat n) \<le> 3"
    by (simp add: show_nat.simps [of n] show_nat.simps [of "n div 10"]
        show_nat.simps [of "n div 100"] div_mult2_eq [symmetric])
qed

lemma parse_octet_show [simp]: "n \<le> 255 \<Longrightarrow> parse_octet (show_nat n) = Some n"
  using show_nat_digits [of n] hd_show_nat [of n] length_show_nat [of n]
  by (cases "n < 10") (auto simp: parse_octet_def)

lemma split_all_append:
  "d \<notin> set a \<Longrightarrow> split_all d (a @ d # b) = a # split_all d b"
  by (induction a) auto

lemma split_all_none: "d \<notin> set a \<Longrightarrow> split_all d a = [a]"
  by (induction a) auto

lemma dot_not_digit: "CHR ''.'' \<notin> set (show_nat n)"
proof
  assume "CHR ''.'' \<in> set (show_nat n)"
  with show_nat_digits [of n] have "is_digit CHR ''.''" by (auto simp: list_all_iff)
  then show False by (simp add: is_digit_def)
qed

lemma parse_show_ipv4 [simp]: "parse_ipv4 (show_ipv4 ip) = Some ip"
proof -
  define n where "n = unat ip"
  have n: "n < 4294967296" using unat_u32_less [of ip] by (simp add: n_def)
  then have a: "n div 16777216 \<le> 255" by simp
  have m: "x mod 256 \<le> 255" for x :: nat using mod_less_divisor [of 256 x] by linarith
  have "((n div 16777216 * 256 + n div 65536 mod 256) * 256 + n div 256 mod 256) * 256 + n mod 256 = n"
  proof -
    have "n div 16777216 * 256 + n div 65536 mod 256 = n div 65536"
      using div_mult_mod_eq [of "n div 65536" 256] by (simp add: div_mult2_eq [symmetric])
    moreover have "n div 65536 * 256 + n div 256 mod 256 = n div 256"
      using div_mult_mod_eq [of "n div 256" 256] by (simp add: div_mult2_eq [symmetric])
    ultimately show ?thesis by simp
  qed
  then show ?thesis
    by (simp add: parse_ipv4_def show_ipv4_def Let_def split_all_append split_all_none dot_not_digit
        m a n_def [symmetric]) (simp add: n_def)
qed

end
