(* ===== verification/Ip_Range.thy ===== *)
theory Ip_Range
  imports Strings
begin

section \<open>Ip_Range: configured ranges and their prefixes\<close>

text \<open>
  \<open>vm-bandwidth-core/src/ip_range.rs\<close>: \<open>Cidr\<close>, \<open>IpRange\<close> with \<open>cidrs\<close>, \<open>parse_range\<close> and
  \<open>validate_ranges\<close>. The decomposition into prefixes works on a 64-bit cursor that never
  exceeds \<open>2 ^ 32\<close>, so the cursor is a natural number here; the prefixes are words of the
  widths of the code. An error is a value of \<open>range_error\<close> with the arguments of its message.
\<close>

subsection \<open>Prefixes\<close>

record cidr =
  cidr_prefix_len :: u8
  cidr_network :: u32

definition cidr_span :: "cidr \<Rightarrow> u32 \<times> u32" where
  "cidr_span c =
     (let size = (if cidr_prefix_len c = 0 then 2 ^ 32 else 2 ^ unat (32 - cidr_prefix_len c)) :: u64;
          start = ucast (cidr_network c) :: u64
      in (ucast start, ucast (start + size - 1)))"

text \<open>The largest block that starts at \<open>cur\<close>, is aligned and ends in the range.\<close>

fun trailing_zeros :: "nat \<Rightarrow> nat" where
  "trailing_zeros n = (if n = 0 then 64 else if even n then Suc (trailing_zeros (n div 2)) else 0)"

declare trailing_zeros.simps [simp del]

function block_bits :: "nat \<Rightarrow> nat \<Rightarrow> nat \<Rightarrow> nat \<Rightarrow> nat" where
  "block_bits cur stop align_bits bits =
     (if bits < align_bits \<and> bits < 32 then
        (if stop < cur + 2 ^ (bits + 1) - 1 then bits
         else block_bits cur stop align_bits (bits + 1))
      else bits)"
  by auto
termination by (relation "measure (\<lambda>(_, _, _, bits). 32 - bits)") auto

declare block_bits.simps [simp del]

function cidrs_from :: "nat \<Rightarrow> nat \<Rightarrow> cidr list" where
  "cidrs_from cur stop =
     (if cur \<le> stop then
        let align_bits = (if cur = 0 then 32 else trailing_zeros cur);
            bits = block_bits cur stop align_bits 0
        in \<lparr>cidr_prefix_len = word_of_nat (32 - bits), cidr_network = word_of_nat cur\<rparr>
           # cidrs_from (cur + 2 ^ bits) stop
      else [])"
  by auto
termination
  by (relation "measure (\<lambda>(cur, stop). Suc stop - cur)") (auto simp: Let_def diff_less_mono2)

declare cidrs_from.simps [simp del]

record ip_range =
  ir_name :: string
  ir_start :: u32
  ir_end :: u32

definition range_len :: "ip_range \<Rightarrow> u64" where
  "range_len r = ucast (ir_end r - ir_start r) + 1"

definition range_contains :: "ip_range \<Rightarrow> u32 \<Rightarrow> bool" where
  "range_contains r ip \<longleftrightarrow> ir_start r \<le> ip \<and> ip \<le> ir_end r"

definition cidrs :: "ip_range \<Rightarrow> cidr list" where
  "cidrs r = cidrs_from (unat (ir_start r)) (unat (ir_end r))"

subsection \<open>The blocks chosen\<close>

definition align_of :: "nat \<Rightarrow> nat" where
  "align_of cur = (if cur = 0 then 32 else trailing_zeros cur)"

lemma trailing_zeros_dvd: "0 < n \<Longrightarrow> 2 ^ trailing_zeros n dvd n \<and> \<not> 2 ^ Suc (trailing_zeros n) dvd n"
proof (induction n rule: trailing_zeros.induct)
  case (1 n)
  show ?case
  proof (cases "even n")
    case True
    with 1 have "2 ^ trailing_zeros (n div 2) dvd n div 2"
      "\<not> 2 ^ Suc (trailing_zeros (n div 2)) dvd n div 2" by auto
    with True 1(2) show ?thesis
      by (subst (1 2) trailing_zeros.simps) (auto simp: elim!: evenE)
  next
    case False
    with 1 show ?thesis by (subst (1 2) trailing_zeros.simps) auto
  qed
qed

lemma power_dvd_trailing_zeros: "0 < n \<Longrightarrow> 2 ^ k dvd n \<longleftrightarrow> k \<le> trailing_zeros n"
  using trailing_zeros_dvd [of n] by (meson le_imp_power_dvd dvd_trans not_less_eq_eq)

lemma block_bits_props:
  assumes "cur + 2 ^ bits - 1 \<le> stop" "bits \<le> align" "bits \<le> 32"
  shows "bits \<le> block_bits cur stop align bits"
    and "cur + 2 ^ block_bits cur stop align bits - 1 \<le> stop"
    and "block_bits cur stop align bits \<le> align" "block_bits cur stop align bits \<le> 32"
    and "block_bits cur stop align bits = align \<or> block_bits cur stop align bits = 32
      \<or> stop < cur + 2 ^ Suc (block_bits cur stop align bits) - 1"
proof -
  have "bits \<le> block_bits cur stop align bits
    \<and> cur + 2 ^ block_bits cur stop align bits - 1 \<le> stop
    \<and> block_bits cur stop align bits \<le> align \<and> block_bits cur stop align bits \<le> 32
    \<and> (block_bits cur stop align bits = align \<or> block_bits cur stop align bits = 32
      \<or> stop < cur + 2 ^ Suc (block_bits cur stop align bits) - 1)"
    using assms
  proof (induction cur stop align bits rule: block_bits.induct)
    case (1 cur stop align bits)
    show ?case
    proof (cases "bits < align \<and> bits < 32")
      case False
      with 1(2-) show ?thesis by (subst (1 2 3 4 5 6 7) block_bits.simps) auto
    next
      case True
      show ?thesis
      proof (cases "stop < cur + 2 ^ (bits + 1) - 1")
        case over: True
        with 1(2-) True show ?thesis by (subst (1 2 3 4 5 6 7) block_bits.simps) auto
      next
        case False
        with 1 True have IH: "bits + 1 \<le> block_bits cur stop align (bits + 1)
          \<and> cur + 2 ^ block_bits cur stop align (bits + 1) - 1 \<le> stop
          \<and> block_bits cur stop align (bits + 1) \<le> align
          \<and> block_bits cur stop align (bits + 1) \<le> 32
          \<and> (block_bits cur stop align (bits + 1) = align
            \<or> block_bits cur stop align (bits + 1) = 32
            \<or> stop < cur + 2 ^ Suc (block_bits cur stop align (bits + 1)) - 1)" by auto
        have "block_bits cur stop align bits = block_bits cur stop align (bits + 1)"
          using True False by (subst block_bits.simps) simp
        with IH show ?thesis by auto
      qed
    qed
  qed
  then show "bits \<le> block_bits cur stop align bits"
    and "cur + 2 ^ block_bits cur stop align bits - 1 \<le> stop"
    and "block_bits cur stop align bits \<le> align" "block_bits cur stop align bits \<le> 32"
    and "block_bits cur stop align bits = align \<or> block_bits cur stop align bits = 32
      \<or> stop < cur + 2 ^ Suc (block_bits cur stop align bits) - 1" by blast+
qed

definition chosen_bits :: "nat \<Rightarrow> nat \<Rightarrow> nat" where
  "chosen_bits cur stop = block_bits cur stop (align_of cur) 0"

lemma align_dvd: "k \<le> 32 \<Longrightarrow> k \<le> align_of cur \<Longrightarrow> 2 ^ k dvd cur"
  by (cases "cur = 0") (simp_all add: align_of_def power_dvd_trailing_zeros)

lemma dvd_align: "cur \<noteq> 0 \<Longrightarrow> 2 ^ k dvd cur \<Longrightarrow> k \<le> align_of cur"
  by (simp add: align_of_def power_dvd_trailing_zeros)

lemma chosen_bits_props:
  assumes "cur \<le> stop"
  shows "cur + 2 ^ chosen_bits cur stop \<le> Suc stop" "chosen_bits cur stop \<le> 32"
    and "2 ^ chosen_bits cur stop dvd cur" "chosen_bits cur stop \<le> align_of cur"
    and "chosen_bits cur stop = align_of cur \<or> chosen_bits cur stop = 32
      \<or> Suc stop < cur + 2 ^ Suc (chosen_bits cur stop)"
proof -
  have "cur + 2 ^ 0 - 1 \<le> stop" using assms by simp
  note b = block_bits_props [OF this, of "align_of cur", folded chosen_bits_def]
  show "cur + 2 ^ chosen_bits cur stop \<le> Suc stop" using b(2) by simp
  show "chosen_bits cur stop \<le> 32" using b(4) by simp
  show "chosen_bits cur stop \<le> align_of cur" using b(3) by simp
  show "2 ^ chosen_bits cur stop dvd cur" using b(3,4) by (simp add: align_dvd)
  show "chosen_bits cur stop = align_of cur \<or> chosen_bits cur stop = 32
      \<or> Suc stop < cur + 2 ^ Suc (chosen_bits cur stop)"
    using b(5) by auto
qed

lemma cidrs_from_Nil: "stop < cur \<Longrightarrow> cidrs_from cur stop = []"
  by (simp add: cidrs_from.simps)

lemma cidrs_from_Cons:
  "cur \<le> stop \<Longrightarrow> cidrs_from cur stop =
     \<lparr>cidr_prefix_len = word_of_nat (32 - chosen_bits cur stop), cidr_network = word_of_nat cur\<rparr>
     # cidrs_from (cur + 2 ^ chosen_bits cur stop) stop"
  by (subst cidrs_from.simps) (simp add: chosen_bits_def align_of_def Let_def)

lemma cidrs_from_rule [case_names empty block]:
  assumes "\<And>cur. stop < cur \<Longrightarrow> P cur"
    and "\<And>cur. cur \<le> stop \<Longrightarrow> P (cur + 2 ^ chosen_bits cur stop) \<Longrightarrow> P cur"
  shows "P cur"
proof (induction "Suc stop - cur" arbitrary: cur rule: less_induct)
  case less
  show ?case
  proof (cases "cur \<le> stop")
    case True
    then have "Suc stop - (cur + 2 ^ chosen_bits cur stop) < Suc stop - cur"
      by (intro diff_less_mono2) simp_all
    with less True assms(2) show ?thesis by blast
  next
    case False
    with assms(1) show ?thesis by simp
  qed
qed

subsection \<open>The prefixes tile the range\<close>

text \<open>Longest-prefix matching compares the leading bits: an address matches a prefix when both
  fall into the same block of its size.\<close>

definition block_size :: "cidr \<Rightarrow> nat" where
  "block_size c = 2 ^ (32 - unat (cidr_prefix_len c))"

definition cidr_matches :: "cidr \<Rightarrow> u32 \<Rightarrow> bool" where
  "cidr_matches c ip \<longleftrightarrow> unat ip div block_size c = unat (cidr_network c) div block_size c"

lemma div_eq_block:
  fixes n :: nat
  assumes "0 < k"
  shows "n div k = m \<longleftrightarrow> k * m \<le> n \<and> n < k * m + k"
proof
  assume "n div k = m"
  then show "k * m \<le> n \<and> n < k * m + k"
    using times_div_less_eq_dividend [of k n] dividend_less_times_div [of k n] assms by auto
next
  assume "k * m \<le> n \<and> n < k * m + k"
  then show "n div k = m" by (intro div_nat_eqI) (simp_all add: mult.commute)
qed

lemma chosen_cidr:
  assumes "cur \<le> stop" "stop < 2 ^ 32"
  defines "c \<equiv> \<lparr>cidr_prefix_len = word_of_nat (32 - chosen_bits cur stop), cidr_network = word_of_nat cur\<rparr>"
  shows "block_size c = 2 ^ chosen_bits cur stop" "unat (cidr_network c) = cur"
    and "cidr_matches c ip \<longleftrightarrow> cur \<le> unat ip \<and> unat ip < cur + 2 ^ chosen_bits cur stop"
proof -
  note b = chosen_bits_props [OF assms(1)]
  have "unat (word_of_nat (32 - chosen_bits cur stop) :: u8) = 32 - chosen_bits cur stop"
    by (simp add: unsigned_of_nat take_bit_nat_eq_self)
  with b(2) show size: "block_size c = 2 ^ chosen_bits cur stop"
    by (simp add: c_def block_size_def)
  show net: "unat (cidr_network c) = cur"
    using assms(1,2) by (simp add: c_def unsigned_of_nat take_bit_nat_eq_self)
  from b(3) obtain m where m: "cur = 2 ^ chosen_bits cur stop * m" by blast
  define k :: nat where "k = 2 ^ chosen_bits cur stop"
  have "0 < k" by (simp add: k_def)
  moreover have "cur = k * m" using m by (simp only: k_def)
  ultimately have "cur div k = m" by simp
  then have "unat ip div k = cur div k \<longleftrightarrow> cur \<le> unat ip \<and> unat ip < cur + k"
    using \<open>0 < k\<close> \<open>cur = k * m\<close> by (simp add: div_eq_block)
  then show "cidr_matches c ip \<longleftrightarrow> cur \<le> unat ip \<and> unat ip < cur + 2 ^ chosen_bits cur stop"
    unfolding cidr_matches_def size net by (simp add: k_def)
qed

lemma cidrs_from_matches:
  assumes "stop < 2 ^ 32"
  shows "length (filter (\<lambda>c. cidr_matches c ip) (cidrs_from cur stop))
    = (if cur \<le> unat ip \<and> unat ip \<le> stop then 1 else 0)"
proof (induction cur rule: cidrs_from_rule [where stop = stop])
  case (empty cur)
  then show ?case by (simp add: cidrs_from_Nil)
next
  case (block cur)
  note c = chosen_cidr(3) [OF block(1) assms, of ip]
  show ?case
    using block(2) chosen_bits_props(1) [OF block(1)]
    by (auto simp add: cidrs_from_Cons [OF block(1)] c simp del: length_0_conv split: if_splits)
qed

text \<open>Once the length of the rest limits the blocks, each block halves what is left.\<close>

lemma cidrs_from_tail_length:
  assumes "stop < 2 ^ 32" "2 ^ j dvd cur" "Suc stop \<le> cur + (2 ^ j - 1)"
  shows "length (cidrs_from cur stop) \<le> j"
  using assms(2,3)
proof (induction j arbitrary: cur)
  case 0
  then show ?case by (simp add: cidrs_from_Nil)
next
  case (Suc j)
  show ?case
  proof (cases "cur \<le> stop")
    case False
    then show ?thesis by (simp add: cidrs_from_Nil)
  next
    case True
    let ?b = "chosen_bits cur stop"
    note b = chosen_bits_props [OF True]
    have "(2 :: nat) ^ ?b < 2 ^ Suc j" using b(1) Suc.prems(2) True by linarith
    then have "?b < Suc j" by (rule power_less_imp_less_exp [rotated]) simp
    then have bj: "?b \<le> j" by simp
    have dvd: "2 ^ j dvd cur" using Suc.prems(1) by (meson dvd_trans le_imp_power_dvd lessI less_imp_le)
    show ?thesis
    proof (cases "?b = j")
      case eq: True
      have "2 ^ j dvd cur + 2 ^ j" using dvd by simp
      moreover have "Suc stop \<le> cur + 2 ^ j + (2 ^ j - 1)" using Suc.prems(2) by simp
      ultimately have "length (cidrs_from (cur + 2 ^ j) stop) \<le> j" by (rule Suc.IH)
      with True eq show ?thesis by (simp add: cidrs_from_Cons)
    next
      case False
      then have small: "?b < j" using bj by simp
      have "Suc stop < cur + 2 ^ Suc ?b \<or> ?b = 32 \<and> cur = 0"
        using b(1,5) small dvd_align [OF _ Suc.prems(1)] assms(1)
        by (cases "cur = 0") (auto simp: align_of_def)
      then have "Suc stop \<le> cur + (2 ^ j - 1)"
      proof
        assume "Suc stop < cur + 2 ^ Suc ?b"
        moreover have "(2 :: nat) ^ Suc ?b \<le> 2 ^ j" using small by (intro power_increasing) simp_all
        ultimately show ?thesis by linarith
      next
        assume z: "?b = 32 \<and> cur = 0"
        with small have "33 \<le> j" by linarith
        then have "(2 :: nat) ^ 33 \<le> 2 ^ j" by (intro power_increasing) simp_all
        with z assms(1) show ?thesis by simp
      qed
      from Suc.IH [OF dvd this] show ?thesis by simp
    qed
  qed
qed

text \<open>Before that, each block ends at a coarser alignment than it began.\<close>

lemma cidrs_from_length:
  assumes "stop < 2 ^ 32" "cur \<noteq> 0" "align_of cur \<le> 31"
  shows "length (cidrs_from cur stop) \<le> (31 - align_of cur) + 31"
  using assms(2,3)
proof (induction cur rule: cidrs_from_rule [where stop = stop])
  case (empty cur)
  then show ?case by (simp add: cidrs_from_Nil)
next
  case (block cur)
  let ?a = "align_of cur" and ?b = "chosen_bits cur stop"
  note b = chosen_bits_props [OF block(1)]
  have dvd: "2 ^ ?a dvd cur" using block.prems by (simp add: align_dvd)
  show ?case
  proof (cases "?b = ?a")
    case False
    then have "Suc stop < cur + 2 ^ Suc ?b" "?b < ?a" using b(4,5) block.prems by auto
    moreover have "(2 :: nat) ^ Suc ?b \<le> 2 ^ ?a" using \<open>?b < ?a\<close> by (intro power_increasing) simp_all
    ultimately have "Suc stop \<le> cur + (2 ^ ?a - 1)" by linarith
    from cidrs_from_tail_length [OF assms(1) dvd this] block.prems show ?thesis by simp
  next
    case True
    let ?next = "cur + 2 ^ ?a"
    have len: "length (cidrs_from cur stop) = Suc (length (cidrs_from ?next stop))"
      using block(1) True by (simp add: cidrs_from_Cons)
    show ?thesis
    proof (cases "?next \<le> stop")
      case False
      then have "length (cidrs_from ?next stop) = 0" by (simp add: cidrs_from_Nil)
      with len show ?thesis by simp
    next
      case next_le: True
      have "2 ^ Suc ?a dvd ?next"
      proof -
        obtain m where m: "cur = 2 ^ ?a * m" using dvd by blast
        have odd_a: "\<not> 2 ^ Suc ?a dvd cur" using dvd_align [OF block.prems(1), of "Suc ?a"] by auto
        have "odd m"
        proof
          assume "even m"
          then have "2 ^ ?a * 2 dvd 2 ^ ?a * m" by simp
          then have "2 ^ Suc ?a dvd cur" by (metis m power_Suc2)
          with odd_a show False ..
        qed
        then obtain i where "m = 2 * i + 1" by (elim oddE)
        then have "2 ^ ?a * m + 2 ^ ?a = 2 ^ Suc ?a * (i + 1)" by (simp add: algebra_simps)
        with m have "?next = 2 ^ Suc ?a * (i + 1)" by linarith
        then show ?thesis by (rule dvdI)
      qed
      then have more: "Suc ?a \<le> align_of ?next" by (intro dvd_align) simp_all
      have "align_of ?next \<le> 31"
      proof (rule ccontr)
        assume "\<not> align_of ?next \<le> 31"
        then have "2 ^ 32 dvd ?next" by (intro align_dvd) simp_all
        then have "(2 :: nat) ^ 32 \<le> ?next" by (rule dvd_imp_le) simp
        with next_le assms(1) show False by linarith
      qed
      with block(2) True have "length (cidrs_from ?next stop) \<le> 31 - align_of ?next + 31" by simp
      with len more \<open>align_of ?next \<le> 31\<close> show ?thesis by linarith
    qed
  qed
qed

lemma cidrs_length: "length (cidrs r) \<le> 62"
proof -
  let ?cur = "unat (ir_start r)" and ?stop = "unat (ir_end r)"
  have stop: "?stop < 2 ^ 32" using unat_u32_less [of "ir_end r"] by simp
  show ?thesis
  proof (cases "?cur = 0")
    case False
    have "align_of ?cur \<le> 31"
    proof (rule ccontr)
      assume "\<not> align_of ?cur \<le> 31"
      then have "2 ^ 32 dvd ?cur" by (intro align_dvd) simp_all
      then have "(2 :: nat) ^ 32 \<le> ?cur" by (rule dvd_imp_le) (use False in simp)
      with unat_u32_less [of "ir_start r"] show False by simp
    qed
    from cidrs_from_length [OF stop False this] show ?thesis by (simp add: cidrs_def)
  next
    case True
    have "length (cidrs_from 0 ?stop) \<le> 33"
      using stop by (intro cidrs_from_tail_length) simp_all
    with True show ?thesis by (simp add: cidrs_def)
  qed
qed

lemma cidrs_match: "(\<exists>c \<in> set (cidrs r). cidr_matches c ip) \<longleftrightarrow> range_contains r ip"
proof -
  have "(\<exists>c \<in> set (cidrs r). cidr_matches c ip) \<longleftrightarrow> length (filter (\<lambda>c. cidr_matches c ip) (cidrs r)) \<noteq> 0"
    by (auto simp: filter_empty_conv)
  also have "\<dots> \<longleftrightarrow> range_contains r ip"
    using cidrs_from_matches [of "unat (ir_end r)" ip "unat (ir_start r)"] unat_u32_less [of "ir_end r"]
    by (simp add: cidrs_def range_contains_def word_le_nat_alt del: length_0_conv)
  finally show ?thesis .
qed

lemma cidrs_prefix_len: "c \<in> set (cidrs r) \<Longrightarrow> unat (cidr_prefix_len c) \<le> 32"
proof -
  have "\<forall>c \<in> set (cidrs_from cur stop). unat (cidr_prefix_len c) \<le> 32" for cur stop
  proof (induction cur rule: cidrs_from_rule [where stop = stop])
    case (block cur)
    have "unat (word_of_nat (32 - chosen_bits cur stop) :: u8) = 32 - chosen_bits cur stop"
      by (simp add: unsigned_of_nat take_bit_nat_eq_self)
    with block show ?case by (simp add: cidrs_from_Cons)
  qed (simp add: cidrs_from_Nil)
  then show "c \<in> set (cidrs r) \<Longrightarrow> unat (cidr_prefix_len c) \<le> 32" by (simp add: cidrs_def)
qed

lemma cidr_span_block:
  assumes "cur \<le> stop" "stop < 2 ^ 32"
  defines "c \<equiv> \<lparr>cidr_prefix_len = word_of_nat (32 - chosen_bits cur stop), cidr_network = word_of_nat cur\<rparr>"
  shows "cidr_span c = (word_of_nat cur, word_of_nat (cur + 2 ^ chosen_bits cur stop - 1))"
proof -
  define b where "b = chosen_bits cur stop"
  have b: "b \<le> 32" "cur + 2 ^ b \<le> Suc stop"
    using chosen_bits_props(1,2) [OF assms(1)] by (simp_all add: b_def)
  have plen: "unat (word_of_nat (32 - b) :: u8) = 32 - b"
    by (simp add: unsigned_of_nat take_bit_nat_eq_self)
  have size: "(if (word_of_nat (32 - b) :: u8) = 0 then 2 ^ 32 else 2 ^ unat (32 - (word_of_nat (32 - b) :: u8)))
      = (2 ^ b :: u64)"
  proof (cases "b = 32")
    case True
    then show ?thesis by simp
  next
    case False
    then have "(word_of_nat (32 - b) :: u8) \<noteq> 0" using plen b(1) by (auto simp: unat_eq_zero)
    moreover have "unat (32 - (word_of_nat (32 - b) :: u8)) = b"
      using plen b(1) by (subst unat_sub) (simp_all add: word_le_nat_alt)
    ultimately show ?thesis by simp
  qed
  have start: "unat (ucast (word_of_nat cur :: u32) :: u64) = cur"
    using assms(1,2) by (simp add: unat_ops unsigned_of_nat take_bit_nat_eq_self)
  then have start': "(ucast (word_of_nat cur :: u32) :: u64) = word_of_nat cur"
    using assms(1,2) by (simp add: word_unat_eq_iff unsigned_of_nat take_bit_nat_eq_self)
  have narrow: "ucast (word_of_nat n :: u64) = (word_of_nat n :: u32)" if "n < 2 ^ 32" for n
    using that by (simp add: word_unat_eq_iff unat_ucast_u64_u32 unsigned_of_nat take_bit_nat_eq_self)
  have "1 \<le> cur + 2 ^ b" by (simp add: Suc_leI)
  then have "(word_of_nat cur + 2 ^ b - 1 :: u64) = word_of_nat (cur + 2 ^ b - 1)"
    by (subst of_nat_diff) simp_all
  then have "ucast (word_of_nat cur + 2 ^ b - 1 :: u64) = (word_of_nat (cur + 2 ^ b - 1) :: u32)"
    using assms(2) b(2) narrow [of "cur + 2 ^ b - 1"] by simp
  moreover have "ucast (word_of_nat cur :: u64) = (word_of_nat cur :: u32)"
    using assms(1,2) by (intro narrow) simp
  ultimately show ?thesis
    unfolding c_def cidr_span_def Let_def cidr.simps b_def [symmetric] size start' by simp
qed

text \<open>The addresses of a prefix, in ascending order.\<close>

definition span_addresses :: "cidr \<Rightarrow> nat list" where
  "span_addresses c = [unat (fst (cidr_span c)) ..< Suc (unat (snd (cidr_span c)))]"

lemma cidrs_from_spans:
  assumes "stop < 2 ^ 32"
  shows "concat (map span_addresses (cidrs_from cur stop)) = [cur ..< Suc stop]"
proof (induction cur rule: cidrs_from_rule [where stop = stop])
  case (empty cur)
  then show ?case by (simp add: cidrs_from_Nil)
next
  case (block cur)
  define n where "n = cur + 2 ^ chosen_bits cur stop"
  have n: "cur < n" "n \<le> Suc stop" using chosen_bits_props(1) [OF block(1)] by (simp_all add: n_def)
  have word: "unat (word_of_nat m :: u32) = m" if "m \<le> stop" for m
    using that assms by (simp add: unsigned_of_nat take_bit_nat_eq_self)
  have "unat (word_of_nat (n - 1) :: u32) = n - 1" "unat (word_of_nat cur :: u32) = cur"
    by (rule word, use n block(1) in simp)+
  then have "span_addresses \<lparr>cidr_prefix_len = word_of_nat (32 - chosen_bits cur stop), cidr_network = word_of_nat cur\<rparr>
      = [cur ..< n]"
    using cidr_span_block [OF block(1) assms] n(1) by (simp add: span_addresses_def n_def [symmetric])
  moreover have "[cur ..< Suc stop] = [cur ..< n] @ [n ..< Suc stop]"
    using n upt_add_eq_append [of cur n "Suc stop - n"] by simp
  ultimately show ?case using block(2) by (simp only: cidrs_from_Cons [OF block(1)] n_def list.map concat.simps)
qed

text \<open>C25: The prefixes loaded into the whitelist trie cover a range exactly: listed one after the other,
  their addresses are those of the range, each once and in ascending order; an address of the range
  matches exactly one of them, an address outside matches none; and there are never more than 62.\<close>

theorem cidrs_tile_range:
  "concat (map span_addresses (cidrs r)) = [unat (ir_start r) ..< Suc (unat (ir_end r))]
   \<and> length (filter (\<lambda>c. cidr_matches c ip) (cidrs r)) = (if range_contains r ip then 1 else 0)
   \<and> length (cidrs r) \<le> 62"
  using cidrs_from_spans [of "unat (ir_end r)" "unat (ir_start r)"] cidrs_length
    cidrs_from_matches [of "unat (ir_end r)" ip "unat (ir_start r)"] unat_u32_less [of "ir_end r"]
  by (simp add: cidrs_def range_contains_def word_le_nat_alt)

subsection \<open>Parsing and validation\<close>

record ip_range_entry =
  ire_name :: string
  ire_range :: string

datatype range_error =
    NotStartEnd string
  | ManyDashes string
  | BadAddress string string
  | ReversedRange string
  | NoRanges
  | EmptyName string
  | ReservedName
  | DuplicateName string
  | RangeOverlap ip_range ip_range

definition IPV6_RANGE_NAME :: string where "IPV6_RANGE_NAME = ''IPv6''"

definition parse_ip :: "string \<Rightarrow> u32 option" where
  "parse_ip raw = parse_ipv4 (trim raw)"

definition parse_range :: "string \<Rightarrow> range_error + (u32 \<times> u32)" where
  "parse_range raw =
     try_bind (ok_or (split_once CHR ''-'' raw) (NotStartEnd raw)) (\<lambda>(start_str, end_str).
     if CHR ''-'' \<in> set end_str then Inl (ManyDashes raw)
     else
       try_bind (ok_or (parse_ip start_str) (BadAddress raw start_str)) (\<lambda>start.
       try_bind (ok_or (parse_ip end_str) (BadAddress raw end_str)) (\<lambda>end.
       if end < start then Inl (ReversedRange raw) else Inr (start, end))))"

fun validate_entries ::
  "string list \<Rightarrow> 'a ip_range_entry_scheme list \<Rightarrow> range_error + ip_range list" where
  "validate_entries names [] = Inr []"
| "validate_entries names (entry # entries) =
     (if list_all is_whitespace (ire_name entry) then Inl (EmptyName (ire_range entry))
      else if ire_name entry = IPV6_RANGE_NAME then Inl ReservedName
      else if ire_name entry \<in> set names then Inl (DuplicateName (ire_name entry))
      else
        try_bind (parse_range (ire_range entry)) (\<lambda>(start, end).
        try_bind (validate_entries (ire_name entry # names) entries) (\<lambda>ranges.
        Inr (\<lparr>ir_name = ire_name entry, ir_start = start, ir_end = end\<rparr> # ranges))))"

fun check_overlap :: "ip_range list \<Rightarrow> range_error + unit" where
  "check_overlap (a # b # rs) =
     (if ir_start b \<le> ir_end a then Inl (RangeOverlap a b) else check_overlap (b # rs))"
| "check_overlap _ = Inr ()"

definition validate_ranges :: "'a ip_range_entry_scheme list \<Rightarrow> range_error + ip_range list" where
  "validate_ranges entries =
     (if entries = [] then Inl NoRanges
      else
        try_bind (validate_entries [] entries) (\<lambda>ranges.
        let order = sort_key (\<lambda>i. ir_start (ranges ! i)) [0..<length ranges]
        in try_bind (check_overlap (map (\<lambda>i. ranges ! i) order)) (\<lambda>_. Inr ranges)))"

definition show_range :: "ip_range \<Rightarrow> string" where
  "show_range r = show_ipv4 (ir_start r) @ ''-'' @ show_ipv4 (ir_end r)"

definition valid_range :: "ip_range \<Rightarrow> bool" where
  "valid_range r \<longleftrightarrow> ir_start r \<le> ir_end r"

definition disjoint_ranges :: "ip_range list \<Rightarrow> bool" where
  "disjoint_ranges rs \<longleftrightarrow>
     (\<forall>i < length rs. \<forall>j < length rs. i \<noteq> j \<longrightarrow>
        \<not> (\<exists>ip. range_contains (rs ! i) ip \<and> range_contains (rs ! j) ip))"

lemma parse_range_valid: "parse_range raw = Inr (s, e) \<Longrightarrow> s \<le> e"
  by (auto simp: parse_range_def try_bind_Inr_iff split: if_splits)

lemma validate_entries_Inr:
  "validate_entries names entries = Inr rs \<Longrightarrow>
     map ir_name rs = map ire_name entries \<and> list_all valid_range rs
     \<and> distinct (map ire_name entries) \<and> set (map ire_name entries) \<inter> set names = {}
     \<and> IPV6_RANGE_NAME \<notin> set (map ire_name entries)"
proof (induction names entries arbitrary: rs rule: validate_entries.induct)
  case (2 names entry entries)
  from 2(2) obtain s e rs' where r: "parse_range (ire_range entry) = Inr (s, e)"
      "validate_entries (ire_name entry # names) entries = Inr rs'"
      "rs = \<lparr>ir_name = ire_name entry, ir_start = s, ir_end = e\<rparr> # rs'"
    and n: "ire_name entry \<noteq> IPV6_RANGE_NAME" "ire_name entry \<notin> set names"
    by (auto simp: try_bind_Inr_iff split: if_splits)
  from 2(2) have "\<not> list_all is_whitespace (ire_name entry)" by (auto split: if_splits)
  from 2(1) [OF this n r(2)] have
    "map ir_name rs' = map ire_name entries \<and> list_all valid_range rs'
     \<and> distinct (map ire_name entries)
     \<and> set (map ire_name entries) \<inter> set (ire_name entry # names) = {}
     \<and> IPV6_RANGE_NAME \<notin> set (map ire_name entries)" .
  with r(3) n parse_range_valid [OF r(1)] show ?case
    by (simp add: valid_range_def [of "\<lparr>ir_name = n, ir_start = s, ir_end = e\<rparr>" for n])
qed simp

text \<open>Sorted by start, the adjacent check finds every overlap.\<close>

lemma check_overlap_sorted:
  assumes "sorted (map ir_start rs)" "list_all valid_range rs"
  shows "check_overlap rs = Inr () \<longleftrightarrow> sorted_wrt (\<lambda>a b. ir_end a < ir_start b) rs"
  using assms
proof (induction rs rule: check_overlap.induct)
  case (1 a b rs)
  show ?case
  proof (cases "ir_start b \<le> ir_end a")
    case True
    then show ?thesis by auto
  next
    case False
    have "\<forall>r \<in> set rs. ir_start b \<le> ir_start r" using 1(2) by auto
    with False have "\<forall>r \<in> set (b # rs). ir_end a < ir_start r" by auto
    with False 1 show ?thesis by auto
  qed
qed simp_all

lemma disjoint_pair:
  assumes "valid_range a" "valid_range b" "ir_start a \<le> ir_start b"
  shows "\<not> (\<exists>ip. range_contains a ip \<and> range_contains b ip) \<longleftrightarrow> ir_end a < ir_start b"
proof
  assume none: "\<not> (\<exists>ip. range_contains a ip \<and> range_contains b ip)"
  show "ir_end a < ir_start b"
  proof (rule ccontr)
    assume "\<not> ir_end a < ir_start b"
    then have "range_contains a (ir_start b) \<and> range_contains b (ir_start b)"
      using assms by (simp add: range_contains_def valid_range_def not_less)
    with none show False by blast
  qed
next
  assume "ir_end a < ir_start b"
  then show "\<not> (\<exists>ip. range_contains a ip \<and> range_contains b ip)"
    by (auto simp: range_contains_def)
qed

lemma sorted_disjoint:
  assumes "sorted (map ir_start rs)" "list_all valid_range rs"
  shows "sorted_wrt (\<lambda>a b. ir_end a < ir_start b) rs \<longleftrightarrow> disjoint_ranges rs"
proof -
  have pair: "ir_end (rs ! i) < ir_start (rs ! j) \<longleftrightarrow>
      \<not> (\<exists>ip. range_contains (rs ! i) ip \<and> range_contains (rs ! j) ip)"
    if "i < j" "j < length rs" for i j
  proof (rule disjoint_pair [symmetric])
    show "ir_start (rs ! i) \<le> ir_start (rs ! j)"
      using assms(1) that sorted_nth_mono [of "map ir_start rs" i j] by simp
  qed (use assms(2) that in \<open>auto simp: list_all_length\<close>)
  show ?thesis
  proof
    assume s: "sorted_wrt (\<lambda>a b. ir_end a < ir_start b) rs"
    show "disjoint_ranges rs" unfolding disjoint_ranges_def
    proof (intro allI impI)
      fix i j assume ij: "i < length rs" "j < length rs" "i \<noteq> j"
      then consider "i < j" | "j < i" by linarith
      then show "\<not> (\<exists>ip. range_contains (rs ! i) ip \<and> range_contains (rs ! j) ip)"
      proof cases
        case 1
        with pair ij s show ?thesis by (simp add: sorted_wrt_iff_nth_less)
      next
        case 2
        with pair [OF 2 ij(1)] ij s show ?thesis by (auto simp: sorted_wrt_iff_nth_less)
      qed
    qed
  next
    assume "disjoint_ranges rs"
    with pair show "sorted_wrt (\<lambda>a b. ir_end a < ir_start b) rs"
      by (auto simp: sorted_wrt_iff_nth_less disjoint_ranges_def)
  qed
qed

lemma disjoint_ranges_permute:
  assumes "distinct order" "set order = {..<length rs}" "disjoint_ranges (map (\<lambda>i. rs ! i) order)"
  shows "disjoint_ranges rs"
  unfolding disjoint_ranges_def
proof (intro allI impI)
  fix i j assume "i < length rs" "j < length rs" "i \<noteq> j"
  then have "i \<in> set order" "j \<in> set order" using assms(2) by auto
  then obtain k l where kl: "k < length order" "order ! k = i" "l < length order" "order ! l = j"
    by (auto simp: in_set_conv_nth)
  moreover have "k \<noteq> l" using kl \<open>i \<noteq> j\<close> by auto
  ultimately show "\<not> (\<exists>ip. range_contains (rs ! i) ip \<and> range_contains (rs ! j) ip)"
    using assms(3) [unfolded disjoint_ranges_def, rule_format, of k l] by simp
qed

lemma disjoint_ranges_permuted:
  assumes "distinct order" "set order = {..<length rs}" "disjoint_ranges rs"
  shows "disjoint_ranges (map (\<lambda>i. rs ! i) order)"
  unfolding disjoint_ranges_def
proof (intro allI impI)
  fix k l assume kl: "k < length (map (\<lambda>i. rs ! i) order)" "l < length (map (\<lambda>i. rs ! i) order)" "k \<noteq> l"
  then have "order ! k \<noteq> order ! l" using assms(1) by (simp add: nth_eq_iff_index_eq)
  moreover have "order ! k \<in> set order" "order ! l \<in> set order" using kl by simp_all
  then have "order ! k < length rs" "order ! l < length rs" using assms(2) by auto
  ultimately show "\<not> (\<exists>ip. range_contains (map (\<lambda>i. rs ! i) order ! k) ip
      \<and> range_contains (map (\<lambda>i. rs ! i) order ! l) ip)"
    using assms(3) kl by (auto simp: disjoint_ranges_def)
qed

lemma check_overlap_order:
  assumes "validate_entries names entries = Inr rs"
  shows "check_overlap (map (\<lambda>i. rs ! i) (sort_key (\<lambda>i. ir_start (rs ! i)) [0..<length rs])) = Inr ()
    \<longleftrightarrow> disjoint_ranges rs"
proof -
  define order where "order = sort_key (\<lambda>i. ir_start (rs ! i)) [0..<length rs]"
  let ?srt = "map (\<lambda>i. rs ! i) order"
  have ord: "set order = {..<length rs}" "distinct order" by (auto simp: order_def)
  have sorted: "sorted (map ir_start ?srt)"
    using sorted_sort_key [of "\<lambda>i. ir_start (rs ! i)" "[0..<length rs]"]
    by (simp add: order_def comp_def)
  have valid: "list_all valid_range ?srt"
    using validate_entries_Inr [OF assms] ord by (auto simp: list_all_iff)
  show ?thesis
    using check_overlap_sorted [OF sorted valid] sorted_disjoint [OF sorted valid]
      disjoint_ranges_permute [OF ord(2,1)] disjoint_ranges_permuted [OF ord(2,1)]
    unfolding order_def by blast
qed

text \<open>C26: Range validation accepts exactly the right configurations: when every entry is well
  formed by itself, the ranges are accepted as written, in their order, if no address lies in
  two of them, and rejected as overlapping otherwise; accepted ranges have distinct,
  unreserved names, and each starts no later than it ends.\<close>

theorem validate_ranges_iff_disjoint:
  assumes "validate_entries [] entries = Inr rs" "entries \<noteq> []"
  shows "(validate_ranges entries = Inr rs \<longleftrightarrow> disjoint_ranges rs)
    \<and> (validate_ranges entries \<noteq> Inr rs
       \<longleftrightarrow> (\<exists>a b. validate_ranges entries = Inl (RangeOverlap a b)))
    \<and> list_all valid_range rs \<and> distinct (map ir_name rs)
    \<and> IPV6_RANGE_NAME \<notin> set (map ir_name rs)"
proof -
  note ok = validate_entries_Inr [OF assms(1)]
  let ?srt = "map (\<lambda>i. rs ! i) (sort_key (\<lambda>i. ir_start (rs ! i)) [0..<length rs])"
  have v: "validate_ranges entries = try_bind (check_overlap ?srt) (\<lambda>_. Inr rs)"
    using assms by (simp add: validate_ranges_def Let_def)
  have err: "check_overlap xs = Inr () \<or> (\<exists>a b. check_overlap xs = Inl (RangeOverlap a b))" for xs
    by (induction xs rule: check_overlap.induct) auto
  show ?thesis using err [of ?srt] check_overlap_order [OF assms(1)] ok unfolding v by auto
qed

lemmas parser_defs = trim_def is_whitespace_def is_digit_def digit_val_def digits_val_def
  parse_octet_def parse_ipv4_def parse_ip_def parse_range_def

definition sample_entries :: "ip_range_entry list" where
  "sample_entries =
     [\<lparr>ire_name = ''b'', ire_range = ''10.0.0.8-10.0.0.9''\<rparr>,
      \<lparr>ire_name = ''a'', ire_range = ''10.0.0.1 - 10.0.0.8''\<rparr>]"

definition sample_ranges :: "ip_range list" where
  "sample_ranges =
     [\<lparr>ir_name = ''b'', ir_start = 167772168, ir_end = 167772169\<rparr>,
      \<lparr>ir_name = ''a'', ir_start = 167772161, ir_end = 167772168\<rparr>]"

lemma sample_entries_parse: "validate_entries [] sample_entries = Inr sample_ranges"
  by (simp add: sample_entries_def sample_ranges_def parser_defs IPV6_RANGE_NAME_def)

lemma validate_ranges_iff_disjoint_witness:
  "(\<exists>a b. validate_ranges sample_entries = Inl (RangeOverlap a b)) \<and> list_all valid_range sample_ranges"
proof -
  have "range_contains (sample_ranges ! 0) 167772168 \<and> range_contains (sample_ranges ! 1) 167772168"
    by (simp add: sample_ranges_def range_contains_def)
  then have "\<not> disjoint_ranges sample_ranges"
    unfolding disjoint_ranges_def
    by (intro notI) (drule spec [of _ 0], simp add: sample_ranges_def, blast)
  moreover have "sample_entries \<noteq> []" by (simp add: sample_entries_def)
  ultimately show ?thesis
    using validate_ranges_iff_disjoint [OF sample_entries_parse] by blast
qed

end
