(* ===== verification/Units.thy ===== *)
theory Units
  imports Strings
begin

section \<open>Units: config values with a unit suffix\<close>

text \<open>
  \<open>vm-bandwidth-core/src/units.rs\<close>: \<open>split_unit\<close>, \<open>nonzero\<close> and the parsers of rates,
  durations, byte sizes and percentages. Values are 64-bit words (a percentage is 8-bit);
  an error is a value of \<open>unit_error\<close>.
\<close>

datatype unit_error =
    EmptyValue | MissingNumber | NotWholeNumber | MissingUnit
  | UpperCaseB | UnknownUnit string | UnitOverflow | ZeroValue
  | NoPercentSign | PercentRange

definition split_unit :: "string \<Rightarrow> unit_error + (u64 \<times> string)" where
  "split_unit raw =
     (let trimmed = trim raw in
      if trimmed = [] then Inl EmptyValue
      else
        let number = takeWhile is_digit trimmed in
        if number = [] then Inl MissingNumber
        else
          try_bind (ok_or (parse_unsigned (2 ^ 64) number) NotWholeNumber) (\<lambda>num.
          let unit = map to_lower (trim (dropWhile is_digit trimmed))
          in if unit = [] then Inl MissingUnit else Inr (word_of_nat num, unit)))"

definition nonzero :: "u64 option \<Rightarrow> unit_error + u64" where
  "nonzero v = try_bind (ok_or v UnitOverflow) (\<lambda>v. if v = 0 then Inl ZeroValue else Inr v)"

definition rate_unit :: "string \<Rightarrow> u64 option" where
  "rate_unit unit =
     (if unit = ''bps'' \<or> unit = ''bit/s'' then Some 1
      else if unit = ''kbps'' \<or> unit = ''kbit/s'' then Some 1000
      else if unit = ''mbps'' \<or> unit = ''mbit/s'' then Some 1000000
      else if unit = ''gbps'' \<or> unit = ''gbit/s'' then Some 1000000000
      else None)"

definition trim_end :: "string \<Rightarrow> string" where
  "trim_end s = rev (dropWhile is_whitespace (rev s))"

definition ends_with :: "string \<Rightarrow> string \<Rightarrow> bool" where
  "ends_with s suf \<longleftrightarrow> length suf \<le> length s \<and> drop (length s - length suf) s = suf"

definition upper_case_b :: "string \<Rightarrow> string \<Rightarrow> bool" where
  "upper_case_b raw unit \<longleftrightarrow>
     ends_with unit ''bps''
     \<and> (let r = rev (trim_end raw) in 2 < length r \<and> r ! 2 = CHR ''B'')"

definition parse_rate_bps :: "string \<Rightarrow> unit_error + u64" where
  "parse_rate_bps raw =
     try_bind (split_unit raw) (\<lambda>(num, unit).
     if upper_case_b raw unit then Inl UpperCaseB
     else try_bind (ok_or (rate_unit unit) (UnknownUnit unit)) (\<lambda>mult.
          nonzero (checked_mul num mult)))"

definition duration_unit :: "string \<Rightarrow> u64 option" where
  "duration_unit unit =
     (if unit \<in> {''s'', ''sec'', ''secs''} then Some 1
      else if unit \<in> {''m'', ''min'', ''mins''} then Some 60
      else if unit \<in> {''h'', ''hr'', ''hour'', ''hours''} then Some 3600
      else None)"

definition parse_duration_secs :: "string \<Rightarrow> unit_error + u64" where
  "parse_duration_secs raw =
     try_bind (split_unit raw) (\<lambda>(num, unit).
     try_bind (ok_or (duration_unit unit) (UnknownUnit unit)) (\<lambda>mult.
     nonzero (checked_mul num mult)))"

definition byte_unit :: "string \<Rightarrow> u64 option" where
  "byte_unit unit =
     (if unit = ''b'' then Some 1
      else if unit = ''kb'' then Some 1000
      else if unit = ''mb'' then Some 1000000
      else if unit = ''gb'' then Some 1000000000
      else if unit = ''kib'' then Some 1024
      else if unit = ''mib'' then Some (1024 * 1024)
      else if unit = ''gib'' then Some (1024 * 1024 * 1024)
      else None)"

definition parse_bytes :: "string \<Rightarrow> unit_error + u64" where
  "parse_bytes raw =
     try_bind (split_unit raw) (\<lambda>(num, unit).
     try_bind (ok_or (byte_unit unit) (UnknownUnit unit)) (\<lambda>mult.
     nonzero (checked_mul num mult)))"

definition parse_percent :: "string \<Rightarrow> unit_error + u8" where
  "parse_percent raw =
     (let trimmed = trim raw in
      if trimmed = [] \<or> List.last trimmed \<noteq> CHR ''%'' then Inl NoPercentSign
      else
        try_bind (ok_or (parse_unsigned 256 (trim (butlast trimmed))) NotWholeNumber) (\<lambda>n.
        let value = word_of_nat n
        in if 1 \<le> value \<and> value \<le> 100 then Inr value else Inl PercentRange))"

subsection \<open>Exact scaling\<close>

lemma trim_tight:
  assumes "s \<noteq> []" "\<not> is_whitespace (hd s)" "\<not> is_whitespace (List.last s)"
  shows "trim s = s"
proof -
  have "dropWhile is_whitespace s = s" using assms(1,2) by (cases s) simp_all
  moreover have "dropWhile is_whitespace (rev s) = rev s"
    using assms(1,3) by (cases "rev s") (simp_all add: last_rev [symmetric])
  ultimately show ?thesis by (simp add: trim_def)
qed

lemma digit_not_whitespace: "is_digit c \<Longrightarrow> \<not> is_whitespace c"
  by (auto simp: is_digit_def is_whitespace_def Let_def)

lemma parse_unsigned_digits:
  "s \<noteq> [] \<Longrightarrow> list_all is_digit s \<Longrightarrow> digits_val s < bound \<Longrightarrow> parse_unsigned bound s = Some (digits_val s)"
  by (cases s) (auto simp: parse_unsigned_def is_digit_def)

definition plain_unit :: "string \<Rightarrow> bool" where
  "plain_unit u \<longleftrightarrow> u \<noteq> [] \<and> \<not> is_digit (hd u) \<and> \<not> is_whitespace (hd u)
     \<and> \<not> is_whitespace (List.last u)"

lemma split_unit_show:
  assumes "n < 2 ^ 64" "plain_unit u"
  shows "split_unit (show_nat n @ u) = Inr (word_of_nat n, map to_lower u)"
proof -
  note d = show_nat_digits [of n]
  have u: "u \<noteq> []" "\<not> is_digit (hd u)" using assms(2) by (simp_all add: plain_unit_def)
  have "\<not> is_whitespace (hd (show_nat n))"
    using d by (cases "show_nat n") (auto dest: digit_not_whitespace)
  then have t: "trim (show_nat n @ u) = show_nat n @ u"
    using d assms(2) by (intro trim_tight) (simp_all add: plain_unit_def)
  have split: "takeWhile is_digit (show_nat n @ u) = show_nat n"
    "dropWhile is_digit (show_nat n @ u) = u"
    using d u by (cases u; simp add: list_all_iff)+
  have "trim u = u" using assms(2) by (intro trim_tight) (simp_all add: plain_unit_def)
  then show ?thesis
    using d u assms(1) parse_unsigned_digits [of "show_nat n" "2 ^ 64"]
    by (simp add: split_unit_def t split Let_def)
qed

lemma nonzero_checked_mul:
  "nonzero (checked_mul (word_of_nat n) mult) =
     (if n * unat mult < 2 ^ 64 then if n * unat mult = 0 then Inl ZeroValue
      else Inr (word_of_nat (n * unat mult)) else Inl UnitOverflow)"
  if "n < 2 ^ 64" for mult :: u64
proof -
  have n: "unat (word_of_nat n :: u64) = n" using that by (simp add: unsigned_of_nat take_bit_nat_eq_self)
  have "word_of_nat n * mult = word_of_nat (n * unat mult)" by simp
  moreover have "(word_of_nat N :: u64) = 0 \<longleftrightarrow> N = 0" if "N < 2 ^ 64" for N
    using that by (simp add: word_unat_eq_iff unsigned_of_nat take_bit_nat_eq_self)
  ultimately show ?thesis using that by (simp add: nonzero_def checked_mul_def n del: of_nat_mult)
qed

text \<open>A whole number followed by a unit means that number of units, exactly: rates, durations
  and byte sizes of 64 bits parse to number times multiplier, whatever the case of the unit;
  a product beyond 64 bits is an error, never a wrapped value, and so are zero, an unknown
  unit, and an upper-case B in a rate.\<close>

theorem units_parse_exact:
  assumes "n < 2 ^ 64" "plain_unit u"
  shows "parse_duration_secs (show_nat n @ u) =
      (case duration_unit (map to_lower u) of None \<Rightarrow> Inl (UnknownUnit (map to_lower u))
       | Some m \<Rightarrow> if 2 ^ 64 \<le> n * unat m then Inl UnitOverflow
                  else if n * unat m = 0 then Inl ZeroValue else Inr (word_of_nat (n * unat m)))
    \<and> parse_bytes (show_nat n @ u) =
      (case byte_unit (map to_lower u) of None \<Rightarrow> Inl (UnknownUnit (map to_lower u))
       | Some m \<Rightarrow> if 2 ^ 64 \<le> n * unat m then Inl UnitOverflow
                  else if n * unat m = 0 then Inl ZeroValue else Inr (word_of_nat (n * unat m)))
    \<and> parse_rate_bps (show_nat n @ u) =
      (if upper_case_b (show_nat n @ u) (map to_lower u) then Inl UpperCaseB
       else case rate_unit (map to_lower u) of None \<Rightarrow> Inl (UnknownUnit (map to_lower u))
       | Some m \<Rightarrow> if 2 ^ 64 \<le> n * unat m then Inl UnitOverflow
                  else if n * unat m = 0 then Inl ZeroValue else Inr (word_of_nat (n * unat m)))"
  by (simp add: parse_duration_secs_def parse_bytes_def parse_rate_bps_def split_unit_show [OF assms]
      nonzero_checked_mul [OF assms(1)] split: option.split)

lemma units_parse_exact_witness:
  "parse_rate_bps ''20Mbps'' = Inr 20000000 \<and> parse_rate_bps ''20MBps'' = Inl UpperCaseB
   \<and> parse_bytes ''20MiB'' = Inr 20971520 \<and> parse_duration_secs ''20Min'' = Inr 1200"
proof -
  have s: "show_nat 20 = ''20''"
    by (simp add: show_nat.simps char_of_def bit_0)
  have plain: "plain_unit ''Mbps''" "plain_unit ''MBps''" "plain_unit ''MiB''" "plain_unit ''Min''"
    by (simp_all add: plain_unit_def is_digit_def is_whitespace_def)
  have n: "(20 :: nat) < 2 ^ 64" by simp
  have low: "map to_lower ''Mbps'' = ''mbps''" "map to_lower ''MBps'' = ''mbps''"
    "map to_lower ''MiB'' = ''mib''" "map to_lower ''Min'' = ''min''"
    by (simp_all add: to_lower_def char_of_def bit_0)
  have b: "\<not> upper_case_b ''20Mbps'' ''mbps''" "upper_case_b ''20MBps'' ''mbps''"
    by (simp_all add: upper_case_b_def ends_with_def trim_end_def is_whitespace_def)
  show ?thesis
    using units_parse_exact [OF n plain(1), unfolded s low] units_parse_exact [OF n plain(2), unfolded s low]
      units_parse_exact [OF n plain(3), unfolded s low] units_parse_exact [OF n plain(4), unfolded s low] b
    by (simp add: rate_unit_def byte_unit_def duration_unit_def)
qed

end
