(* ===== verification/Common.thy ===== *)
theory Common
  imports Prelude
begin

section \<open>Common: the types shared by the data path and userspace\<close>

text \<open>
  The crate \<open>vm-bandwidth-common\<close> (\<open>src/lib.rs\<close>). Each \<open>repr(C)\<close> struct is a record with
  the fields that carry information: the explicit padding is always zero and the
  \<open>bpf_spin_lock\<close> word is not read by any computation, so neither is kept (a critical
  section of the data path is one atomic step of the model). Field names carry a prefix
  because HOL record selectors share one name space.
\<close>

subsection \<open>Map keys and values\<close>

record traffic_key =
  tk_ifindex :: u32
  tk_ipv4 :: u32

record traffic_value =
  tv_rx_bytes :: u64
  tv_tx_bytes :: u64
  tv_rx_packets :: u64
  tv_tx_packets :: u64

definition traffic_value_default :: traffic_value where
  "traffic_value_default = \<lparr>tv_rx_bytes = 0, tv_tx_bytes = 0, tv_rx_packets = 0, tv_tx_packets = 0\<rparr>"

record policer_stats =
  ps_passed_bytes :: u64
  ps_passed_packets :: u64
  ps_dropped_bytes :: u64
  ps_dropped_packets :: u64

definition policer_stats_default :: policer_stats where
  "policer_stats_default =
     \<lparr>ps_passed_bytes = 0, ps_passed_packets = 0, ps_dropped_bytes = 0, ps_dropped_packets = 0\<rparr>"

definition MAX_POLICED_LEN :: u64 where "MAX_POLICED_LEN = 65535"

definition DIR_RX :: u8 where "DIR_RX = 0"
definition DIR_TX :: u8 where "DIR_TX = 1"

definition ALGO_TOKEN_BUCKET :: u32 where "ALGO_TOKEN_BUCKET = 0"
definition ALGO_LEAKY_BUCKET :: u32 where "ALGO_LEAKY_BUCKET = 1"
definition ALGO_FIXED_WINDOW :: u32 where "ALGO_FIXED_WINDOW = 2"
definition ALGO_SLIDING_WINDOW_COUNTER :: u32 where "ALGO_SLIDING_WINDOW_COUNTER = 3"
definition ALGO_SLIDING_WINDOW_LOG :: u32 where "ALGO_SLIDING_WINDOW_LOG = 4"
definition ALGO_GCRA :: u32 where "ALGO_GCRA = 5"

lemmas algo_defs =
  ALGO_TOKEN_BUCKET_def ALGO_LEAKY_BUCKET_def ALGO_FIXED_WINDOW_def
  ALGO_SLIDING_WINDOW_COUNTER_def ALGO_SLIDING_WINDOW_LOG_def ALGO_GCRA_def

lemmas dir_defs = DIR_RX_def DIR_TX_def

lemma dir_neq [simp]: "DIR_RX \<noteq> DIR_TX" "DIR_TX \<noteq> DIR_RX"
  by (simp_all add: dir_defs)

record limit_key =
  lk_ipv4 :: u32
  lk_direction :: u8

definition limit_key_new :: "u32 \<Rightarrow> u8 \<Rightarrow> limit_key" where
  "limit_key_new ipv4 direction = \<lparr>lk_ipv4 = ipv4, lk_direction = direction\<rparr>"

lemma limit_key_new_inj [simp]:
  "limit_key_new ip d = limit_key_new ip' d' \<longleftrightarrow> ip = ip' \<and> d = d'"
  by (simp add: limit_key_new_def)

record limit_policy =
  lp_enabled :: u8
  lp_algorithm :: u32
  lp_rate_bps :: u64
  lp_burst_bytes :: u64
  lp_window_ns :: u64

record limit_state =
  st_a :: u64
  st_b :: u64
  st_c :: u64

definition limit_state_default :: limit_state where
  "limit_state_default = \<lparr>st_a = 0, st_b = 0, st_c = 0\<rparr>"

definition SWL_LOG_CAP :: nat where "SWL_LOG_CAP = 1024"

record swl_entry =
  se_ts_ns :: u64
  se_len :: u32

definition swl_entry_default :: swl_entry where
  "swl_entry_default = \<lparr>se_ts_ns = 0, se_len = 0\<rparr>"

record swl_ring =
  sr_head :: u32
  sr_entries :: "swl_entry list"

definition swl_ring_default :: swl_ring where
  "swl_ring_default = \<lparr>sr_head = 0, sr_entries = replicate SWL_LOG_CAP swl_entry_default\<rparr>"

record oversized_stats =
  os_packets :: u64
  os_bytes :: u64

definition oversized_stats_default :: oversized_stats where
  "oversized_stats_default = \<lparr>os_packets = 0, os_bytes = 0\<rparr>"

subsection \<open>Carry of the sliding window counter\<close>

definition NS_PER_MS :: u64 where "NS_PER_MS = 1000000"

definition swc_carried_bytes :: "u64 \<Rightarrow> u64 \<Rightarrow> u64 \<Rightarrow> u64" where
  "swc_carried_bytes prev_bytes window_ns elapsed_ns =
     (let window_ms = window_ns div NS_PER_MS in
      if window_ms = 0 then 0
      else let remaining_ms = (window_ns - min elapsed_ns window_ns) div NS_PER_MS
           in (prev_bytes * remaining_ms) div window_ms)"

text \<open>The same function over the naturals, with no wrap-around.\<close>

definition carried_nat :: "nat \<Rightarrow> nat \<Rightarrow> nat \<Rightarrow> nat" where
  "carried_nat prev w el = prev * ((w - el) div 1000000) div (w div 1000000)"

lemma carried_nat_le: "carried_nat prev w el \<le> prev"
proof (cases "w div 1000000 = 0")
  case True
  then show ?thesis by (simp add: carried_nat_def)
next
  case False
  have "(w - el) div 1000000 \<le> w div 1000000" by (simp add: div_le_mono)
  then have "prev * ((w - el) div 1000000) div (w div 1000000)
      \<le> prev * (w div 1000000) div (w div 1000000)"
    by (intro div_le_mono mult_le_mono2) simp
  with False show ?thesis by (simp add: carried_nat_def)
qed

lemma carried_nat_antimono: "el \<le> el' \<Longrightarrow> carried_nat prev w el' \<le> carried_nat prev w el"
  by (auto simp: carried_nat_def intro!: div_le_mono mult_le_mono2)

lemma carried_nat_expired: "w \<le> el \<Longrightarrow> carried_nat prev w el = 0"
  by (simp add: carried_nat_def)

lemma unat_window_minus_min:
  "unat (w - min el w) = unat w - unat el" for w :: u64
  by (simp add: unat_sub word_le_nat_alt unat_ops)

lemma swc_carried_bytes_nat:
  assumes "unat prev * (unat w div 1000000) < 2 ^ 64"
  shows "unat (swc_carried_bytes prev w el) = carried_nat (unat prev) (unat w) (unat el)"
proof -
  have rem: "unat ((w - min el w) div NS_PER_MS) = (unat w - unat el) div 1000000"
    by (simp add: unat_div unat_window_minus_min NS_PER_MS_def)
  have "unat prev * ((unat w - unat el) div 1000000) \<le> unat prev * (unat w div 1000000)"
    by (intro mult_le_mono2 div_le_mono) simp
  from le_less_trans [OF this assms]
  have "unat prev * unat ((w - min el w) div NS_PER_MS) < 2 ^ LENGTH(64)"
    unfolding rem by simp
  then have "unat (prev * ((w - min el w) div NS_PER_MS))
      = unat prev * ((unat w - unat el) div 1000000)"
    by (simp only: unat_mult_small rem)
  moreover have "unat (w div NS_PER_MS) = unat w div 1000000"
    by (simp add: unat_div NS_PER_MS_def)
  moreover have "w div NS_PER_MS = 0 \<longleftrightarrow> unat w div 1000000 = 0"
    by (simp add: unat_eq_0 [symmetric] unat_div NS_PER_MS_def)
  ultimately show ?thesis
    by (simp add: swc_carried_bytes_def carried_nat_def Let_def unat_div)
qed

subsection \<open>The VLAN walk\<close>

definition ETHERTYPE_VLAN :: u16 where "ETHERTYPE_VLAN = 0x8100"
definition ETHERTYPE_QINQ :: u16 where "ETHERTYPE_QINQ = 0x88a8"
definition ETHERTYPE_IPV4 :: u16 where "ETHERTYPE_IPV4 = 0x0800"
definition ETHERTYPE_IPV6 :: u16 where "ETHERTYPE_IPV6 = 0x86dd"

lemmas ethertype_defs =
  ETHERTYPE_VLAN_def ETHERTYPE_QINQ_def ETHERTYPE_IPV4_def ETHERTYPE_IPV6_def

record vlan_hdr =
  vh_tci :: u16
  vh_ether_type :: u16

definition VLAN_HDR_LEN :: nat where "VLAN_HDR_LEN = 4"
definition MAX_VLAN_TAGS :: nat where "MAX_VLAN_TAGS = 2"

definition is_vlan_tag :: "u16 \<Rightarrow> bool" where
  "is_vlan_tag ether_type \<longleftrightarrow> ether_type = ETHERTYPE_VLAN \<or> ether_type = ETHERTYPE_QINQ"

definition vlan_walk :: "u16 \<Rightarrow> u16 \<Rightarrow> u16 \<Rightarrow> (nat \<times> u16) option" where
  "vlan_walk et0 et1 et2 =
     (if is_vlan_tag et0 then
        if is_vlan_tag et1 then
          if is_vlan_tag et2 then None else Some (2, et2)
        else Some (1, et1)
      else Some (0, et0))"

lemma not_vlan_ip [simp]: "\<not> is_vlan_tag ETHERTYPE_IPV4" "\<not> is_vlan_tag ETHERTYPE_IPV6"
  by (simp_all add: is_vlan_tag_def ethertype_defs)

text \<open>
  The specification of the walk: strip the longest prefix of tags off the sequence of
  EtherTypes; the result is the first EtherType that is no tag.
\<close>

definition strip_tags :: "u16 list \<Rightarrow> (nat \<times> u16) option" where
  "strip_tags ets =
     (case dropWhile is_vlan_tag ets of
        [] \<Rightarrow> None
      | et # _ \<Rightarrow> Some (length (takeWhile is_vlan_tag ets), et))"

lemma vlan_walk_strip_tags: "vlan_walk et0 et1 et2 = strip_tags [et0, et1, et2]"
  by (simp add: vlan_walk_def strip_tags_def)

lemma vlan_walk_Some:
  "vlan_walk et0 et1 et2 = Some (tags, et) \<Longrightarrow> tags \<le> MAX_VLAN_TAGS \<and> \<not> is_vlan_tag et"
  by (auto simp: vlan_walk_def MAX_VLAN_TAGS_def split: if_splits)

end
