(* ===== verification/Policy.thy ===== *)
theory Policy
  imports Common Strings
begin

section \<open>Policy: resolution of limit policies\<close>

text \<open>
  \<open>vm-bandwidth-core/src/policy.rs\<close>: the optional fields of a range or an override, their
  merge, and the resolution into one complete policy per direction. A resolution error
  carries the direction and the missing fields, or the unknown algorithm.
\<close>

subsection \<open>Fields and policies\<close>

record policy_fields =
  pf_rx_threshold_bps :: "u64 option"
  pf_tx_threshold_bps :: "u64 option"
  pf_rx_limit_bps :: "u64 option"
  pf_tx_limit_bps :: "u64 option"
  pf_window_secs :: "u64 option"
  pf_trigger_ratio_pct :: "u8 option"
  pf_limit_duration_secs :: "u64 option"
  pf_burst_bytes :: "u64 option"
  pf_algorithm :: "u32 option"
  pf_limit_window_secs :: "u64 option"

definition policy_fields_default :: policy_fields where
  "policy_fields_default =
     \<lparr>pf_rx_threshold_bps = None, pf_tx_threshold_bps = None, pf_rx_limit_bps = None,
      pf_tx_limit_bps = None, pf_window_secs = None, pf_trigger_ratio_pct = None,
      pf_limit_duration_secs = None, pf_burst_bytes = None, pf_algorithm = None,
      pf_limit_window_secs = None\<rparr>"

definition or_else :: "'a option \<Rightarrow> 'a option \<Rightarrow> 'a option" where
  "or_else a b = (case a of Some x \<Rightarrow> Some x | None \<Rightarrow> b)"

lemma or_else_simps [simp]:
  "or_else None b = b" "or_else (Some x) b = Some x" "or_else a None = a"
  by (simp_all add: or_else_def split: option.split)

lemma or_else_assoc: "or_else (or_else a b) c = or_else a (or_else b c)"
  by (cases a) simp_all

definition merged_with :: "policy_fields \<Rightarrow> policy_fields \<Rightarrow> policy_fields" where
  "merged_with self other =
     \<lparr>pf_rx_threshold_bps = or_else (pf_rx_threshold_bps other) (pf_rx_threshold_bps self),
      pf_tx_threshold_bps = or_else (pf_tx_threshold_bps other) (pf_tx_threshold_bps self),
      pf_rx_limit_bps = or_else (pf_rx_limit_bps other) (pf_rx_limit_bps self),
      pf_tx_limit_bps = or_else (pf_tx_limit_bps other) (pf_tx_limit_bps self),
      pf_window_secs = or_else (pf_window_secs other) (pf_window_secs self),
      pf_trigger_ratio_pct = or_else (pf_trigger_ratio_pct other) (pf_trigger_ratio_pct self),
      pf_limit_duration_secs = or_else (pf_limit_duration_secs other) (pf_limit_duration_secs self),
      pf_burst_bytes = or_else (pf_burst_bytes other) (pf_burst_bytes self),
      pf_algorithm = or_else (pf_algorithm other) (pf_algorithm self),
      pf_limit_window_secs = or_else (pf_limit_window_secs other) (pf_limit_window_secs self)\<rparr>"

definition is_bucket_algo :: "u32 \<Rightarrow> bool" where
  "is_bucket_algo a \<longleftrightarrow> a = ALGO_TOKEN_BUCKET \<or> a = ALGO_LEAKY_BUCKET \<or> a = ALGO_GCRA"

definition is_window_algo :: "u32 \<Rightarrow> bool" where
  "is_window_algo a \<longleftrightarrow>
     a = ALGO_FIXED_WINDOW \<or> a = ALGO_SLIDING_WINDOW_COUNTER \<or> a = ALGO_SLIDING_WINDOW_LOG"

record dir_policy =
  dpo_threshold_bps :: u64
  dpo_limit_bps :: u64
  dpo_window_secs :: u64
  dpo_trigger_ratio_pct :: u8
  dpo_limit_duration_secs :: u64
  dpo_burst_bytes :: u64
  dpo_algorithm :: u32
  dpo_limit_window_secs :: u64

definition max_admissible_frame_bytes :: "dir_policy \<Rightarrow> u64" where
  "max_admissible_frame_bytes p =
     (if is_window_algo (dpo_algorithm p)
      then sat_mul (dpo_limit_bps p div 8) (dpo_limit_window_secs p)
      else dpo_burst_bytes p)"

definition trigger_bps :: "dir_policy \<Rightarrow> u64" where
  "trigger_bps p = sat_mul (dpo_threshold_bps p) (ucast (dpo_trigger_ratio_pct p)) div 100"

record effective_policy =
  ep_rx :: "dir_policy option"
  ep_tx :: "dir_policy option"

definition effective_policy_default :: effective_policy where
  "effective_policy_default = \<lparr>ep_rx = None, ep_tx = None\<rparr>"

definition ep_is_empty :: "effective_policy \<Rightarrow> bool" where
  "ep_is_empty p \<longleftrightarrow> ep_rx p = None \<and> ep_tx p = None"

subsection \<open>Resolution\<close>

datatype field_name =
  FThreshold | FLimit | FWindow | FTriggerRatio | FLimitDuration | FBurst | FLimitWindow

datatype policy_error = UnknownAlgorithm u32 | Incomplete string "field_name list"

definition missing :: "(field_name \<times> bool) list \<Rightarrow> field_name list" where
  "missing fs = map fst (filter snd fs)"

definition build_dir ::
  "u64 option \<Rightarrow> u64 option \<Rightarrow> policy_fields \<Rightarrow> string \<Rightarrow> policy_error + dir_policy option" where
  "build_dir threshold limit merged dir =
     (if threshold = None \<and> limit = None then Inr None
      else
        let algorithm = unwrap_or ALGO_GCRA (pf_algorithm merged) in
        try_bind
          (if is_bucket_algo algorithm then Inr (FBurst, pf_burst_bytes merged \<noteq> None)
           else if is_window_algo algorithm then Inr (FLimitWindow, pf_limit_window_secs merged \<noteq> None)
           else Inl (UnknownAlgorithm algorithm))
          (\<lambda>(algorithm_field, present).
           case (threshold, limit, pf_window_secs merged, pf_trigger_ratio_pct merged,
                 pf_limit_duration_secs merged, present) of
             (Some threshold_bps, Some limit_bps, Some window_secs, Some trigger_ratio_pct,
              Some limit_duration_secs, True) \<Rightarrow>
               Inr (Some \<lparr>dpo_threshold_bps = threshold_bps, dpo_limit_bps = limit_bps,
                 dpo_window_secs = window_secs, dpo_trigger_ratio_pct = trigger_ratio_pct,
                 dpo_limit_duration_secs = limit_duration_secs,
                 dpo_burst_bytes = (if is_window_algo algorithm then 0
                                   else unwrap_or 0 (pf_burst_bytes merged)),
                 dpo_algorithm = algorithm,
                 dpo_limit_window_secs = (if is_window_algo algorithm
                   then unwrap_or 0 (pf_limit_window_secs merged) else 0)\<rparr>)
           | _ \<Rightarrow>
               Inl (Incomplete dir (missing
                 [(FThreshold, threshold = None), (FLimit, limit = None),
                  (FWindow, pf_window_secs merged = None),
                  (FTriggerRatio, pf_trigger_ratio_pct merged = None),
                  (FLimitDuration, pf_limit_duration_secs merged = None),
                  (algorithm_field, \<not> present)]))))"

definition resolve ::
  "policy_fields \<Rightarrow> policy_fields option \<Rightarrow> policy_error + effective_policy" where
  "resolve rng override_fields =
     (let merged = merged_with rng (case override_fields of None \<Rightarrow> policy_fields_default | Some f \<Rightarrow> f) in
      try_bind (build_dir (pf_rx_threshold_bps merged) (pf_rx_limit_bps merged) merged ''rx'') (\<lambda>rx.
      try_bind (build_dir (pf_tx_threshold_bps merged) (pf_tx_limit_bps merged) merged ''tx'') (\<lambda>tx.
      Inr \<lparr>ep_rx = rx, ep_tx = tx\<rparr>)))"

lemma algo_kinds: "\<not> (is_bucket_algo a \<and> is_window_algo a)"
  by (auto simp: is_bucket_algo_def is_window_algo_def algo_defs)

text \<open>A direction of a resolved policy: complete, of a known algorithm, and with exactly the
  fields its algorithm uses.\<close>

definition dir_complete :: "policy_fields \<Rightarrow> u64 option \<Rightarrow> u64 option \<Rightarrow> dir_policy \<Rightarrow> bool" where
  "dir_complete m threshold limit p \<longleftrightarrow>
     threshold = Some (dpo_threshold_bps p) \<and> limit = Some (dpo_limit_bps p)
     \<and> pf_window_secs m = Some (dpo_window_secs p)
     \<and> pf_trigger_ratio_pct m = Some (dpo_trigger_ratio_pct p)
     \<and> pf_limit_duration_secs m = Some (dpo_limit_duration_secs p)
     \<and> dpo_algorithm p = unwrap_or ALGO_GCRA (pf_algorithm m)
     \<and> (if is_bucket_algo (dpo_algorithm p)
        then pf_burst_bytes m = Some (dpo_burst_bytes p) \<and> dpo_limit_window_secs p = 0
        else is_window_algo (dpo_algorithm p)
          \<and> pf_limit_window_secs m = Some (dpo_limit_window_secs p) \<and> dpo_burst_bytes p = 0)"

lemma build_dir_Some:
  assumes "build_dir threshold limit m dir = Inr (Some p)"
  shows "dir_complete m threshold limit p"
proof -
  let ?alg = "unwrap_or ALGO_GCRA (pf_algorithm m)"
  obtain t l w r d where f: "threshold = Some t" "limit = Some l" "pf_window_secs m = Some w"
      "pf_trigger_ratio_pct m = Some r" "pf_limit_duration_secs m = Some d"
    using assms
    by (cases threshold; cases limit; cases "pf_window_secs m"; cases "pf_trigger_ratio_pct m";
        cases "pf_limit_duration_secs m")
      (auto simp: build_dir_def Let_def try_bind_Inr_iff split: if_splits)
  show ?thesis
  proof (cases "is_bucket_algo ?alg")
    case True
    then have "\<not> is_window_algo ?alg" using algo_kinds by blast
    with True f assms show ?thesis
      by (cases "pf_burst_bytes m")
        (auto simp: build_dir_def dir_complete_def Let_def)
  next
    case False
    then have "is_window_algo ?alg"
      using assms f by (auto simp: build_dir_def Let_def split: if_splits)
    with False f assms show ?thesis
      by (cases "pf_limit_window_secs m") (auto simp: build_dir_def dir_complete_def Let_def)
  qed
qed

lemma build_dir_complete:
  assumes "dir_complete m threshold limit p"
  shows "build_dir threshold limit m dir = Inr (Some p)"
proof (cases "is_bucket_algo (dpo_algorithm p)")
  case True
  then have "\<not> is_window_algo (dpo_algorithm p)" using algo_kinds by blast
  with True assms show ?thesis by (simp add: build_dir_def dir_complete_def Let_def)
next
  case False
  with assms show ?thesis by (auto simp: build_dir_def dir_complete_def Let_def)
qed

lemma build_dir_None:
  "build_dir threshold limit m dir = Inr None \<longleftrightarrow> threshold = None \<and> limit = None"
  by (cases threshold; cases limit)
    (auto simp: build_dir_def try_bind_Inr_iff Let_def split: option.splits if_splits bool.splits)

lemma build_dir_error:
  assumes "build_dir threshold limit m dir = Inl e"
  shows "(threshold \<noteq> None \<or> limit \<noteq> None)
    \<and> (\<nexists>p. dir_complete m threshold limit p)
    \<and> (case e of UnknownAlgorithm a \<Rightarrow> \<not> is_bucket_algo a \<and> \<not> is_window_algo a
       | Incomplete d fs \<Rightarrow> d = dir \<and> fs \<noteq> [])"
proof (intro conjI)
  show "threshold \<noteq> None \<or> limit \<noteq> None"
    using assms by (cases "threshold = None \<and> limit = None") (auto simp: build_dir_def)
  show "\<nexists>p. dir_complete m threshold limit p"
    using assms build_dir_complete [of m threshold limit _ dir] by auto
  show "case e of UnknownAlgorithm a \<Rightarrow> \<not> is_bucket_algo a \<and> \<not> is_window_algo a
       | Incomplete d fs \<Rightarrow> d = dir \<and> fs \<noteq> []"
  proof -
    let ?alg = "unwrap_or ALGO_GCRA (pf_algorithm m)"
    have cfg: "\<not> (threshold = None \<and> limit = None)"
      using assms by (intro notI) (simp add: build_dir_def)
    consider "is_bucket_algo ?alg" | "\<not> is_bucket_algo ?alg" "is_window_algo ?alg"
      | "\<not> is_bucket_algo ?alg" "\<not> is_window_algo ?alg" by blast
    then show ?thesis
    proof cases
      case 3
      with cfg assms have "e = UnknownAlgorithm ?alg" by (auto simp: build_dir_def Let_def)
      with 3 show ?thesis by simp
    qed (use cfg assms in \<open>auto simp: build_dir_def Let_def missing_def
        split: option.splits if_splits bool.splits\<close>)
  qed
qed

text \<open>Resolution is complete or refused: a resolved policy leaves a direction out exactly when
  the merged fields name neither its threshold nor its limit; otherwise the direction has
  every parameter its algorithm needs, taken from the override where it sets one and from
  the range elsewhere, and no parameter of another algorithm.\<close>

theorem resolve_complete:
  assumes "resolve rng ov = Inr eff"
    and "m = merged_with rng (case ov of None \<Rightarrow> policy_fields_default | Some f \<Rightarrow> f)"
  shows "(case ep_rx eff of
        None \<Rightarrow> pf_rx_threshold_bps m = None \<and> pf_rx_limit_bps m = None
      | Some p \<Rightarrow> dir_complete m (pf_rx_threshold_bps m) (pf_rx_limit_bps m) p)
    \<and> (case ep_tx eff of
        None \<Rightarrow> pf_tx_threshold_bps m = None \<and> pf_tx_limit_bps m = None
      | Some p \<Rightarrow> dir_complete m (pf_tx_threshold_bps m) (pf_tx_limit_bps m) p)"
  using assms
  by (auto simp: resolve_def try_bind_Inr_iff Let_def build_dir_None
      split: option.split dest: build_dir_Some)

definition sample_fields :: policy_fields where
  "sample_fields = policy_fields_default\<lparr>pf_rx_threshold_bps := Some 10000000,
     pf_rx_limit_bps := Some 5000000, pf_window_secs := Some 300, pf_trigger_ratio_pct := Some 80,
     pf_limit_duration_secs := Some 600, pf_burst_bytes := Some 65536\<rparr>"

definition sample_override :: policy_fields where
  "sample_override = policy_fields_default\<lparr>pf_algorithm := Some ALGO_FIXED_WINDOW,
     pf_limit_window_secs := Some 2\<rparr>"

lemma resolve_complete_witness:
  "\<exists>eff p. resolve sample_fields (Some sample_override) = Inr eff \<and> ep_rx eff = Some p \<and> ep_tx eff = None
     \<and> dir_complete (merged_with sample_fields sample_override) (Some 10000000) (Some 5000000) p
     \<and> dpo_burst_bytes p = 0"
proof -
  obtain eff p where r: "resolve sample_fields (Some sample_override) = Inr eff" "ep_rx eff = Some p"
    "ep_tx eff = None" "dpo_burst_bytes p = 0"
    by (simp add: resolve_def sample_fields_def sample_override_def merged_with_def
        policy_fields_default_def build_dir_def is_bucket_algo_def is_window_algo_def algo_defs Let_def)
  moreover have "pf_rx_threshold_bps (merged_with sample_fields sample_override) = Some 10000000"
    "pf_rx_limit_bps (merged_with sample_fields sample_override) = Some 5000000"
    by (simp_all add: sample_fields_def sample_override_def merged_with_def policy_fields_default_def)
  ultimately show ?thesis using resolve_complete [OF r(1) refl] by auto
qed

end
