(* ===== verification/Policers.thy ===== *)
theory Policers
  imports Common
begin

section \<open>Policers: the per-packet algorithms of the data path\<close>

text \<open>
  The state-machine half of \<open>vm-bandwidth-ebpf/src/main.rs\<close>: \<open>bucket_params\<close>,
  \<open>token_bucket\<close>, \<open>leaky_bucket\<close>, \<open>window_allowance\<close>, \<open>fixed_window\<close>,
  \<open>sliding_window_counter\<close> and \<open>gcra\<close>. Each takes the installed policy, the runtime
  state, the clock reading and the frame length, and returns the verdict (true to pass)
  with the new state. The arithmetic is on 64-bit words, wrapping where the code wraps.

  The clock reading is taken before the lock, so readings reach an algorithm in any order;
  no theorem about them assumes that they are monotone unless it says so. The second half
  of the theory runs an algorithm over a sequence of frames.
\<close>

subsection \<open>The algorithms\<close>

definition NS_PER_SEC :: u64 where "NS_PER_SEC = 1000000000"
definition BITS_PER_BYTE :: u64 where "BITS_PER_BYTE = 8"
definition NBYTES_PER_BYTE :: u64 where "NBYTES_PER_BYTE = 1000000000"

lemmas unit_defs = NS_PER_SEC_def BITS_PER_BYTE_def NBYTES_PER_BYTE_def

definition bucket_params :: "limit_policy \<Rightarrow> u64 \<times> u64" where
  "bucket_params p =
     (let capacity = lp_burst_bytes p * NBYTES_PER_BYTE;
          per_ns = lp_rate_bps p div BITS_PER_BYTE
      in (capacity, max per_ns 1))"

definition token_bucket :: "limit_policy \<Rightarrow> limit_state \<Rightarrow> u64 \<Rightarrow> u64 \<Rightarrow> bool \<times> limit_state" where
  "token_bucket p s now len_bytes =
     (let (capacity, per_ns) = bucket_params p;
          tokens =
            (if st_b s \<le> now then
               let elapsed = now - st_b s;
                   full_ns = capacity div per_ns
               in if full_ns \<le> elapsed then capacity
                  else let t = st_a s + elapsed * per_ns
                       in if capacity < t \<or> t < st_a s then capacity else t
             else st_a s);
          cost = len_bytes * NBYTES_PER_BYTE;
          conform = cost \<le> tokens;
          tokens = (if conform then tokens - cost else tokens)
      in (conform, s\<lparr>st_a := tokens, st_b := (if st_b s < now then now else st_b s)\<rparr>))"

definition leaky_bucket :: "limit_policy \<Rightarrow> limit_state \<Rightarrow> u64 \<Rightarrow> u64 \<Rightarrow> bool \<times> limit_state" where
  "leaky_bucket p s now len_bytes =
     (let (capacity, per_ns) = bucket_params p;
          level =
            (if st_b s \<le> now then
               let elapsed = now - st_b s;
                   full_ns = capacity div per_ns
               in if full_ns \<le> elapsed then 0
                  else let drained = elapsed * per_ns in sat_sub (st_a s) drained
             else st_a s);
          cost = len_bytes * NBYTES_PER_BYTE;
          conform = (cost \<le> capacity \<and> level \<le> capacity - cost);
          level = (if conform then level + cost else level)
      in (conform, s\<lparr>st_a := level, st_b := (if st_b s < now then now else st_b s)\<rparr>))"

definition window_allowance :: "limit_policy \<Rightarrow> u64" where
  "window_allowance p = (lp_rate_bps p div BITS_PER_BYTE) * (lp_window_ns p div NS_PER_SEC)"

definition fixed_window :: "limit_policy \<Rightarrow> limit_state \<Rightarrow> u64 \<Rightarrow> u64 \<Rightarrow> bool \<times> limit_state" where
  "fixed_window p s now len_bytes =
     (if lp_window_ns p = 0 then (True, s)
      else
        let s = (if st_b s = 0 \<or> st_b s + lp_window_ns p \<le> now
                 then s\<lparr>st_a := 0, st_b := now\<rparr> else s);
            conform = (sat_add (st_a s) len_bytes \<le> window_allowance p)
        in (conform, if conform then s\<lparr>st_a := st_a s + len_bytes\<rparr> else s))"

definition sliding_window_counter ::
  "limit_policy \<Rightarrow> limit_state \<Rightarrow> u64 \<Rightarrow> u64 \<Rightarrow> bool \<times> limit_state" where
  "sliding_window_counter p s now len_bytes =
     (let w = lp_window_ns p in
      if w = 0 then (True, s)
      else
        let s = (if st_c s = 0 then s\<lparr>st_c := now\<rparr>
                 else if st_c s + 2 * w \<le> now then s\<lparr>st_a := 0, st_b := 0, st_c := now\<rparr>
                 else if st_c s + w \<le> now
                   then s\<lparr>st_a := st_b s, st_b := 0, st_c := st_c s + w\<rparr>
                 else s);
            elapsed = min (sat_sub now (st_c s)) w;
            carried = swc_carried_bytes (st_a s) w elapsed;
            est_bytes = sat_add carried (st_b s);
            conform = (sat_add est_bytes len_bytes \<le> window_allowance p)
        in (conform, if conform then s\<lparr>st_b := st_b s + len_bytes\<rparr> else s))"

definition gcra :: "limit_policy \<Rightarrow> limit_state \<Rightarrow> u64 \<Rightarrow> u64 \<Rightarrow> bool \<times> limit_state" where
  "gcra p s now len_bytes =
     (let increment_ns = len_bytes * BITS_PER_BYTE * NS_PER_SEC div lp_rate_bps p;
          tolerance_ns = lp_burst_bytes p * BITS_PER_BYTE * NS_PER_SEC div lp_rate_bps p;
          base = (if st_a s < now then now else st_a s);
          candidate_tat = base + increment_ns;
          deadline = now + tolerance_ns;
          conform = (candidate_tat \<le> deadline)
      in (conform, if conform then s\<lparr>st_a := candidate_tat\<rparr> else s))"

subsection \<open>Running an algorithm over a sequence of frames\<close>

text \<open>
  The frames of one flow in the order in which their critical sections run, each with its
  clock reading and length.
\<close>

type_synonym frames = "(u64 \<times> u64) list"

fun verdicts :: "('s \<Rightarrow> u64 \<Rightarrow> u64 \<Rightarrow> bool \<times> 's) \<Rightarrow> frames \<Rightarrow> 's \<Rightarrow> bool list" where
  "verdicts step [] s = []"
| "verdicts step ((now, len) # fs) s =
     fst (step s now len) # verdicts step fs (snd (step s now len))"

fun final_state :: "('s \<Rightarrow> u64 \<Rightarrow> u64 \<Rightarrow> bool \<times> 's) \<Rightarrow> frames \<Rightarrow> 's \<Rightarrow> 's" where
  "final_state step [] s = s"
| "final_state step ((now, len) # fs) s = final_state step fs (snd (step s now len))"

definition admitted :: "('s \<Rightarrow> u64 \<Rightarrow> u64 \<Rightarrow> bool \<times> 's) \<Rightarrow> frames \<Rightarrow> 's \<Rightarrow> u64 list" where
  "admitted step fs s =
     map (\<lambda>(f, v). snd f) (filter snd (zip fs (verdicts step fs s)))"

definition admitted_bytes :: "('s \<Rightarrow> u64 \<Rightarrow> u64 \<Rightarrow> bool \<times> 's) \<Rightarrow> frames \<Rightarrow> 's \<Rightarrow> nat" where
  "admitted_bytes step fs s = sum_list (map unat (admitted step fs s))"

lemma length_verdicts [simp]: "length (verdicts step fs s) = length fs"
  by (induction step fs s rule: verdicts.induct) simp_all

lemma admitted_simps [simp]:
  "admitted step [] s = []"
  "admitted step ((now, len) # fs) s =
     (if fst (step s now len) then [len] else []) @ admitted step fs (snd (step s now len))"
  by (simp_all add: admitted_def)

lemma admitted_bytes_simps [simp]:
  "admitted_bytes step [] s = 0"
  "admitted_bytes step ((now, len) # fs) s =
     (if fst (step s now len) then unat len else 0)
     + admitted_bytes step fs (snd (step s now len))"
  by (simp_all add: admitted_bytes_def)

lemma set_admitted: "set (admitted step fs s) \<subseteq> snd ` set fs"
  by (induction step fs s rule: verdicts.induct) auto

lemma length_admitted_le: "length (admitted step fs s) \<le> length fs"
  by (induction step fs s rule: verdicts.induct) auto

end
