(* ===== verification/Policer_Arith.thy ===== *)
theory Policer_Arith
  imports Policers
begin

section \<open>Policer arithmetic: the word computations read over the naturals\<close>

text \<open>
  Within the bounds that config validation enforces (\<open>bounded_policy\<close>: rate between 100 Kbps
  and 1 Tbps, burst at most 1 GiB, whole-second windows of at most 60 s) and for frames of at
  most \<open>MAX_POLICED_LEN\<close> bytes, none of the wrapping operations of the data path wraps: each
  algorithm computes the function over the naturals that its comment describes. The lemmas
  \<open>token_bucket_nat\<close>, \<open>leaky_bucket_nat\<close>, \<open>fixed_window_nat\<close>,
  \<open>sliding_window_counter_nat\<close> and \<open>gcra_nat\<close> are those readings; everything proved about
  the algorithms rests on them.
\<close>

definition bounded_policy :: "limit_policy \<Rightarrow> bool" where
  "bounded_policy p \<longleftrightarrow>
     100000 \<le> unat (lp_rate_bps p) \<and> unat (lp_rate_bps p) \<le> 1000000000000
     \<and> unat (lp_burst_bytes p) \<le> 1073741824
     \<and> unat (lp_window_ns p) \<le> 60000000000 \<and> unat (lp_window_ns p) mod 1000000000 = 0"

definition capacity :: "limit_policy \<Rightarrow> nat" where
  "capacity p = unat (lp_burst_bytes p) * 1000000000"

definition byte_rate :: "limit_policy \<Rightarrow> nat" where
  "byte_rate p = unat (lp_rate_bps p) div 8"

lemma bounded_byte_rate:
  assumes "bounded_policy p"
  shows "12500 \<le> byte_rate p" "byte_rate p \<le> 125000000000"
proof -
  have "100000 div 8 \<le> unat (lp_rate_bps p) div 8" "unat (lp_rate_bps p) div 8 \<le> 1000000000000 div 8"
    using assms unfolding bounded_policy_def by (blast intro: div_le_mono)+
  then show "12500 \<le> byte_rate p" "byte_rate p \<le> 125000000000"
    by (simp_all add: byte_rate_def)
qed

lemma bounded_capacity: "bounded_policy p \<Longrightarrow> capacity p \<le> 1073741824000000000"
  by (simp add: bounded_policy_def capacity_def)

lemma unat_capacity:
  "bounded_policy p \<Longrightarrow> unat (lp_burst_bytes p * NBYTES_PER_BYTE) = capacity p"
  using bounded_capacity [of p]
  by (simp add: unat_mult_small NBYTES_PER_BYTE_def capacity_def)

lemma unat_per_ns:
  "bounded_policy p \<Longrightarrow> unat (max (lp_rate_bps p div BITS_PER_BYTE) 1) = byte_rate p"
  using bounded_byte_rate [of p]
  by (simp add: unat_ops unat_div BITS_PER_BYTE_def byte_rate_def)

lemma unat_cost:
  "unat len \<le> 65535 \<Longrightarrow> unat (len * NBYTES_PER_BYTE) = unat len * 1000000000" for len :: u64
  by (simp add: unat_mult_small NBYTES_PER_BYTE_def)

definition refilled :: "limit_policy \<Rightarrow> limit_state \<Rightarrow> u64 \<Rightarrow> nat" where
  "refilled p s now =
     (if unat (st_b s) \<le> unat now then
        if capacity p div byte_rate p \<le> unat now - unat (st_b s) then capacity p
        else min (capacity p) (unat (st_a s) + (unat now - unat (st_b s)) * byte_rate p)
      else unat (st_a s))"

lemma token_bucket_nat:
  assumes p: "bounded_policy p" and a: "unat (st_a s) \<le> capacity p" and len: "unat len \<le> 65535"
  shows "fst (token_bucket p s now len) \<longleftrightarrow> unat len * 1000000000 \<le> refilled p s now"
    and "unat (st_a (snd (token_bucket p s now len))) =
           (if fst (token_bucket p s now len) then refilled p s now - unat len * 1000000000
            else refilled p s now)"
    and "unat (st_b (snd (token_bucket p s now len))) = max (unat (st_b s)) (unat now)"
proof -
  define C where "C = lp_burst_bytes p * NBYTES_PER_BYTE"
  define R where "R = max (lp_rate_bps p div BITS_PER_BYTE) 1"
  define el where "el = now - st_b s"
  define t where "t = st_a s + el * R"
  define T where "T = (if st_b s \<le> now then if C div R \<le> el then C
     else if C < t \<or> t < st_a s then C else t else st_a s)"
  have C: "unat C = capacity p" and R: "unat R = byte_rate p"
    unfolding C_def R_def using p by (rule unat_capacity, rule unat_per_ns)
  have T: "unat T = refilled p s now"
  proof (cases "st_b s \<le> now \<and> \<not> C div R \<le> el")
    case False
    then show ?thesis
      by (auto simp: T_def refilled_def el_def unat_order unat_sub unat_div C R)
  next
    case True
    have el: "unat el = unat now - unat (st_b s)"
      using True by (simp add: el_def unat_sub)
    from True have "unat el < capacity p div byte_rate p"
      by (simp add: unat_order unat_div C R)
    then have "unat el * byte_rate p < capacity p"
      by (rule less_div_imp_mult_less)
    with bounded_capacity [OF p] a
    have m: "unat (el * R) = unat el * byte_rate p"
      by (subst unat_mult_small) (simp_all add: R)
    have t: "unat t = unat (st_a s) + unat el * byte_rate p"
      using \<open>unat el * byte_rate p < capacity p\<close> bounded_capacity [OF p] a
      unfolding t_def by (subst unat_add_small) (simp_all add: m)
    show ?thesis using True
      by (auto simp: T_def refilled_def unat_order unat_div C R t el min_def)
  qed
  have step: "token_bucket p s now len =
     (len * NBYTES_PER_BYTE \<le> T,
      s\<lparr>st_a := if len * NBYTES_PER_BYTE \<le> T then T - len * NBYTES_PER_BYTE else T,
        st_b := if st_b s < now then now else st_b s\<rparr>)"
    unfolding token_bucket_def bucket_params_def Let_def prod.case T_def t_def el_def C_def R_def
    by simp
  show "fst (token_bucket p s now len) \<longleftrightarrow> unat len * 1000000000 \<le> refilled p s now"
    by (simp add: step unat_order unat_cost len T)
  show "unat (st_a (snd (token_bucket p s now len))) =
           (if fst (token_bucket p s now len) then refilled p s now - unat len * 1000000000
            else refilled p s now)"
    by (simp add: step unat_sub unat_cost len T)
  show "unat (st_b (snd (token_bucket p s now len))) = max (unat (st_b s)) (unat now)"
    by (simp add: step unat_order max_def)
qed

definition drained :: "limit_policy \<Rightarrow> limit_state \<Rightarrow> u64 \<Rightarrow> nat" where
  "drained p s now =
     (if unat (st_b s) \<le> unat now then
        if capacity p div byte_rate p \<le> unat now - unat (st_b s) then 0
        else unat (st_a s) - (unat now - unat (st_b s)) * byte_rate p
      else unat (st_a s))"

lemma leaky_bucket_nat:
  assumes p: "bounded_policy p" and a: "unat (st_a s) \<le> capacity p" and len: "unat len \<le> 65535"
  shows "fst (leaky_bucket p s now len) \<longleftrightarrow> drained p s now + unat len * 1000000000 \<le> capacity p"
    and "unat (st_a (snd (leaky_bucket p s now len))) =
           (if fst (leaky_bucket p s now len) then drained p s now + unat len * 1000000000 else drained p s now)"
    and "unat (st_b (snd (leaky_bucket p s now len))) = max (unat (st_b s)) (unat now)"
proof -
  define C where "C = lp_burst_bytes p * NBYTES_PER_BYTE"
  define R where "R = max (lp_rate_bps p div BITS_PER_BYTE) 1"
  define K where "K = len * NBYTES_PER_BYTE"
  define el where "el = now - st_b s"
  define L where "L = (if st_b s \<le> now then if C div R \<le> el then 0
     else sat_sub (st_a s) (el * R) else st_a s)"
  have C: "unat C = capacity p" and R: "unat R = byte_rate p"
    unfolding C_def R_def using p by (rule unat_capacity, rule unat_per_ns)
  have K: "unat K = unat len * 1000000000"
    unfolding K_def using len by (rule unat_cost)
  have L: "unat L = drained p s now"
  proof (cases "st_b s \<le> now \<and> \<not> C div R \<le> el")
    case False
    then show ?thesis
      by (auto simp: L_def drained_def el_def unat_order unat_sub unat_div C R)
  next
    case True
    have el: "unat el = unat now - unat (st_b s)"
      using True by (simp add: el_def unat_sub)
    from True have "unat el < capacity p div byte_rate p"
      by (simp add: unat_order unat_div C R)
    then have "unat el * byte_rate p < capacity p"
      by (rule less_div_imp_mult_less)
    with bounded_capacity [OF p] have m: "unat (el * R) = unat el * byte_rate p"
      by (subst unat_mult_small) (simp_all add: R)
    show ?thesis using True
      by (auto simp: L_def drained_def unat_order unat_div unat_ops C R m el)
  qed
  have level: "drained p s now \<le> capacity p"
    using a by (auto simp: drained_def)
  have step: "leaky_bucket p s now len =
     (K \<le> C \<and> L \<le> C - K,
      s\<lparr>st_a := if K \<le> C \<and> L \<le> C - K then L + K else L,
        st_b := if st_b s < now then now else st_b s\<rparr>)"
    unfolding leaky_bucket_def bucket_params_def Let_def prod.case L_def el_def C_def R_def K_def
    by simp
  have conform: "K \<le> C \<and> L \<le> C - K \<longleftrightarrow> drained p s now + unat len * 1000000000 \<le> capacity p"
    using level by (auto simp: unat_order unat_sub C K L)
  show "fst (leaky_bucket p s now len) \<longleftrightarrow> drained p s now + unat len * 1000000000 \<le> capacity p"
    by (simp add: step conform)
  show "unat (st_a (snd (leaky_bucket p s now len))) =
           (if fst (leaky_bucket p s now len) then drained p s now + unat len * 1000000000 else drained p s now)"
    using bounded_capacity [OF p]
    by (simp add: step conform unat_add_small K L)
  show "unat (st_b (snd (leaky_bucket p s now len))) = max (unat (st_b s)) (unat now)"
    by (simp add: step unat_order max_def)
qed

lemma window_allowance_nat:
  assumes "bounded_policy p"
  shows "unat (window_allowance p) = byte_rate p * (unat (lp_window_ns p) div 1000000000)"
    and "unat (window_allowance p) \<le> 7500000000000"
proof -
  have w: "unat (lp_window_ns p) div 1000000000 \<le> 60000000000 div 1000000000"
    using assms by (intro div_le_mono) (simp add: bounded_policy_def)
  then have le: "byte_rate p * (unat (lp_window_ns p) div 1000000000) \<le> 125000000000 * 60"
    using bounded_byte_rate [OF assms] by (intro mult_le_mono) simp_all
  then show eq: "unat (window_allowance p) = byte_rate p * (unat (lp_window_ns p) div 1000000000)"
    unfolding window_allowance_def
    by (subst unat_mult_small) (simp_all add: unat_div unit_defs byte_rate_def)
  show "unat (window_allowance p) \<le> 7500000000000"
    using le by (simp add: eq)
qed

definition window_over :: "limit_policy \<Rightarrow> limit_state \<Rightarrow> u64 \<Rightarrow> bool" where
  "window_over p s now \<longleftrightarrow>
     st_b s = 0 \<or> unat (st_b s) + unat (lp_window_ns p) \<le> unat now"

definition window_used :: "limit_policy \<Rightarrow> limit_state \<Rightarrow> u64 \<Rightarrow> nat" where
  "window_used p s now = (if window_over p s now then 0 else unat (st_a s))"

lemma fixed_window_nat:
  assumes p: "bounded_policy p" and w: "lp_window_ns p \<noteq> 0"
    and b: "unat (st_b s) \<le> 2 ^ 63" and a: "unat (st_a s) \<le> unat (window_allowance p)"
    and len: "unat len \<le> 65535"
  shows "fst (fixed_window p s now len) \<longleftrightarrow> window_used p s now + unat len \<le> unat (window_allowance p)"
    and "unat (st_a (snd (fixed_window p s now len))) =
           (if fst (fixed_window p s now len) then window_used p s now + unat len else window_used p s now)"
    and "st_b (snd (fixed_window p s now len)) = (if window_over p s now then now else st_b s)"
proof -
  have "unat (lp_window_ns p) \<le> 60000000000"
    using p by (simp add: bounded_policy_def)
  then have "unat (st_b s + lp_window_ns p) = unat (st_b s) + unat (lp_window_ns p)"
    using b by (intro unat_add_small) simp
  then have fresh: "(st_b s = 0 \<or> st_b s + lp_window_ns p \<le> now) \<longleftrightarrow> window_over p s now"
    by (simp add: window_over_def unat_order)
  note A = window_allowance_nat(2) [OF p]
  have u: "unat (sat_add u len) = unat u + unat len" "unat (u + len) = unat u + unat len"
    if "unat u \<le> 7500000000000" for u :: u64
    using that len by (simp_all add: unat_ops unat_add_small)
  show "fst (fixed_window p s now len) \<longleftrightarrow> window_used p s now + unat len \<le> unat (window_allowance p)"
    and "unat (st_a (snd (fixed_window p s now len))) =
           (if fst (fixed_window p s now len) then window_used p s now + unat len else window_used p s now)"
    and "st_b (snd (fixed_window p s now len)) = (if window_over p s now then now else st_b s)"
    using w a A unfolding fixed_window_def fresh Let_def window_used_def
    by (auto simp: unat_order u)
qed

definition swc_rotated :: "limit_policy \<Rightarrow> limit_state \<Rightarrow> u64 \<Rightarrow> limit_state" where
  "swc_rotated p s now =
     (if st_c s = 0 then s\<lparr>st_c := now\<rparr>
      else if unat (st_c s) + 2 * unat (lp_window_ns p) \<le> unat now
        then s\<lparr>st_a := 0, st_b := 0, st_c := now\<rparr>
      else if unat (st_c s) + unat (lp_window_ns p) \<le> unat now
        then s\<lparr>st_a := st_b s, st_b := 0, st_c := st_c s + lp_window_ns p\<rparr>
      else s)"

definition swc_estimate :: "limit_policy \<Rightarrow> limit_state \<Rightarrow> u64 \<Rightarrow> nat" where
  "swc_estimate p s now =
     carried_nat (unat (st_a s)) (unat (lp_window_ns p)) (unat now - unat (st_c s))
     + unat (st_b s)"

lemma sliding_window_counter_nat:
  assumes p: "bounded_policy p" and w: "lp_window_ns p \<noteq> 0"
    and c: "unat (st_c s) \<le> 2 ^ 63"
    and a: "unat (st_a s) \<le> unat (window_allowance p)"
    and b: "unat (st_b s) \<le> unat (window_allowance p)"
    and len: "unat len \<le> 65535"
  shows "fst (sliding_window_counter p s now len) \<longleftrightarrow>
           swc_estimate p (swc_rotated p s now) now + unat len \<le> unat (window_allowance p)"
    and "snd (sliding_window_counter p s now len) =
           (let r = swc_rotated p s now in
            if fst (sliding_window_counter p s now len) then r\<lparr>st_b := st_b r + len\<rparr> else r)"
proof -
  let ?w = "lp_window_ns p"
  define r where "r = swc_rotated p s now"
  have W: "unat ?w \<le> 60000000000" using p by (simp add: bounded_policy_def)
  have c1: "unat (st_c s + ?w) = unat (st_c s) + unat ?w"
    using c W by (intro unat_add_small) simp
  have w2: "unat (2 * ?w) = 2 * unat ?w"
    using W by (subst unat_mult_small) simp_all
  have c2: "unat (st_c s + 2 * ?w) = unat (st_c s) + 2 * unat ?w"
    using c W by (subst unat_add_small) (simp_all add: w2)
  have rot: "(if st_c s = 0 then s\<lparr>st_c := now\<rparr>
      else if st_c s + 2 * ?w \<le> now then s\<lparr>st_a := 0, st_b := 0, st_c := now\<rparr>
      else if st_c s + ?w \<le> now then s\<lparr>st_a := st_b s, st_b := 0, st_c := st_c s + ?w\<rparr>
      else s) = r"
    unfolding r_def swc_rotated_def word_le_nat_alt c1 c2 ..
  note A = window_allowance_nat(2) [OF p]
  have ra: "unat (st_a r) \<le> 7500000000000" and rb: "unat (st_b r) \<le> 7500000000000"
    using a b A by (auto simp: r_def swc_rotated_def)
  have "unat ?w div 1000000 \<le> 60000000000 div 1000000" using W by (rule div_le_mono)
  then have "unat (st_a r) * (unat ?w div 1000000) \<le> 7500000000000 * 60000"
    using ra by (intro mult_le_mono) simp_all
  then have carried: "unat (swc_carried_bytes (st_a r) ?w (min (sat_sub now (st_c r)) ?w))
      = carried_nat (unat (st_a r)) (unat ?w) (unat now - unat (st_c r))"
    by (subst swc_carried_bytes_nat) (simp_all add: unat_ops carried_nat_def diff_min_right)
  have est: "unat (sat_add (sat_add (swc_carried_bytes (st_a r) ?w
        (min (sat_sub now (st_c r)) ?w)) (st_b r)) len) = swc_estimate p r now + unat len"
    using carried_nat_le [of "unat (st_a r)" "unat ?w" "unat now - unat (st_c r)"] ra rb len
    by (simp add: unat_ops carried swc_estimate_def)
  have step: "sliding_window_counter p s now len =
     (swc_estimate p r now + unat len \<le> unat (window_allowance p),
      if swc_estimate p r now + unat len \<le> unat (window_allowance p)
      then r\<lparr>st_b := st_b r + len\<rparr> else r)"
    using w unfolding sliding_window_counter_def Let_def rot
    unfolding word_le_nat_alt est by simp
  show "fst (sliding_window_counter p s now len) \<longleftrightarrow>
      swc_estimate p (swc_rotated p s now) now + unat len \<le> unat (window_allowance p)"
    by (simp add: step r_def)
  show "snd (sliding_window_counter p s now len) =
      (let r = swc_rotated p s now in
       if fst (sliding_window_counter p s now len) then r\<lparr>st_b := st_b r + len\<rparr> else r)"
    by (simp add: step r_def Let_def)
qed

definition gcra_increment :: "limit_policy \<Rightarrow> u64 \<Rightarrow> nat" where
  "gcra_increment p len = unat len * 8000000000 div unat (lp_rate_bps p)"

definition gcra_tolerance :: "limit_policy \<Rightarrow> nat" where
  "gcra_tolerance p = unat (lp_burst_bytes p) * 8000000000 div unat (lp_rate_bps p)"

lemma gcra_tolerance_le: "bounded_policy p \<Longrightarrow> gcra_tolerance p \<le> 85899345920000"
proof -
  assume p: "bounded_policy p"
  have "gcra_tolerance p \<le> 1073741824 * 8000000000 div unat (lp_rate_bps p)"
    using p unfolding gcra_tolerance_def bounded_policy_def by (intro div_le_mono mult_le_mono1) simp
  also have "\<dots> \<le> 1073741824 * 8000000000 div 100000"
    using p by (intro div_le_mono2) (simp_all add: bounded_policy_def)
  finally show ?thesis by simp
qed

lemma gcra_increment_le:
  assumes "bounded_policy p" "unat len \<le> 65535"
  shows "gcra_increment p len \<le> 5242800000"
proof -
  have "gcra_increment p len \<le> 65535 * 8000000000 div unat (lp_rate_bps p)"
    using assms unfolding gcra_increment_def bounded_policy_def
    by (intro div_le_mono mult_le_mono1) simp
  also have "\<dots> \<le> 65535 * 8000000000 div 100000"
    using assms by (intro div_le_mono2) (simp_all add: bounded_policy_def)
  finally show ?thesis by simp
qed

lemma gcra_nat:
  assumes p: "bounded_policy p" and now: "unat now \<le> 2 ^ 63"
    and a: "unat (st_a s) \<le> 2 ^ 63 + gcra_tolerance p" and len: "unat len \<le> 65535"
  shows "fst (gcra p s now len) \<longleftrightarrow>
           max (unat now) (unat (st_a s)) + gcra_increment p len \<le> unat now + gcra_tolerance p"
    and "unat (st_a (snd (gcra p s now len))) =
           (if fst (gcra p s now len) then max (unat now) (unat (st_a s)) + gcra_increment p len
            else unat (st_a s))"
proof -
  let ?inc = "len * BITS_PER_BYTE * NS_PER_SEC div lp_rate_bps p"
  let ?tol = "lp_burst_bytes p * BITS_PER_BYTE * NS_PER_SEC div lp_rate_bps p"
  let ?base = "if st_a s < now then now else st_a s"
  have "unat (len * BITS_PER_BYTE) = unat len * 8"
    using len by (subst unat_mult_small) (simp_all add: unit_defs)
  then have "unat (len * BITS_PER_BYTE * NS_PER_SEC) = unat len * 8000000000"
    using len by (subst unat_mult_small) (simp_all add: unit_defs)
  then have inc: "unat ?inc = gcra_increment p len"
    by (simp add: unat_div gcra_increment_def)
  have "unat (lp_burst_bytes p) \<le> 1073741824" using p by (simp add: bounded_policy_def)
  moreover from this have "unat (lp_burst_bytes p * BITS_PER_BYTE) = unat (lp_burst_bytes p) * 8"
    by (subst unat_mult_small) (simp_all add: unit_defs)
  ultimately have "unat (lp_burst_bytes p * BITS_PER_BYTE * NS_PER_SEC)
      = unat (lp_burst_bytes p) * 8000000000"
    by (subst unat_mult_small) (simp_all add: unit_defs)
  then have tol: "unat ?tol = gcra_tolerance p"
    by (simp add: unat_div gcra_tolerance_def)
  have base: "unat ?base = max (unat now) (unat (st_a s))"
    by (simp add: unat_order max_def)
  note b = gcra_tolerance_le [OF p] gcra_increment_le [OF p len]
  have tat: "unat (?base + ?inc) = max (unat now) (unat (st_a s)) + gcra_increment p len"
    using now a b by (subst unat_add_small) (simp_all add: base inc del: if_split)
  have dl: "unat (now + ?tol) = unat now + gcra_tolerance p"
    using now b by (subst unat_add_small) (simp_all add: tol)
  show "fst (gcra p s now len) \<longleftrightarrow>
      max (unat now) (unat (st_a s)) + gcra_increment p len \<le> unat now + gcra_tolerance p"
    unfolding gcra_def Let_def fst_conv word_le_nat_alt tat dl ..
  then show "unat (st_a (snd (gcra p s now len))) =
      (if fst (gcra p s now len) then max (unat now) (unat (st_a s)) + gcra_increment p len
       else unat (st_a s))"
    unfolding gcra_def Let_def fst_conv snd_conv word_le_nat_alt tat dl
    by (simp add: tat del: if_split)
qed

end
