(* ===== verification/Config.thy ===== *)
theory Config
  imports Ip_Range Units Policy Policer_Arith
begin

section \<open>Config: validation of the configuration\<close>

text \<open>
  \<open>vm-bandwidth-core/src/config.rs\<close> from the deserialized document on: \<open>into_fields\<close>,
  \<open>parse_algorithm\<close>, \<open>check_policy_bounds\<close>, \<open>validate_metrics_url\<close>, \<open>safe_endpoint_display\<close>,
  \<open>check_swl_enabled\<close>, \<open>parse\<close> and \<open>small_burst_warnings\<close>. The TOML deserializer and the
  URL parser are parameters (\<open>from_toml\<close>, \<open>url_parse\<close>). A hash map of overrides is a partial
  function; the loop over it takes the iteration order from the parameter \<open>keys\<close>.
\<close>

subsection \<open>The document\<close>

datatype sort_mode = SortIp | SortRx | SortTx | SortTotal

fun sort_next :: "sort_mode \<Rightarrow> sort_mode" where
  "sort_next SortIp = SortRx"
| "sort_next SortRx = SortTx"
| "sort_next SortTx = SortTotal"
| "sort_next SortTotal = SortIp"

fun sort_label :: "sort_mode \<Rightarrow> string" where
  "sort_label SortIp = ''IP''"
| "sort_label SortRx = ''RX''"
| "sort_label SortTx = ''TX''"
| "sort_label SortTotal = ''RX+TX''"

record policy_entry =
  pe_rx_threshold :: "string option"
  pe_tx_threshold :: "string option"
  pe_rx_limit :: "string option"
  pe_tx_limit :: "string option"
  pe_window :: "string option"
  pe_trigger_ratio :: "string option"
  pe_limit_duration :: "string option"
  pe_burst :: "string option"
  pe_algorithm :: "string option"
  pe_limit_window :: "string option"

definition policy_entry_empty :: policy_entry where
  "policy_entry_empty = \<lparr>pe_rx_threshold = None, pe_tx_threshold = None, pe_rx_limit = None,
     pe_tx_limit = None, pe_window = None, pe_trigger_ratio = None, pe_limit_duration = None,
     pe_burst = None, pe_algorithm = None, pe_limit_window = None\<rparr>"

definition pe_is_empty :: "policy_entry \<Rightarrow> bool" where
  "pe_is_empty e \<longleftrightarrow> e = policy_entry_empty"

record override_entry =
  oe_ip :: string
  oe_policy :: policy_entry

record range_entry = ip_range_entry +
  ire_policy :: "policy_entry option"
  ire_overrides :: "override_entry list"

record config =
  cfg_bridge :: string
  cfg_refresh_interval_ms :: u64
  cfg_scan_interval_secs :: u64
  cfg_map_max_entries :: u32
  cfg_swl_map_max_entries :: u32
  cfg_show_interface :: bool
  cfg_show_packets :: bool
  cfg_show_idle_ips :: bool
  cfg_default_sort :: string
  cfg_metrics_enabled :: bool
  cfg_metrics_url :: string
  cfg_allow_insecure_http :: bool
  cfg_push_interval_secs :: u64
  cfg_enable_swl :: bool
  cfg_ip_ranges :: "range_entry list"

text \<open>The document that names a bridge and ranges only: every other key has its default.\<close>

definition config_default :: "string \<Rightarrow> range_entry list \<Rightarrow> config" where
  "config_default bridge ip_ranges =
     \<lparr>cfg_bridge = bridge, cfg_refresh_interval_ms = 1000, cfg_scan_interval_secs = 5,
      cfg_map_max_entries = 8192, cfg_swl_map_max_entries = 256, cfg_show_interface = False,
      cfg_show_packets = False, cfg_show_idle_ips = False, cfg_default_sort = ''ip'',
      cfg_metrics_enabled = False, cfg_metrics_url = ''http://127.0.0.1:8428'',
      cfg_allow_insecure_http = False, cfg_push_interval_secs = 60, cfg_enable_swl = False,
      cfg_ip_ranges = ip_ranges\<rparr>"

record validated_range =
  vr_inner :: ip_range
  vr_policy :: policy_fields
  vr_overrides :: "u32 \<rightharpoonup> policy_fields"

record validated_config =
  vc_bridge :: string
  vc_refresh_interval_ms :: u64
  vc_scan_interval_secs :: u64
  vc_map_max_entries :: u32
  vc_swl_map_max_entries :: u32
  vc_show_interface :: bool
  vc_show_packets :: bool
  vc_show_idle_ips :: bool
  vc_default_sort :: sort_mode
  vc_metrics_enabled :: bool
  vc_metrics_url :: string
  vc_metrics_push_interval_secs :: u64
  vc_ranges :: "validated_range list"

datatype config_error =
    InvalidToml string
  | EmptyBridge
  | BadRefreshInterval u64
  | BadScanInterval u64
  | ZeroMapEntries
  | ZeroSwlEntries
  | TooManySwlEntries
  | BadSort string
  | BadUrl string
  | UrlWithoutHost
  | RemoteHttp string
  | BadUrlScheme string
  | BadPushInterval u64
  | RangeError range_error
  | UnitError string unit_error string
  | UnknownAlgorithmName string string
  | RateOutOfBounds string string
  | BurstTooLarge string
  | LimitWindowOutOfBounds string
  | PolicyError string policy_error
  | SwlDisabled string
  | BadOverrideIp string string
  | OverrideOutsideRange string u32
  | EmptyOverride string string
  | DuplicateOverride string string

subsection \<open>Policies\<close>

definition parse_opt :: "(string \<Rightarrow> 'e + 'a) \<Rightarrow> string option \<Rightarrow> 'e + 'a option" where
  "parse_opt f v = (case v of None \<Rightarrow> Inr None | Some s \<Rightarrow> try_bind (f s) (\<lambda>x. Inr (Some x)))"

definition parse_algorithm :: "string \<Rightarrow> string \<Rightarrow> config_error + u32" where
  "parse_algorithm scope s =
     (if s = ''token_bucket'' then Inr ALGO_TOKEN_BUCKET
      else if s = ''leaky_bucket'' then Inr ALGO_LEAKY_BUCKET
      else if s = ''fixed_window'' then Inr ALGO_FIXED_WINDOW
      else if s = ''sliding_window_counter'' then Inr ALGO_SLIDING_WINDOW_COUNTER
      else if s = ''sliding_window_log'' then Inr ALGO_SLIDING_WINDOW_LOG
      else if s = ''gcra'' then Inr ALGO_GCRA
      else Inl (UnknownAlgorithmName scope s))"

definition into_fields :: "string \<Rightarrow> policy_entry \<Rightarrow> config_error + policy_fields" where
  "into_fields scope e =
     (let rate = (\<lambda>v name. map_err (\<lambda>err. UnitError scope err name) (parse_opt parse_rate_bps v));
          dur = (\<lambda>v name. map_err (\<lambda>err. UnitError scope err name) (parse_opt parse_duration_secs v))
      in
       try_bind (rate (pe_rx_threshold e) ''rx_threshold'') (\<lambda>rx_threshold.
       try_bind (rate (pe_tx_threshold e) ''tx_threshold'') (\<lambda>tx_threshold.
       try_bind (rate (pe_rx_limit e) ''rx_limit'') (\<lambda>rx_limit.
       try_bind (rate (pe_tx_limit e) ''tx_limit'') (\<lambda>tx_limit.
       try_bind (dur (pe_window e) ''window'') (\<lambda>window.
       try_bind (map_err (\<lambda>err. UnitError scope err ''trigger_ratio'')
                   (parse_opt parse_percent (pe_trigger_ratio e))) (\<lambda>trigger_ratio.
       try_bind (dur (pe_limit_duration e) ''limit_duration'') (\<lambda>limit_duration.
       try_bind (map_err (\<lambda>err. UnitError scope err ''burst'')
                   (parse_opt parse_bytes (pe_burst e))) (\<lambda>burst.
       try_bind (parse_opt (parse_algorithm scope) (pe_algorithm e)) (\<lambda>algorithm.
       try_bind (dur (pe_limit_window e) ''limit_window'') (\<lambda>limit_window.
       Inr \<lparr>pf_rx_threshold_bps = rx_threshold, pf_tx_threshold_bps = tx_threshold,
            pf_rx_limit_bps = rx_limit, pf_tx_limit_bps = tx_limit, pf_window_secs = window,
            pf_trigger_ratio_pct = trigger_ratio, pf_limit_duration_secs = limit_duration,
            pf_burst_bytes = burst, pf_algorithm = algorithm, pf_limit_window_secs = limit_window\<rparr>)))))))))))"

definition MIN_RATE_BPS :: u64 where "MIN_RATE_BPS = 100000"
definition MAX_RATE_BPS :: u64 where "MAX_RATE_BPS = 1000000000000"
definition MAX_BURST_BYTES :: u64 where "MAX_BURST_BYTES = 1024 * 1024 * 1024"
definition MIN_LIMIT_WINDOW_SECS :: u64 where "MIN_LIMIT_WINDOW_SECS = 1"
definition MAX_LIMIT_WINDOW_SECS :: u64 where "MAX_LIMIT_WINDOW_SECS = 60"
definition MAX_SWL_MAP_ENTRIES :: u32 where "MAX_SWL_MAP_ENTRIES = 65536"
definition MAX_COLLECTOR_INTERVAL_SECS :: u64 where "MAX_COLLECTOR_INTERVAL_SECS = 3600"

lemmas config_consts = MIN_RATE_BPS_def MAX_RATE_BPS_def MAX_BURST_BYTES_def
  MIN_LIMIT_WINDOW_SECS_def MAX_LIMIT_WINDOW_SECS_def MAX_SWL_MAP_ENTRIES_def
  MAX_COLLECTOR_INTERVAL_SECS_def

fun check_rates :: "string \<Rightarrow> (string \<times> u64 option) list \<Rightarrow> config_error + unit" where
  "check_rates scope [] = Inr ()"
| "check_rates scope ((name, value) # rest) =
     (case value of
        None \<Rightarrow> check_rates scope rest
      | Some v \<Rightarrow>
          if \<not> (MIN_RATE_BPS \<le> v \<and> v \<le> MAX_RATE_BPS) then Inl (RateOutOfBounds scope name)
          else check_rates scope rest)"

definition check_policy_bounds :: "policy_fields \<Rightarrow> string \<Rightarrow> config_error + unit" where
  "check_policy_bounds fs scope =
     try_bind (check_rates scope
       [(''rx_threshold'', pf_rx_threshold_bps fs), (''tx_threshold'', pf_tx_threshold_bps fs),
        (''rx_limit'', pf_rx_limit_bps fs), (''tx_limit'', pf_tx_limit_bps fs)]) (\<lambda>_.
     try_bind (case pf_burst_bytes fs of None \<Rightarrow> Inr ()
               | Some b \<Rightarrow> if MAX_BURST_BYTES < b then Inl (BurstTooLarge scope) else Inr ()) (\<lambda>_.
     case pf_limit_window_secs fs of None \<Rightarrow> Inr ()
     | Some w \<Rightarrow> if \<not> (MIN_LIMIT_WINDOW_SECS \<le> w \<and> w \<le> MAX_LIMIT_WINDOW_SECS)
                then Inl (LimitWindowOutOfBounds scope) else Inr ()))"

definition uses_swl :: "dir_policy option \<Rightarrow> bool" where
  "uses_swl d = unwrap_or False (map_option (\<lambda>p. dpo_algorithm p = ALGO_SLIDING_WINDOW_LOG) d)"

definition check_swl_enabled :: "effective_policy \<Rightarrow> bool \<Rightarrow> string \<Rightarrow> config_error + unit" where
  "check_swl_enabled eff enabled scope =
     (if (uses_swl (ep_rx eff) \<or> uses_swl (ep_tx eff)) \<and> \<not> enabled then Inl (SwlDisabled scope)
      else Inr ())"


subsection \<open>The metrics endpoint\<close>

datatype url_host = Domain string | HostIpv4 u32 | HostIpv6 "128 word"

record parsed_url =
  url_scheme :: string
  url_host :: "url_host option"
  url_host_str :: string
  url_port :: "u16 option"

definition ipv4_is_loopback :: "u32 \<Rightarrow> bool" where
  "ipv4_is_loopback ip \<longleftrightarrow> unat ip div 16777216 = 127"

definition ipv6_is_loopback :: "128 word \<Rightarrow> bool" where
  "ipv6_is_loopback ip \<longleftrightarrow> ip = 1"

definition safe_endpoint_display :: "(string \<Rightarrow> string + parsed_url) \<Rightarrow> string \<Rightarrow> string" where
  "safe_endpoint_display url_parse raw =
     (let placeholder = ''<unparseable metrics endpoint>'' in
      case url_parse raw of
        Inl _ \<Rightarrow> placeholder
      | Inr url \<Rightarrow>
          (case url_host url of
             None \<Rightarrow> placeholder
           | Some _ \<Rightarrow>
               (case url_port url of
                  Some port \<Rightarrow> url_scheme url @ ''://'' @ url_host_str url @ '':'' @ show_nat (unat port)
                | None \<Rightarrow> url_scheme url @ ''://'' @ url_host_str url)))"

definition is_loopback_host :: "url_host option \<Rightarrow> bool" where
  "is_loopback_host h =
     (case h of
        Some (Domain d) \<Rightarrow> d = ''localhost''
      | Some (HostIpv4 ip) \<Rightarrow> ipv4_is_loopback ip
      | Some (HostIpv6 ip) \<Rightarrow> ipv6_is_loopback ip
      | None \<Rightarrow> False)"

definition validate_metrics_url ::
  "(string \<Rightarrow> string + parsed_url) \<Rightarrow> string \<Rightarrow> bool \<Rightarrow> config_error + unit" where
  "validate_metrics_url url_parse raw allow_insecure_http =
     try_bind (map_err BadUrl (url_parse raw)) (\<lambda>url.
     if url_host url = None then Inl UrlWithoutHost
     else if url_scheme url = ''https'' then Inr ()
     else if url_scheme url = ''http'' then
       (if is_loopback_host (url_host url) \<or> allow_insecure_http then Inr ()
        else Inl (RemoteHttp (safe_endpoint_display url_parse raw)))
     else Inl (BadUrlScheme (url_scheme url)))"

subsection \<open>The document as a whole\<close>

definition check_collector :: "config \<Rightarrow> config_error + unit" where
  "check_collector c =
     (let refresh_ms = cfg_refresh_interval_ms c; scan_secs = cfg_scan_interval_secs c in
      if \<not> (1000 \<le> refresh_ms \<and> refresh_ms \<le> MAX_COLLECTOR_INTERVAL_SECS * 1000)
         \<or> refresh_ms mod 1000 \<noteq> 0
        then Inl (BadRefreshInterval refresh_ms)
      else if \<not> (1 \<le> scan_secs \<and> scan_secs \<le> MAX_COLLECTOR_INTERVAL_SECS)
        then Inl (BadScanInterval scan_secs)
      else if cfg_map_max_entries c = 0 then Inl ZeroMapEntries
      else if cfg_swl_map_max_entries c = 0 then Inl ZeroSwlEntries
      else if MAX_SWL_MAP_ENTRIES < cfg_swl_map_max_entries c then Inl TooManySwlEntries
      else Inr ())"

definition parse_sort :: "string \<Rightarrow> config_error + sort_mode" where
  "parse_sort s =
     (if s = ''ip'' then Inr SortIp
      else if s = ''rx'' then Inr SortRx
      else if s = ''tx'' then Inr SortTx
      else if s = ''total'' then Inr SortTotal
      else Inl (BadSort s))"

definition check_metrics :: "(string \<Rightarrow> string + parsed_url) \<Rightarrow> config \<Rightarrow> config_error + unit" where
  "check_metrics url_parse c =
     (if cfg_metrics_enabled c then
        try_bind (validate_metrics_url url_parse (cfg_metrics_url c) (cfg_allow_insecure_http c)) (\<lambda>_.
        if \<not> (5 \<le> cfg_push_interval_secs c \<and> cfg_push_interval_secs c \<le> 3600)
        then Inl (BadPushInterval (cfg_push_interval_secs c)) else Inr ())
      else Inr ())"

definition range_policy :: "string \<Rightarrow> range_entry \<Rightarrow> config_error + policy_fields" where
  "range_policy scope entry =
     (case ire_policy entry of
        Some p \<Rightarrow>
          if \<not> pe_is_empty p then
            try_bind (into_fields scope p) (\<lambda>fs.
            try_bind (check_policy_bounds fs scope) (\<lambda>_. Inr fs))
          else Inr policy_fields_default
      | None \<Rightarrow> Inr policy_fields_default)"

definition add_override ::
  "bool \<Rightarrow> string \<Rightarrow> policy_fields \<Rightarrow> ip_range \<Rightarrow> override_entry \<Rightarrow> (u32 \<rightharpoonup> policy_fields)
     \<Rightarrow> config_error + (u32 \<rightharpoonup> policy_fields)" where
  "add_override swl scope policy rng ov overrides =
     try_bind (ok_or (parse_ipv4 (trim (oe_ip ov))) (BadOverrideIp scope (oe_ip ov))) (\<lambda>ip.
     if ip < ir_start rng \<or> ir_end rng < ip then Inl (OverrideOutsideRange scope ip)
     else if pe_is_empty (oe_policy ov) then Inl (EmptyOverride scope (oe_ip ov))
     else
       let ov_bounds = scope @ '' override '' @ oe_ip ov;
           ov_scope = scope @ '' ip '' @ oe_ip ov
       in
       try_bind (into_fields ov_bounds (oe_policy ov)) (\<lambda>fs.
       try_bind (check_policy_bounds fs ov_bounds) (\<lambda>_.
       try_bind (map_err (PolicyError ov_scope) (resolve policy (Some fs))) (\<lambda>eff.
       try_bind (check_swl_enabled eff swl ov_scope) (\<lambda>_.
       if overrides ip \<noteq> None then Inl (DuplicateOverride scope (oe_ip ov))
       else Inr (overrides(ip \<mapsto> fs)))))))"

definition validate_range :: "bool \<Rightarrow> range_entry \<Rightarrow> ip_range \<Rightarrow> config_error + validated_range" where
  "validate_range swl entry rng =
     (let scope = ''range '' @ ire_name entry in
      try_bind (range_policy scope entry) (\<lambda>policy.
      try_bind (map_err (PolicyError scope) (resolve policy None)) (\<lambda>eff.
      try_bind (check_swl_enabled eff swl scope) (\<lambda>_.
      try_bind (try_fold (add_override swl scope policy rng) (ire_overrides entry) Map.empty) (\<lambda>overrides.
      Inr \<lparr>vr_inner = rng, vr_policy = policy, vr_overrides = overrides\<rparr>)))))"

fun validate_all :: "bool \<Rightarrow> (range_entry \<times> ip_range) list \<Rightarrow> config_error + validated_range list" where
  "validate_all swl [] = Inr []"
| "validate_all swl ((entry, rng) # rest) =
     try_bind (validate_range swl entry rng) (\<lambda>vr.
     try_bind (validate_all swl rest) (\<lambda>vrs. Inr (vr # vrs)))"

definition trim_end_slashes :: "string \<Rightarrow> string" where
  "trim_end_slashes s = rev (dropWhile (\<lambda>c. c = CHR ''/'') (rev s))"

definition validate_config :: "(string \<Rightarrow> string + parsed_url) \<Rightarrow> config \<Rightarrow> config_error + validated_config" where
  "validate_config url_parse c =
     (let bridge = trim (cfg_bridge c) in
      if bridge = [] then Inl EmptyBridge
      else
        try_bind (check_collector c) (\<lambda>_.
        try_bind (parse_sort (cfg_default_sort c)) (\<lambda>default_sort.
        try_bind (check_metrics url_parse c) (\<lambda>_.
        try_bind (map_err RangeError (validate_ranges (cfg_ip_ranges c))) (\<lambda>ranges.
        try_bind (validate_all (cfg_enable_swl c) (zip (cfg_ip_ranges c) ranges)) (\<lambda>validated.
        Inr \<lparr>vc_bridge = bridge, vc_refresh_interval_ms = cfg_refresh_interval_ms c,
             vc_scan_interval_secs = cfg_scan_interval_secs c,
             vc_map_max_entries = cfg_map_max_entries c,
             vc_swl_map_max_entries = cfg_swl_map_max_entries c,
             vc_show_interface = cfg_show_interface c, vc_show_packets = cfg_show_packets c,
             vc_show_idle_ips = cfg_show_idle_ips c, vc_default_sort = default_sort,
             vc_metrics_enabled = cfg_metrics_enabled c,
             vc_metrics_url = trim_end_slashes (cfg_metrics_url c),
             vc_metrics_push_interval_secs = cfg_push_interval_secs c,
             vc_ranges = validated\<rparr>))))))"

definition parse ::
  "(string \<Rightarrow> string + config) \<Rightarrow> (string \<Rightarrow> string + parsed_url) \<Rightarrow> string
     \<Rightarrow> config_error + validated_config" where
  "parse from_toml url_parse doc =
     try_bind (map_err InvalidToml (from_toml doc)) (validate_config url_parse)"

text \<open>The directions that \<open>small_burst_warnings\<close> names: scope (an override's address, or none
  for the range itself), direction, and the largest admissible frame.\<close>

definition dir_warnings :: "string \<times> u32 option \<Rightarrow> effective_policy
     \<Rightarrow> ((string \<times> u32 option) \<times> string \<times> u64) list" where
  "dir_warnings scope eff =
     concat (map (\<lambda>(dir, d).
        case d of None \<Rightarrow> []
        | Some p \<Rightarrow> let admissible = max_admissible_frame_bytes p in
                   if admissible < MAX_POLICED_LEN then [(scope, dir, admissible)] else [])
       [(''rx'', ep_rx eff), (''tx'', ep_tx eff)])"

definition small_burst_warnings ::
  "((u32 \<rightharpoonup> policy_fields) \<Rightarrow> u32 list) \<Rightarrow> validated_config
     \<Rightarrow> ((string \<times> u32 option) \<times> string \<times> u64) list" where
  "small_burst_warnings keys vc =
     concat (map (\<lambda>vr.
        let name = ir_name (vr_inner vr);
            scopes = (None, None) # map (\<lambda>ip. (Some ip, vr_overrides vr ip)) (sort (keys (vr_overrides vr)))
        in concat (map (\<lambda>(ip, fs).
             case resolve (vr_policy vr) fs of
               Inl _ \<Rightarrow> []
             | Inr eff \<Rightarrow> dir_warnings (name, ip) eff) scopes))
       (vc_ranges vc))"

subsection \<open>What an accepted document guarantees\<close>

definition fields_bounded :: "policy_fields \<Rightarrow> bool" where
  "fields_bounded f \<longleftrightarrow>
     (\<forall>r \<in> {pf_rx_threshold_bps f, pf_tx_threshold_bps f, pf_rx_limit_bps f, pf_tx_limit_bps f}.
        \<forall>v. r = Some v \<longrightarrow> 100000 \<le> unat v \<and> unat v \<le> 1000000000000)
     \<and> (\<forall>b. pf_burst_bytes f = Some b \<longrightarrow> unat b \<le> 1073741824)
     \<and> (\<forall>w. pf_limit_window_secs f = Some w \<longrightarrow> 1 \<le> unat w \<and> unat w \<le> 60)"

lemma check_rates_Inr:
  "check_rates scope rs = Inr () \<longleftrightarrow>
     (\<forall>(name, r) \<in> set rs. \<forall>v. r = Some v \<longrightarrow> 100000 \<le> unat v \<and> unat v \<le> 1000000000000)"
  by (induction scope rs rule: check_rates.induct)
    (auto simp: config_consts word_le_nat_alt split: option.splits)

lemma check_policy_bounds_Inr: "check_policy_bounds f scope = Inr () \<Longrightarrow> fields_bounded f"
  by (auto simp: check_policy_bounds_def fields_bounded_def try_bind_Inr_iff check_rates_Inr
      config_consts word_le_nat_alt word_less_nat_alt split: option.splits if_splits)

lemma fields_bounded_default [simp]: "fields_bounded policy_fields_default"
  by (simp add: fields_bounded_def policy_fields_default_def)

lemma or_else_Some: "or_else a b = Some v \<Longrightarrow> a = Some v \<or> b = Some v"
  by (cases a) simp_all

lemma fields_bounded_merged: "fields_bounded f \<Longrightarrow> fields_bounded g \<Longrightarrow> fields_bounded (merged_with f g)"
  unfolding fields_bounded_def merged_with_def
  by (auto dest!: or_else_Some)

text \<open>The policy the data path is given for a direction: what an \<open>Install\<close> action carries.\<close>

definition installed_policy :: "dir_policy \<Rightarrow> limit_policy" where
  "installed_policy p =
     \<lparr>lp_enabled = 1, lp_algorithm = dpo_algorithm p, lp_rate_bps = dpo_limit_bps p,
      lp_burst_bytes = dpo_burst_bytes p,
      lp_window_ns = sat_mul (dpo_limit_window_secs p) 1000000000\<rparr>"

definition dir_ok :: "bool \<Rightarrow> dir_policy \<Rightarrow> bool" where
  "dir_ok swl p \<longleftrightarrow>
     bounded_policy (installed_policy p)
     \<and> (is_bucket_algo (dpo_algorithm p) \<or> is_window_algo (dpo_algorithm p) \<and> 0 < unat (dpo_limit_window_secs p))
     \<and> (dpo_algorithm p = ALGO_SLIDING_WINDOW_LOG \<longrightarrow> swl)"

definition policy_ok :: "bool \<Rightarrow> policy_fields \<Rightarrow> policy_fields option \<Rightarrow> bool" where
  "policy_ok swl f ov \<longleftrightarrow>
     (\<exists>eff. resolve f ov = Inr eff
        \<and> (\<forall>p. ep_rx eff = Some p \<longrightarrow> dir_ok swl p) \<and> (\<forall>p. ep_tx eff = Some p \<longrightarrow> dir_ok swl p))"

lemma unat_window_ns: "unat w \<le> 60 \<Longrightarrow> unat (sat_mul w (1000000000 :: u64)) = unat w * 1000000000"
  by (simp add: unat_ops)

lemma dir_complete_bounded:
  assumes "dir_complete m t l p" "fields_bounded m"
    and "l = pf_rx_limit_bps m \<or> l = pf_tx_limit_bps m"
  shows "bounded_policy (installed_policy p)"
    and "is_bucket_algo (dpo_algorithm p) \<or> is_window_algo (dpo_algorithm p) \<and> 0 < unat (dpo_limit_window_secs p)"
proof -
  have rate: "100000 \<le> unat (dpo_limit_bps p)" "unat (dpo_limit_bps p) \<le> 1000000000000"
    using assms unfolding dir_complete_def fields_bounded_def by auto
  have "unat (dpo_burst_bytes p) \<le> 1073741824 \<and> unat (dpo_limit_window_secs p) \<le> 60
    \<and> (is_bucket_algo (dpo_algorithm p) \<or> is_window_algo (dpo_algorithm p) \<and> 0 < unat (dpo_limit_window_secs p))"
    using assms(1,2) unfolding dir_complete_def fields_bounded_def
    by (cases "is_bucket_algo (dpo_algorithm p)") auto
  then show "bounded_policy (installed_policy p)"
    and "is_bucket_algo (dpo_algorithm p) \<or> is_window_algo (dpo_algorithm p) \<and> 0 < unat (dpo_limit_window_secs p)"
    using rate by (simp_all add: bounded_policy_def installed_policy_def unat_window_ns)
qed

lemma policy_okI:
  assumes "resolve f ov = Inr eff" "check_swl_enabled eff swl scope = Inr ()"
    and "fields_bounded f" "\<And>g. ov = Some g \<Longrightarrow> fields_bounded g"
  shows "policy_ok swl f ov"
proof -
  define m where "m = merged_with f (case ov of None \<Rightarrow> policy_fields_default | Some g \<Rightarrow> g)"
  have m: "fields_bounded m"
    using assms(3,4) unfolding m_def by (intro fields_bounded_merged) (auto split: option.split)
  have d: "build_dir (pf_rx_threshold_bps m) (pf_rx_limit_bps m) m ''rx'' = Inr (ep_rx eff)"
    "build_dir (pf_tx_threshold_bps m) (pf_tx_limit_bps m) m ''tx'' = Inr (ep_tx eff)"
    using assms(1) by (auto simp: resolve_def Let_def try_bind_Inr_iff m_def)
  have swl: "dpo_algorithm p = ALGO_SLIDING_WINDOW_LOG \<longrightarrow> swl"
    if "ep_rx eff = Some p \<or> ep_tx eff = Some p" for p
    using assms(2) that by (auto simp: check_swl_enabled_def uses_swl_def split: if_splits)
  have "dir_ok swl p" if "ep_rx eff = Some p" for p
    using dir_complete_bounded [OF build_dir_Some [OF d(1) [unfolded that]] m] swl [of p] that
    by (simp add: dir_ok_def)
  moreover have "dir_ok swl p" if "ep_tx eff = Some p" for p
    using dir_complete_bounded [OF build_dir_Some [OF d(2) [unfolded that]] m] swl [of p] that
    by (simp add: dir_ok_def)
  ultimately show ?thesis using assms(1) by (auto simp: policy_ok_def)
qed

lemma range_policy_bounded: "range_policy scope entry = Inr f \<Longrightarrow> fields_bounded f"
  by (auto simp: range_policy_def try_bind_Inr_iff dest: check_policy_bounds_Inr
      split: option.splits if_splits)

definition overrides_ok :: "bool \<Rightarrow> policy_fields \<Rightarrow> ip_range \<Rightarrow> (u32 \<rightharpoonup> policy_fields) \<Rightarrow> bool" where
  "overrides_ok swl f rng m \<longleftrightarrow>
     (\<forall>ip g. m ip = Some g \<longrightarrow> range_contains rng ip \<and> policy_ok swl f (Some g))"

lemma add_override_ok:
  assumes "add_override swl scope f rng ov m = Inr m'" "fields_bounded f" "overrides_ok swl f rng m"
  shows "overrides_ok swl f rng m'"
proof -
  from assms(1) obtain ip fs eff where o: "\<not> (ip < ir_start rng \<or> ir_end rng < ip)"
      "check_policy_bounds fs (scope @ '' override '' @ oe_ip ov) = Inr ()"
      "resolve f (Some fs) = Inr eff"
      "check_swl_enabled eff swl (scope @ '' ip '' @ oe_ip ov) = Inr ()"
      "m' = m(ip \<mapsto> fs)"
    by (auto simp: add_override_def try_bind_Inr_iff Let_def split: if_splits)
  have "policy_ok swl f (Some fs)"
    using check_policy_bounds_Inr [OF o(2)] by (intro policy_okI [OF o(3,4) assms(2)]) simp
  with o(1,5) assms(3) show ?thesis
    by (auto simp: overrides_ok_def range_contains_def not_less)
qed

definition range_ok :: "bool \<Rightarrow> validated_range \<Rightarrow> bool" where
  "range_ok swl vr \<longleftrightarrow> policy_ok swl (vr_policy vr) None
     \<and> overrides_ok swl (vr_policy vr) (vr_inner vr) (vr_overrides vr)"

lemma validate_range_ok:
  assumes "validate_range swl entry rng = Inr vr"
  shows "range_ok swl vr" "vr_inner vr = rng"
proof -
  from assms obtain policy eff overrides where v: "range_policy (''range '' @ ire_name entry) entry = Inr policy"
      "resolve policy None = Inr eff"
      "check_swl_enabled eff swl (''range '' @ ire_name entry) = Inr ()"
      "try_fold (add_override swl (''range '' @ ire_name entry) policy rng) (ire_overrides entry) Map.empty
        = Inr overrides"
      "vr = \<lparr>vr_inner = rng, vr_policy = policy, vr_overrides = overrides\<rparr>"
    by (auto simp: validate_range_def try_bind_Inr_iff Let_def)
  note b = range_policy_bounded [OF v(1)]
  have "overrides_ok swl policy rng overrides"
    by (rule try_fold_invariant [OF v(4)])
      (auto simp: overrides_ok_def [of _ _ _ Map.empty] intro: add_override_ok [OF _ b])
  with policy_okI [OF v(2,3) b] v(5) show "range_ok swl vr" "vr_inner vr = rng"
    by (auto simp: range_ok_def)
qed

lemma validate_all_ok:
  "validate_all swl ers = Inr vrs \<Longrightarrow> list_all (range_ok swl) vrs \<and> map vr_inner vrs = map snd ers"
proof (induction swl ers arbitrary: vrs rule: validate_all.induct)
  case (2 swl entry rng rest)
  then obtain vr vrs' where v: "validate_range swl entry rng = Inr vr"
      "validate_all swl rest = Inr vrs'" "vrs = vr # vrs'"
    by (auto simp: try_bind_Inr_iff)
  with 2(1) [OF v(2)] validate_range_ok [OF v(1)] show ?case by simp
qed simp

lemma validate_ranges_Inr:
  assumes "validate_ranges entries = Inr rs"
  shows "validate_entries [] entries = Inr rs" "entries \<noteq> []" "disjoint_ranges rs"
    "list_all valid_range rs" "length rs = length entries"
proof -
  show "entries \<noteq> []" using assms by (auto simp: validate_ranges_def)
  show v: "validate_entries [] entries = Inr rs"
    using assms by (auto simp: validate_ranges_def try_bind_Inr_iff Let_def split: if_splits)
  show "list_all valid_range rs" "length rs = length entries"
    using validate_entries_Inr [OF v] by (auto dest: map_eq_imp_length_eq)
  show "disjoint_ranges rs"
    using assms check_overlap_order [OF v]
    by (auto simp: validate_ranges_def try_bind_Inr_iff Let_def v split: if_splits)
qed

lemma parse_ranges:
  assumes "parse from_toml url_parse doc = Inr vc" "from_toml doc = Inr c"
  shows "check_collector c = Inr ()" "disjoint_ranges (map vr_inner (vc_ranges vc))"
    "list_all valid_range (map vr_inner (vc_ranges vc))" "list_all (range_ok (cfg_enable_swl c)) (vc_ranges vc)"
    "vc_refresh_interval_ms vc = cfg_refresh_interval_ms c"
proof -
  from assms obtain rs where v: "check_collector c = Inr ()"
      "validate_ranges (cfg_ip_ranges c) = Inr rs"
      "validate_all (cfg_enable_swl c) (zip (cfg_ip_ranges c) rs) = Inr (vc_ranges vc)"
      "vc_refresh_interval_ms vc = cfg_refresh_interval_ms c"
    by (auto simp: parse_def validate_config_def try_bind_Inr_iff Let_def split: if_splits)
  note r = validate_ranges_Inr [OF v(2)]
  have "map vr_inner (vc_ranges vc) = rs" "list_all (range_ok (cfg_enable_swl c)) (vc_ranges vc)"
    using validate_all_ok [OF v(3)] r(5) by simp_all
  with r(3,4) v(1,4) show "check_collector c = Inr ()" "disjoint_ranges (map vr_inner (vc_ranges vc))"
    "list_all valid_range (map vr_inner (vc_ranges vc))" "list_all (range_ok (cfg_enable_swl c)) (vc_ranges vc)"
    "vc_refresh_interval_ms vc = cfg_refresh_interval_ms c" by simp_all
qed

text \<open>C24: An accepted configuration is safe for the data path: its ranges are disjoint and never
  reversed; the policy of every range and of every override resolves; every override lies in
  its range; and every policy that can be installed has a known algorithm, a rate, burst and
  window inside the bounds under which no word operation of the policers wraps, and the
  sliding window log only where it is enabled.\<close>

theorem accepted_config_is_bounded:
  assumes "parse from_toml url_parse doc = Inr vc" "from_toml doc = Inr c"
  shows "disjoint_ranges (map vr_inner (vc_ranges vc))
    \<and> list_all valid_range (map vr_inner (vc_ranges vc))
    \<and> list_all (range_ok (cfg_enable_swl c)) (vc_ranges vc)
    \<and> 1000 \<le> unat (vc_refresh_interval_ms vc) \<and> unat (vc_refresh_interval_ms vc) mod 1000 = 0
    \<and> unat (vc_refresh_interval_ms vc) \<le> 3600000"
proof -
  note parsed = parse_ranges [OF assms]
  have "1000 \<le> unat (cfg_refresh_interval_ms c) \<and> unat (cfg_refresh_interval_ms c) mod 1000 = 0
      \<and> unat (cfg_refresh_interval_ms c) \<le> 3600000"
    using parsed(1)
    by (auto simp: check_collector_def Let_def config_consts word_le_nat_alt unat_mod
        word_unat_eq_iff split: if_splits)
  then show ?thesis using parsed by simp
qed

text \<open>The defaults pass every check: such a document is accepted whenever its ranges are.\<close>

lemma config_default_accepted:
  assumes "trim bridge \<noteq> []" "validate_ranges entries = Inr rs"
    and "validate_all False (zip entries rs) = Inr vrs"
  shows "\<exists>vc. validate_config url_parse (config_default bridge entries) = Inr vc \<and> vc_ranges vc = vrs"
  using assms
  by (simp add: validate_config_def config_default_def check_collector_def config_consts parse_sort_def
      check_metrics_def Let_def)

subsection \<open>A document\<close>

definition sample_policy_entry :: policy_entry where
  "sample_policy_entry = policy_entry_empty\<lparr>pe_rx_threshold := Some ''20Mbps'',
     pe_rx_limit := Some ''10Mbps'', pe_window := Some ''2s'', pe_trigger_ratio := Some ''80%'',
     pe_limit_duration := Some ''10m'', pe_burst := Some ''64KiB''\<rparr>"

definition sample_config :: config where
  "sample_config = \<lparr>cfg_bridge = ''br0'', cfg_refresh_interval_ms = 2000, cfg_scan_interval_secs = 5,
     cfg_map_max_entries = 8192, cfg_swl_map_max_entries = 256, cfg_show_interface = False,
     cfg_show_packets = False, cfg_show_idle_ips = False, cfg_default_sort = ''ip'',
     cfg_metrics_enabled = False, cfg_metrics_url = [], cfg_allow_insecure_http = False,
     cfg_push_interval_secs = 60, cfg_enable_swl = False,
     cfg_ip_ranges = [\<lparr>ire_name = ''a'', ire_range = ''10.0.0.1-10.0.0.8'',
       ire_policy = Some sample_policy_entry, ire_overrides = []\<rparr>]\<rparr>"

definition sample_fields_parsed :: policy_fields where
  "sample_fields_parsed = policy_fields_default\<lparr>pf_rx_threshold_bps := Some 20000000,
     pf_rx_limit_bps := Some 10000000, pf_window_secs := Some 2, pf_trigger_ratio_pct := Some 80,
     pf_limit_duration_secs := Some 600, pf_burst_bytes := Some 65536\<rparr>"

definition sample_range :: ip_range where
  "sample_range = \<lparr>ir_name = ''a'', ir_start = 167772161, ir_end = 167772168\<rparr>"

lemmas unit_parser_defs = parser_defs split_unit_def parse_unsigned_def nonzero_def checked_mul_def
  parse_rate_bps_def parse_duration_secs_def parse_bytes_def parse_percent_def rate_unit_def
  duration_unit_def byte_unit_def upper_case_b_def ends_with_def trim_end_def to_lower_def

lemma sample_into_fields: "into_fields scope sample_policy_entry = Inr sample_fields_parsed"
  by (simp add: into_fields_def sample_policy_entry_def policy_entry_empty_def parse_opt_def
      unit_parser_defs sample_fields_parsed_def policy_fields_default_def char_of_def bit_0 Let_def)

lemma sample_eff:
  "\<exists>eff. resolve sample_fields_parsed None = Inr eff \<and> \<not> uses_swl (ep_rx eff) \<and> \<not> uses_swl (ep_tx eff)"
  by (simp add: resolve_def sample_fields_parsed_def policy_fields_default_def merged_with_def
      build_dir_def is_bucket_algo_def is_window_algo_def algo_defs uses_swl_def Let_def)

lemma sample_validated:
  "validate_range False \<lparr>ire_name = ''a'', ire_range = ''10.0.0.1-10.0.0.8'',
       ire_policy = Some sample_policy_entry, ire_overrides = []\<rparr> sample_range
   = Inr \<lparr>vr_inner = sample_range, vr_policy = sample_fields_parsed, vr_overrides = Map.empty\<rparr>"
proof -
  have "\<not> pe_is_empty sample_policy_entry"
    by (simp add: pe_is_empty_def sample_policy_entry_def policy_entry_empty_def)
  moreover have "check_policy_bounds sample_fields_parsed scope = Inr ()" for scope
    by (simp add: check_policy_bounds_def sample_fields_parsed_def policy_fields_default_def config_consts)
  ultimately show ?thesis
    using sample_eff
    by (auto simp: validate_range_def range_policy_def sample_into_fields check_swl_enabled_def Let_def)
qed

lemma sample_parsed:
  "\<exists>vc. parse (\<lambda>_. Inr sample_config) (\<lambda>_. Inl []) [] = Inr vc
     \<and> vc_ranges vc = [\<lparr>vr_inner = sample_range, vr_policy = sample_fields_parsed, vr_overrides = Map.empty\<rparr>]"
proof -
  have "validate_ranges (cfg_ip_ranges sample_config) = Inr [sample_range]"
    by (simp add: validate_ranges_def sample_config_def sample_range_def parser_defs IPV6_RANGE_NAME_def)
  moreover have "check_collector sample_config = Inr ()"
    by (simp add: check_collector_def sample_config_def config_consts)
  moreover have "trim (cfg_bridge sample_config) = ''br0''"
    by (simp add: sample_config_def trim_def is_whitespace_def)
  moreover have "parse_sort (cfg_default_sort sample_config) = Inr SortIp"
    "check_metrics url sample_config = Inr ()" for url
    by (simp_all add: parse_sort_def check_metrics_def sample_config_def)
  moreover have "validate_all (cfg_enable_swl sample_config) (zip (cfg_ip_ranges sample_config) [sample_range])
      = Inr [\<lparr>vr_inner = sample_range, vr_policy = sample_fields_parsed, vr_overrides = Map.empty\<rparr>]"
    using sample_validated by (simp add: sample_config_def)
  ultimately show ?thesis
    by (simp add: parse_def validate_config_def Let_def)
qed

lemma accepted_config_is_bounded_witness:
  "\<exists>vc. parse (\<lambda>_. Inr sample_config) (\<lambda>_. Inl []) [] = Inr vc
     \<and> list_all (range_ok False) (vc_ranges vc) \<and> vc_ranges vc \<noteq> []"
proof -
  obtain vc where vc: "parse (\<lambda>_. Inr sample_config) (\<lambda>_. Inl []) [] = Inr vc"
      "vc_ranges vc = [\<lparr>vr_inner = sample_range, vr_policy = sample_fields_parsed, vr_overrides = Map.empty\<rparr>]"
    using sample_parsed by blast
  have swl: "cfg_enable_swl sample_config = False" by (simp add: sample_config_def)
  from accepted_config_is_bounded [OF vc(1) refl] vc show ?thesis by (auto simp: swl)
qed

end
