(* ===== verification/F64.thy ===== *)
theory F64
  imports Complex_Main "HOL-Library.Log_Nat" Prelude
begin

section \<open>F64: IEEE double rounding on non-negative rationals\<close>

text \<open>
  The program uses \<open>f64\<close> for averages: conversions from \<open>u64\<close>, multiplications and
  divisions of non-negative values far from the overflow and underflow of the format. Such a
  value is a rational number here, and every operation rounds its exact result to 53
  significant bits, to nearest, ties to even. The lemmas \<open>f64_round_ge\<close> and \<open>f64_round_le\<close>
  say that rounding never crosses an integer of at most 53 bits, \<open>f64_round_less\<close> that a
  quotient with a numerator of at most 53 bits does not even reach one from below;
  everything proved about averages rests on them.
\<close>

type_synonym f64 = rat

text \<open>
  The quotient is scaled by \<open>2 ^ s\<close> so that its integer part has at least 53 bits, then cut
  to 53 bits by \<open>2 ^ k\<close>.
\<close>

definition f64_shift :: "nat \<Rightarrow> nat" where
  "f64_shift b = floorlog 2 b + 53"

definition f64_cut :: "nat \<Rightarrow> nat \<Rightarrow> nat" where
  "f64_cut a b = floorlog 2 (a * 2 ^ f64_shift b div b) - 53"

definition f64_mantissa :: "nat \<Rightarrow> nat \<Rightarrow> nat" where
  "f64_mantissa a b =
     (let d = b * 2 ^ f64_cut a b;
          m = a * 2 ^ f64_shift b div d;
          r = a * 2 ^ f64_shift b mod d
      in if d < 2 * r \<or> d = 2 * r \<and> odd m then m + 1 else m)"

definition f64_ratio :: "nat \<Rightarrow> nat \<Rightarrow> rat" where
  "f64_ratio a b =
     (if a = 0 then 0 else of_nat (f64_mantissa a b * 2 ^ f64_cut a b) / 2 ^ f64_shift b)"

definition f64_round :: "rat \<Rightarrow> rat" where
  "f64_round q = (let (a, b) = quotient_of q in f64_ratio (nat a) (nat b))"

definition f64_of_nat :: "nat \<Rightarrow> rat" where "f64_of_nat n = f64_round (of_nat n)"
definition f64_mul :: "rat \<Rightarrow> rat \<Rightarrow> rat" where "f64_mul x y = f64_round (x * y)"
definition f64_div :: "rat \<Rightarrow> rat \<Rightarrow> rat" where "f64_div x y = f64_round (x / y)"

lemma floorlog_bound: "0 < n \<Longrightarrow> n < 2 ^ floorlog 2 n" "0 < n \<Longrightarrow> 2 ^ (floorlog 2 n - 1) \<le> n"
  for n :: nat
  using floorlog_bounds [of n 2] by simp_all

text \<open>The scaled quotient has at least 53 bits, so the cut leaves exactly 53.\<close>

lemma f64_cut_mantissa:
  assumes "0 < a" "0 < b"
  shows "2 ^ 52 * (b * 2 ^ f64_cut a b) \<le> a * 2 ^ f64_shift b"
    and "a * 2 ^ f64_shift b < 2 ^ 53 * (b * 2 ^ f64_cut a b)"
proof -
  define N where "N = a * 2 ^ f64_shift b div b"
  have "b * 2 ^ 53 \<le> 2 ^ f64_shift b"
    using floorlog_bound(1) [OF assms(2)] by (simp add: f64_shift_def power_add)
  also have "\<dots> \<le> a * 2 ^ f64_shift b" using assms(1) by simp
  finally have "2 ^ 53 \<le> N"
    unfolding N_def using assms(2) by (simp add: less_eq_div_iff_mult_less_eq mult.commute)
  then have N: "2 ^ 53 \<le> N" "0 < N" by simp_all
  have "2 ^ 53 < (2 :: nat) ^ floorlog 2 N"
    using N(1) floorlog_bound(1) [OF N(2)] by (rule le_less_trans)
  then have l: "53 < floorlog 2 N" by (rule power_less_imp_less_exp [rotated]) simp
  have k: "f64_cut a b = floorlog 2 N - 53" by (simp add: f64_cut_def N_def)
  have "2 ^ (52 + f64_cut a b) = (2 :: nat) ^ (floorlog 2 N - 1)" using l by (simp add: k)
  with floorlog_bound(2) [OF N(2)] have lo: "2 ^ 52 * 2 ^ f64_cut a b \<le> N" by (simp add: power_add)
  have "2 ^ (53 + f64_cut a b) = (2 :: nat) ^ floorlog 2 N" using l by (simp add: k)
  with floorlog_bound(1) [OF N(2)] have hi: "N < 2 ^ 53 * 2 ^ f64_cut a b" by (simp add: power_add)
  have "2 ^ 52 * (b * 2 ^ f64_cut a b) \<le> N * b"
    using mult_le_mono1 [OF lo, of b] by (simp add: ac_simps)
  also have "\<dots> \<le> a * 2 ^ f64_shift b" by (simp add: N_def)
  finally show "2 ^ 52 * (b * 2 ^ f64_cut a b) \<le> a * 2 ^ f64_shift b" .
  show "a * 2 ^ f64_shift b < 2 ^ 53 * (b * 2 ^ f64_cut a b)"
    using hi assms(2) unfolding N_def by (simp add: div_less_iff_less_mult ac_simps)
qed

lemma f64_mantissa_bounds:
  assumes "0 < b"
  shows "a * 2 ^ f64_shift b div (b * 2 ^ f64_cut a b) \<le> f64_mantissa a b"
    and "2 * (f64_mantissa a b * (b * 2 ^ f64_cut a b))
      \<le> 2 * (a * 2 ^ f64_shift b) + b * 2 ^ f64_cut a b"
    and "a * 2 ^ f64_shift b \<le> n * (b * 2 ^ f64_cut a b) \<Longrightarrow> f64_mantissa a b \<le> n"
proof -
  define d where "d = b * 2 ^ f64_cut a b"
  define x where "x = a * 2 ^ f64_shift b"
  have d: "0 < d" using assms by (simp add: d_def)
  have x: "x = x div d * d + x mod d" by simp
  have m: "f64_mantissa a b =
      (if d < 2 * (x mod d) \<or> d = 2 * (x mod d) \<and> odd (x div d) then x div d + 1 else x div d)"
    by (simp add: f64_mantissa_def d_def x_def Let_def)
  show "a * 2 ^ f64_shift b div (b * 2 ^ f64_cut a b) \<le> f64_mantissa a b"
    unfolding m x_def [symmetric] d_def [symmetric] by simp
  have "2 * (f64_mantissa a b * d) \<le> 2 * (x div d * d) + (if d \<le> 2 * (x mod d) then 2 * d else 0)"
    by (auto simp: m)
  also have "\<dots> \<le> 2 * x + d"
  proof (cases "d \<le> 2 * (x mod d)")
    case True
    then have "2 * (x div d * d) + 2 * d \<le> 2 * x + d" using x by linarith
    then show ?thesis by (simp only: True if_True)
  next
    case False
    have "2 * (x div d * d) + 0 \<le> 2 * x + d" using x by linarith
    then show ?thesis by (simp only: False if_False)
  qed
  finally show "2 * (f64_mantissa a b * (b * 2 ^ f64_cut a b))
      \<le> 2 * (a * 2 ^ f64_shift b) + b * 2 ^ f64_cut a b"
    by (simp add: x_def d_def)
  assume "a * 2 ^ f64_shift b \<le> n * (b * 2 ^ f64_cut a b)"
  then have n: "x \<le> n * d" by (simp add: x_def d_def)
  then have "x div d \<le> n" using d by (metis div_le_mono nonzero_mult_div_cancel_right less_irrefl)
  moreover have "x div d < n" if "0 < x mod d"
  proof (rule ccontr)
    assume "\<not> x div d < n"
    then have "n * d \<le> x div d * d" by simp
    with n x that show False by linarith
  qed
  ultimately show "f64_mantissa a b \<le> n" using d by (auto simp: m)
qed

lemma f64_round_pos:
  assumes "0 < q"
  shows "0 < f64_round q"
proof -
  obtain a b where ab: "quotient_of q = (a, b)" by force
  then have b: "0 < b" by (rule quotient_of_denom_pos)
  have "q = of_int a / of_int b" using ab by (rule quotient_of_div)
  then have a: "0 < a" using assms b by (simp add: zero_less_divide_iff)
  let ?d = "nat b * 2 ^ f64_cut (nat a) (nat b)" and ?x = "nat a * 2 ^ f64_shift (nat b)"
  have "2 ^ 52 * ?d \<le> ?x" using f64_cut_mantissa(1) [of "nat a" "nat b"] a b by simp
  then have "2 ^ 52 \<le> ?x div ?d" using b by (simp add: less_eq_div_iff_mult_less_eq)
  then have "0 < f64_mantissa (nat a) (nat b)" using f64_mantissa_bounds(1) [of "nat b" "nat a"] b by simp
  then show ?thesis using a by (simp add: f64_round_def ab f64_ratio_def)
qed

lemma f64_ratio_ge:
  assumes "0 < b" "t * b \<le> a" "t \<le> 2 ^ 53"
  shows "of_nat t \<le> f64_ratio a b"
proof (cases "a = 0")
  case True
  with assms show ?thesis by (simp add: f64_ratio_def)
next
  case False
  then have a: "0 < a" by simp
  define s k where "s = f64_shift b" and "k = f64_cut a b"
  note cut = f64_cut_mantissa [OF a assms(1), folded s_def k_def]
  note mant = f64_mantissa_bounds [OF assms(1), of a, folded s_def k_def]
  have "t * 2 ^ s \<le> f64_mantissa a b * 2 ^ k"
  proof (cases "k \<le> s")
    case True
    then have split: "(2 :: nat) ^ s = 2 ^ (s - k) * 2 ^ k" by (simp add: power_add [symmetric])
    have "t * 2 ^ (s - k) * (b * 2 ^ k) \<le> a * 2 ^ s"
      using mult_le_mono1 [OF assms(2), of "2 ^ s"] by (simp add: split ac_simps)
    then have "t * 2 ^ (s - k) \<le> a * 2 ^ s div (b * 2 ^ k)"
      using assms(1) by (simp add: less_eq_div_iff_mult_less_eq)
    also note mant(1)
    finally show ?thesis unfolding split by simp
  next
    case False
    then have "2 ^ Suc s \<le> (2 :: nat) ^ k" by (intro power_increasing) simp_all
    moreover have "2 ^ 52 \<le> a * 2 ^ s div (b * 2 ^ k)"
      using cut(1) assms(1) by (simp add: less_eq_div_iff_mult_less_eq)
    then have "2 ^ 52 \<le> f64_mantissa a b" using mant(1) by linarith
    ultimately have "2 ^ 52 * 2 ^ Suc s \<le> f64_mantissa a b * 2 ^ k" by (intro mult_le_mono)
    then have "2 ^ 53 * 2 ^ s \<le> f64_mantissa a b * 2 ^ k" by simp
    with mult_le_mono1 [OF assms(3)] show ?thesis by (rule order_trans)
  qed
  then have "(of_nat (t * 2 ^ s) :: rat) \<le> of_nat (f64_mantissa a b * 2 ^ k)"
    by (simp only: of_nat_le_iff)
  with False show ?thesis
    by (simp add: f64_ratio_def pos_le_divide_eq s_def k_def)
qed

lemma f64_ratio_le:
  assumes "0 < b" "a \<le> t * b" "t \<le> 2 ^ 53"
  shows "f64_ratio a b \<le> of_nat t"
proof (cases "a = 0")
  case True
  with assms show ?thesis by (simp add: f64_ratio_def)
next
  case False
  then have a: "0 < a" by simp
  define s k where "s = f64_shift b" and "k = f64_cut a b"
  note cut = f64_cut_mantissa [OF a assms(1), folded s_def k_def]
  note mant = f64_mantissa_bounds [OF assms(1), of a, folded s_def k_def]
  have x: "a * 2 ^ s \<le> t * 2 ^ s * b"
    using mult_le_mono1 [OF assms(2), of "2 ^ s"] by (simp add: ac_simps)
  have "f64_mantissa a b * 2 ^ k \<le> t * 2 ^ s"
  proof (cases "k \<le> s")
    case True
    then have split: "(2 :: nat) ^ s = 2 ^ (s - k) * 2 ^ k" by (simp add: power_add [symmetric])
    have "a * 2 ^ s \<le> t * 2 ^ (s - k) * (b * 2 ^ k)" using x by (simp add: split ac_simps)
    from mant(3) [OF this] show ?thesis unfolding split by simp
  next
    case False
    then have "2 ^ Suc s \<le> (2 :: nat) ^ k" by (intro power_increasing) simp_all
    then have "2 ^ 52 * (b * 2 ^ Suc s) \<le> 2 ^ 52 * (b * 2 ^ k)" by (intro mult_le_mono2)
    also note cut(1)
    also note x
    finally have "2 ^ 53 * (b * 2 ^ s) \<le> t * (b * 2 ^ s)" by (simp add: ac_simps)
    then have t: "t = 2 ^ 53" using assms(1,3) by simp
    have "2 ^ 52 * (b * 2 ^ k) \<le> 2 ^ 52 * (b * 2 ^ Suc s)"
      using order_trans [OF cut(1) x] by (simp add: t ac_simps)
    then have "(2 :: nat) ^ k \<le> 2 ^ Suc s" using assms(1) by simp
    then have k: "k = Suc s" using False by (simp del: power_Suc)
    have "a * 2 ^ s \<le> 2 ^ 52 * (b * 2 ^ k)" using x by (simp add: t k)
    from mult_le_mono1 [OF mant(3) [OF this], of "2 ^ k"] show ?thesis by (simp add: t k)
  qed
  then have "(of_nat (f64_mantissa a b * 2 ^ k) :: rat) \<le> of_nat (t * 2 ^ s)"
    by (simp only: of_nat_le_iff)
  with False show ?thesis
    by (simp add: f64_ratio_def pos_divide_le_eq s_def k_def)
qed

lemma f64_ratio_less:
  assumes "0 < b" "a < t * b" "a < 2 ^ 53"
  shows "f64_ratio a b < of_nat t"
proof (cases "a = 0")
  case True
  with assms have "0 < t" by (cases t) auto
  with True show ?thesis by (simp add: f64_ratio_def)
next
  case False
  then have a: "0 < a" by simp
  define s k where "s = f64_shift b" and "k = f64_cut a b"
  note cut = f64_cut_mantissa [OF a assms(1), folded s_def k_def]
  note mant = f64_mantissa_bounds [OF assms(1), of a, folded s_def k_def]
  have "a * 2 ^ s < 2 ^ 53 * 2 ^ s" using assms(3) by (rule mult_less_mono1) simp
  with cut(1) have "2 ^ 52 * (b * 2 ^ k) < 2 ^ 53 * 2 ^ s" by (rule le_less_trans)
  also have "(2 :: nat) ^ 53 * 2 ^ s = 2 ^ 52 * (2 * 2 ^ s)" by simp
  finally have d: "b * 2 ^ k < 2 * 2 ^ s" by (simp only: mult_less_cancel1)
  have "(a + 1) * 2 ^ s \<le> t * b * 2 ^ s" using assms(2) by (intro mult_le_mono1) simp
  then have "2 * (a * 2 ^ s) + 2 * 2 ^ s \<le> 2 * (t * b * 2 ^ s)" by simp
  with mant(2) d have "2 * (f64_mantissa a b * (b * 2 ^ k)) < 2 * (t * b * 2 ^ s)" by linarith
  then have "b * (f64_mantissa a b * 2 ^ k) < b * (t * 2 ^ s)" by (simp add: ac_simps)
  then have "f64_mantissa a b * 2 ^ k < t * 2 ^ s" by simp
  then have "(of_nat (f64_mantissa a b * 2 ^ k) :: rat) < of_nat (t * 2 ^ s)"
    by (simp only: of_nat_less_iff)
  with False show ?thesis
    by (simp add: f64_ratio_def pos_divide_less_eq s_def k_def)
qed

text \<open>Reduced fractions: rounding a quotient of naturals.\<close>

lemma quotient_of_nats:
  assumes "0 < B"
  obtains a b where "f64_round (of_nat A / of_nat B) = f64_ratio a b" "0 < b" "a \<le> A"
    "\<And>t. t * b \<le> a \<longleftrightarrow> t * B \<le> A" "\<And>t. a \<le> t * b \<longleftrightarrow> A \<le> t * B"
proof -
  let ?q = "of_nat A / of_nat B :: rat"
  obtain a b where ab: "quotient_of ?q = (a, b)" by (cases "quotient_of ?q")
  have b: "0 < b" using quotient_of_denom_pos [OF ab] .
  have q: "?q = of_int a / of_int b" using quotient_of_div [OF ab] .
  have "0 \<le> of_int a / (of_int b :: rat)" unfolding q [symmetric] by simp
  with b have a: "0 \<le> a" by (simp add: zero_le_divide_iff)
  have "(of_nat A * of_int b :: rat) = of_int a * of_nat B"
    using q assms b by (simp add: field_simps)
  then have "(of_int (int A * b) :: rat) = of_int (a * int B)" by simp
  then have eq: "int A * b = a * int B" by (simp only: of_int_eq_iff)
  have nat_eq: "A * nat b = nat a * B"
  proof -
    have "int (A * nat b) = int (nat a * B)" using eq a b by simp
    then show ?thesis by (simp only: of_nat_eq_iff)
  qed
  have "coprime a b" using quotient_of_coprime [OF ab] .
  then have "coprime (nat a) (nat b)"
    using a b by (simp add: coprime_int_iff [symmetric])
  moreover have "nat a dvd A * nat b" by (simp add: nat_eq)
  ultimately have "nat a dvd A" by (simp add: coprime_dvd_mult_left_iff)
  then have le: "nat a \<le> A"
  proof (cases "A = 0")
    case True
    with nat_eq assms show ?thesis by simp
  next
    case False
    with \<open>nat a dvd A\<close> show ?thesis by (simp add: dvd_imp_le)
  qed
  have bn: "0 < nat b" using b by simp
  have swap: "t * nat b * B = t * B * nat b" for t by simp
  have cross: "t * nat b * B \<le> nat a * B \<longleftrightarrow> t * B * nat b \<le> A * nat b"
    "nat a * B \<le> t * nat b * B \<longleftrightarrow> A * nat b \<le> t * B * nat b" for t
    unfolding nat_eq swap by simp_all
  show thesis
  proof (rule that [of "nat a" "nat b"])
    show "f64_round ?q = f64_ratio (nat a) (nat b)" by (simp add: f64_round_def ab)
    show "t * nat b \<le> nat a \<longleftrightarrow> t * B \<le> A" for t
      using cross(1) [of t] assms bn by simp
    show "nat a \<le> t * nat b \<longleftrightarrow> A \<le> t * B" for t
      using cross(2) [of t] assms bn by simp
  qed (use bn le in simp_all)
qed

lemma f64_round_ge:
  assumes "0 < b" "t * b \<le> a" "t \<le> 2 ^ 53"
  shows "of_nat t \<le> f64_round (of_nat a / of_nat b)"
proof -
  obtain a' b' where "f64_round (of_nat a / of_nat b) = f64_ratio a' b'" "0 < b'" "t * b' \<le> a'"
    using quotient_of_nats [OF assms(1), of a] assms(2) by metis
  with f64_ratio_ge [OF this(2,3) assms(3)] show ?thesis by simp
qed

lemma f64_round_le:
  assumes "0 < b" "a \<le> t * b" "t \<le> 2 ^ 53"
  shows "f64_round (of_nat a / of_nat b) \<le> of_nat t"
proof -
  obtain a' b' where "f64_round (of_nat a / of_nat b) = f64_ratio a' b'" "0 < b'" "a' \<le> t * b'"
    using quotient_of_nats [OF assms(1), of a] assms(2) by metis
  with f64_ratio_le [OF this(2,3) assms(3)] show ?thesis by simp
qed

lemma f64_round_less:
  assumes "0 < b" "a < t * b" "a < 2 ^ 53"
  shows "f64_round (of_nat a / of_nat b) < of_nat t"
proof -
  obtain a' b' where "f64_round (of_nat a / of_nat b) = f64_ratio a' b'" "0 < b'" "a' \<le> a"
      "a' < t * b'"
    using quotient_of_nats [OF assms(1), of a] assms(2) by (metis not_le)
  with f64_ratio_less [OF this(2,4)] assms(3) show ?thesis by simp
qed

lemma f64_round_of_nat: "n \<le> 2 ^ 53 \<Longrightarrow> f64_round (of_nat n) = of_nat n"
  using f64_round_ge [of 1 n n] f64_round_le [of 1 n n] by simp

lemma f64_of_nat_exact: "n \<le> 2 ^ 53 \<Longrightarrow> f64_of_nat n = of_nat n"
  by (simp add: f64_of_nat_def f64_round_of_nat)

text \<open>A comparison of a rounded average with an integer threshold is exact.\<close>

lemma f64_average_ge_iff:
  assumes "0 < secs" "8 * bytes < 2 ^ 53" "t \<le> 2 ^ 53" "secs \<le> 2 ^ 53"
  shows "f64_of_nat t \<le> f64_div (f64_mul (f64_of_nat bytes) 8) (f64_of_nat secs)
    \<longleftrightarrow> t * secs \<le> 8 * bytes"
proof -
  have "f64_mul (f64_of_nat bytes) 8 = f64_round (of_nat (8 * bytes))"
    using assms(2) by (simp add: f64_mul_def f64_of_nat_exact mult.commute)
  then have avg: "f64_div (f64_mul (f64_of_nat bytes) 8) (f64_of_nat secs)
      = f64_round (of_nat (8 * bytes) / of_nat secs)"
    using assms(2,4) by (simp only: f64_div_def f64_of_nat_exact f64_round_of_nat less_imp_le)
  show ?thesis
    unfolding avg f64_of_nat_exact [OF assms(3)]
    using f64_round_ge [OF assms(1) _ assms(3), of "8 * bytes"]
      f64_round_less [OF assms(1) _ assms(2), of t] by (meson not_le)
qed

end
