(* ===== verification/Window.thy ===== *)
theory Window
  imports F64
begin

section \<open>Window: the rolling byte window of the threshold detector\<close>

text \<open>
  \<open>RollingWindow\<close> of \<open>vm-bandwidth-core/src/window.rs\<close>: a ring of per-tick samples with a
  running total. \<open>window_rel\<close> relates a ring to the samples added since its last reset: it
  holds the last ones, and its total is their sum as long as that fits 64 bits, which
  \<open>small_samples\<close> (a petabyte per tick at most) guarantees for every ring.
\<close>

subsection \<open>The ring\<close>

definition MAX_SAMPLES :: nat where "MAX_SAMPLES = 3600"

record rolling_window =
  rw_ring :: "u64 list"
  rw_head :: nat
  rw_total :: u64
  rw_observed :: u64
  rw_tick_secs :: u64
  rw_window_secs :: u64

definition rw_new :: "u64 \<Rightarrow> u64 \<Rightarrow> rolling_window" where
  "rw_new window_secs tick_secs =
     (let tick_secs = max tick_secs 1;
          samples = unat (max (window_secs div tick_secs) 1);
          samples = min (max samples 1) MAX_SAMPLES
      in \<lparr>rw_ring = replicate samples 0, rw_head = 0, rw_total = 0, rw_observed = 0,
          rw_tick_secs = tick_secs, rw_window_secs = window_secs\<rparr>)"

definition rw_capacity_secs :: "rolling_window \<Rightarrow> u64" where
  "rw_capacity_secs w = word_of_nat (length (rw_ring w)) * rw_tick_secs w"

definition rw_add :: "u64 \<Rightarrow> rolling_window \<Rightarrow> rolling_window" where
  "rw_add delta_bytes w =
     (let total = sat_sub (rw_total w) (rw_ring w ! rw_head w);
          ring = (rw_ring w)[rw_head w := delta_bytes];
          total = sat_add total delta_bytes
      in w\<lparr>rw_ring := ring, rw_total := total,
           rw_head := (rw_head w + 1) mod length ring,
           rw_observed := (if rw_observed w < word_of_nat (length ring)
                           then rw_observed w + 1 else rw_observed w)\<rparr>)"

definition rw_is_full :: "rolling_window \<Rightarrow> bool" where
  "rw_is_full w \<longleftrightarrow> word_of_nat (length (rw_ring w)) \<le> rw_observed w"

definition rw_average_bps :: "rolling_window \<Rightarrow> rat" where
  "rw_average_bps w =
     (let secs = min (rw_observed w) (word_of_nat (length (rw_ring w))) * rw_tick_secs w
      in if secs = 0 then 0
         else f64_div (f64_mul (f64_of_nat (unat (rw_total w))) 8) (f64_of_nat (unat secs)))"

definition rw_reset :: "rolling_window \<Rightarrow> rolling_window" where
  "rw_reset w = w\<lparr>rw_ring := map (\<lambda>_. 0) (rw_ring w), rw_total := 0, rw_observed := 0, rw_head := 0\<rparr>"

definition rw_resize :: "u64 \<Rightarrow> u64 \<Rightarrow> rolling_window \<Rightarrow> rolling_window" where
  "rw_resize window_secs tick_secs w = rw_new window_secs tick_secs"

subsection \<open>What it holds\<close>

definition small_samples :: "u64 list \<Rightarrow> bool" where
  "small_samples xs \<longleftrightarrow> list_all (\<lambda>d. unat d \<le> 2 ^ 50) xs"

definition window_wf :: "rolling_window \<Rightarrow> bool" where
  "window_wf w \<longleftrightarrow> 0 < length (rw_ring w) \<and> length (rw_ring w) \<le> MAX_SAMPLES
     \<and> rw_head w < length (rw_ring w)"

definition window_rel :: "u64 list \<Rightarrow> rolling_window \<Rightarrow> bool" where
  "window_rel xs w \<longleftrightarrow> window_wf w \<and> small_samples xs
     \<and> rotate (rw_head w) (rw_ring w) = padded_last (length (rw_ring w)) 0 xs
     \<and> unat (rw_total w) = sum_list (map unat (rw_ring w))
     \<and> unat (rw_observed w) = min (length xs) (length (rw_ring w))"

text \<open>The bytes of the last \<open>n\<close> samples.\<close>

definition recent_bytes :: "nat \<Rightarrow> u64 list \<Rightarrow> nat" where
  "recent_bytes n xs = sum_list (map unat (drop (length xs - n) xs))"

lemma rw_new_rel: "window_rel [] (rw_new window_secs tick_secs)"
  by (simp add: window_rel_def window_wf_def rw_new_def Let_def small_samples_def MAX_SAMPLES_def
      sum_list_replicate)

lemma rw_reset_rel: "window_wf w \<Longrightarrow> window_rel [] (rw_reset w)"
  by (simp add: window_rel_def window_wf_def rw_reset_def small_samples_def map_replicate_const
      comp_def sum_list_triv)

lemma sum_ring_recent:
  "sum_list (map unat (padded_last n (0 :: u64) xs)) = recent_bytes n xs"
  by (simp add: padded_last_def recent_bytes_def sum_list_replicate)

lemma window_rel_total: "window_rel xs w \<Longrightarrow> unat (rw_total w) = recent_bytes (length (rw_ring w)) xs"
  unfolding window_rel_def sum_ring_recent [symmetric]
  by (metis rotate_map sum_list_rotate)

lemma recent_bytes_le:
  "small_samples xs \<Longrightarrow> recent_bytes n xs \<le> n * 2 ^ 50"
proof -
  assume s: "small_samples xs"
  have "sum_list (map unat ys) \<le> length ys * 2 ^ 50" if "small_samples ys" for ys :: "u64 list"
    using that by (induction ys) (auto simp: small_samples_def)
  moreover have "small_samples (drop (length xs - n) xs)"
    using s by (auto simp: small_samples_def list_all_iff dest: in_set_dropD)
  ultimately have "recent_bytes n xs \<le> length (drop (length xs - n) xs) * 2 ^ 50"
    unfolding recent_bytes_def by blast
  also have "\<dots> \<le> n * 2 ^ 50" by (intro mult_le_mono1) simp
  finally show ?thesis .
qed

lemma unat_ring_length:
  "window_wf w \<Longrightarrow> unat (word_of_nat (length (rw_ring w)) :: u64) = length (rw_ring w)"
  by (simp add: window_wf_def MAX_SAMPLES_def unsigned_of_nat take_bit_nat_eq_self)

lemma rw_add_rel:
  assumes "window_rel xs w" "unat d \<le> 2 ^ 50"
  shows "window_rel (xs @ [d]) (rw_add d w)"
proof -
  let ?n = "length (rw_ring w)" and ?h = "rw_head w" and ?w' = "rw_add d w"
  have wf: "window_wf w" and s: "small_samples xs"
    and ring: "rotate ?h (rw_ring w) = padded_last ?n 0 xs"
    and total: "unat (rw_total w) = sum_list (map unat (rw_ring w))"
    and obs: "unat (rw_observed w) = min (length xs) ?n"
    using assms(1) by (simp_all add: window_rel_def)
  have h: "?h < ?n" "0 < ?n" "?n \<le> 3600" using wf by (simp_all add: window_wf_def MAX_SAMPLES_def)
  have ring': "rw_ring ?w' = (rw_ring w)[?h := d]" "length (rw_ring ?w') = ?n"
    by (simp_all add: rw_add_def Let_def)
  have head': "rw_head ?w' = Suc ?h mod ?n" by (simp add: rw_add_def Let_def)
  have s': "small_samples (xs @ [d])" using s assms(2) by (simp add: small_samples_def)
  have "rotate (Suc ?h) ((rw_ring w)[?h := d]) = padded_last ?n 0 (xs @ [d])"
    using rotate_overwrite [OF h(1), of d] padded_last_snoc [OF h(2), of 0 xs d] by (simp only: ring)
  then have rot: "rotate (rw_head ?w') (rw_ring ?w') = padded_last (length (rw_ring ?w')) 0 (xs @ [d])"
    unfolding head' ring' by (simp add: rotate_mod_length del: rotate_Suc)
  have mem: "unat (rw_ring w ! ?h) \<le> sum_list (map unat (rw_ring w))"
    using h(1) by (intro member_le_sum_list) simp_all
  have sum_upd: "sum_list (map unat ((rw_ring w)[?h := d])) + unat (rw_ring w ! ?h)
      = sum_list (map unat (rw_ring w)) + unat d"
    using h(1) mem by (simp add: map_update sum_list_update)
  have "sum_list (map unat (rw_ring ?w')) = recent_bytes ?n (xs @ [d])"
    using rot ring'(2) by (metis rotate_map sum_list_rotate sum_ring_recent)
  then have le: "sum_list (map unat ((rw_ring w)[?h := d])) \<le> 3600 * 2 ^ 50"
    using recent_bytes_le [OF s', of ?n] h(3) unfolding ring'(1) by simp
  have "unat (rw_total ?w') = sum_list (map unat (rw_ring ?w'))"
  proof -
    have "sum_list (map unat (rw_ring w)) - unat (rw_ring w ! ?h) + unat d
        = sum_list (map unat ((rw_ring w)[?h := d]))"
      using sum_upd mem by linarith
    then show ?thesis using le total by (simp add: rw_add_def Let_def unat_ops)
  qed
  moreover have "unat (rw_observed ?w') = min (length (xs @ [d])) (length (rw_ring ?w'))"
  proof (cases "length xs < ?n")
    case True
    then have "rw_observed w < word_of_nat ?n"
      using obs by (simp add: word_less_nat_alt unat_ring_length [OF wf])
    moreover have "unat (rw_observed w + 1) = unat (rw_observed w) + 1"
      using True obs h(3) by (subst unat_add_small) simp_all
    ultimately show ?thesis using True obs by (simp add: rw_add_def Let_def)
  next
    case False
    then have "\<not> rw_observed w < word_of_nat ?n"
      using obs by (simp add: word_less_nat_alt unat_ring_length [OF wf])
    then show ?thesis using False obs by (simp add: rw_add_def Let_def)
  qed
  moreover have "window_wf ?w'"
    using wf by (simp add: window_wf_def rw_add_def Let_def)
  ultimately show ?thesis using rot s' by (simp add: window_rel_def)
qed

lemma rw_add_fields [simp]:
  "length (rw_ring (rw_add d w)) = length (rw_ring w)"
  "rw_tick_secs (rw_add d w) = rw_tick_secs w"
  "rw_window_secs (rw_add d w) = rw_window_secs w"
  by (simp_all add: rw_add_def Let_def)

lemma rw_reset_fields [simp]:
  "length (rw_ring (rw_reset w)) = length (rw_ring w)"
  "rw_tick_secs (rw_reset w) = rw_tick_secs w"
  "rw_window_secs (rw_reset w) = rw_window_secs w"
  by (simp_all add: rw_reset_def)

lemma rw_fold_rel:
  "window_rel xs w \<Longrightarrow> small_samples ds \<Longrightarrow> window_rel (xs @ ds) (fold rw_add ds w)"
proof (induction ds arbitrary: xs w)
  case (Cons d ds)
  from Cons.prems rw_add_rel [of xs w d] have "window_rel (xs @ [d]) (rw_add d w)"
    by (simp add: small_samples_def)
  from Cons.IH [OF this] Cons.prems(2) show ?case by (simp add: small_samples_def)
qed simp

lemma rw_fold_fields [simp]:
  "length (rw_ring (fold rw_add ds w)) = length (rw_ring w)"
  "rw_tick_secs (fold rw_add ds w) = rw_tick_secs w"
  by (induction ds arbitrary: w) simp_all

lemma rw_is_full_iff: "window_rel xs w \<Longrightarrow> rw_is_full w \<longleftrightarrow> length (rw_ring w) \<le> length xs"
  using unat_ring_length [of w] by (auto simp: window_rel_def rw_is_full_def word_le_nat_alt)

definition window_secs_nat :: "rolling_window \<Rightarrow> nat" where
  "window_secs_nat w = length (rw_ring w) * unat (rw_tick_secs w)"

lemma rw_average_full:
  assumes "window_rel xs w" "rw_is_full w" "0 < unat (rw_tick_secs w)"
    and "window_secs_nat w \<le> 2 ^ 53" "t \<le> 2 ^ 53"
    and "8 * recent_bytes (length (rw_ring w)) xs < 2 ^ 53"
  shows "f64_of_nat t \<le> rw_average_bps w \<longleftrightarrow>
    t * window_secs_nat w \<le> 8 * recent_bytes (length (rw_ring w)) xs"
proof -
  have wf: "window_wf w" using assms(1) by (simp add: window_rel_def)
  let ?n = "word_of_nat (length (rw_ring w)) :: u64"
  have obs: "min (rw_observed w) ?n = ?n"
    using assms(2) by (simp add: rw_is_full_def min_absorb2)
  have secs: "unat (?n * rw_tick_secs w) = window_secs_nat w"
    using assms(4) by (subst unat_mult_small) (simp_all add: unat_ring_length [OF wf] window_secs_nat_def)
  have pos: "0 < window_secs_nat w" using assms(3) wf by (simp add: window_secs_nat_def window_wf_def)
  with secs have nz: "?n * rw_tick_secs w \<noteq> 0" by auto
  show ?thesis
    using nz f64_average_ge_iff [OF pos assms(6,5,4)]
    by (simp add: rw_average_bps_def obs secs window_rel_total [OF assms(1)] Let_def)
qed

text \<open>C23: The threshold decision is exact as long as the samples and the trigger are small enough for a
  double (at most \<open>2 ^ 53\<close>): after any samples since the window was created, the
  window is full exactly when it has seen as many samples as it has slots, and then its
  rounded floating-point average reaches an integer trigger exactly when eight times the
  bytes of the last samples reach trigger times seconds.\<close>

theorem threshold_decision_exact:
  assumes "small_samples ds" "0 < unat tick_secs"
    and "w = fold rw_add ds (rw_new window_secs tick_secs)"
    and "window_secs_nat w \<le> 2 ^ 53" "trigger \<le> 2 ^ 53"
    and "8 * recent_bytes (length (rw_ring w)) ds < 2 ^ 53"
  shows "rw_is_full w \<and> f64_of_nat trigger \<le> rw_average_bps w \<longleftrightarrow>
    length (rw_ring w) \<le> length ds
    \<and> trigger * window_secs_nat w \<le> 8 * recent_bytes (length (rw_ring w)) ds"
proof -
  have rel: "window_rel ds w"
    using rw_fold_rel [OF rw_new_rel assms(1)] by (simp add: assms(3))
  have "rw_tick_secs w = max tick_secs 1"
    by (simp add: assms(3) rw_new_def Let_def)
  then have "0 < unat (rw_tick_secs w)" by (simp add: unat_ops)
  from rw_average_full [OF rel _ this assms(4,5,6)] rw_is_full_iff [OF rel] show ?thesis by blast
qed

lemma threshold_decision_exact_witness:
  "rw_is_full (fold rw_add [1000, 2000, 6000] (rw_new 2 1))
   \<and> f64_of_nat 32000 \<le> rw_average_bps (fold rw_add [1000, 2000, 6000] (rw_new 2 1))"
proof -
  have "length (rw_ring (rw_new 2 1)) = 2" "rw_tick_secs (rw_new 2 1) = 1"
    by (simp_all add: rw_new_def Let_def MAX_SAMPLES_def max_def word_le_nat_alt)
  then show ?thesis
    using threshold_decision_exact [of "[1000, 2000, 6000]" 1 _ 2 32000]
    by (simp add: small_samples_def window_secs_nat_def recent_bytes_def)
qed

end
