(* ===== verification/Limiter.thy ===== *)
theory Limiter
  imports Config Window
begin

section \<open>Limiter: the NORMAL / LIMITED lifecycle\<close>

text \<open>
  \<open>vm-bandwidth-core/src/limiter.rs\<close>: the policy index, \<open>plan_reload\<close>, \<open>commit_reload\<close>,
  \<open>revert_failed_action\<close>, \<open>tick\<close> with \<open>eval_dir\<close>, and the accessors. The limiter is a record
  of partial functions; wherever the code iterates over a hash map or a hash set, the model
  takes the order as an argument (\<open>keys\<close>, \<open>flows\<close>, \<open>ips\<close>), and the theorems hold for every
  order.
\<close>

subsection \<open>State\<close>

record ip_totals =
  it_rx_bytes :: u64
  it_tx_bytes :: u64
  it_rx_packets :: u64
  it_tx_packets :: u64

definition ip_totals_default :: ip_totals where
  "ip_totals_default = \<lparr>it_rx_bytes = 0, it_tx_bytes = 0, it_rx_packets = 0, it_tx_packets = 0\<rparr>"

type_synonym flow_key = "u32 \<times> u8"

datatype limit_action =
    Install (la_ipv4: u32) (la_direction: u8) (la_rate_bps: u64) (la_burst_bytes: u64)
      (la_algorithm: u32) (la_window_ns: u64)
  | Remove (la_ipv4: u32) (la_direction: u8)

datatype phase = Normal | Limited

record dir_state =
  ds_phase :: phase
  ds_limited_since :: u64
  ds_limited_until :: u64
  ds_applied :: "dir_policy option"

definition dir_state_default :: dir_state where
  "dir_state_default = \<lparr>ds_phase = Normal, ds_limited_since = 0, ds_limited_until = 0, ds_applied = None\<rparr>"

record policy_range =
  pr_start :: u32
  pr_end :: u32
  pr_policy :: effective_policy

definition lookup :: "policy_range list \<Rightarrow> (u32 \<rightharpoonup> effective_policy) \<Rightarrow> u32 \<Rightarrow> effective_policy option" where
  "lookup ranges overrides ip =
     (case overrides ip of
        Some p \<Rightarrow> Some p
      | None \<Rightarrow>
          (case find (\<lambda>r. pr_start r \<le> ip \<and> ip \<le> pr_end r) ranges of
             None \<Rightarrow> None
           | Some r \<Rightarrow> if ep_is_empty (pr_policy r) then None else Some (pr_policy r)))"

definition dir_of :: "u8 \<Rightarrow> effective_policy \<Rightarrow> dir_policy option" where
  "dir_of dir p = (if dir = DIR_RX then ep_rx p else if dir = DIR_TX then ep_tx p else None)"

definition flow_policy ::
  "policy_range list \<Rightarrow> (u32 \<rightharpoonup> effective_policy) \<Rightarrow> flow_key \<Rightarrow> dir_policy option" where
  "flow_policy ranges overrides flow =
     Option.bind (lookup ranges overrides (fst flow)) (dir_of (snd flow))"

record limiter =
  lm_tick_secs :: u64
  lm_ranges :: "policy_range list"
  lm_overrides :: "u32 \<rightharpoonup> effective_policy"
  lm_windows :: "flow_key \<rightharpoonup> rolling_window"
  lm_states :: "flow_key \<rightharpoonup> dir_state"
  lm_prev_totals :: "u32 \<rightharpoonup> ip_totals"
  lm_expired :: "flow_key \<rightharpoonup> dir_state"

definition limiter_new :: "u64 \<Rightarrow> limiter" where
  "limiter_new tick_secs =
     \<lparr>lm_tick_secs = max tick_secs 1, lm_ranges = [], lm_overrides = Map.empty,
      lm_windows = Map.empty, lm_states = Map.empty, lm_prev_totals = Map.empty,
      lm_expired = Map.empty\<rparr>"

definition effective_policy_of :: "limiter \<Rightarrow> u32 \<Rightarrow> effective_policy option" where
  "effective_policy_of l ip = lookup (lm_ranges l) (lm_overrides l) ip"

subsection \<open>Reload\<close>

definition index_override ::
  "validated_range \<Rightarrow> u32 \<Rightarrow> (u32 \<rightharpoonup> effective_policy) \<Rightarrow> policy_error + (u32 \<rightharpoonup> effective_policy)" where
  "index_override vr ip overrides =
     try_bind (resolve (vr_policy vr) (vr_overrides vr ip)) (\<lambda>eff. Inr (overrides(ip \<mapsto> eff)))"

definition index_range ::
  "((u32 \<rightharpoonup> policy_fields) \<Rightarrow> u32 list) \<Rightarrow> validated_range
    \<Rightarrow> policy_range list \<times> (u32 \<rightharpoonup> effective_policy)
    \<Rightarrow> policy_error + policy_range list \<times> (u32 \<rightharpoonup> effective_policy)" where
  "index_range keys vr acc =
     try_bind (resolve (vr_policy vr) None) (\<lambda>base.
     try_bind (try_fold (index_override vr) (keys (vr_overrides vr)) (snd acc)) (\<lambda>overrides.
     Inr (fst acc @ [\<lparr>pr_start = ir_start (vr_inner vr), pr_end = ir_end (vr_inner vr), pr_policy = base\<rparr>],
          overrides)))"

definition build_index ::
  "((u32 \<rightharpoonup> policy_fields) \<Rightarrow> u32 list) \<Rightarrow> validated_config
    \<Rightarrow> policy_error + policy_range list \<times> (u32 \<rightharpoonup> effective_policy)" where
  "build_index keys cfg =
     try_bind (try_fold (index_range keys) (vc_ranges cfg) ([], Map.empty)) (\<lambda>(ranges, overrides).
     Inr (sort_key pr_start ranges, overrides))"

record reload_plan =
  rp_removes :: "limit_action list"
  rp_installs :: "limit_action list"
  rp_new_ranges :: "policy_range list"
  rp_new_overrides :: "u32 \<rightharpoonup> effective_policy"
  rp_flow_resets :: "flow_key list"
  rp_flow_updates :: "(flow_key \<times> u64 \<times> dir_policy) list"

definition rp_actions :: "reload_plan \<Rightarrow> limit_action list" where
  "rp_actions plan = rp_removes plan @ rp_installs plan"

definition install_of :: "flow_key \<Rightarrow> dir_policy \<Rightarrow> limit_action" where
  "install_of flow p =
     Install (fst flow) (snd flow) (dpo_limit_bps p) (dpo_burst_bytes p) (dpo_algorithm p)
       (sat_mul (dpo_limit_window_secs p) 1000000000)"

definition remove_of :: "flow_key \<Rightarrow> limit_action" where
  "remove_of flow = Remove (fst flow) (snd flow)"

definition limit_changed :: "dir_policy \<Rightarrow> dir_policy \<Rightarrow> bool" where
  "limit_changed np applied \<longleftrightarrow>
     dpo_limit_bps np \<noteq> dpo_limit_bps applied
     \<or> dpo_burst_bytes np \<noteq> dpo_burst_bytes applied
     \<or> dpo_algorithm np \<noteq> dpo_algorithm applied
     \<or> dpo_limit_window_secs np \<noteq> dpo_limit_window_secs applied"

definition plan_flow :: "limiter \<Rightarrow> u64 \<Rightarrow> flow_key \<Rightarrow> reload_plan \<Rightarrow> reload_plan" where
  "plan_flow l now flow plan =
     (let new_dir = flow_policy (rp_new_ranges plan) (rp_new_overrides plan) flow in
      case lm_states l flow of
        None \<Rightarrow> plan
      | Some state \<Rightarrow>
        (case ds_applied state of
           None \<Rightarrow> plan
         | Some applied \<Rightarrow>
           (case new_dir of
              None \<Rightarrow> plan\<lparr>rp_removes := rp_removes plan @ [remove_of flow],
                          rp_flow_resets := rp_flow_resets plan @ [flow]\<rparr>
            | Some np \<Rightarrow>
                let limited_until = sat_add (ds_limited_since state) (dpo_limit_duration_secs np) in
                if limited_until \<le> now
                then plan\<lparr>rp_removes := rp_removes plan @ [remove_of flow],
                          rp_flow_resets := rp_flow_resets plan @ [flow]\<rparr>
                else
                  let plan =
                    (if limit_changed np applied
                     then plan\<lparr>rp_installs := rp_installs plan @ [install_of flow np]\<rparr>
                     else plan)
                  in plan\<lparr>rp_flow_updates := rp_flow_updates plan @ [(flow, limited_until, np)]\<rparr>)))"

definition is_limited_state :: "dir_state option \<Rightarrow> bool" where
  "is_limited_state s \<longleftrightarrow> (case s of None \<Rightarrow> False | Some s \<Rightarrow> ds_phase s = Limited)"

definition plan_reload ::
  "((u32 \<rightharpoonup> policy_fields) \<Rightarrow> u32 list) \<Rightarrow> flow_key list \<Rightarrow> limiter \<Rightarrow> validated_config \<Rightarrow> u64
    \<Rightarrow> policy_error + reload_plan" where
  "plan_reload keys flows l cfg now =
     try_bind (build_index keys cfg) (\<lambda>(new_ranges, new_overrides).
     let limited = filter (\<lambda>flow. is_limited_state (lm_states l flow)) flows
     in Inr (fold (plan_flow l now) limited
          \<lparr>rp_removes = [], rp_installs = [], rp_new_ranges = new_ranges,
           rp_new_overrides = new_overrides, rp_flow_resets = [], rp_flow_updates = []\<rparr>))"

definition reset_flow :: "flow_key \<Rightarrow> limiter \<Rightarrow> limiter" where
  "reset_flow flow l =
     (let l = (case lm_states l flow of None \<Rightarrow> l
               | Some _ \<Rightarrow> l\<lparr>lm_states := (lm_states l)(flow \<mapsto> dir_state_default)\<rparr>)
      in case lm_windows l flow of None \<Rightarrow> l
         | Some w \<Rightarrow> l\<lparr>lm_windows := (lm_windows l)(flow \<mapsto> rw_reset w)\<rparr>)"

definition update_flow :: "flow_key \<times> u64 \<times> dir_policy \<Rightarrow> limiter \<Rightarrow> limiter" where
  "update_flow u l =
     (case u of (flow, limited_until, applied) \<Rightarrow>
        (case lm_states l flow of None \<Rightarrow> l
         | Some s \<Rightarrow> l\<lparr>lm_states := (lm_states l)(flow \<mapsto>
              s\<lparr>ds_limited_until := limited_until, ds_applied := Some applied\<rparr>)\<rparr>))"

definition keep_window :: "limiter \<Rightarrow> flow_key \<Rightarrow> rolling_window option" where
  "keep_window l flow =
     (case lm_windows l flow of None \<Rightarrow> None
      | Some w \<Rightarrow>
          (case flow_policy (lm_ranges l) (lm_overrides l) flow of
             None \<Rightarrow> None
           | Some np \<Rightarrow>
               Some (if dpo_window_secs np \<noteq> rw_window_secs w
                     then rw_resize (dpo_window_secs np) (lm_tick_secs l) w else w)))"

definition commit_reload :: "reload_plan \<Rightarrow> limiter \<Rightarrow> limiter" where
  "commit_reload plan l =
     (let l = l\<lparr>lm_ranges := rp_new_ranges plan, lm_overrides := rp_new_overrides plan\<rparr>;
          l = l\<lparr>lm_prev_totals := retain (\<lambda>ip _. lookup (lm_ranges l) (lm_overrides l) ip \<noteq> None)
                                   (lm_prev_totals l)\<rparr>;
          l = fold reset_flow (rp_flow_resets plan) l;
          l = fold update_flow (rp_flow_updates plan) l;
          l = l\<lparr>lm_windows := keep_window l\<rparr>
      in l\<lparr>lm_states := retain (\<lambda>flow s. ds_phase s = Limited
                                 \<or> flow_policy (lm_ranges l) (lm_overrides l) flow \<noteq> None)
                          (lm_states l)\<rparr>)"

definition revert_failed_action :: "limit_action \<Rightarrow> limiter \<Rightarrow> limiter" where
  "revert_failed_action action l =
     (case action of
        Install ipv4 direction _ _ _ _ \<Rightarrow>
          (case lm_states l (ipv4, direction) of
             None \<Rightarrow> l
           | Some _ \<Rightarrow> l\<lparr>lm_states := (lm_states l)((ipv4, direction) \<mapsto> dir_state_default)\<rparr>)
      | Remove ipv4 direction \<Rightarrow>
          (case lm_expired l (ipv4, direction) of
             None \<Rightarrow> l
           | Some prev \<Rightarrow> l\<lparr>lm_expired := (lm_expired l)((ipv4, direction) := None),
                            lm_states := (lm_states l)((ipv4, direction) \<mapsto> prev)\<rparr>))"

subsection \<open>Tick\<close>

definition eval_dir ::
  "u32 \<Rightarrow> u8 \<Rightarrow> dir_policy option \<Rightarrow> u64 \<Rightarrow> u64 \<Rightarrow> limiter \<times> limit_action list
    \<Rightarrow> limiter \<times> limit_action list" where
  "eval_dir ip dir dir_policy delta now la =
     (case dir_policy of
        None \<Rightarrow> la
      | Some np \<Rightarrow>
          let (l, actions) = la;
              flow = (ip, dir);
              window = rw_add delta (unwrap_or (rw_new (dpo_window_secs np) (lm_tick_secs l))
                                       (lm_windows l flow));
              l = l\<lparr>lm_windows := (lm_windows l)(flow \<mapsto> window)\<rparr>;
              state = unwrap_or dir_state_default (lm_states l flow);
              l = l\<lparr>lm_states := (lm_states l)(flow \<mapsto> state)\<rparr>
          in case ds_phase state of
               Normal \<Rightarrow>
                 if rw_is_full window \<and> f64_of_nat (unat (trigger_bps np)) \<le> rw_average_bps window
                 then
                   (l\<lparr>lm_states := (lm_states l)(flow \<mapsto>
                       \<lparr>ds_phase = Limited, ds_limited_since = now,
                        ds_limited_until = sat_add now (dpo_limit_duration_secs np),
                        ds_applied = Some np\<rparr>)\<rparr>,
                    actions @ [install_of flow np])
                 else (l, actions)
             | Limited \<Rightarrow>
                 if ds_limited_until state \<le> now
                 then
                   (l\<lparr>lm_windows := (lm_windows l)(flow \<mapsto> rw_reset window),
                      lm_expired := (lm_expired l)(flow \<mapsto> state),
                      lm_states := (lm_states l)(flow \<mapsto> dir_state_default)\<rparr>,
                    actions @ [remove_of flow])
                 else (l, actions))"

definition tick_ip ::
  "u64 \<Rightarrow> (u32 \<rightharpoonup> ip_totals) \<Rightarrow> u32 \<Rightarrow> limiter \<times> limit_action list \<Rightarrow> limiter \<times> limit_action list" where
  "tick_ip now totals ip la =
     (case effective_policy_of (fst la) ip of
        None \<Rightarrow> la
      | Some policy \<Rightarrow>
          let (l, actions) = la;
              cur = unwrap_or ip_totals_default (totals ip);
              (rx_delta, tx_delta) =
                (case lm_prev_totals l ip of
                   None \<Rightarrow> (0, 0)
                 | Some prev \<Rightarrow> (sat_sub (it_rx_bytes cur) (it_rx_bytes prev),
                                sat_sub (it_tx_bytes cur) (it_tx_bytes prev)));
              l = l\<lparr>lm_prev_totals := (lm_prev_totals l)(ip \<mapsto> cur)\<rparr>
          in eval_dir ip DIR_TX (ep_tx policy) tx_delta now
               (eval_dir ip DIR_RX (ep_rx policy) rx_delta now (l, actions)))"

definition tick_ips :: "limiter \<Rightarrow> (u32 \<rightharpoonup> ip_totals) \<Rightarrow> u32 set" where
  "tick_ips l totals =
     dom totals \<union> fst ` dom (lm_windows l)
     \<union> fst ` {flow. is_limited_state (lm_states l flow)}"

definition tick :: "u32 list \<Rightarrow> u64 \<Rightarrow> (u32 \<rightharpoonup> ip_totals) \<Rightarrow> limiter \<Rightarrow> limiter \<times> limit_action list" where
  "tick ips now totals l = fold (tick_ip now totals) ips (l\<lparr>lm_expired := Map.empty\<rparr>, [])"

subsection \<open>Accessors\<close>

definition window_avg_bps :: "limiter \<Rightarrow> u32 \<Rightarrow> u8 \<Rightarrow> rat" where
  "window_avg_bps l ip dir = unwrap_or 0 (map_option rw_average_bps (lm_windows l (ip, dir)))"

definition state_of :: "limiter \<Rightarrow> u32 \<Rightarrow> u8 \<Rightarrow> dir_state" where
  "state_of l ip dir = unwrap_or dir_state_default (lm_states l (ip, dir))"

definition is_limited :: "limiter \<Rightarrow> u32 \<Rightarrow> u8 \<Rightarrow> bool" where
  "is_limited l ip dir \<longleftrightarrow> ds_phase (state_of l ip dir) = Limited"

definition remaining_secs :: "limiter \<Rightarrow> u32 \<Rightarrow> u8 \<Rightarrow> u64 \<Rightarrow> u64" where
  "remaining_secs l ip dir now =
     (let s = state_of l ip dir in
      if ds_phase s \<noteq> Limited then 0 else sat_sub (ds_limited_until s) now)"

definition limited_count :: "flow_key list \<Rightarrow> limiter \<Rightarrow> u32 \<Rightarrow> u32 \<Rightarrow> nat" where
  "limited_count flows l start end_ip =
     length (filter (\<lambda>flow. is_limited_state (lm_states l flow)
       \<and> start \<le> fst flow \<and> fst flow \<le> end_ip) flows)"

subsection \<open>A tick, flow by flow\<close>

text \<open>
  What a tick does to one flow depends on that flow alone: its policy, its delta, its window
  and its state. \<open>flow_eval\<close> gives the new window and state, the action and the state kept
  for a failed removal.
\<close>

definition flow_eval ::
  "u64 \<Rightarrow> dir_policy \<Rightarrow> u64 \<Rightarrow> u64 \<Rightarrow> flow_key \<Rightarrow> rolling_window option \<Rightarrow> dir_state option
    \<Rightarrow> rolling_window option \<times> dir_state option \<times> limit_action list \<times> dir_state option" where
  "flow_eval tick_secs np delta now flow w s =
     (let window = rw_add delta (unwrap_or (rw_new (dpo_window_secs np) tick_secs) w);
          state = unwrap_or dir_state_default s
      in case ds_phase state of
           Normal \<Rightarrow>
             if rw_is_full window \<and> f64_of_nat (unat (trigger_bps np)) \<le> rw_average_bps window
             then (Some window,
                   Some \<lparr>ds_phase = Limited, ds_limited_since = now,
                         ds_limited_until = sat_add now (dpo_limit_duration_secs np),
                         ds_applied = Some np\<rparr>, [install_of flow np], None)
             else (Some window, Some state, [], None)
         | Limited \<Rightarrow>
             if ds_limited_until state \<le> now
             then (Some (rw_reset window), Some dir_state_default, [remove_of flow], Some state)
             else (Some window, Some state, [], None))"

definition dir_bytes :: "u8 \<Rightarrow> ip_totals \<Rightarrow> u64" where
  "dir_bytes dir t = (if dir = DIR_RX then it_rx_bytes t else it_tx_bytes t)"

definition flow_delta :: "limiter \<Rightarrow> (u32 \<rightharpoonup> ip_totals) \<Rightarrow> flow_key \<Rightarrow> u64" where
  "flow_delta l totals flow =
     (case lm_prev_totals l (fst flow) of
        None \<Rightarrow> 0
      | Some prev \<Rightarrow> sat_sub (dir_bytes (snd flow) (unwrap_or ip_totals_default (totals (fst flow))))
                           (dir_bytes (snd flow) prev))"

definition la_flow :: "limit_action \<Rightarrow> flow_key" where
  "la_flow a = (la_ipv4 a, la_direction a)"

definition acts_of :: "flow_key \<Rightarrow> limit_action list \<Rightarrow> limit_action list" where
  "acts_of flow acts = filter (\<lambda>a. la_flow a = flow) acts"

lemma la_flow_simps [simp]:
  "la_flow (install_of flow p) = flow" "la_flow (remove_of flow) = flow"
  by (simp_all add: la_flow_def install_of_def remove_of_def)

lemma acts_of_simps [simp]:
  "acts_of flow [] = []"
  "acts_of flow (a # acts) = (if la_flow a = flow then a # acts_of flow acts else acts_of flow acts)"
  "acts_of flow (acts @ acts') = acts_of flow acts @ acts_of flow acts'"
  by (simp_all add: acts_of_def)

definition flow_view :: "flow_key \<Rightarrow> limiter \<times> limit_action list
    \<Rightarrow> rolling_window option \<times> dir_state option \<times> limit_action list \<times> dir_state option" where
  "flow_view flow la =
     (lm_windows (fst la) flow, lm_states (fst la) flow, acts_of flow (snd la), lm_expired (fst la) flow)"

lemma flow_view_prev [simp]:
  "flow_view flow (l\<lparr>lm_prev_totals := x\<rparr>, acts) = flow_view flow (l, acts)"
  by (simp add: flow_view_def)

definition same_index :: "limiter \<Rightarrow> limiter \<Rightarrow> bool" where
  "same_index l l' \<longleftrightarrow> lm_tick_secs l' = lm_tick_secs l \<and> lm_ranges l' = lm_ranges l
     \<and> lm_overrides l' = lm_overrides l"

lemma eval_dir_index:
  "same_index (fst la) (fst (eval_dir ip dir dp delta now la))
   \<and> lm_prev_totals (fst (eval_dir ip dir dp delta now la)) = lm_prev_totals (fst la)"
  by (cases la) (auto simp: same_index_def eval_dir_def Let_def split: option.split phase.split)

lemma eval_dir_other:
  "flow \<noteq> (ip, dir) \<Longrightarrow> flow_view flow (eval_dir ip dir dp delta now la) = flow_view flow la"
  by (cases la) (auto simp: flow_view_def eval_dir_def Let_def split: option.split phase.split)

lemma eval_dir_same:
  assumes "flow_view (ip, dir) la = (w, s, [], None)"
  shows "flow_view (ip, dir) (eval_dir ip dir (Some np) delta now la)
    = flow_eval (lm_tick_secs (fst la)) np delta now (ip, dir) w s"
  using assms
  by (cases la) (auto simp: flow_view_def eval_dir_def flow_eval_def Let_def split: phase.split)

lemma eval_dir_None [simp]: "eval_dir ip dir None delta now la = la"
  by (simp add: eval_dir_def)

text \<open>The flow as a tick of its address leaves it.\<close>

definition flow_ticked :: "u64 \<Rightarrow> (u32 \<rightharpoonup> ip_totals) \<Rightarrow> limiter \<Rightarrow> flow_key
    \<Rightarrow> rolling_window option \<times> dir_state option \<times> limit_action list \<times> dir_state option" where
  "flow_ticked now totals l flow =
     (case flow_policy (lm_ranges l) (lm_overrides l) flow of
        None \<Rightarrow> (lm_windows l flow, lm_states l flow, [], None)
      | Some np \<Rightarrow>
          flow_eval (lm_tick_secs l) np (flow_delta l totals flow) now flow
            (lm_windows l flow) (lm_states l flow))"

lemma tick_ip_index: "same_index (fst la) (fst (tick_ip now totals ip la))"
proof (cases "effective_policy_of (fst la) ip")
  case None
  then show ?thesis by (simp add: tick_ip_def same_index_def)
next
  case (Some policy)
  then show ?thesis
    using eval_dir_index
    by (cases la) (auto simp: tick_ip_def Let_def same_index_def split: prod.split)
qed

lemma tick_ip_other:
  "fst flow \<noteq> ip \<Longrightarrow> flow_view flow (tick_ip now totals ip la) = flow_view flow la
     \<and> lm_prev_totals (fst (tick_ip now totals ip la)) (fst flow) = lm_prev_totals (fst la) (fst flow)"
proof (cases "effective_policy_of (fst la) ip")
  case None
  then show ?thesis by (simp add: tick_ip_def)
next
  case (Some policy)
  assume f: "fst flow \<noteq> ip"
  then have "flow \<noteq> (ip, DIR_TX)" "flow \<noteq> (ip, DIR_RX)" by auto
  with f Some show ?thesis
    by (cases la) (auto simp: tick_ip_def Let_def eval_dir_other eval_dir_index
        split: prod.split)
qed

lemma tick_ip_same:
  assumes "flow_view flow la = (lm_windows (fst la) flow, lm_states (fst la) flow, [], None)"
  shows "flow_view flow (tick_ip now totals (fst flow) la) = flow_ticked now totals (fst la) flow"
proof -
  obtain ip dir where f: "flow = (ip, dir)" by force
  obtain l acts where la: "la = (l, acts)" by force
  show ?thesis
  proof (cases "lookup (lm_ranges l) (lm_overrides l) ip")
    case None
    then show ?thesis using assms
      by (simp add: tick_ip_def effective_policy_of_def flow_ticked_def flow_policy_def f la)
  next
    case (Some policy)
    let ?cur = "unwrap_or ip_totals_default (totals ip)"
    let ?l = "l\<lparr>lm_prev_totals := (lm_prev_totals l)(ip \<mapsto> ?cur)\<rparr>"
    have view: "flow_view flow (?l, acts) = (lm_windows l flow, lm_states l flow, [], None)"
      using assms by (simp add: flow_view_def la)
    have delta: "(case lm_prev_totals l ip of None \<Rightarrow> (0, 0)
        | Some prev \<Rightarrow> (sat_sub (it_rx_bytes ?cur) (it_rx_bytes prev),
                       sat_sub (it_tx_bytes ?cur) (it_tx_bytes prev)))
      = (flow_delta l totals (ip, DIR_RX), flow_delta l totals (ip, DIR_TX))"
      by (simp add: flow_delta_def dir_bytes_def split: option.split)
    have tick: "tick_ip now totals ip (l, acts) =
      eval_dir ip DIR_TX (ep_tx policy) (flow_delta l totals (ip, DIR_TX)) now
        (eval_dir ip DIR_RX (ep_rx policy) (flow_delta l totals (ip, DIR_RX)) now (?l, acts))"
      using Some by (simp add: tick_ip_def effective_policy_of_def Let_def delta)
    have index: "lm_tick_secs (fst (eval_dir ip DIR_RX (ep_rx policy) d now (?l, acts))) = lm_tick_secs l" for d
      using eval_dir_index [of "(?l, acts)"] by (simp add: same_index_def)
    consider (rx) "dir = DIR_RX" | (tx) "dir = DIR_TX" | (other) "dir \<noteq> DIR_RX" "dir \<noteq> DIR_TX" by blast
    then show ?thesis
    proof cases
      case rx
      have p: "flow_policy (lm_ranges l) (lm_overrides l) (ip, DIR_RX) = ep_rx policy"
        using Some by (simp add: flow_policy_def dir_of_def)
      show ?thesis
      proof (cases "ep_rx policy")
        case None
        then show ?thesis using view rx by (simp add: f la tick eval_dir_other flow_ticked_def p)
      next
        case rx_p: (Some np)
        from eval_dir_same [OF view [unfolded f rx], of np] rx_p p rx show ?thesis
          by (simp add: f la tick eval_dir_other flow_ticked_def)
      qed
    next
      case tx
      have p: "flow_policy (lm_ranges l) (lm_overrides l) (ip, DIR_TX) = ep_tx policy"
        using Some by (simp add: flow_policy_def dir_of_def)
      let ?la = "eval_dir ip DIR_RX (ep_rx policy) (flow_delta l totals (ip, DIR_RX)) now (?l, acts)"
      have view': "flow_view (ip, DIR_TX) ?la = (lm_windows l flow, lm_states l flow, [], None)"
        using view tx by (simp add: f eval_dir_other)
      show ?thesis
      proof (cases "ep_tx policy")
        case None
        then show ?thesis using view' tx by (simp add: f la tick flow_ticked_def p)
      next
        case tx_p: (Some np)
        from eval_dir_same [OF view', of np] tx_p p tx show ?thesis
          by (simp add: f la tick flow_ticked_def index)
      qed
    next
      case other
      then have "flow_policy (lm_ranges l) (lm_overrides l) flow = None"
        using Some by (simp add: flow_policy_def f dir_of_def)
      with other view show ?thesis by (simp add: f la tick eval_dir_other flow_ticked_def)
    qed
  qed
qed

lemma flow_ticked_index:
  assumes "same_index l l'" "lm_windows l' flow = lm_windows l flow" "lm_states l' flow = lm_states l flow"
    and "lm_prev_totals l' (fst flow) = lm_prev_totals l (fst flow)"
  shows "flow_ticked now totals l' flow = flow_ticked now totals l flow"
  using assms by (simp add: flow_ticked_def same_index_def flow_delta_def split: option.split)

lemma tick_fold_view:
  assumes "distinct ips" "flow_view flow la = (lm_windows (fst la) flow, lm_states (fst la) flow, [], None)"
  shows "flow_view flow (fold (tick_ip now totals) ips la) =
      (if fst flow \<in> set ips then flow_ticked now totals (fst la) flow else flow_view flow la)
    \<and> same_index (fst la) (fst (fold (tick_ip now totals) ips la))"
  using assms
proof (induction ips arbitrary: la)
  case Nil
  then show ?case by (simp add: same_index_def)
next
  case (Cons ip ips)
  let ?la = "tick_ip now totals ip la"
  have index: "same_index (fst la) (fst ?la)" by (rule tick_ip_index)
  have trans: "same_index (fst ?la) l \<Longrightarrow> same_index (fst la) l" for l
    using index by (simp add: same_index_def)
  show ?case
  proof (cases "fst flow = ip")
    case True
    have same: "flow_view flow ?la = flow_ticked now totals (fst la) flow"
      using tick_ip_same [OF Cons.prems(2)] True by simp
    have rest: "flow_view flow (fold (tick_ip now totals) js la')= flow_view flow la'
        \<and> same_index (fst la') (fst (fold (tick_ip now totals) js la'))"
      if "fst flow \<notin> set js" for js la'
      using that
    proof (induction js arbitrary: la')
      case (Cons j js)
      then show ?case
        using tick_ip_other [of flow j] tick_ip_index [of la' now totals j]
        by (auto simp: same_index_def)
    qed (simp add: same_index_def)
    from rest [of ips ?la] Cons.prems(1) True same trans show ?thesis by auto
  next
    case False
    note other = tick_ip_other [OF False, of now totals la]
    then have view: "flow_view flow ?la = (lm_windows (fst ?la) flow, lm_states (fst ?la) flow, [], None)"
      and eqs: "lm_windows (fst ?la) flow = lm_windows (fst la) flow"
        "lm_states (fst ?la) flow = lm_states (fst la) flow"
      using Cons.prems(2) by (auto simp: flow_view_def)
    have "flow_ticked now totals (fst ?la) flow = flow_ticked now totals (fst la) flow"
      using flow_ticked_index [OF index eqs] other by simp
    with Cons.IH [OF _ view] Cons.prems(1) other trans False show ?thesis by auto
  qed
qed

lemma tick_view:
  assumes "distinct ips"
  shows "flow_view flow (tick ips now totals l) =
      (if fst flow \<in> set ips then flow_ticked now totals l flow
       else (lm_windows l flow, lm_states l flow, [], None))"
    and "same_index l (fst (tick ips now totals l))"
proof -
  let ?l = "l\<lparr>lm_expired := Map.empty\<rparr>"
  have view: "flow_view flow (?l, []) = (lm_windows (fst (?l, [])) flow, lm_states (fst (?l, [])) flow, [], None)"
    by (simp add: flow_view_def)
  have same: "same_index l ?l" by (simp add: same_index_def)
  have "flow_ticked now totals ?l flow = flow_ticked now totals l flow"
    by (rule flow_ticked_index [OF same]) simp_all
  with tick_fold_view [OF assms view, of now totals] view
  show "flow_view flow (tick ips now totals l) =
      (if fst flow \<in> set ips then flow_ticked now totals l flow
       else (lm_windows l flow, lm_states l flow, [], None))"
    and "same_index l (fst (tick ips now totals l))"
    by (auto simp: tick_def same_index_def)
qed


end
