(* ===== verification/Policy_Index.thy ===== *)
theory Policy_Index
  imports Limiter
begin

section \<open>The policy index\<close>

text \<open>
  What \<open>Limiter::build_index\<close> and \<open>lookup\<close> (\<open>vm-bandwidth-core/src/limiter.rs\<close>) make of a
  validated configuration: for every address and direction, the policy of the range that
  contains the address with the address's override merged over it.
\<close>

definition resolved :: "policy_fields \<Rightarrow> policy_fields option \<Rightarrow> effective_policy" where
  "resolved f ov = (case resolve f ov of Inl _ \<Rightarrow> effective_policy_default | Inr eff \<Rightarrow> eff)"

definition range_for :: "validated_range list \<Rightarrow> u32 \<Rightarrow> validated_range option" where
  "range_for vrs ip = find (\<lambda>vr. range_contains (vr_inner vr) ip) vrs"

definition configured_policy :: "validated_config \<Rightarrow> flow_key \<Rightarrow> dir_policy option" where
  "configured_policy cfg flow =
     (case range_for (vc_ranges cfg) (fst flow) of
        None \<Rightarrow> None
      | Some vr \<Rightarrow> dir_of (snd flow) (resolved (vr_policy vr) (vr_overrides vr (fst flow))))"

lemma policy_ok_resolve: "policy_ok swl f ov \<Longrightarrow> resolve f ov = Inr (resolved f ov)"
  by (auto simp: policy_ok_def resolved_def)

lemma range_ok_override:
  "range_ok swl vr \<Longrightarrow> vr_overrides vr ip = Some f \<Longrightarrow>
     range_contains (vr_inner vr) ip \<and> policy_ok swl (vr_policy vr) (Some f)"
  by (simp add: range_ok_def overrides_ok_def)

lemma dir_of_default [simp]: "dir_of d effective_policy_default = None"
  by (simp add: dir_of_def effective_policy_default_def)

lemma dir_of_empty: "ep_is_empty p \<Longrightarrow> dir_of d p = None"
  by (simp add: dir_of_def ep_is_empty_def)

subsection \<open>Building\<close>

lemma index_overrides:
  assumes "range_ok swl vr" "\<forall>ip \<in> set ips. vr_overrides vr ip \<noteq> None"
  shows "try_fold (index_override vr) ips ov = Inr (\<lambda>ip.
    if ip \<in> set ips then Some (resolved (vr_policy vr) (vr_overrides vr ip)) else ov ip)"
  using assms(2)
proof (induction ips arbitrary: ov)
  case (Cons ip ips)
  then obtain f where f: "vr_overrides vr ip = Some f" by auto
  then have "resolve (vr_policy vr) (vr_overrides vr ip) = Inr (resolved (vr_policy vr) (vr_overrides vr ip))"
    using range_ok_override [OF assms(1) f] policy_ok_resolve [of swl "vr_policy vr" "Some f"] by simp
  then have "index_override vr ip ov = Inr (ov(ip \<mapsto> resolved (vr_policy vr) (vr_overrides vr ip)))"
    by (simp add: index_override_def)
  moreover have "(\<lambda>ip'. if ip' \<in> set ips then Some (resolved (vr_policy vr) (vr_overrides vr ip'))
        else (ov(ip \<mapsto> resolved (vr_policy vr) (vr_overrides vr ip))) ip')
      = (\<lambda>ip'. if ip' \<in> set (ip # ips) then Some (resolved (vr_policy vr) (vr_overrides vr ip')) else ov ip')"
    by (auto simp: fun_eq_iff)
  ultimately show ?case using Cons.IH Cons.prems by simp
qed simp

definition index_entry :: "validated_range \<Rightarrow> policy_range" where
  "index_entry vr = \<lparr>pr_start = ir_start (vr_inner vr), pr_end = ir_end (vr_inner vr),
     pr_policy = resolved (vr_policy vr) None\<rparr>"

definition add_overrides :: "validated_range \<Rightarrow> (u32 \<rightharpoonup> effective_policy) \<Rightarrow> (u32 \<rightharpoonup> effective_policy)" where
  "add_overrides vr ov ip =
     (if vr_overrides vr ip \<noteq> None then Some (resolved (vr_policy vr) (vr_overrides vr ip)) else ov ip)"

lemma index_ranges:
  assumes "list_all (range_ok swl) vrs" "\<forall>vr \<in> set vrs. enumerates (keys (vr_overrides vr)) (vr_overrides vr)"
  shows "try_fold (index_range keys) vrs (rs, ov) = Inr (rs @ map index_entry vrs, fold add_overrides vrs ov)"
  using assms
proof (induction vrs arbitrary: rs ov)
  case (Cons vr vrs)
  then have vr: "range_ok swl vr" "set (keys (vr_overrides vr)) = dom (vr_overrides vr)"
    by (simp_all add: enumerates_def)
  have "try_fold (index_override vr) (keys (vr_overrides vr)) ov = Inr (add_overrides vr ov)"
    using index_overrides [OF vr(1), of "keys (vr_overrides vr)" ov]
    by (simp add: vr(2) dom_def add_overrides_def fun_eq_iff)
  moreover have "resolve (vr_policy vr) None = Inr (resolved (vr_policy vr) None)"
    using vr(1) policy_ok_resolve [of swl "vr_policy vr" None] by (simp add: range_ok_def)
  ultimately have "index_range keys vr (rs, ov) = Inr (rs @ [index_entry vr], add_overrides vr ov)"
    by (simp add: index_range_def index_entry_def)
  with Cons show ?case by simp
qed simp

subsection \<open>Looking up\<close>

lemma disjoint_ranges_Cons:
  assumes "disjoint_ranges (r # rs)"
  shows "disjoint_ranges rs" and "range_contains r ip \<Longrightarrow> x \<in> set rs \<Longrightarrow> \<not> range_contains x ip"
proof -
  show "disjoint_ranges rs"
    unfolding disjoint_ranges_def
  proof (intro allI impI)
    fix i j
    assume "i < length rs" "j < length rs" "i \<noteq> j"
    then show "\<not> (\<exists>ip. range_contains (rs ! i) ip \<and> range_contains (rs ! j) ip)"
      using assms [unfolded disjoint_ranges_def, THEN spec, of "Suc i"] by (auto dest: spec [of _ "Suc j"])
  qed
  show "\<not> range_contains x ip" if "range_contains r ip" "x \<in> set rs"
  proof -
    from that(2) obtain j where "j < length rs" "rs ! j = x" by (auto simp: in_set_conv_nth)
    with that(1) show ?thesis
      using assms [unfolded disjoint_ranges_def, THEN spec, of 0] by (auto dest: spec [of _ "Suc j"])
  qed
qed

lemma fold_overrides:
  assumes "list_all (range_ok swl) vrs" "disjoint_ranges (map vr_inner vrs)"
  shows "fold add_overrides vrs ov ip =
    (case range_for vrs ip of
       None \<Rightarrow> ov ip
     | Some vr \<Rightarrow> if vr_overrides vr ip = None then ov ip
                 else Some (resolved (vr_policy vr) (vr_overrides vr ip)))"
  using assms
proof (induction vrs arbitrary: ov)
  case Nil
  then show ?case by (simp add: range_for_def)
next
  case (Cons vr vrs)
  from Cons.prems have dj: "disjoint_ranges (vr_inner vr # map vr_inner vrs)" by simp
  have IH: "fold add_overrides (vr # vrs) ov ip =
    (case range_for vrs ip of
       None \<Rightarrow> add_overrides vr ov ip
     | Some vr' \<Rightarrow> if vr_overrides vr' ip = None then add_overrides vr ov ip
                 else Some (resolved (vr_policy vr') (vr_overrides vr' ip)))"
    using Cons.IH [of "add_overrides vr ov"] Cons.prems disjoint_ranges_Cons(1) [OF dj] by simp
  show ?case
  proof (cases "range_contains (vr_inner vr) ip")
    case True
    then have "range_for vrs ip = None"
      using disjoint_ranges_Cons(2) [OF dj True] by (auto simp: range_for_def find_None_iff)
    with True show ?thesis unfolding IH by (simp add: range_for_def add_overrides_def)
  next
    case False
    then have "vr_overrides vr ip = None"
      using Cons.prems(1) range_ok_override [of swl vr ip] by (cases "vr_overrides vr ip") auto
    with False show ?thesis unfolding IH by (simp add: range_for_def add_overrides_def split: option.split)
  qed
qed

lemma find_unique:
  assumes "set xs = set ys" "\<And>x y. x \<in> set xs \<Longrightarrow> y \<in> set xs \<Longrightarrow> P x \<Longrightarrow> P y \<Longrightarrow> x = y"
  shows "find P xs = find P ys"
proof (cases "find P xs")
  case None
  then have "find P ys = None" using assms(1) by (simp add: find_None_iff)
  with None show ?thesis by simp
next
  case (Some x)
  then have x: "x \<in> set xs" "P x" by (auto simp: find_Some_iff)
  show ?thesis
  proof (cases "find P ys")
    case None
    with x assms(1) show ?thesis by (simp add: find_None_iff)
  next
    case y: (Some y)
    then have "y \<in> set ys" "P y" by (auto simp: find_Some_iff)
    with x assms Some y show ?thesis by auto
  qed
qed

lemma disjoint_unique:
  "disjoint_ranges (map vr_inner vrs) \<Longrightarrow> x \<in> set vrs \<Longrightarrow> y \<in> set vrs \<Longrightarrow>
     range_contains (vr_inner x) ip \<Longrightarrow> range_contains (vr_inner y) ip \<Longrightarrow> x = y"
proof (induction vrs)
  case (Cons vr vrs)
  then have dj: "disjoint_ranges (vr_inner vr # map vr_inner vrs)" by simp
  from Cons disjoint_ranges_Cons [OF dj] show ?case by auto
qed simp

lemma find_index_entries:
  assumes "disjoint_ranges (map vr_inner vrs)"
  shows "find (\<lambda>r. pr_start r \<le> ip \<and> ip \<le> pr_end r) (sort_key pr_start (map index_entry vrs))
    = map_option index_entry (range_for vrs ip)"
proof -
  let ?P = "\<lambda>r. pr_start r \<le> ip \<and> ip \<le> pr_end r"
  have "find ?P (sort_key pr_start (map index_entry vrs)) = find ?P (map index_entry vrs)"
  proof (rule find_unique)
    fix x y
    assume "x \<in> set (sort_key pr_start (map index_entry vrs))" "y \<in> set (sort_key pr_start (map index_entry vrs))"
      "?P x" "?P y"
    then obtain a b where "x = index_entry a" "y = index_entry b" "a \<in> set vrs" "b \<in> set vrs"
      "range_contains (vr_inner a) ip" "range_contains (vr_inner b) ip"
      by (auto simp: index_entry_def range_contains_def)
    with disjoint_unique [OF assms] show "x = y" by blast
  qed simp
  also have "\<dots> = map_option index_entry (range_for vrs ip)"
    unfolding range_for_def by (induction vrs) (auto simp: index_entry_def range_contains_def)
  finally show ?thesis .
qed

text \<open>C19: The index is the configuration: for a configuration with disjoint ranges and complete
  policies, building the index succeeds and the policy it gives for any address and direction
  is the one of the range containing the address, with the fields of the address's override
  taking precedence; an address outside every range has none. The order of the ranges and
  the iteration order of the overrides do not matter.\<close>

theorem index_matches_config:
  assumes "disjoint_ranges (map vr_inner (vc_ranges cfg))" "list_all (range_ok swl) (vc_ranges cfg)"
    and "\<forall>vr \<in> set (vc_ranges cfg). enumerates (keys (vr_overrides vr)) (vr_overrides vr)"
  shows "\<exists>rs ov. build_index keys cfg = Inr (rs, ov) \<and> flow_policy rs ov = configured_policy cfg"
proof -
  let ?vrs = "vc_ranges cfg"
  let ?rs = "sort_key pr_start (map index_entry ?vrs)" and ?ov = "fold add_overrides ?vrs Map.empty"
  have "build_index keys cfg = Inr (?rs, ?ov)"
    by (simp add: build_index_def index_ranges [OF assms(2,3)])
  moreover have "flow_policy ?rs ?ov flow = configured_policy cfg flow" for flow
    using fold_overrides [OF assms(2,1), of Map.empty "fst flow"] find_index_entries [OF assms(1), of "fst flow"]
    by (auto simp: flow_policy_def lookup_def configured_policy_def index_entry_def dir_of_empty
        split: option.splits)
  ultimately show ?thesis by blast
qed

subsection \<open>A configuration\<close>

definition sample_dir :: dir_policy where
  "sample_dir = \<lparr>dpo_threshold_bps = 10000000, dpo_limit_bps = 5000000, dpo_window_secs = 1,
     dpo_trigger_ratio_pct = 80, dpo_limit_duration_secs = 10, dpo_burst_bytes = 65536,
     dpo_algorithm = ALGO_GCRA, dpo_limit_window_secs = 0\<rparr>"

definition sample_vconfig :: "validated_range list \<Rightarrow> validated_config" where
  "sample_vconfig ranges = \<lparr>vc_bridge = ''br0'', vc_refresh_interval_ms = 1000, vc_scan_interval_secs = 5,
     vc_map_max_entries = 8192, vc_swl_map_max_entries = 256, vc_show_interface = False,
     vc_show_packets = False, vc_show_idle_ips = False, vc_default_sort = SortIp,
     vc_metrics_enabled = False, vc_metrics_url = [], vc_metrics_push_interval_secs = 60,
     vc_ranges = ranges\<rparr>"

definition sample_vrange :: validated_range where
  "sample_vrange = \<lparr>vr_inner = \<lparr>ir_name = ''vm'', ir_start = 167772161, ir_end = 167772161\<rparr>,
     vr_policy = sample_fields\<lparr>pf_window_secs := Some 1, pf_limit_duration_secs := Some 10\<rparr>,
     vr_overrides = Map.empty\<rparr>"

lemma sample_resolve:
  "resolve (vr_policy sample_vrange) None = Inr \<lparr>ep_rx = Some sample_dir, ep_tx = None\<rparr>"
  by (simp add: sample_vrange_def sample_fields_def resolve_def merged_with_def policy_fields_default_def
      build_dir_def is_bucket_algo_def is_window_algo_def algo_defs Let_def sample_dir_def)


lemma index_matches_config_witness:
  "\<exists>rs ov. build_index (\<lambda>_. []) (sample_vconfig [sample_vrange]) = Inr (rs, ov)
     \<and> flow_policy rs ov (167772161, DIR_RX) = Some sample_dir"
proof -
  have over: "vr_overrides sample_vrange = Map.empty" by (simp add: sample_vrange_def)
  have "policy_ok False (vr_policy sample_vrange) None"
    using sample_resolve
    by (simp add: policy_ok_def sample_dir_def dir_ok_def bounded_policy_def installed_policy_def
        sat_mul_def is_bucket_algo_def algo_defs)
  then have ok: "list_all (range_ok False) (vc_ranges (sample_vconfig [sample_vrange]))"
    by (simp add: sample_vconfig_def range_ok_def overrides_ok_def over)
  have "configured_policy (sample_vconfig [sample_vrange]) (167772161, DIR_RX) = Some sample_dir"
    using sample_resolve
    by (simp add: configured_policy_def range_for_def sample_vconfig_def resolved_def over dir_of_def)
      (simp add: sample_vrange_def range_contains_def)
  with index_matches_config [OF _ ok, of "\<lambda>_. []"] show ?thesis
    by (auto simp: sample_vconfig_def disjoint_ranges_def enumerates_def over)
qed

text \<open>Whatever a parsed document configures is within the bounds the data path needs: every policy
  the index of an accepted document gives for a flow has a rate between 100 kbit/s and
  1 Tbit/s, a burst of at most 1 GiB, a window of whole seconds up to a minute, a known
  algorithm with its parameter set, and the sliding window log only if the document enables it.\<close>

theorem indexed_policies_bounded:
  assumes "parse from_toml url_parse doc = Inr vc" "from_toml doc = Inr c"
    and "configured_policy vc flow = Some np"
  shows "dir_ok (cfg_enable_swl c) np"
proof -
  from assms(3) obtain vr where vr: "range_for (vc_ranges vc) (fst flow) = Some vr"
      "dir_of (snd flow) (resolved (vr_policy vr) (vr_overrides vr (fst flow))) = Some np"
    by (auto simp: configured_policy_def split: option.splits)
  then have "vr \<in> set (vc_ranges vc)" by (auto simp: range_for_def find_Some_iff)
  with parse_ranges(4) [OF assms(1,2)] have ok: "range_ok (cfg_enable_swl c) vr"
    by (simp add: list_all_iff)
  then have "policy_ok (cfg_enable_swl c) (vr_policy vr) (vr_overrides vr (fst flow))"
    using range_ok_override [OF ok] by (cases "vr_overrides vr (fst flow)") (simp_all add: range_ok_def)
  then show ?thesis
    using vr(2) by (auto simp: policy_ok_def resolved_def dir_of_def split: if_splits)
qed

lemma indexed_policies_bounded_witness:
  "\<exists>vc np. parse (\<lambda>_. Inr sample_config) (\<lambda>_. Inl []) [] = Inr vc
     \<and> configured_policy vc (167772165, DIR_RX) = Some np \<and> dir_ok False np"
proof -
  obtain vc where vc: "parse (\<lambda>_. Inr sample_config) (\<lambda>_. Inl []) [] = Inr vc"
      "vc_ranges vc = [\<lparr>vr_inner = sample_range, vr_policy = sample_fields_parsed, vr_overrides = Map.empty\<rparr>]"
    using sample_parsed by blast
  obtain eff where eff: "resolve sample_fields_parsed None = Inr eff" "ep_rx eff \<noteq> None"
    by (simp add: resolve_def sample_fields_parsed_def policy_fields_default_def merged_with_def
        build_dir_def is_bucket_algo_def is_window_algo_def algo_defs Let_def)
  from eff obtain np where np: "configured_policy vc (167772165, DIR_RX) = Some np"
    by (auto simp: configured_policy_def range_for_def vc(2) sample_range_def range_contains_def
        resolved_def dir_of_def)
  moreover have "cfg_enable_swl sample_config = False" by (simp add: sample_config_def)
  ultimately show ?thesis using vc(1) indexed_policies_bounded [OF vc(1) refl np] by simp
qed

end
