(* ===== verification/Limiter_Agreement.thy ===== *)
theory Limiter_Agreement
  imports Policy_Index "HOL-Library.Multiset"
begin

section \<open>Limiter: agreement with the data path\<close>

text \<open>
  The invariant of the limiter and its contract with the data path. The limiter never writes
  a map: it returns actions, the daemon applies them, and \<open>revert_failed_action\<close> or
  \<open>commit_reload\<close> make the limiter follow what was applied. The theory states the abstract
  value of a limiter, the policies it believes to be armed, and shows that ticks, failed
  actions and reloads keep that value equal to what the applied actions leave in the maps.
\<close>

subsection \<open>Invariant\<close>

definition state_ok :: "dir_state \<Rightarrow> bool" where
  "state_ok s \<longleftrightarrow>
     (case ds_phase s of
        Normal \<Rightarrow> s = dir_state_default
      | Limited \<Rightarrow>
          (case ds_applied s of None \<Rightarrow> False
           | Some p \<Rightarrow> ds_limited_until s = sat_add (ds_limited_since s) (dpo_limit_duration_secs p)))"

lemma state_ok_default [simp]: "state_ok dir_state_default"
  by (simp add: state_ok_def dir_state_default_def)

lemma phase_default [simp]: "ds_phase dir_state_default = Normal"
  by (simp add: dir_state_default_def)

definition limiter_wf :: "limiter \<Rightarrow> bool" where
  "limiter_wf l \<longleftrightarrow>
     0 < unat (lm_tick_secs l)
     \<and> (\<forall>flow s. lm_states l flow = Some s \<longrightarrow> state_ok s
          \<and> (ds_phase s = Limited \<longrightarrow> flow_policy (lm_ranges l) (lm_overrides l) flow \<noteq> None))
     \<and> (\<forall>flow s. lm_expired l flow = Some s \<longrightarrow> state_ok s \<and> ds_phase s = Limited)
     \<and> (\<forall>flow w. lm_windows l flow = Some w \<longrightarrow> window_wf w \<and> rw_tick_secs w = lm_tick_secs l)"

lemma window_wf_simps [simp]:
  "window_wf (rw_new window_secs tick_secs)"
  "window_wf w \<Longrightarrow> window_wf (rw_add d w)"
  "window_wf w \<Longrightarrow> window_wf (rw_reset w)"
  using rw_new_rel [of window_secs tick_secs]
  by (auto simp: window_rel_def window_wf_def rw_add_def rw_reset_def Let_def)

lemma rw_new_tick: "0 < unat t \<Longrightarrow> rw_tick_secs (rw_new window_secs t) = t"
  by (auto simp: rw_new_def Let_def max_def word_le_nat_alt word_unat_eq_iff)

subsection \<open>Agreement with the data path\<close>

text \<open>
  The policies the limiter believes to be armed, and the effect of its actions on the
  policies of the data path.
\<close>

definition armed_policy :: "dir_state option \<Rightarrow> limit_policy option" where
  "armed_policy s =
     (case s of None \<Rightarrow> None
      | Some s \<Rightarrow> if ds_phase s = Limited then map_option installed_policy (ds_applied s) else None)"

definition armed_policies :: "limiter \<Rightarrow> flow_key \<rightharpoonup> limit_policy" where
  "armed_policies l flow = armed_policy (lm_states l flow)"

definition apply_action :: "limit_action \<Rightarrow> (flow_key \<rightharpoonup> limit_policy) \<Rightarrow> (flow_key \<rightharpoonup> limit_policy)" where
  "apply_action a m =
     (case a of
        Install ip d rate burst algorithm window_ns \<Rightarrow>
          m((ip, d) \<mapsto> \<lparr>lp_enabled = 1, lp_algorithm = algorithm, lp_rate_bps = rate,
                         lp_burst_bytes = burst, lp_window_ns = window_ns\<rparr>)
      | Remove ip d \<Rightarrow> m((ip, d) := None))"

lemma armed_policy_simps [simp]:
  "armed_policy None = None"
  "armed_policy (Some dir_state_default) = None"
  by (simp_all add: armed_policy_def)

lemma apply_install [simp]: "apply_action (install_of flow p) m = m(flow \<mapsto> installed_policy p)"
  by (simp add: apply_action_def install_of_def installed_policy_def)

lemma apply_remove [simp]: "apply_action (remove_of flow) m = m(flow := None)"
  by (simp add: apply_action_def remove_of_def)

lemma apply_other: "la_flow a \<noteq> flow \<Longrightarrow> apply_action a m flow = m flow"
  by (cases a) (auto simp: apply_action_def la_flow_def)

lemma apply_cong: "m flow = m' flow \<Longrightarrow> apply_action a m flow = apply_action a m' flow"
  by (cases a) (auto simp: apply_action_def)

lemma fold_apply_cong:
  "m flow = m' flow \<Longrightarrow> fold apply_action as m flow = fold apply_action as m' flow"
proof (induction as arbitrary: m m')
  case (Cons a as)
  have "apply_action a m flow = apply_action a m' flow"
    using Cons.prems by (rule apply_cong)
  then show ?case using Cons.IH [of "apply_action a m" "apply_action a m'"] by simp
qed simp

lemma fold_apply_at: "fold apply_action as m flow = fold apply_action (acts_of flow as) m flow"
proof (induction as arbitrary: m)
  case (Cons a as)
  show ?case
  proof (cases "la_flow a = flow")
    case True
    then show ?thesis using Cons.IH by simp
  next
    case False
    have "fold apply_action as (apply_action a m) flow = fold apply_action as m flow"
      by (rule fold_apply_cong) (simp add: apply_other False)
    then show ?thesis using False Cons.IH by simp
  qed
qed simp

lemma revert_other:
  assumes "la_flow a \<noteq> flow"
  shows "lm_states (revert_failed_action a l) flow = lm_states l flow"
    and "lm_expired (revert_failed_action a l) flow = lm_expired l flow"
  using assms
  by (cases a; auto simp: revert_failed_action_def la_flow_def split: option.split)+

lemma revert_index [simp]:
  "lm_ranges (revert_failed_action a l) = lm_ranges l"
  "lm_overrides (revert_failed_action a l) = lm_overrides l"
  "lm_tick_secs (revert_failed_action a l) = lm_tick_secs l"
  "lm_windows (revert_failed_action a l) = lm_windows l"
  "lm_prev_totals (revert_failed_action a l) = lm_prev_totals l"
  by (cases a; simp add: revert_failed_action_def split: option.split)+

lemma revert_simps:
  "revert_failed_action (install_of flow p) l =
     (case lm_states l flow of None \<Rightarrow> l
      | Some _ \<Rightarrow> l\<lparr>lm_states := (lm_states l)(flow \<mapsto> dir_state_default)\<rparr>)"
  "revert_failed_action (remove_of flow) l =
     (case lm_expired l flow of None \<Rightarrow> l
      | Some prev \<Rightarrow> l\<lparr>lm_expired := (lm_expired l)(flow := None),
                       lm_states := (lm_states l)(flow \<mapsto> prev)\<rparr>)"
  by (simp_all add: revert_failed_action_def install_of_def remove_of_def split: option.split)

lemma fold_revert_index [simp]:
  "lm_ranges (fold revert_failed_action as l) = lm_ranges l"
  "lm_overrides (fold revert_failed_action as l) = lm_overrides l"
  "lm_tick_secs (fold revert_failed_action as l) = lm_tick_secs l"
  "lm_windows (fold revert_failed_action as l) = lm_windows l"
  "lm_prev_totals (fold revert_failed_action as l) = lm_prev_totals l"
  by (induction as arbitrary: l) simp_all

lemma revert_cong:
  assumes "lm_states l flow = lm_states l' flow" "lm_expired l flow = lm_expired l' flow"
  shows "lm_states (revert_failed_action a l) flow = lm_states (revert_failed_action a l') flow"
    and "lm_expired (revert_failed_action a l) flow = lm_expired (revert_failed_action a l') flow"
proof -
  have "lm_states (revert_failed_action a l) flow = lm_states (revert_failed_action a l') flow
    \<and> lm_expired (revert_failed_action a l) flow = lm_expired (revert_failed_action a l') flow"
  proof (cases "la_flow a = flow")
    case False
    then show ?thesis using assms by (simp add: revert_other)
  next
    case True
    then show ?thesis using assms
      by (cases a) (auto simp: revert_failed_action_def la_flow_def split: option.split)
  qed
  then show "lm_states (revert_failed_action a l) flow = lm_states (revert_failed_action a l') flow"
    "lm_expired (revert_failed_action a l) flow = lm_expired (revert_failed_action a l') flow"
    by simp_all
qed

lemma fold_revert_cong:
  assumes "lm_states l flow = lm_states l' flow" "lm_expired l flow = lm_expired l' flow"
  shows "lm_states (fold revert_failed_action as l) flow = lm_states (fold revert_failed_action as l') flow
    \<and> lm_expired (fold revert_failed_action as l) flow = lm_expired (fold revert_failed_action as l') flow"
  using assms
proof (induction as arbitrary: l l')
  case (Cons a as)
  from Cons.IH [OF revert_cong [OF Cons.prems]] show ?case by simp
qed simp

lemma fold_revert_at:
  "lm_states (fold revert_failed_action as l) flow = lm_states (fold revert_failed_action (acts_of flow as) l) flow
   \<and> lm_expired (fold revert_failed_action as l) flow
     = lm_expired (fold revert_failed_action (acts_of flow as) l) flow"
proof (induction as arbitrary: l)
  case (Cons a as)
  show ?case
  proof (cases "la_flow a = flow")
    case True
    then show ?thesis using Cons.IH by simp
  next
    case False
    from fold_revert_cong [OF revert_other [OF False], of as l] Cons.IH [of l] False show ?thesis by simp
  qed
qed simp

lemma acts_of_filter: "acts_of flow (filter P as) = filter P (acts_of flow as)"
  by (simp add: acts_of_def conj_commute)

text \<open>The four ways an evaluation can end, for a consistent state.\<close>

lemma flow_eval_cases:
  assumes "flow_eval t np d now flow w s = (w', s', as, e)" "\<forall>s0. s = Some s0 \<longrightarrow> state_ok s0"
  obtains (enter) "armed_policy s = None" "is_limited_state s = False" "as = [install_of flow np]" "e = None"
      "s' = Some \<lparr>ds_phase = Limited, ds_limited_since = now,
                   ds_limited_until = sat_add now (dpo_limit_duration_secs np), ds_applied = Some np\<rparr>"
      "w' = Some (rw_add d (unwrap_or (rw_new (dpo_window_secs np) t) w))"
      "rw_is_full (the w')" "f64_of_nat (unat (trigger_bps np)) \<le> rw_average_bps (the w')"
    | (normal) "armed_policy s = None" "is_limited_state s = False" "as = []" "e = None"
      "s' = Some dir_state_default"
      "w' = Some (rw_add d (unwrap_or (rw_new (dpo_window_secs np) t) w))"
      "\<not> (rw_is_full (the w') \<and> f64_of_nat (unat (trigger_bps np)) \<le> rw_average_bps (the w'))"
    | (leave) s0 where "s = Some s0" "ds_phase s0 = Limited" "ds_limited_until s0 \<le> now"
      "as = [remove_of flow]" "e = Some s0" "s' = Some dir_state_default"
      "w' = Some (rw_reset (rw_add d (unwrap_or (rw_new (dpo_window_secs np) t) w)))"
    | (stay) s0 where "s = Some s0" "ds_phase s0 = Limited" "\<not> ds_limited_until s0 \<le> now"
      "as = []" "e = None" "s' = Some s0"
      "w' = Some (rw_add d (unwrap_or (rw_new (dpo_window_secs np) t) w))"
proof (cases "is_limited_state s")
  case True
  then obtain s0 where "s = Some s0" "ds_phase s0 = Limited"
    by (auto simp: is_limited_state_def split: option.splits)
  then show ?thesis
    using assms(1) that(3,4) by (auto simp: flow_eval_def Let_def split: if_splits)
next
  case False
  have "unwrap_or dir_state_default s = dir_state_default"
    using False assms(2) by (cases s) (auto simp: is_limited_state_def state_ok_def split: phase.splits)
  moreover have "armed_policy s = None"
    using False by (auto simp: armed_policy_def is_limited_state_def split: option.splits)
  ultimately show ?thesis
    using assms(1) False that(1,2) by (auto simp: flow_eval_def Let_def split: if_splits)
qed

text \<open>Of a tick and its failures, at one flow.\<close>

lemma tick_outcome_at:
  assumes "limiter_wf l" "distinct ips" "tick ips now totals l = (l', as)"
    and bad_def: "bad = filter (\<lambda>a. \<not> ok a) as"
  shows "fold apply_action (filter ok as) (armed_policies l) flow
      = armed_policies (fold revert_failed_action bad l') flow"
    and "lm_states (fold revert_failed_action bad l') flow = Some s \<Longrightarrow> state_ok s \<and> (ds_phase s = Limited
      \<longrightarrow> flow_policy (lm_ranges l) (lm_overrides l) flow \<noteq> None)"
    and "lm_expired (fold revert_failed_action bad l') flow = Some s \<Longrightarrow> state_ok s \<and> ds_phase s = Limited"
    and "lm_windows l' flow = Some w \<Longrightarrow> window_wf w \<and> rw_tick_secs w = lm_tick_secs l"
proof -
  have wf: "\<And>s. lm_states l flow = Some s \<Longrightarrow> state_ok s
      \<and> (ds_phase s = Limited \<longrightarrow> flow_policy (lm_ranges l) (lm_overrides l) flow \<noteq> None)"
    and wfw: "\<And>w. lm_windows l flow = Some w \<Longrightarrow> window_wf w \<and> rw_tick_secs w = lm_tick_secs l"
    and tick_pos: "0 < unat (lm_tick_secs l)"
    using assms(1) unfolding limiter_wf_def by blast+
  note at = fold_apply_at [of "filter ok as" _ flow] fold_revert_at [of bad l' flow]
  have bad_at: "acts_of flow bad = filter (\<lambda>a. \<not> ok a) (acts_of flow as)"
    by (simp add: bad_def acts_of_filter)
  have view: "flow_view flow (l', as) =
      (if fst flow \<in> set ips then flow_ticked now totals l flow
       else (lm_windows l flow, lm_states l flow, [], None))"
    using tick_view(1) [OF assms(2), of flow now totals l] by (simp add: assms(3))
  consider (idle) "flow_view flow (l', as) = (lm_windows l flow, lm_states l flow, [], None)"
    | (eval) np d where "flow_policy (lm_ranges l) (lm_overrides l) flow = Some np"
      "flow_view flow (l', as) = flow_eval (lm_tick_secs l) np d now flow (lm_windows l flow) (lm_states l flow)"
    using view by (auto simp: flow_ticked_def split: if_splits option.splits)
  then have "fold apply_action (filter ok as) (armed_policies l) flow
      = armed_policies (fold revert_failed_action bad l') flow
    \<and> (\<forall>s. lm_states (fold revert_failed_action bad l') flow = Some s \<longrightarrow> state_ok s \<and> (ds_phase s = Limited
      \<longrightarrow> flow_policy (lm_ranges l) (lm_overrides l) flow \<noteq> None))
    \<and> (\<forall>s. lm_expired (fold revert_failed_action bad l') flow = Some s \<longrightarrow> state_ok s \<and> ds_phase s = Limited)
    \<and> (\<forall>w. lm_windows l' flow = Some w \<longrightarrow> window_wf w \<and> rw_tick_secs w = lm_tick_secs l)"
  proof cases
    case idle
    then show ?thesis
      using wf wfw by (simp add: at bad_at acts_of_filter flow_view_def armed_policies_def)
  next
    case (eval np d)
    have r: "flow_eval (lm_tick_secs l) np d now flow (lm_windows l flow) (lm_states l flow)
        = (lm_windows l' flow, lm_states l' flow, acts_of flow as, lm_expired l' flow)"
      using eval(2) by (simp add: flow_view_def)
    have ww: "window_wf (rw_add d (unwrap_or (rw_new (dpo_window_secs np) (lm_tick_secs l)) (lm_windows l flow)))
        \<and> rw_tick_secs (rw_add d (unwrap_or (rw_new (dpo_window_secs np) (lm_tick_secs l)) (lm_windows l flow)))
          = lm_tick_secs l"
      using wfw tick_pos by (cases "lm_windows l flow") (auto simp: rw_new_tick)
    have ok_states: "\<forall>s0. lm_states l flow = Some s0 \<longrightarrow> state_ok s0" using wf by blast
    show ?thesis
    proof (cases rule: flow_eval_cases [OF r ok_states, case_names enter normal leave stay])
      case enter
      let ?s = "\<lparr>ds_phase = Limited, ds_limited_since = now,
        ds_limited_until = sat_add now (dpo_limit_duration_secs np), ds_applied = Some np\<rparr>"
      note acts = enter(3) and expired = enter(4) and states = enter(5) and window = enter(6)
      have "state_ok ?s" "armed_policy (Some ?s) = Some (installed_policy np)"
        by (simp_all add: state_ok_def armed_policy_def)
      then show ?thesis
        using ww eval(1) enter(1)
        by (cases "ok (install_of flow np)")
          (simp_all add: at bad_at acts_of_filter armed_policies_def revert_simps
            acts expired states window)
    next
      case normal
      then show ?thesis
        using ww by (simp add: at bad_at acts_of_filter armed_policies_def)
    next
      case (leave s0)
      then show ?thesis
        using ww wf [OF leave(1)] eval(1)
        by (cases "ok (remove_of flow)")
          (simp_all add: at bad_at acts_of_filter armed_policies_def revert_simps)
    next
      case (stay s0)
      then show ?thesis
        using ww wf [OF stay(1)] eval(1) by (simp add: at bad_at acts_of_filter armed_policies_def)
    qed
  qed
  then show "fold apply_action (filter ok as) (armed_policies l) flow
      = armed_policies (fold revert_failed_action bad l') flow"
    and "lm_states (fold revert_failed_action bad l') flow = Some s \<Longrightarrow> state_ok s \<and> (ds_phase s = Limited
      \<longrightarrow> flow_policy (lm_ranges l) (lm_overrides l) flow \<noteq> None)"
    and "lm_expired (fold revert_failed_action bad l') flow = Some s \<Longrightarrow> state_ok s \<and> ds_phase s = Limited"
    and "lm_windows l' flow = Some w \<Longrightarrow> window_wf w \<and> rw_tick_secs w = lm_tick_secs l" by blast+
qed

subsection \<open>Ticks\<close>

lemma tick_agreement:
  assumes "limiter_wf l" "distinct ips" "tick ips now totals l = (l', as)"
    and "r = fold revert_failed_action (filter (\<lambda>a. \<not> ok a) as) l'"
  shows "armed_policies r = fold apply_action (filter ok as) (armed_policies l)" "limiter_wf r"
proof -
  note at = tick_outcome_at [where ok = ok, OF assms(1-3) refl, folded assms(4)]
  show "armed_policies r = fold apply_action (filter ok as) (armed_policies l)"
    using at(1) by (intro ext) simp
  have index: "lm_tick_secs r = lm_tick_secs l" "lm_ranges r = lm_ranges l"
      "lm_overrides r = lm_overrides l" "lm_windows r = lm_windows l'"
    using tick_view(2) [OF assms(2), of l now totals] by (simp_all add: assms(3,4) same_index_def)
  have "0 < unat (lm_tick_secs l)" using assms(1) by (simp add: limiter_wf_def)
  then show "limiter_wf r"
    unfolding limiter_wf_def index using at(2-4) by blast
qed

text \<open>C17: After a tick whose actions were applied where \<open>ok\<close> and whose other actions were handed back
  to \<open>revert_failed_action\<close>, the limiter again describes the data path: the policies it
  believes to be armed are those the applied actions leave in the maps, whatever subset of
  the actions failed, and the invariant of the limiter is kept.\<close>

theorem tick_keeps_agreement:
  assumes "limiter_wf l" "distinct ips" "tick ips now totals l = (l', as)"
    and "r = fold revert_failed_action (filter (\<lambda>a. \<not> ok a) as) l'"
  shows "armed_policies r = fold apply_action (filter ok as) (armed_policies l) \<and> limiter_wf r"
  by (intro conjI tick_agreement [OF assms])

text \<open>What a tick does to a flow, and that each flow is treated at most once.\<close>

lemma tick_flow:
  assumes "limiter_wf l" "distinct ips" "tick ips now totals l = (l', as)"
    and "fst flow \<in> set ips" "flow_policy (lm_ranges l) (lm_overrides l) flow = Some np"
  shows "flow_eval (lm_tick_secs l) np (flow_delta l totals flow) now flow
      (lm_windows l flow) (lm_states l flow)
    = (lm_windows l' flow, lm_states l' flow, acts_of flow as, lm_expired l' flow)"
    and "\<forall>s0. lm_states l flow = Some s0 \<longrightarrow> state_ok s0"
proof -
  show "flow_eval (lm_tick_secs l) np (flow_delta l totals flow) now flow
      (lm_windows l flow) (lm_states l flow)
    = (lm_windows l' flow, lm_states l' flow, acts_of flow as, lm_expired l' flow)"
    using tick_view(1) [OF assms(2), of flow now totals l]
    by (simp add: assms(3-5) flow_ticked_def flow_view_def)
  show "\<forall>s0. lm_states l flow = Some s0 \<longrightarrow> state_ok s0"
    using assms(1) unfolding limiter_wf_def by blast
qed

lemma tick_no_policy:
  assumes "distinct ips" "tick ips now totals l = (l', as)"
    and "fst flow \<notin> set ips \<or> flow_policy (lm_ranges l) (lm_overrides l) flow = None"
  shows "acts_of flow as = []" "lm_states l' flow = lm_states l flow"
  using tick_view(1) [OF assms(1), of flow now totals l] assms(3)
  by (auto simp: assms(2) flow_ticked_def flow_view_def split: if_splits)

lemma in_acts_of: "a \<in> set as \<longleftrightarrow> a \<in> set (acts_of (la_flow a) as)"
  by (simp add: acts_of_def)

lemma install_remove_distinct [simp]:
  "install_of flow p \<noteq> remove_of flow'" "remove_of flow' \<noteq> install_of flow p"
  by (simp_all add: install_of_def remove_of_def)

text \<open>C21: A tick releases exactly the flows whose limit is over: it returns the removal of a flow if
  and only if the flow was LIMITED and its \<open>limited_until\<close> is reached, and if the removal is
  applied the flow is NORMAL again. If the removal fails, the flow is back in the very state
  it had, so the next tick returns the removal again.\<close>

theorem tick_removes_iff:
  assumes "limiter_wf l" "distinct ips" "set ips = tick_ips l totals" "tick ips now totals l = (l', as)"
    and "r = fold revert_failed_action (filter (\<lambda>a. \<not> ok a) as) l'"
  shows "(remove_of flow \<in> set as \<longleftrightarrow>
      (\<exists>s. lm_states l flow = Some s \<and> ds_phase s = Limited \<and> ds_limited_until s \<le> now))
    \<and> (remove_of flow \<in> set as \<and> ok (remove_of flow) \<longrightarrow> lm_states r flow = Some dir_state_default)
    \<and> (remove_of flow \<in> set as \<and> \<not> ok (remove_of flow) \<longrightarrow> lm_states r flow = lm_states l flow)"
proof (cases "fst flow \<in> set ips \<and> flow_policy (lm_ranges l) (lm_overrides l) flow \<noteq> None")
  case True
  then obtain np where np: "fst flow \<in> set ips" "flow_policy (lm_ranges l) (lm_overrides l) flow = Some np"
    by blast
  note at = fold_revert_at [of "filter (\<lambda>a. \<not> ok a) as" l' flow]
  note eval = tick_flow [OF assms(1,2,4) np]
  have mem: "remove_of flow \<in> set as \<longleftrightarrow> remove_of flow \<in> set (acts_of flow as)"
    using in_acts_of [of "remove_of flow" as] by simp
  show ?thesis
  proof (cases rule: flow_eval_cases [OF eval, case_names enter normal leave stay])
    case enter
    then show ?thesis by (auto simp: mem is_limited_state_def)
  next
    case normal
    then show ?thesis by (auto simp: mem is_limited_state_def)
  next
    case (leave s0)
    then show ?thesis
      by (cases "ok (remove_of flow)") (simp_all add: mem at acts_of_filter assms(5) revert_simps)
  next
    case (stay s0)
    then show ?thesis by (simp add: mem)
  qed
next
  case False
  then have "acts_of flow as = []" by (intro tick_no_policy [OF assms(2,4)]) blast
  moreover have "\<not> (ds_phase s = Limited)" if "lm_states l flow = Some s" for s
    using that False assms(1,3) unfolding limiter_wf_def tick_ips_def is_limited_state_def by force
  ultimately show ?thesis using in_acts_of [of "remove_of flow" as] by auto
qed

text \<open>C20: A tick limits exactly the flows over their trigger: it returns the installation of a limit
  for a flow if and only if the flow is evaluated, has a policy, is not LIMITED, and its
  window with the new sample is full with an average at or above the trigger rate. The
  installed parameters are those of the flow's policy in force, and the flow is then LIMITED
  until the configured duration has passed.\<close>

theorem tick_installs_iff:
  assumes "limiter_wf l" "distinct ips" "set ips = tick_ips l totals" "tick ips now totals l = (l', as)"
    and "flow_policy (lm_ranges l) (lm_overrides l) flow = Some np"
    and "w = rw_add (flow_delta l totals flow)
      (unwrap_or (rw_new (dpo_window_secs np) (lm_tick_secs l)) (lm_windows l flow))"
  shows "((\<exists>a \<in> set as. la_flow a = flow \<and> a \<noteq> remove_of flow) \<longleftrightarrow>
      fst flow \<in> tick_ips l totals \<and> \<not> is_limited_state (lm_states l flow)
      \<and> rw_is_full w \<and> f64_of_nat (unat (trigger_bps np)) \<le> rw_average_bps w)
    \<and> (\<forall>a \<in> set as. la_flow a = flow \<and> a \<noteq> remove_of flow \<longrightarrow>
      a = install_of flow np \<and> lm_states l' flow = Some \<lparr>ds_phase = Limited, ds_limited_since = now,
        ds_limited_until = sat_add now (dpo_limit_duration_secs np), ds_applied = Some np\<rparr>)"
proof -
  have mem: "a \<in> set as \<and> la_flow a = flow \<longleftrightarrow> a \<in> set (acts_of flow as)" for a
    by (auto simp: acts_of_def)
  have ex: "(\<exists>a \<in> set as. la_flow a = flow \<and> a \<noteq> remove_of flow) \<longleftrightarrow>
      (\<exists>a \<in> set (acts_of flow as). a \<noteq> remove_of flow)"
    by (auto simp: acts_of_def)
  have "((\<exists>a \<in> set (acts_of flow as). a \<noteq> remove_of flow) \<longleftrightarrow>
      fst flow \<in> tick_ips l totals \<and> \<not> is_limited_state (lm_states l flow)
      \<and> rw_is_full w \<and> f64_of_nat (unat (trigger_bps np)) \<le> rw_average_bps w)
    \<and> (\<forall>a. a \<in> set (acts_of flow as) \<and> a \<noteq> remove_of flow \<longrightarrow>
      a = install_of flow np \<and> lm_states l' flow = Some \<lparr>ds_phase = Limited, ds_limited_since = now,
        ds_limited_until = sat_add now (dpo_limit_duration_secs np), ds_applied = Some np\<rparr>)"
  proof (cases "fst flow \<in> set ips")
    case True
    note eval = tick_flow [OF assms(1,2,4) True assms(5)]
    show ?thesis
      using True
      by (cases rule: flow_eval_cases [OF eval, case_names enter normal leave stay])
        (simp_all add: assms(3,6) is_limited_state_def)
  next
    case False
    then have "acts_of flow as = []" by (intro tick_no_policy [OF assms(2,4)]) blast
    with False show ?thesis by (simp add: assms(3))
  qed
  then show ?thesis
    unfolding ex using mem by blast
qed

subsection \<open>The order of evaluation\<close>

lemma tick_ip_prev:
  "lm_prev_totals (fst (tick_ip now totals ip la)) i =
     (if i = ip \<and> effective_policy_of (fst la) ip \<noteq> None
      then Some (unwrap_or ip_totals_default (totals ip)) else lm_prev_totals (fst la) i)"
proof (cases la)
  case (Pair l acts)
  then show ?thesis
    by (cases "effective_policy_of l ip") (simp_all add: tick_ip_def Let_def eval_dir_index split: prod.split)
qed

lemma tick_fold_prev:
  "lm_prev_totals (fst (fold (tick_ip now totals) ips la)) i =
     (if i \<in> set ips \<and> effective_policy_of (fst la) i \<noteq> None
      then Some (unwrap_or ip_totals_default (totals i)) else lm_prev_totals (fst la) i)"
proof (induction ips arbitrary: la)
  case (Cons ip ips)
  have "effective_policy_of (fst (tick_ip now totals ip la)) = effective_policy_of (fst la)"
    using tick_ip_index [of la now totals ip] by (auto simp: effective_policy_of_def same_index_def)
  with Cons.IH [of "tick_ip now totals ip la"] show ?case by (auto simp: tick_ip_prev)
qed simp

lemma acts_of_mset:
  assumes "\<And>flow. acts_of flow as = acts_of flow bs"
  shows "mset as = mset bs"
proof (rule multiset_eqI)
  fix a
  have count: "count (mset cs) a = count (mset (acts_of (la_flow a) cs)) a" for cs
    unfolding acts_of_def by (induction cs) auto
  show "count (mset as) a = count (mset bs) a"
    by (simp only: count [of as] count [of bs] assms)
qed

text \<open>The iteration order of the address set is immaterial: two ticks that visit the same
  addresses in different orders leave the same limiter and return the same actions, up to
  their order.\<close>

theorem tick_order_irrelevant:
  assumes "distinct ips" "distinct ips'" "set ips = set ips'"
  shows "fst (tick ips now totals l) = fst (tick ips' now totals l)
    \<and> mset (snd (tick ips now totals l)) = mset (snd (tick ips' now totals l))"
proof -
  let ?t = "tick ips now totals l" and ?t' = "tick ips' now totals l"
  have view: "flow_view flow ?t = flow_view flow ?t'" for flow
    using tick_view(1) [OF assms(1)] tick_view(1) [OF assms(2)] assms(3) by simp
  then have per_flow: "lm_windows (fst ?t) = lm_windows (fst ?t')" "lm_states (fst ?t) = lm_states (fst ?t')"
      "lm_expired (fst ?t) = lm_expired (fst ?t')"
    and acts: "acts_of flow (snd ?t) = acts_of flow (snd ?t')" for flow
    by (auto simp: flow_view_def)
  have "lm_prev_totals (fst ?t) = lm_prev_totals (fst ?t')"
    by (intro ext) (simp add: tick_def tick_fold_prev assms(3))
  with per_flow tick_view(2) [OF assms(1), of l now totals] tick_view(2) [OF assms(2), of l now totals]
  have "fst ?t = fst ?t'"
    by (intro limiter.equality) (simp_all add: same_index_def)
  with acts_of_mset [OF acts] show ?thesis by simp
qed

subsection \<open>Reloads\<close>

text \<open>A plan, at one flow.\<close>

definition plan_view :: "flow_key \<Rightarrow> reload_plan \<Rightarrow>
    limit_action list \<times> limit_action list \<times> bool \<times> (flow_key \<times> u64 \<times> dir_policy) list" where
  "plan_view flow plan =
     (acts_of flow (rp_removes plan), acts_of flow (rp_installs plan), flow \<in> set (rp_flow_resets plan),
      filter (\<lambda>u. fst u = flow) (rp_flow_updates plan))"

lemma plan_flow_index [simp]:
  "rp_new_ranges (plan_flow l now flow plan) = rp_new_ranges plan"
  "rp_new_overrides (plan_flow l now flow plan) = rp_new_overrides plan"
  by (auto simp: plan_flow_def Let_def split: option.split)

lemma plan_flow_other:
  "flow \<noteq> f \<Longrightarrow> plan_view flow (plan_flow l now f plan) = plan_view flow plan"
  by (auto simp: plan_flow_def plan_view_def Let_def split: option.split)

definition flow_planned :: "limiter \<Rightarrow> u64 \<Rightarrow> dir_policy option \<Rightarrow> flow_key \<Rightarrow>
    limit_action list \<times> limit_action list \<times> bool \<times> (flow_key \<times> u64 \<times> dir_policy) list" where
  "flow_planned l now new_dir flow =
     (case lm_states l flow of
        None \<Rightarrow> ([], [], False, [])
      | Some state \<Rightarrow>
        (case ds_applied state of
           None \<Rightarrow> ([], [], False, [])
         | Some applied \<Rightarrow>
           (case new_dir of
              None \<Rightarrow> ([remove_of flow], [], True, [])
            | Some np \<Rightarrow>
                let limited_until = sat_add (ds_limited_since state) (dpo_limit_duration_secs np)
                in if limited_until \<le> now then ([remove_of flow], [], True, [])
                   else ([], if limit_changed np applied then [install_of flow np] else [],
                         False, [(flow, limited_until, np)]))))"

lemma plan_flow_same:
  assumes "plan_view flow plan = ([], [], False, [])"
  shows "plan_view flow (plan_flow l now flow plan)
    = flow_planned l now (flow_policy (rp_new_ranges plan) (rp_new_overrides plan) flow) flow"
  using assms
  by (auto simp: plan_flow_def flow_planned_def plan_view_def Let_def split: option.split)

lemma plan_fold_other:
  "flow \<notin> set flows \<Longrightarrow> plan_view flow (fold (plan_flow l now) flows plan) = plan_view flow plan"
  by (induction flows arbitrary: plan) (auto simp: plan_flow_other)

lemma plan_fold_index [simp]:
  "rp_new_ranges (fold (plan_flow l now) flows plan) = rp_new_ranges plan"
  "rp_new_overrides (fold (plan_flow l now) flows plan) = rp_new_overrides plan"
  by (induction flows arbitrary: plan) simp_all

lemma plan_fold_view:
  assumes "distinct flows" "plan_view flow plan = ([], [], False, [])"
  shows "plan_view flow (fold (plan_flow l now) flows plan) =
      (if flow \<in> set flows
       then flow_planned l now (flow_policy (rp_new_ranges plan) (rp_new_overrides plan) flow) flow
       else ([], [], False, []))"
  using assms
proof (induction flows arbitrary: plan)
  case (Cons f flows)
  show ?case
  proof (cases "flow = f")
    case True
    with Cons.prems plan_flow_same [OF Cons.prems(2)] show ?thesis by (simp add: plan_fold_other)
  next
    case False
    with Cons.prems Cons.IH [of "plan_flow l now f plan"] show ?thesis by (simp add: plan_flow_other)
  qed
qed simp

lemma flow_planned_normal:
  "\<forall>s. lm_states l flow = Some s \<longrightarrow> state_ok s \<Longrightarrow> \<not> is_limited_state (lm_states l flow) \<Longrightarrow>
     flow_planned l now nd flow = ([], [], False, [])"
  by (cases "lm_states l flow"; cases "ds_phase (the (lm_states l flow))")
    (simp_all add: flow_planned_def is_limited_state_def state_ok_def dir_state_default_def)

lemma plan_reload_view:
  assumes "limiter_wf l" "distinct flows" "\<forall>flow. is_limited_state (lm_states l flow) \<longrightarrow> flow \<in> set flows"
    and "plan_reload keys flows l cfg now = Inr plan"
  shows "plan_view flow plan
    = flow_planned l now (flow_policy (rp_new_ranges plan) (rp_new_overrides plan) flow) flow"
proof -
  let ?limited = "filter (\<lambda>flow. is_limited_state (lm_states l flow)) flows"
  obtain rs ov where plan: "plan = fold (plan_flow l now) ?limited
          \<lparr>rp_removes = [], rp_installs = [], rp_new_ranges = rs,
           rp_new_overrides = ov, rp_flow_resets = [], rp_flow_updates = []\<rparr>"
    using assms(4) by (auto simp: plan_reload_def try_bind_Inr_iff)
  have wf: "\<forall>s. lm_states l flow = Some s \<longrightarrow> state_ok s"
    using assms(1) unfolding limiter_wf_def by blast
  have "plan_view flow plan = (if flow \<in> set ?limited then flow_planned l now (flow_policy rs ov flow) flow
      else ([], [], False, []))"
    unfolding plan using assms(2) by (subst plan_fold_view) (simp_all add: plan_view_def)
  then show ?thesis
    using assms(3) [THEN spec, of flow] flow_planned_normal [OF wf] by (auto simp: plan)
qed

text \<open>A commit, at one flow.\<close>

lemma reset_fold:
  "lm_states (fold reset_flow fs l) flow =
     (if flow \<in> set fs then map_option (\<lambda>_. dir_state_default) (lm_states l flow) else lm_states l flow)
   \<and> lm_windows (fold reset_flow fs l) flow =
     (if flow \<in> set fs then map_option rw_reset (lm_windows l flow) else lm_windows l flow)
   \<and> lm_ranges (fold reset_flow fs l) = lm_ranges l \<and> lm_overrides (fold reset_flow fs l) = lm_overrides l
   \<and> lm_tick_secs (fold reset_flow fs l) = lm_tick_secs l \<and> lm_expired (fold reset_flow fs l) = lm_expired l"
proof (induction fs arbitrary: l)
  case (Cons f fs)
  have "rw_reset (rw_reset w) = rw_reset w" for w by (simp add: rw_reset_def)
  with Cons.IH [of "reset_flow f l"] show ?case
    by (cases "f = flow"; cases "lm_states l f"; cases "lm_windows l f") (simp_all add: reset_flow_def)
qed simp

definition updated :: "(flow_key \<times> u64 \<times> dir_policy) list \<Rightarrow> dir_state \<Rightarrow> dir_state" where
  "updated us s = fold (\<lambda>(_, limited_until, applied) s.
     s\<lparr>ds_limited_until := limited_until, ds_applied := Some applied\<rparr>) us s"

lemma updated_Nil [simp]: "map_option (updated []) x = x"
  by (cases x) (simp_all add: updated_def)

lemma update_fold:
  "lm_states (fold update_flow us l) flow =
     map_option (updated (filter (\<lambda>u. fst u = flow) us)) (lm_states l flow)
   \<and> lm_windows (fold update_flow us l) = lm_windows l
   \<and> lm_ranges (fold update_flow us l) = lm_ranges l \<and> lm_overrides (fold update_flow us l) = lm_overrides l
   \<and> lm_tick_secs (fold update_flow us l) = lm_tick_secs l \<and> lm_expired (fold update_flow us l) = lm_expired l"
proof (induction us arbitrary: l)
  case Nil
  then show ?case by (simp add: updated_def option.map_ident)
next
  case (Cons u us)
  obtain f t p where u: "u = (f, t, p)" by (cases u) auto
  show ?case
    using Cons.IH [of "update_flow u l"]
    by (cases "lm_states l f"; cases "f = flow") (simp_all add: u update_flow_def updated_def)
qed

lemma commit_at:
  assumes "c = commit_reload plan l"
    and "s = map_option (updated (filter (\<lambda>u. fst u = flow) (rp_flow_updates plan)))
      (if flow \<in> set (rp_flow_resets plan) then map_option (\<lambda>_. dir_state_default) (lm_states l flow)
       else lm_states l flow)"
  shows "lm_states c flow =
      (if is_limited_state s \<or> flow_policy (rp_new_ranges plan) (rp_new_overrides plan) flow \<noteq> None
       then s else None)"
    and "lm_windows c flow = Some w \<Longrightarrow> \<exists>w0 np. lm_windows l flow = Some w0
      \<and> (w = w0 \<or> w = rw_reset w0 \<or> w = rw_new np (lm_tick_secs l))"
    and "lm_expired c = lm_expired l" "lm_tick_secs c = lm_tick_secs l"
    and "lm_ranges c = rp_new_ranges plan" "lm_overrides c = rp_new_overrides plan"
  using assms(2)
  by (auto simp: assms(1) commit_reload_def Let_def retain_def reset_fold update_fold is_limited_state_def
      keep_window_def rw_resize_def split: option.splits if_splits)

lemma armed_normal: "\<not> is_limited_state s \<Longrightarrow> armed_policy s = None"
  by (auto simp: armed_policy_def is_limited_state_def split: option.split)

lemma unchanged_policy: "\<not> limit_changed np p \<Longrightarrow> installed_policy np = installed_policy p"
  by (simp add: limit_changed_def installed_policy_def)

text \<open>What a commit makes of a LIMITED flow.\<close>

lemma flow_planned_cases:
  assumes "lm_states l flow = Some s" "ds_phase s = Limited" "state_ok s"
  obtains (release) "flow_planned l now nd flow = ([remove_of flow], [], True, [])"
    | (keep) np p where "nd = Some np" "ds_applied s = Some p"
      "now < sat_add (ds_limited_since s) (dpo_limit_duration_secs np)"
      "flow_planned l now nd flow = ([], if limit_changed np p then [install_of flow np] else [], False,
        [(flow, sat_add (ds_limited_since s) (dpo_limit_duration_secs np), np)])"
proof -
  obtain p where p: "ds_applied s = Some p"
    using assms(2,3) by (auto simp: state_ok_def split: option.splits)
  show ?thesis
  proof (cases nd)
    case None
    then show ?thesis using that(1) assms(1) p by (simp add: flow_planned_def)
  next
    case (Some np)
    then show ?thesis using that assms(1) p
      by (cases "sat_add (ds_limited_since s) (dpo_limit_duration_secs np) \<le> now")
        (simp_all add: flow_planned_def Let_def not_le)
  qed
qed

lemma reload_outcome_at:
  assumes "limiter_wf l" "distinct flows" "\<forall>flow. is_limited_state (lm_states l flow) \<longrightarrow> flow \<in> set flows"
    and "plan_reload keys flows l cfg now = Inr plan"
  shows "armed_policy (lm_states (commit_reload plan l) flow)
      = fold apply_action (rp_actions plan) (armed_policies l) flow
    \<and> (\<forall>s. lm_states (commit_reload plan l) flow = Some s \<longrightarrow> state_ok s \<and> (ds_phase s = Limited \<longrightarrow>
        flow_policy (rp_new_ranges plan) (rp_new_overrides plan) flow \<noteq> None))"
proof -
  let ?nd = "flow_policy (rp_new_ranges plan) (rp_new_overrides plan) flow"
  note view = plan_reload_view [OF assms, of flow, unfolded plan_view_def]
  note commit = commit_at(1) [OF refl refl, of plan l flow]
  have acts: "fold apply_action (rp_actions plan) (armed_policies l) flow
      = fold apply_action (acts_of flow (rp_removes plan) @ acts_of flow (rp_installs plan)) (armed_policies l) flow"
    by (subst fold_apply_at) (simp add: rp_actions_def)
  have wf: "state_ok s" if "lm_states l flow = Some s" for s
    using assms(1) that unfolding limiter_wf_def by blast
  show ?thesis
  proof (cases "is_limited_state (lm_states l flow)")
    case False
    have "flow_planned l now ?nd flow = ([], [], False, [])"
      using wf by (intro flow_planned_normal False) blast
    with view have v: "acts_of flow (rp_removes plan) = []" "acts_of flow (rp_installs plan) = []"
        "flow \<notin> set (rp_flow_resets plan)" "filter (\<lambda>u. fst u = flow) (rp_flow_updates plan) = []"
      by simp_all
    have "lm_states (commit_reload plan l) flow = (if ?nd \<noteq> None then lm_states l flow else None)"
      using v False commit by (simp add: updated_def option.map_ident)
    with False wf show ?thesis
      by (auto simp: acts v armed_policies_def armed_normal is_limited_state_def split: if_splits)
  next
    case True
    then obtain s where s: "lm_states l flow = Some s" "ds_phase s = Limited"
      by (auto simp: is_limited_state_def split: option.splits)
    show ?thesis
    proof (cases rule: flow_planned_cases [OF s wf [OF s(1)], of now ?nd, case_names release keep])
      case release
      with view have v: "acts_of flow (rp_removes plan) = [remove_of flow]" "acts_of flow (rp_installs plan) = []"
          "flow \<in> set (rp_flow_resets plan)" "filter (\<lambda>u. fst u = flow) (rp_flow_updates plan) = []"
        by simp_all
      have "lm_states (commit_reload plan l) flow = (if ?nd \<noteq> None then Some dir_state_default else None)"
        using v commit s by (simp add: updated_def is_limited_state_def)
      then show ?thesis by (simp add: acts v)
    next
      case (keep np p)
      let ?s = "s\<lparr>ds_limited_until := sat_add (ds_limited_since s) (dpo_limit_duration_secs np),
        ds_applied := Some np\<rparr>"
      from keep(4) view have v: "acts_of flow (rp_removes plan) = []"
          "acts_of flow (rp_installs plan) = (if limit_changed np p then [install_of flow np] else [])"
          "flow \<notin> set (rp_flow_resets plan)" "filter (\<lambda>u. fst u = flow) (rp_flow_updates plan)
            = [(flow, sat_add (ds_limited_since s) (dpo_limit_duration_secs np), np)]"
        by simp_all
      have st: "lm_states (commit_reload plan l) flow = Some ?s"
        using v commit s keep(1) by (simp add: updated_def is_limited_state_def)
      have "state_ok ?s" "armed_policy (Some ?s) = Some (installed_policy np)"
        "armed_policies l flow = Some (installed_policy p)"
        using s keep(2) by (simp_all add: state_ok_def armed_policy_def armed_policies_def)
      then show ?thesis
        using st keep(1) unchanged_policy [of np p] by (cases "limit_changed np p") (simp_all add: acts v)
    qed
  qed
qed

lemma reload_agreement:
  assumes "limiter_wf l" "distinct flows" "\<forall>flow. is_limited_state (lm_states l flow) \<longrightarrow> flow \<in> set flows"
    and "plan_reload keys flows l cfg now = Inr plan"
  shows "armed_policies (commit_reload plan l) = fold apply_action (rp_actions plan) (armed_policies l)"
    and "limiter_wf (commit_reload plan l)"
proof -
  note at = reload_outcome_at [OF assms]
  note commit = commit_at [OF refl refl, of plan l]
  show "armed_policies (commit_reload plan l) = fold apply_action (rp_actions plan) (armed_policies l)"
    using at by (intro ext) (simp add: armed_policies_def)
  have pos: "0 < unat (lm_tick_secs l)" using assms(1) by (simp add: limiter_wf_def)
  have "window_wf w \<and> rw_tick_secs w = lm_tick_secs l"
    if "lm_windows (commit_reload plan l) flow = Some w" for flow w
  proof -
    from commit(2) [OF that] obtain w0 np where "lm_windows l flow = Some w0"
      "w = w0 \<or> w = rw_reset w0 \<or> w = rw_new np (lm_tick_secs l)" by blast
    moreover from this(1) have "window_wf w0 \<and> rw_tick_secs w0 = lm_tick_secs l"
      using assms(1) unfolding limiter_wf_def by blast
    ultimately show ?thesis using rw_new_tick [OF pos] by auto
  qed
  moreover have "\<forall>flow s. lm_expired l flow = Some s \<longrightarrow> state_ok s \<and> ds_phase s = Limited"
    using assms(1) unfolding limiter_wf_def by blast
  ultimately show "limiter_wf (commit_reload plan l)"
    unfolding limiter_wf_def commit(3-6) using at pos by blast
qed

text \<open>C18: A reload that was applied keeps the agreement: after a reload plan's actions have been
  executed in order and the plan committed, the policies the limiter believes to be armed are
  those the actions leave in the maps, for every enumeration of the limited flows, and the
  invariant of the limiter holds with the new index.\<close>

theorem reload_keeps_agreement:
  assumes "limiter_wf l" "distinct flows" "\<forall>flow. is_limited_state (lm_states l flow) \<longrightarrow> flow \<in> set flows"
    and "plan_reload keys flows l cfg now = Inr plan"
  shows "armed_policies (commit_reload plan l) = fold apply_action (rp_actions plan) (armed_policies l)
    \<and> limiter_wf (commit_reload plan l)"
  by (intro conjI reload_agreement [OF assms])


subsection \<open>A limiter\<close>

definition sample_limited :: dir_state where
  "sample_limited = \<lparr>ds_phase = Limited, ds_limited_since = 0, ds_limited_until = 10,
     ds_applied = Some sample_dir\<rparr>"

definition sample_flow :: flow_key where
  "sample_flow = (167772161, DIR_RX)"

definition sample_idle :: limiter where
  "sample_idle = (limiter_new 1)\<lparr>
     lm_ranges := [\<lparr>pr_start = 167772161, pr_end = 167772161, pr_policy = \<lparr>ep_rx = Some sample_dir, ep_tx = None\<rparr>\<rparr>],
     lm_prev_totals := [167772161 \<mapsto> ip_totals_default]\<rparr>"

definition sample_limiter :: limiter where
  "sample_limiter = sample_idle\<lparr>lm_states := [sample_flow \<mapsto> sample_limited]\<rparr>"

lemma sample_flow_policy:
  "flow_policy (lm_ranges sample_idle) (lm_overrides sample_idle) sample_flow = Some sample_dir"
  by (simp add: sample_idle_def sample_flow_def limiter_new_def flow_policy_def lookup_def ep_is_empty_def dir_of_def)

lemma sample_wf: "limiter_wf sample_idle" "limiter_wf sample_limiter"
  using sample_flow_policy
  by (auto simp: limiter_wf_def sample_limiter_def sample_idle_def limiter_new_def sample_limited_def
      state_ok_def sample_dir_def sat_add_def max_def)

lemma sample_ips: "set [167772161] = tick_ips sample_limiter Map.empty"
  "set [167772161] = tick_ips sample_idle [167772161 \<mapsto> t]"
  by (auto simp: tick_ips_def sample_limiter_def sample_idle_def limiter_new_def is_limited_state_def
      sample_limited_def sample_flow_def split: if_splits)

lemma tick_removes_iff_witness:
  "remove_of sample_flow \<in> set (snd (tick [167772161] 10 Map.empty sample_limiter))
   \<and> remove_of sample_flow \<notin> set (snd (tick [167772161] 9 Map.empty sample_limiter))
   \<and> lm_states (fold revert_failed_action (snd (tick [167772161] 10 Map.empty sample_limiter))
       (fst (tick [167772161] 10 Map.empty sample_limiter))) sample_flow = Some sample_limited"
proof -
  have s: "lm_states sample_limiter sample_flow = Some sample_limited" by (simp add: sample_limiter_def)
  show ?thesis
    using tick_removes_iff [where now = 10 and ok = "\<lambda>_. False" and flow = sample_flow,
        OF sample_wf(2) _ sample_ips(1) prod.collapse [symmetric] refl]
      tick_removes_iff [where now = 9 and ok = "\<lambda>_. False" and flow = sample_flow,
        OF sample_wf(2) _ sample_ips(1) prod.collapse [symmetric] refl] s
    by (simp add: sample_limited_def)
qed

lemma tick_keeps_agreement_witness:
  "armed_policies (fst (tick [167772161] 10 Map.empty sample_limiter))
   = fold apply_action (snd (tick [167772161] 10 Map.empty sample_limiter)) [sample_flow \<mapsto> installed_policy sample_dir]
   \<and> limiter_wf (fst (tick [167772161] 10 Map.empty sample_limiter))"
proof -
  have "armed_policies sample_limiter = [sample_flow \<mapsto> installed_policy sample_dir]"
    by (rule ext) (simp add: armed_policies_def sample_limiter_def sample_idle_def limiter_new_def
        armed_policy_def sample_limited_def)
  then show ?thesis
    using tick_keeps_agreement [where ips = "[167772161]" and now = 10 and totals = Map.empty
        and ok = "\<lambda>_. True", OF sample_wf(2) _ prod.collapse [symmetric] refl]
    by simp
qed

definition sample_totals :: "u32 \<rightharpoonup> ip_totals" where
  "sample_totals = [167772161 \<mapsto> ip_totals_default\<lparr>it_rx_bytes := 1000000\<rparr>]"

lemma tick_installs_iff_witness:
  "\<exists>a \<in> set (snd (tick [167772161] 5 sample_totals sample_idle)). la_flow a = sample_flow \<and> a \<noteq> remove_of sample_flow"
proof -
  let ?w = "rw_add (flow_delta sample_idle sample_totals sample_flow) (rw_new 1 1)"
  have len: "length (rw_ring (rw_new 1 1)) = 1" "rw_tick_secs (rw_new 1 1) = 1"
    by (simp_all add: rw_new_def Let_def MAX_SAMPLES_def max_def word_le_nat_alt)
  have delta: "flow_delta sample_idle sample_totals sample_flow = 1000000"
    by (simp add: flow_delta_def sample_idle_def sample_flow_def sample_totals_def dir_bytes_def
        ip_totals_default_def sat_sub_def)
  have rel: "window_rel [1000000] ?w"
    using rw_fold_rel [OF rw_new_rel, of "[1000000]" 1 1] by (simp add: delta small_samples_def)
  have full: "rw_is_full ?w" using rw_is_full_iff [OF rel] len by simp
  have trigger: "unat (trigger_bps sample_dir) = 8000000"
    by (simp add: trigger_bps_def sample_dir_def sat_mul_def)
  have "f64_of_nat (unat (trigger_bps sample_dir)) \<le> rw_average_bps ?w"
    using rw_average_full [OF rel full, of 8000000] len
    by (simp add: trigger window_secs_nat_def recent_bytes_def)
  moreover have "dpo_window_secs sample_dir = 1" "lm_tick_secs sample_idle = 1" "lm_windows sample_idle sample_flow = None"
    "\<not> is_limited_state (lm_states sample_idle sample_flow)"
    by (simp_all add: sample_dir_def sample_idle_def limiter_new_def is_limited_state_def)
  moreover have ips: "set [167772161] = tick_ips sample_idle sample_totals"
    using sample_ips(2) by (simp add: sample_totals_def)
  moreover from ips have "fst sample_flow \<in> tick_ips sample_idle sample_totals"
    by (auto simp: sample_flow_def)
  ultimately show ?thesis
    using tick_installs_iff [where now = 5, OF sample_wf(1) _ ips
        prod.collapse [symmetric] sample_flow_policy refl] full
    by simp
qed

lemma tick_order_irrelevant_witness:
  "fst (tick [1, 2] 10 Map.empty sample_limiter) = fst (tick [2, 1] 10 Map.empty sample_limiter)"
  using tick_order_irrelevant [of "[1, 2]" "[2, 1]"] by auto


lemma sample_index:
  "build_index (\<lambda>_. []) (sample_vconfig [sample_vrange]) = Inr (lm_ranges sample_idle, Map.empty)"
  "build_index (\<lambda>_. []) (sample_vconfig []) = Inr ([], Map.empty)"
  using sample_resolve
  by (simp_all add: build_index_def sample_vconfig_def index_range_def sample_idle_def sample_vrange_def)

lemma sample_limited_flows:
  "\<forall>flow. is_limited_state (lm_states sample_limiter flow) \<longrightarrow> flow \<in> set [sample_flow]"
  by (auto simp: sample_limiter_def sample_idle_def limiter_new_def is_limited_state_def)

lemma reload_keeps_agreement_witness:
  "\<exists>plan. plan_reload (\<lambda>_. []) [sample_flow] sample_limiter (sample_vconfig []) 5 = Inr plan
     \<and> rp_actions plan = [remove_of sample_flow]
     \<and> armed_policies (commit_reload plan sample_limiter) = Map.empty
     \<and> limiter_wf (commit_reload plan sample_limiter)"
proof -
  have s: "lm_states sample_limiter sample_flow = Some sample_limited" by (simp add: sample_limiter_def)
  have none: "flow_policy [] Map.empty sample_flow = None" by (simp add: flow_policy_def lookup_def)
  obtain plan where plan: "plan_reload (\<lambda>_. []) [sample_flow] sample_limiter (sample_vconfig []) 5 = Inr plan"
      "rp_actions plan = [remove_of sample_flow]"
    using s none
    by (simp add: plan_reload_def sample_index is_limited_state_def sample_limited_def plan_flow_def rp_actions_def)
  have "armed_policies sample_limiter = [sample_flow \<mapsto> installed_policy sample_dir]"
    by (rule ext) (simp add: armed_policies_def sample_limiter_def sample_idle_def limiter_new_def
        armed_policy_def sample_limited_def)
  with plan reload_keeps_agreement [OF sample_wf(2) _ sample_limited_flows plan(1)] show ?thesis by simp
qed


end
