(* ===== verification/Rate_Bounds.thy ===== *)
theory Rate_Bounds
  imports Policer_Arith
begin

section \<open>Rate bounds of the policers\<close>

text \<open>
  What a limit promises: whatever frames arrive between the readings \<open>t0\<close> and \<open>t1\<close>, in
  whatever order their readings reach the lock, the bytes admitted stay below the policy's
  rate times the length of the interval plus a burst term. The locale \<open>policer\<close> states what
  the algorithms share: a clock kept in the state, a budget that an admitted frame lowers by
  its charge and that grows only as the clock moves on. Its theorem is the bound; the
  interpretations on the token bucket, the leaky bucket, the fixed window, the sliding
  window counter and GCRA discharge its laws for the modelled code.
\<close>

definition frame_ok :: "u64 \<Rightarrow> u64 \<Rightarrow> bool" where
  "frame_ok now len \<longleftrightarrow> 0 < unat now \<and> unat now \<le> 2 ^ 63 \<and> unat len \<le> 65535"

definition frames_in :: "nat \<Rightarrow> nat \<Rightarrow> frames \<Rightarrow> bool" where
  "frames_in t0 t1 fs \<longleftrightarrow>
     list_all (\<lambda>(now, len). frame_ok now len \<and> t0 \<le> unat now \<and> unat now \<le> t1) fs"

lemma frames_in_simps [simp]:
  "frames_in t0 t1 []"
  "frames_in t0 t1 ((now, len) # fs) \<longleftrightarrow>
     frame_ok now len \<and> t0 \<le> unat now \<and> unat now \<le> t1 \<and> frames_in t0 t1 fs"
  by (auto simp: frames_in_def)

locale policer =
  fixes step :: "'s \<Rightarrow> u64 \<Rightarrow> u64 \<Rightarrow> bool \<times> 's"
    and wf :: "'s \<Rightarrow> bool"
    and charge :: "u64 \<Rightarrow> nat"
    and budget :: "'s \<Rightarrow> nat"
    and clock :: "'s \<Rightarrow> nat"
    and rate lead slack burst t0 :: nat
  assumes wf_step: "wf s \<Longrightarrow> frame_ok now len \<Longrightarrow> wf (snd (step s now len))"
    and clock_step: "wf s \<Longrightarrow> frame_ok now len \<Longrightarrow>
      clock (snd (step s now len)) \<le> max (clock s) (unat now + lead)"
    and budget_le: "wf s \<Longrightarrow> budget s \<le> burst"
    and budget_step: "wf s \<Longrightarrow> frame_ok now len \<Longrightarrow> t0 \<le> unat now \<Longrightarrow>
      budget (snd (step s now len)) + (if fst (step s now len) then charge len else 0)
        + max t0 (clock s) * rate
      \<le> budget s + max t0 (clock (snd (step s now len))) * rate + (if fst (step s now len) then slack else 0)"
begin

lemma total_charge:
  "wf s \<Longrightarrow> frames_in t0 t1 fs \<Longrightarrow>
   sum_list (map charge (admitted step fs s)) + budget (final_state step fs s)
     + max t0 (clock s) * rate
   \<le> budget s + max t0 (clock (final_state step fs s)) * rate + length (admitted step fs s) * slack"
proof (induction fs arbitrary: s)
  case Nil
  then show ?case by simp
next
  case (Cons f fs)
  obtain now len where f: "f = (now, len)" by force
  with Cons.prems have ok: "frame_ok now len" "t0 \<le> unat now" "frames_in t0 t1 fs" by simp_all
  from Cons.IH [OF wf_step [OF Cons.prems(1) ok(1)] ok(3)] budget_step [OF Cons.prems(1) ok(1,2)]
  show ?case by (auto simp: f split: if_splits)
qed

lemma final_clock:
  "wf s \<Longrightarrow> frames_in t0 t1 fs \<Longrightarrow> clock (final_state step fs s) \<le> max (clock s) (t1 + lead)"
proof (induction fs arbitrary: s)
  case Nil
  then show ?case by simp
next
  case (Cons f fs)
  obtain now len where f: "f = (now, len)" by force
  with Cons.prems have ok: "frame_ok now len" "unat now \<le> t1" "frames_in t0 t1 fs" by simp_all
  from Cons.IH [OF wf_step [OF Cons.prems(1) ok(1)] ok(3)] clock_step [OF Cons.prems(1) ok(1)] ok(2)
  show ?case by (auto simp: f max_def split: if_splits)
qed

lemma final_wf: "wf s \<Longrightarrow> frames_in t0 t1 fs \<Longrightarrow> wf (final_state step fs s)"
  by (induction fs arbitrary: s) (auto simp: wf_step)

lemma rate_bound:
  assumes "wf s" "frames_in t0 t1 fs"
  shows "sum_list (map charge (admitted step fs s))
     \<le> burst + (t1 + lead - t0) * rate + length (admitted step fs s) * slack"
proof -
  let ?c = "max t0 (clock s)" and ?c' = "max t0 (clock (final_state step fs s))"
  from final_clock [OF assms] have "?c' \<le> ?c + (t1 + lead - t0)" by linarith
  then have "?c' * rate \<le> ?c * rate + (t1 + lead - t0) * rate"
    by (metis add_mult_distrib mult_le_mono1)
  with total_charge [OF assms] budget_le [OF assms(1)] show ?thesis by linarith
qed

end

lemma scaled_admitted_bytes:
  "sum_list (map (\<lambda>len. k * unat len) (admitted step fs s)) = k * admitted_bytes step fs s"
  by (simp add: admitted_bytes_def sum_list_const_mult comp_def)

subsection \<open>The two buckets\<close>

text \<open>
  A refill that reaches the cap is granted in full once \<open>capacity div per_ns\<close> nanoseconds
  have passed, up to \<open>bucket_slack\<close> (less than one nanosecond of traffic) too early. That
  takes a bucket with fewer tokens than the slack, so each time an admitted frame has emptied
  it before: the budget counts the slack as there.
\<close>

definition bucket_wf :: "limit_policy \<Rightarrow> limit_state \<Rightarrow> bool" where
  "bucket_wf p s \<longleftrightarrow> bounded_policy p \<and> unat (st_a s) \<le> capacity p"

definition bucket_slack :: "limit_policy \<Rightarrow> nat" where
  "bucket_slack p = capacity p mod byte_rate p"

lemma bucket_slack_le: "bucket_slack p \<le> capacity p"
  by (simp add: bucket_slack_def)

lemma refilled_le:
  assumes "bounded_policy p" "unat (st_a s) \<le> capacity p"
  shows "refilled p s now \<le> capacity p"
    and "max (refilled p s now) (bucket_slack p) + unat (st_b s) * byte_rate p
      \<le> max (unat (st_a s)) (bucket_slack p) + max (unat (st_b s)) (unat now) * byte_rate p"
proof -
  show "refilled p s now \<le> capacity p" using assms by (simp add: refilled_def)
  let ?R = "byte_rate p" let ?C = "capacity p"
  show "max (refilled p s now) (bucket_slack p) + unat (st_b s) * ?R
      \<le> max (unat (st_a s)) (bucket_slack p) + max (unat (st_b s)) (unat now) * ?R"
  proof (cases "unat (st_b s) \<le> unat now")
    case False
    then show ?thesis by (simp add: refilled_def)
  next
    case True
    then have d: "unat now * ?R = unat (st_b s) * ?R + (unat now - unat (st_b s)) * ?R"
      by (metis add_mult_distrib le_add_diff_inverse)
    have C: "?C = ?C div ?R * ?R + bucket_slack p"
      unfolding bucket_slack_def by (rule div_mult_mod_eq [symmetric])
    show ?thesis
    proof (cases "?C div ?R \<le> unat now - unat (st_b s)")
      case full: True
      then have "?C div ?R * ?R \<le> (unat now - unat (st_b s)) * ?R" by (rule mult_le_mono1)
      with C have "?C \<le> (unat now - unat (st_b s)) * ?R + bucket_slack p" by linarith
      with d True full bucket_slack_le [of p] show ?thesis by (simp add: refilled_def max_def)
    next
      case False
      then have r: "refilled p s now = min ?C (unat (st_a s) + (unat now - unat (st_b s)) * ?R)"
        using True by (simp add: refilled_def)
      have "max (unat (st_b s)) (unat now) = unat now" using True by simp
      then show ?thesis unfolding r by (simp only: d)
    qed
  qed
qed

text \<open>What an admitted frame takes from \<open>r\<close> tokens, seen through the budget.\<close>

lemma slack_paid: "c \<le> r \<Longrightarrow> max (r - c) k + c \<le> max r k + k" for c r k :: nat
  by linarith

definition tb_budget :: "limit_policy \<Rightarrow> nat \<Rightarrow> limit_state \<Rightarrow> nat" where
  "tb_budget p t0 s = (if unat (st_b s) < t0 then capacity p else max (unat (st_a s)) (bucket_slack p))"

interpretation tb: policer "token_bucket p" "bucket_wf p" "\<lambda>len. 1000000000 * unat len"
    "tb_budget p t0" "\<lambda>s. unat (st_b s)" "byte_rate p" 0 "bucket_slack p" "capacity p" t0
  for p t0
proof
  fix s now len
  assume s: "bucket_wf p s" and f: "frame_ok now len"
  then have p: "bounded_policy p" "unat (st_a s) \<le> capacity p" "unat len \<le> 65535"
    by (simp_all add: bucket_wf_def frame_ok_def)
  note step = token_bucket_nat [OF p, of now]
  note refill = refilled_le [OF p(1,2), of now]
  let ?s' = "snd (token_bucket p s now len)"
  have paid: "max (unat (st_a ?s')) (bucket_slack p) + (if fst (token_bucket p s now len) then 1000000000 * unat len else 0)
      \<le> max (refilled p s now) (bucket_slack p) + (if fst (token_bucket p s now len) then bucket_slack p else 0)"
    using step(1) slack_paid [of "1000000000 * unat len" "refilled p s now" "bucket_slack p"]
    by (simp add: step(2) mult.commute)
  show "bucket_wf p ?s'"
    using p(1) refill(1) by (auto simp: bucket_wf_def step(2))
  show "unat (st_b ?s') \<le> max (unat (st_b s)) (unat now + 0)"
    by (simp add: step(3))
  assume "t0 \<le> unat now"
  then have "tb_budget p t0 ?s' = max (unat (st_a ?s')) (bucket_slack p)"
    by (auto simp: tb_budget_def step(3))
  moreover have "max (refilled p s now) (bucket_slack p) + max t0 (unat (st_b s)) * byte_rate p
      \<le> tb_budget p t0 s + max t0 (unat (st_b ?s')) * byte_rate p"
  proof (cases "unat (st_b s) < t0")
    case True
    have grant: "t0 * byte_rate p \<le> max t0 (unat (st_b ?s')) * byte_rate p"
      by (rule mult_le_mono1) simp
    have start: "tb_budget p t0 s = capacity p" "max t0 (unat (st_b s)) = t0"
      using True by (simp_all add: tb_budget_def)
    show ?thesis unfolding start using grant refill(1) bucket_slack_le [of p] by linarith
  next
    case False
    with refill(2) show ?thesis by (simp add: tb_budget_def step(3) max_absorb2 max.coboundedI1)
  qed
  ultimately show "tb_budget p t0 ?s'
        + (if fst (token_bucket p s now len) then 1000000000 * unat len else 0)
        + max t0 (unat (st_b s)) * byte_rate p
      \<le> tb_budget p t0 s + max t0 (unat (st_b ?s')) * byte_rate p
        + (if fst (token_bucket p s now len) then bucket_slack p else 0)"
    using paid by linarith
next
  fix s assume "bucket_wf p s"
  then show "tb_budget p t0 s \<le> capacity p" using bucket_slack_le [of p] by (simp add: bucket_wf_def tb_budget_def)
qed

lemma drained_le:
  assumes "unat (st_a s) \<le> capacity p"
  shows "drained p s now \<le> capacity p"
    and "max (capacity p - drained p s now) (bucket_slack p) + unat (st_b s) * byte_rate p
      \<le> max (capacity p - unat (st_a s)) (bucket_slack p) + max (unat (st_b s)) (unat now) * byte_rate p"
proof -
  show "drained p s now \<le> capacity p"
    using assms by (auto simp: drained_def intro: order_trans [OF diff_le_self])
  let ?R = "byte_rate p" let ?C = "capacity p"
  show "max (?C - drained p s now) (bucket_slack p) + unat (st_b s) * ?R
      \<le> max (?C - unat (st_a s)) (bucket_slack p) + max (unat (st_b s)) (unat now) * ?R"
  proof (cases "unat (st_b s) \<le> unat now")
    case False
    then show ?thesis by (simp add: drained_def)
  next
    case True
    then have d: "unat now * ?R = unat (st_b s) * ?R + (unat now - unat (st_b s)) * ?R"
      by (metis add_mult_distrib le_add_diff_inverse)
    have C: "?C = ?C div ?R * ?R + bucket_slack p"
      unfolding bucket_slack_def by (rule div_mult_mod_eq [symmetric])
    show ?thesis
    proof (cases "?C div ?R \<le> unat now - unat (st_b s)")
      case full: True
      then have "?C div ?R * ?R \<le> (unat now - unat (st_b s)) * ?R" by (rule mult_le_mono1)
      with C have "?C \<le> (unat now - unat (st_b s)) * ?R + bucket_slack p" by linarith
      moreover have "drained p s now = 0" using True full assms by (simp add: drained_def)
      moreover have "max (unat (st_b s)) (unat now) = unat now" using True by simp
      ultimately show ?thesis using d bucket_slack_le [of p] by simp
    next
      case False
      then have r: "drained p s now = unat (st_a s) - (unat now - unat (st_b s)) * ?R"
        using True by (simp add: drained_def)
      have "max (unat (st_b s)) (unat now) = unat now" using True by simp
      then show ?thesis unfolding r using assms by (simp only: d)
    qed
  qed
qed

definition lb_budget :: "limit_policy \<Rightarrow> nat \<Rightarrow> limit_state \<Rightarrow> nat" where
  "lb_budget p t0 s = (if unat (st_b s) < t0 then capacity p else max (capacity p - unat (st_a s)) (bucket_slack p))"

interpretation lb: policer "leaky_bucket p" "bucket_wf p" "\<lambda>len. 1000000000 * unat len"
    "lb_budget p t0" "\<lambda>s. unat (st_b s)" "byte_rate p" 0 "bucket_slack p" "capacity p" t0
  for p t0
proof
  fix s now len
  assume s: "bucket_wf p s" and f: "frame_ok now len"
  then have p: "bounded_policy p" "unat (st_a s) \<le> capacity p" "unat len \<le> 65535"
    by (simp_all add: bucket_wf_def frame_ok_def)
  note step = leaky_bucket_nat [OF p, of now]
  note drain = drained_le [OF p(2), of now]
  let ?s' = "snd (leaky_bucket p s now len)"
  have paid: "max (capacity p - unat (st_a ?s')) (bucket_slack p)
        + (if fst (leaky_bucket p s now len) then 1000000000 * unat len else 0)
      \<le> max (capacity p - drained p s now) (bucket_slack p)
        + (if fst (leaky_bucket p s now len) then bucket_slack p else 0)"
    using step(1) drain(1) slack_paid [of "1000000000 * unat len" "capacity p - drained p s now" "bucket_slack p"]
    by (simp add: step(2) mult.commute)
  show "bucket_wf p ?s'"
    using p(1) drain(1) step(1) by (auto simp: bucket_wf_def step(2))
  show "unat (st_b ?s') \<le> max (unat (st_b s)) (unat now + 0)"
    by (simp add: step(3))
  assume "t0 \<le> unat now"
  then have "lb_budget p t0 ?s' = max (capacity p - unat (st_a ?s')) (bucket_slack p)"
    by (auto simp: lb_budget_def step(3))
  moreover have "max (capacity p - drained p s now) (bucket_slack p) + max t0 (unat (st_b s)) * byte_rate p
      \<le> lb_budget p t0 s + max t0 (unat (st_b ?s')) * byte_rate p"
  proof (cases "unat (st_b s) < t0")
    case True
    have grant: "t0 * byte_rate p \<le> max t0 (unat (st_b ?s')) * byte_rate p"
      by (rule mult_le_mono1) simp
    have start: "lb_budget p t0 s = capacity p" "max t0 (unat (st_b s)) = t0"
      using True by (simp_all add: lb_budget_def)
    show ?thesis unfolding start using grant bucket_slack_le [of p] by linarith
  next
    case False
    with drain(2) show ?thesis by (simp add: lb_budget_def step(3) max_absorb2 max.coboundedI1)
  qed
  ultimately show "lb_budget p t0 ?s'
        + (if fst (leaky_bucket p s now len) then 1000000000 * unat len else 0)
        + max t0 (unat (st_b s)) * byte_rate p
      \<le> lb_budget p t0 s + max t0 (unat (st_b ?s')) * byte_rate p
        + (if fst (leaky_bucket p s now len) then bucket_slack p else 0)"
    using paid by linarith
next
  fix s assume "bucket_wf p s"
  then show "lb_budget p t0 s \<le> capacity p" using bucket_slack_le [of p] by (simp add: lb_budget_def)
qed

subsection \<open>GCRA\<close>

text \<open>
  The clock is the theoretical arrival time; an admitted frame advances it by the frame's
  increment, and conformance keeps it within the tolerance of the reading.
\<close>

definition gcra_wf :: "limit_policy \<Rightarrow> limit_state \<Rightarrow> bool" where
  "gcra_wf p s \<longleftrightarrow> bounded_policy p \<and> unat (st_a s) \<le> 2 ^ 63 + gcra_tolerance p"

interpretation gc: policer "gcra p" "gcra_wf p" "gcra_increment p" "\<lambda>s. 0" "\<lambda>s. unat (st_a s)"
    1 "gcra_tolerance p" 0 0 t0
  for p t0
proof
  fix s now len
  assume s: "gcra_wf p s" and f: "frame_ok now len"
  then have p: "bounded_policy p" "unat now \<le> 2 ^ 63"
      "unat (st_a s) \<le> 2 ^ 63 + gcra_tolerance p" "unat len \<le> 65535"
    by (simp_all add: gcra_wf_def frame_ok_def)
  note step = gcra_nat [OF p]
  show "gcra_wf p (snd (gcra p s now len))"
    using p step(1) by (auto simp: gcra_wf_def step(2))
  show "unat (st_a (snd (gcra p s now len))) \<le> max (unat (st_a s)) (unat now + gcra_tolerance p)"
    using step(1) by (auto simp: step(2))
  assume "t0 \<le> unat now"
  then show "0 + (if fst (gcra p s now len) then gcra_increment p len else 0)
        + max t0 (unat (st_a s)) * 1
      \<le> 0 + max t0 (unat (st_a (snd (gcra p s now len)))) * 1
        + (if fst (gcra p s now len) then 0 else 0)"
    by (auto simp: step(2))
qed simp

subsection \<open>The two windows\<close>

text \<open>A window that is left behind pays for the allowance of the next.\<close>

lemma new_window_paid:
  "b + W \<le> b' \<Longrightarrow> W * A + A * b \<le> W * (A - u) + A * b'" for A :: nat
proof -
  assume "b + W \<le> b'"
  then have "A * (b + W) \<le> A * b'" by (rule mult_le_mono2)
  then show ?thesis by (simp add: algebra_simps)
qed

lemma window_charge:
  "u + l \<le> A \<Longrightarrow> W * (A - (u + l)) + W * l = W * (A - u)" for A :: nat
  by (simp add: add_mult_distrib2 [symmetric])

definition fixed_window_wf :: "limit_policy \<Rightarrow> limit_state \<Rightarrow> bool" where
  "fixed_window_wf p s \<longleftrightarrow>
     bounded_policy p \<and> lp_window_ns p \<noteq> 0 \<and> unat (st_b s) \<le> 2 ^ 63
     \<and> unat (st_a s) \<le> unat (window_allowance p) \<and> (st_b s = 0 \<longrightarrow> st_a s = 0)"

definition window_size :: "limit_policy \<Rightarrow> nat" where
  "window_size p = unat (lp_window_ns p)"

definition allowance :: "limit_policy \<Rightarrow> nat" where
  "allowance p = unat (window_allowance p)"

text \<open>What a window that began before \<open>t0\<close> may still admit is counted as one more allowance.\<close>

definition fw_budget :: "limit_policy \<Rightarrow> nat \<Rightarrow> limit_state \<Rightarrow> nat" where
  "fw_budget p t0 s =
     (if unat (st_b s) < t0 then window_size p * allowance p else 0)
     + window_size p * (allowance p - unat (st_a s))"

interpretation fw: policer "fixed_window p" "fixed_window_wf p"
    "\<lambda>len. window_size p * unat len" "fw_budget p t0" "\<lambda>s. unat (st_b s)"
    "allowance p" 0 0 "2 * (window_size p * allowance p)" t0
  for p t0
proof
  fix s now len
  assume s: "fixed_window_wf p s" and f: "frame_ok now len"
  then have p: "bounded_policy p" "lp_window_ns p \<noteq> 0" "unat (st_b s) \<le> 2 ^ 63"
      "unat (st_a s) \<le> unat (window_allowance p)" "unat len \<le> 65535"
    and z: "st_b s = 0 \<longrightarrow> st_a s = 0" and now: "0 < unat now" "unat now \<le> 2 ^ 63"
    by (simp_all add: fixed_window_wf_def frame_ok_def)
  note step = fixed_window_nat [OF p, of now]
  have used: "window_used p s now \<le> unat (window_allowance p)"
    using p(4) by (simp add: window_used_def)
  let ?s' = "snd (fixed_window p s now len)"
  let ?W = "window_size p" and ?A = "allowance p"
  show "fixed_window_wf p ?s'"
    using p now z step(1) used
    by (auto simp: fixed_window_wf_def step(2,3) window_over_def unat_eq_0 [symmetric])
  show "unat (st_b ?s') \<le> max (unat (st_b s)) (unat now + 0)"
    by (simp add: step(3))
  assume t0: "t0 \<le> unat now"
  have "?W * (?A - unat (st_a ?s')) + (if fst (fixed_window p s now len) then ?W * unat len else 0)
      = ?W * (?A - window_used p s now)"
    using step(1) window_charge by (auto simp: step(2) allowance_def)
  moreover have "(if unat (st_b ?s') < t0 then ?W * ?A else 0) + ?W * (?A - window_used p s now)
        + max t0 (unat (st_b s)) * ?A
      \<le> fw_budget p t0 s + max t0 (unat (st_b ?s')) * ?A"
  proof (cases "window_over p s now")
    case False
    then show ?thesis by (simp add: step(3) window_used_def fw_budget_def)
  next
    case over: True
    have b': "unat (st_b ?s') = unat now" using over by (simp add: step(3))
    have u: "window_used p s now = 0" using over by (simp add: window_used_def)
    show ?thesis
    proof (cases "unat (st_b s) < t0")
      case True
      have "t0 * ?A \<le> ?W * (?A - unat (st_a s)) + unat now * ?A"
        using mult_le_mono1 [OF t0] by (rule trans_le_add2)
      with True t0 show ?thesis unfolding b' u
        by (simp add: fw_budget_def max_absorb1 max_absorb2)
    next
      case False
      have "unat (st_b s) + ?W \<le> unat now \<or> unat (st_b s) = 0 \<and> unat (st_a s) = 0"
        using over z by (auto simp: window_over_def window_size_def)
      then have "?W * ?A + ?A * unat (st_b s) \<le> ?W * (?A - unat (st_a s)) + ?A * unat now"
        using new_window_paid by auto
      with False t0 show ?thesis unfolding b' u
        by (simp add: fw_budget_def max_absorb2 mult.commute)
    qed
  qed
  ultimately show "fw_budget p t0 ?s'
        + (if fst (fixed_window p s now len) then ?W * unat len else 0)
        + max t0 (unat (st_b s)) * ?A
      \<le> fw_budget p t0 s + max t0 (unat (st_b ?s')) * ?A + (if fst (fixed_window p s now len) then 0 else 0)"
    unfolding fw_budget_def by linarith
next
  fix s :: limit_state
  have "allowance p - unat (st_a s) \<le> 2 * allowance p" by linarith
  then show "fw_budget p t0 s \<le> 2 * (window_size p * allowance p)"
    by (simp add: fw_budget_def)
qed

definition swc_wf :: "limit_policy \<Rightarrow> limit_state \<Rightarrow> bool" where
  "swc_wf p s \<longleftrightarrow>
     bounded_policy p \<and> lp_window_ns p \<noteq> 0 \<and> unat (st_c s) \<le> 2 ^ 63
     \<and> unat (st_a s) \<le> unat (window_allowance p) \<and> unat (st_b s) \<le> unat (window_allowance p)
     \<and> (st_c s = 0 \<longrightarrow> st_b s = 0)"

text \<open>
  A window that began before \<open>t0\<close> is followed by one that may also begin before \<open>t0\<close> (the
  rotation moves the start by exactly one window) when it was over already at \<open>t0\<close>.
\<close>

definition sc_budget :: "limit_policy \<Rightarrow> nat \<Rightarrow> limit_state \<Rightarrow> nat" where
  "sc_budget p t0 s =
     (if unat (st_c s) < t0 then
        window_size p * allowance p
        + (if unat (st_c s) + window_size p \<le> t0 then window_size p * allowance p
           else window_size p * (allowance p - unat (st_b s)))
      else window_size p * (allowance p - unat (st_b s)))"

lemma unat_advance_window:
  "bounded_policy p \<Longrightarrow> unat c \<le> 2 ^ 63 \<Longrightarrow>
   unat (c + lp_window_ns p) = unat c + unat (lp_window_ns p)"
  by (intro unat_add_small) (simp add: bounded_policy_def)

lemma swc_rotated_wf:
  assumes "swc_wf p s" "frame_ok now len"
  shows "swc_wf p (swc_rotated p s now)" "st_c (swc_rotated p s now) \<noteq> 0"
    and "unat (st_c (swc_rotated p s now)) \<le> max (unat (st_c s)) (unat now)"
    and "unat now < unat (st_c (swc_rotated p s now)) + window_size p"
    and "swc_rotated p s now = s \<or> st_b (swc_rotated p s now) = 0
           \<and> unat (st_c s) + window_size p \<le> unat (st_c (swc_rotated p s now))
         \<or> st_c s = 0 \<and> st_b s = 0 \<and> st_b (swc_rotated p s now) = 0
           \<and> st_c (swc_rotated p s now) = now"
proof -
  have p: "bounded_policy p" "unat (st_c s) \<le> 2 ^ 63" "0 < window_size p"
    and now: "0 < unat now" "unat now \<le> 2 ^ 63"
    using assms by (simp_all add: swc_wf_def frame_ok_def window_size_def unat_gt_0)
  note adv = unat_advance_window [OF p(1,2)]
  have nz: "now \<noteq> 0" using now by auto
  have nz': "st_c s \<noteq> 0 \<Longrightarrow> st_c s + lp_window_ns p \<noteq> 0"
    using adv by (auto simp: unat_eq_0 [symmetric])
  show "swc_wf p (swc_rotated p s now)"
    using assms now nz nz' by (auto simp: swc_rotated_def swc_wf_def adv)
  show "st_c (swc_rotated p s now) \<noteq> 0"
    using nz nz' by (simp add: swc_rotated_def)
  show "unat (st_c (swc_rotated p s now)) \<le> max (unat (st_c s)) (unat now)"
    by (auto simp: swc_rotated_def adv)
  show "unat now < unat (st_c (swc_rotated p s now)) + window_size p"
    using p(3) by (auto simp: swc_rotated_def adv window_size_def)
  show "swc_rotated p s now = s \<or> st_b (swc_rotated p s now) = 0
           \<and> unat (st_c s) + window_size p \<le> unat (st_c (swc_rotated p s now))
         \<or> st_c s = 0 \<and> st_b s = 0 \<and> st_b (swc_rotated p s now) = 0
           \<and> st_c (swc_rotated p s now) = now"
    using assms(1) by (auto simp: swc_rotated_def swc_wf_def adv window_size_def)
qed

lemma sc_budget_rotated:
  assumes s: "swc_wf p s" and f: "frame_ok now len" and t0: "t0 \<le> unat now"
  shows "sc_budget p t0 (swc_rotated p s now) + max t0 (unat (st_c s)) * allowance p
    \<le> sc_budget p t0 s + max t0 (unat (st_c (swc_rotated p s now))) * allowance p"
proof -
  let ?r = "swc_rotated p s now" and ?W = "window_size p" and ?A = "allowance p"
  note rot = swc_rotated_wf [OF s f]
  consider (same) "?r = s" | (rotated) "st_b ?r = 0" "unat (st_c s) + ?W \<le> unat (st_c ?r)"
    | (first) "st_c s = 0" "st_b s = 0" "st_b ?r = 0" "st_c ?r = now"
    using rot(5) by blast
  then show ?thesis
  proof cases
    case same
    then show ?thesis by simp
  next
    case rotated
    note paid = new_window_paid [OF rotated(2), of ?A "unat (st_b s)"]
    have grow: "t0 * ?A \<le> max t0 (unat (st_c ?r)) * ?A" by (rule mult_le_mono1) simp
    consider (late) "unat (st_c ?r) < t0" | (cross) "unat (st_c s) < t0" "t0 \<le> unat (st_c ?r)"
      | (inside) "t0 \<le> unat (st_c s)" by linarith
    then show ?thesis
    proof cases
      case late
      with rot(4) rotated t0 show ?thesis by (simp add: sc_budget_def max_absorb1)
    next
      case cross
      then have start: "sc_budget p t0 ?r = ?W * ?A" "max t0 (unat (st_c s)) = t0"
        and "?W * ?A \<le> sc_budget p t0 s"
        using rotated(1) by (simp_all add: sc_budget_def)
      from this(3) grow show ?thesis unfolding start by (rule add_le_mono)
    next
      case inside
      then have "t0 \<le> unat (st_c ?r)" using rotated(2) by linarith
      with inside rotated(1) paid show ?thesis
        by (simp add: sc_budget_def max_absorb2 mult.commute)
    qed
  next
    case first
    then have "sc_budget p t0 ?r = ?W * ?A" using t0 by (simp add: sc_budget_def)
    moreover have "?W * ?A \<le> sc_budget p t0 s" using first by (simp add: sc_budget_def)
    moreover have "max t0 (unat (st_c s)) * ?A \<le> max t0 (unat (st_c ?r)) * ?A"
      using first by (intro mult_le_mono1) simp
    ultimately show ?thesis by linarith
  qed
qed

interpretation sc: policer "sliding_window_counter p" "swc_wf p"
    "\<lambda>len. window_size p * unat len" "sc_budget p t0" "\<lambda>s. unat (st_c s)"
    "allowance p" 0 0 "2 * (window_size p * allowance p)" t0
  for p t0
proof
  fix s now len
  assume s: "swc_wf p s" and f: "frame_ok now len"
  then have p: "bounded_policy p" "lp_window_ns p \<noteq> 0" "unat (st_c s) \<le> 2 ^ 63"
      "unat (st_a s) \<le> unat (window_allowance p)" "unat (st_b s) \<le> unat (window_allowance p)"
      "unat len \<le> 65535"
    by (simp_all add: swc_wf_def frame_ok_def)
  note step = sliding_window_counter_nat [OF p, of now]
  note rot = swc_rotated_wf [OF s f]
  let ?r = "swc_rotated p s now" and ?s' = "snd (sliding_window_counter p s now len)"
  let ?W = "window_size p" and ?A = "allowance p"
  have add: "unat (st_b ?r + len) = unat (st_b ?r) + unat len"
    using window_allowance_nat(2) [OF p(1)] rot(1) p(6)
    by (intro unat_add_small) (simp add: swc_wf_def)
  have fits: "unat (st_b ?r) + unat len \<le> ?A" if "fst (sliding_window_counter p s now len)"
    using that step(1) by (simp add: swc_estimate_def allowance_def)
  show "swc_wf p ?s'"
    using rot(1,2) fits add by (auto simp: step(2) Let_def swc_wf_def allowance_def)
  have c: "st_c ?s' = st_c ?r" by (simp add: step(2) Let_def)
  show "unat (st_c ?s') \<le> max (unat (st_c s)) (unat now + 0)"
    using rot(3) by (simp add: c)
  assume t0: "t0 \<le> unat now"
  have "\<not> unat (st_c ?r) + ?W \<le> t0" using rot(4) t0 by linarith
  then have "sc_budget p t0 ?s' + (if fst (sliding_window_counter p s now len) then ?W * unat len else 0)
      = sc_budget p t0 ?r"
    using window_charge [OF fits] by (auto simp: step(2) Let_def sc_budget_def add)
  then show "sc_budget p t0 ?s'
        + (if fst (sliding_window_counter p s now len) then ?W * unat len else 0)
        + max t0 (unat (st_c s)) * ?A
      \<le> sc_budget p t0 s + max t0 (unat (st_c ?s')) * ?A
        + (if fst (sliding_window_counter p s now len) then 0 else 0)"
    using sc_budget_rotated [OF s f t0] by (simp add: c)
next
  fix s :: limit_state
  have "allowance p - unat (st_b s) \<le> 2 * allowance p" by linarith
  then show "sc_budget p t0 s \<le> 2 * (window_size p * allowance p)"
    by (simp add: sc_budget_def)
qed

subsection \<open>The promised bounds\<close>

text \<open>C8: However frames arrive between the readings \<open>t0\<close> and \<open>t1\<close>, the token bucket admits at
  most the burst, plus the byte rate times the length of the interval, plus \<open>bucket_slack\<close> (less
  than one nanosecond's worth of the rate) for each frame it admits, all in nano-bytes. The last
  term is real: a bucket that a frame has emptied is refilled up to that much too early.\<close>

theorem token_bucket_rate_bound:
  assumes "bucket_wf p s" "frames_in t0 t1 fs"
  shows "1000000000 * admitted_bytes (token_bucket p) fs s
    \<le> capacity p + (t1 - t0) * byte_rate p
      + length (admitted (token_bucket p) fs s) * bucket_slack p"
  using tb.rate_bound [OF assms] by (simp add: scaled_admitted_bytes)

text \<open>The leaky bucket keeps the same bound: its level admits at most the burst, plus the
  byte rate times the length of the interval, plus the same rounding for each admitted frame.\<close>

theorem leaky_bucket_rate_bound:
  assumes "bucket_wf p s" "frames_in t0 t1 fs"
  shows "1000000000 * admitted_bytes (leaky_bucket p) fs s
    \<le> capacity p + (t1 - t0) * byte_rate p
      + length (admitted (leaky_bucket p) fs s) * bucket_slack p"
  using lb.rate_bound [OF assms] by (simp add: scaled_admitted_bytes)

lemma gcra_charge_covers:
  assumes "unat (lp_rate_bps p) \<noteq> 0"
  shows "8000000000 * sum_list (map unat lens)
    \<le> unat (lp_rate_bps p) * (sum_list (map (gcra_increment p) lens) + length lens)"
proof (induction lens)
  case Nil
  then show ?case by simp
next
  case (Cons len lens)
  have "8000000000 * unat len < unat (lp_rate_bps p) * (gcra_increment p len + 1)"
    using dividend_less_times_div [of "unat (lp_rate_bps p)" "8000000000 * unat len"] assms
    by (simp add: gcra_increment_def mult.commute)
  with Cons.IH show ?case by (simp add: algebra_simps)
qed

lemma gcra_admitted_bound:
  assumes "gcra_wf p s" "frames_in t0 t1 fs"
  shows "8000000000 * admitted_bytes (gcra p) fs s
    \<le> unat (lp_rate_bps p)
        * (t1 + gcra_tolerance p - t0 + length (admitted (gcra p) fs s))"
proof -
  have "unat (lp_rate_bps p) \<noteq> 0"
    using assms(1) by (simp add: gcra_wf_def bounded_policy_def)
  note gcra_charge_covers [OF this, of "admitted (gcra p) fs s"]
  also have "unat (lp_rate_bps p)
        * (sum_list (map (gcra_increment p) (admitted (gcra p) fs s)) + length (admitted (gcra p) fs s))
      \<le> unat (lp_rate_bps p) * (t1 + gcra_tolerance p - t0 + length (admitted (gcra p) fs s))"
    using gc.rate_bound [OF assms] by (intro mult_le_mono2) simp
  finally show ?thesis by (simp add: admitted_bytes_def)
qed

text \<open>C9: GCRA admits, in bit-nanoseconds, at most the rate times the length of the interval and
  the burst tolerance, plus the rounding of one nanosecond for each admitted frame.\<close>

theorem gcra_rate_bound:
  assumes "gcra_wf p s" "frames_in t0 t1 fs"
  shows "8000000000 * admitted_bytes (gcra p) fs s
    \<le> unat (lp_rate_bps p)
        * (t1 + gcra_tolerance p - t0 + length (admitted (gcra p) fs s))"
  by (rule gcra_admitted_bound [OF assms])

text \<open>C10: The fixed window admits at most its allowance per window length over any interval, plus
  two allowances: the burst at a window boundary that its comment describes.\<close>

theorem fixed_window_rate_bound:
  assumes "fixed_window_wf p s" "frames_in t0 t1 fs"
  shows "window_size p * admitted_bytes (fixed_window p) fs s
    \<le> 2 * (window_size p * allowance p) + (t1 - t0) * allowance p"
  using fw.rate_bound [OF assms] by (simp add: scaled_admitted_bytes)

text \<open>C11: The sliding window counter keeps the long-term rate of the fixed window, and unlike the
  fixed window it never admits a frame unless the traffic carried over from the previous
  window, the traffic of the current one and the frame together fit one allowance.\<close>

theorem sliding_window_counter_bounds:
  assumes "swc_wf p s" "frames_in t0 t1 fs"
  shows "window_size p * admitted_bytes (sliding_window_counter p) fs s
      \<le> 2 * (window_size p * allowance p) + (t1 - t0) * allowance p
    \<and> (\<forall>now len. frame_ok now len \<and> fst (sliding_window_counter p s now len)
        \<longrightarrow> swc_estimate p (snd (sliding_window_counter p s now len)) now \<le> allowance p)"
proof (intro conjI allI impI)
  show "window_size p * admitted_bytes (sliding_window_counter p) fs s
      \<le> 2 * (window_size p * allowance p) + (t1 - t0) * allowance p"
    using sc.rate_bound [OF assms] by (simp add: scaled_admitted_bytes)
  fix now len
  assume a: "frame_ok now len \<and> fst (sliding_window_counter p s now len)"
  have p: "bounded_policy p" "lp_window_ns p \<noteq> 0" "unat (st_c s) \<le> 2 ^ 63"
      "unat (st_a s) \<le> unat (window_allowance p)" "unat (st_b s) \<le> unat (window_allowance p)"
      "unat len \<le> 65535"
    using assms(1) a by (simp_all add: swc_wf_def frame_ok_def)
  note step = sliding_window_counter_nat [OF p, of now]
  have "unat (st_b (swc_rotated p s now) + len) = unat (st_b (swc_rotated p s now)) + unat len"
    using window_allowance_nat(2) [OF p(1)] swc_rotated_wf(1) [OF assms(1) conjunct1 [OF a]] p(6)
    by (intro unat_add_small) (simp add: swc_wf_def)
  with a step(1) show "swc_estimate p (snd (sliding_window_counter p s now len)) now \<le> allowance p"
    by (simp add: step(2) Let_def swc_estimate_def allowance_def)
qed

text \<open>Every algorithm refuses a frame without touching its accounting: a refused frame
  leaves GCRA's state as it is, takes no token, and adds nothing to a level or to a
  window's count; so refused traffic never delays later traffic.\<close>

theorem refused_frame_is_free:
  assumes "bounded_policy p" "unat (st_a s) \<le> capacity p" "frame_ok now len"
  shows "(\<not> fst (token_bucket p s now len)
            \<longrightarrow> unat (st_a (snd (token_bucket p s now len))) = refilled p s now)
    \<and> (\<not> fst (leaky_bucket p s now len)
            \<longrightarrow> unat (st_a (snd (leaky_bucket p s now len))) = drained p s now)
    \<and> (\<not> fst (gcra p s now len) \<longrightarrow> snd (gcra p s now len) = s)
    \<and> (\<not> fst (fixed_window p s now len)
            \<longrightarrow> unat (st_a (snd (fixed_window p s now len))) \<le> unat (st_a s))"
proof -
  have p: "bounded_policy p" "unat (st_a s) \<le> capacity p" "unat len \<le> 65535"
    using assms by (simp_all add: frame_ok_def)
  show ?thesis
    by (auto simp: token_bucket_nat(2) [OF p] leaky_bucket_nat(2) [OF p] gcra_def
        fixed_window_def Let_def)
qed

text \<open>GCRA truncates a frame's increment to whole nanoseconds, so a frame shorter than one
  nanosecond of the rate is free: within an interval no longer than the burst tolerance, a
  run of such frames of any length is admitted whole, in whatever order its readings arrive.\<close>

theorem gcra_short_frames_free:
  assumes "gcra_wf p s" "unat (st_a s) \<le> t0 + gcra_tolerance p" "t1 \<le> t0 + gcra_tolerance p"
    and "frames_in t0 t1 fs"
    and "list_all (\<lambda>(now, len). unat len * 8000000000 < unat (lp_rate_bps p)) fs"
  shows "verdicts (gcra p) fs s = replicate (length fs) True"
  using assms
proof (induction fs arbitrary: s)
  case Nil
  then show ?case by simp
next
  case (Cons f fs)
  obtain now len where f: "f = (now, len)" by force
  with Cons.prems have p: "bounded_policy p" "unat now \<le> 2 ^ 63"
      "unat (st_a s) \<le> 2 ^ 63 + gcra_tolerance p" "unat len \<le> 65535"
    and t0: "t0 \<le> unat now" and inc: "gcra_increment p len = 0"
    by (simp_all add: gcra_wf_def frame_ok_def gcra_increment_def)
  note step = gcra_nat [OF p]
  have fits: "max (unat now) (unat (st_a s)) \<le> t0 + gcra_tolerance p"
    using Cons.prems(2,3,4) by (simp add: f)
  with t0 have pass: "fst (gcra p s now len)" by (simp add: step(1) inc)
  have "gcra_wf p (snd (gcra p s now len))"
    using p(1,2,3) pass by (simp add: gcra_wf_def step(2) inc)
  moreover have "unat (st_a (snd (gcra p s now len))) \<le> t0 + gcra_tolerance p"
    using fits pass by (simp add: step(2) inc)
  ultimately show ?case
    using Cons.IH [of "snd (gcra p s now len)"] Cons.prems(3,4,5) pass by (simp add: f)
qed

subsection \<open>Concrete runs\<close>

text \<open>8 Mbps with a burst of 2000 bytes and a window of one second; three frames, the second
  with a reading older than the first.\<close>

definition sample_policy :: limit_policy where
  "sample_policy = \<lparr>lp_enabled = 1, lp_algorithm = 1, lp_rate_bps = 8000000,
     lp_burst_bytes = 2000, lp_window_ns = 1000000000\<rparr>"

definition sample_frames :: frames where
  "sample_frames = [(1000, 1500), (900, 1500), (2000000, 1500)]"

definition sample_state :: limit_state where
  "sample_state = \<lparr>st_a = 0, st_b = 0, st_c = 0\<rparr>"

lemmas sample_defs = sample_policy_def sample_frames_def sample_state_def
lemmas policer_wf_defs = bounded_policy_def capacity_def bucket_wf_def gcra_wf_def
  fixed_window_wf_def swc_wf_def window_allowance_def unit_defs frame_ok_def

lemma sample_ok:
  "bounded_policy sample_policy" "bucket_wf sample_policy sample_state"
  "gcra_wf sample_policy sample_state" "fixed_window_wf sample_policy sample_state"
  "swc_wf sample_policy sample_state" "frames_in 900 2000000 sample_frames"
  by (simp_all add: sample_defs policer_wf_defs)

lemma token_bucket_rate_bound_witness:
  "admitted (token_bucket sample_policy) sample_frames sample_state = [1500]
   \<and> 1000000000 * admitted_bytes (token_bucket sample_policy) sample_frames sample_state
     \<le> capacity sample_policy + (2000000 - 900) * byte_rate sample_policy
        + 1 * bucket_slack sample_policy"
  using token_bucket_rate_bound [OF sample_ok(2,6)]
  by (simp add: sample_defs token_bucket_def bucket_params_def unit_defs)

lemma leaky_bucket_rate_bound_witness:
  "admitted (leaky_bucket sample_policy) sample_frames sample_state = [1500, 1500]
   \<and> 1000000000 * admitted_bytes (leaky_bucket sample_policy) sample_frames sample_state
     \<le> capacity sample_policy + (2000000 - 900) * byte_rate sample_policy
        + 2 * bucket_slack sample_policy"
  using leaky_bucket_rate_bound [OF sample_ok(2,6)]
  by (simp add: sample_defs leaky_bucket_def bucket_params_def unit_defs sat_sub_def)

lemma gcra_rate_bound_witness:
  "admitted (gcra sample_policy) sample_frames sample_state = [1500, 1500]
   \<and> 8000000000 * admitted_bytes (gcra sample_policy) sample_frames sample_state
     \<le> 8000000 * (2000000 + gcra_tolerance sample_policy - 900 + 2)"
  using gcra_rate_bound [OF sample_ok(3,6)]
  by (simp add: sample_defs gcra_def Let_def unit_defs)

lemma fixed_window_rate_bound_witness:
  "admitted (fixed_window sample_policy) sample_frames sample_state = [1500, 1500, 1500]
   \<and> window_size sample_policy
        * admitted_bytes (fixed_window sample_policy) sample_frames sample_state
     \<le> 2 * (window_size sample_policy * allowance sample_policy)
        + (2000000 - 900) * allowance sample_policy"
  using fixed_window_rate_bound [OF sample_ok(4,6)]
  by (simp add: sample_defs fixed_window_def Let_def window_allowance_def unit_defs sat_add_def)

lemma sliding_window_counter_bounds_witness:
  "window_size sample_policy
        * admitted_bytes (sliding_window_counter sample_policy) sample_frames sample_state
     \<le> 2 * (window_size sample_policy * allowance sample_policy)
        + (2000000 - 900) * allowance sample_policy
   \<and> fst (sliding_window_counter sample_policy sample_state 1000 1500)
   \<and> swc_estimate sample_policy
        (snd (sliding_window_counter sample_policy sample_state 1000 1500)) 1000
      \<le> allowance sample_policy"
proof -
  have "fst (sliding_window_counter sample_policy sample_state 1000 1500)"
    by (subst sliding_window_counter_nat(1))
      (simp_all add: sample_defs policer_wf_defs swc_estimate_def swc_rotated_def carried_nat_def)
  moreover have "frame_ok 1000 1500" by (simp add: frame_ok_def)
  ultimately show ?thesis
    using sliding_window_counter_bounds [OF sample_ok(5,6)] by blast
qed

lemma refused_frame_is_free_witness:
  "\<not> fst (token_bucket sample_policy sample_state 1000 1500)
   \<and> unat (st_a (snd (token_bucket sample_policy sample_state 1000 1500)))
     = refilled sample_policy sample_state 1000"
proof -
  have "unat (st_a sample_state) \<le> capacity sample_policy" "frame_ok 1000 1500"
    by (simp_all add: sample_defs frame_ok_def)
  from refused_frame_is_free [OF sample_ok(1) this] show ?thesis
    by (simp add: sample_defs token_bucket_def bucket_params_def unit_defs)
qed

text \<open>At 1 Tbps a frame of 100 bytes is shorter than one nanosecond of the rate.\<close>

definition fast_policy :: limit_policy where
  "fast_policy = \<lparr>lp_enabled = 1, lp_algorithm = 5, lp_rate_bps = 1000000000000,
     lp_burst_bytes = 65536, lp_window_ns = 1000000000\<rparr>"

lemma gcra_short_frames_free_witness:
  "verdicts (gcra fast_policy) (replicate 1000 (5000, 100)) sample_state = replicate 1000 True"
proof -
  have "gcra_wf fast_policy sample_state" "unat (st_a sample_state) \<le> 5000 + gcra_tolerance fast_policy"
    "5000 \<le> 5000 + gcra_tolerance fast_policy"
    by (simp_all add: fast_policy_def sample_defs policer_wf_defs)
  moreover have "frames_in 5000 5000 (replicate 1000 (5000, 100))"
    "list_all (\<lambda>(now, len). unat len * 8000000000 < unat (lp_rate_bps fast_policy))
       (replicate 1000 (5000 :: u64, 100 :: u64))"
    by (simp_all add: frames_in_def list_all_iff frame_ok_def fast_policy_def)
  ultimately have "verdicts (gcra fast_policy) (replicate 1000 (5000, 100)) sample_state
      = replicate (length (replicate 1000 (5000 :: u64, 100 :: u64))) True"
    by (rule gcra_short_frames_free)
  then show ?thesis unfolding length_replicate .
qed
end
