(* ===== verification/Swl.thy ===== *)
theory Swl
  imports Rate_Bounds
begin

section \<open>Sliding window log: the ring of the data path and its userspace model\<close>

text \<open>
  \<open>swl_step\<close> is the critical section of \<open>swl_police\<close> in \<open>vm-bandwidth-ebpf/src/main.rs\<close>:
  the scan of the whole ring, the verdict, and the append at the head. \<open>SwlModel\<close> is the
  reference model of \<open>vm-bandwidth-core/src/swl.rs\<close> (\<open>window_used\<close>, \<open>police\<close>). Both refine
  \<open>log_step\<close>, a policer over the log of admitted frames that looks at its last
  \<open>SWL_LOG_CAP\<close> entries; so they agree frame by frame, and a window with no more frames than
  the ring holds is policed exactly.
\<close>

subsection \<open>The data path\<close>

definition swl_scan :: "u64 \<Rightarrow> swl_entry list \<Rightarrow> u64" where
  "swl_scan bound entries =
     foldl (\<lambda>used entry. if bound < se_ts_ns entry then used + ucast (se_len entry) else used)
       0 entries"

definition swl_step :: "limit_policy \<Rightarrow> swl_ring \<Rightarrow> u64 \<Rightarrow> u64 \<Rightarrow> bool \<times> swl_ring" where
  "swl_step p ring now len_bytes =
     (let used = swl_scan (now - lp_window_ns p) (sr_entries ring);
          conform = (sat_add used len_bytes \<le> window_allowance p)
      in (conform,
          if conform then
            let head = unat (sr_head ring) mod SWL_LOG_CAP
            in ring\<lparr>sr_entries := (sr_entries ring)
                     [head := \<lparr>se_ts_ns = now, se_len = ucast len_bytes\<rparr>],
                    sr_head := word_of_nat (head + 1)\<rparr>
          else ring))"

subsection \<open>The userspace model\<close>

record model_entry =
  me_ts_ns :: u64
  me_len :: u64

record swl_model =
  sm_ring :: "model_entry list"
  sm_head :: nat

definition swl_model_new :: swl_model where
  "swl_model_new = \<lparr>sm_ring = replicate SWL_LOG_CAP \<lparr>me_ts_ns = 0, me_len = 0\<rparr>, sm_head = 0\<rparr>"

definition window_used :: "swl_model \<Rightarrow> u64 \<Rightarrow> u64 \<Rightarrow> u64" where
  "window_used m now_ns window_ns =
     (let bound = now_ns - window_ns
      in sum_list (map me_len (filter (\<lambda>e. bound < me_ts_ns e) (sm_ring m))))"

definition model_police :: "u64 \<Rightarrow> u64 \<Rightarrow> swl_model \<Rightarrow> u64 \<Rightarrow> u64 \<Rightarrow> bool \<times> swl_model" where
  "model_police window_ns allowance_bytes m now_ns len_bytes =
     (if window_ns = 0 then (True, m)
      else
        let used = window_used m now_ns window_ns;
            conform = (sat_add used len_bytes \<le> allowance_bytes)
        in (conform,
            if conform then
              m\<lparr>sm_ring := (sm_ring m)[sm_head m := \<lparr>me_ts_ns = now_ns, me_len = len_bytes\<rparr>],
                sm_head := (sm_head m + 1) mod length (sm_ring m)\<rparr>
            else m))"

subsection \<open>The log both implement\<close>

definition recent :: "frames \<Rightarrow> frames" where
  "recent fs = drop (length fs - SWL_LOG_CAP) fs"

definition bytes_since :: "u64 \<Rightarrow> frames \<Rightarrow> nat" where
  "bytes_since bound fs = sum_list (map (\<lambda>(ts, len). if bound < ts then unat len else 0) fs)"

definition log_step :: "u64 \<Rightarrow> nat \<Rightarrow> frames \<Rightarrow> u64 \<Rightarrow> u64 \<Rightarrow> bool \<times> frames" where
  "log_step window limit fs now len =
     (let conform = (bytes_since (now - window) (recent fs) + unat len \<le> limit)
      in (conform, if conform then fs @ [(now, len)] else fs))"

text \<open>The ring read from its oldest slot, and what that must be after the log \<open>fs\<close>.\<close>

definition ring_view :: "frames \<Rightarrow> frames" where
  "ring_view fs = padded_last SWL_LOG_CAP (0, 0) fs"

lemma cap_pos [simp]: "0 < SWL_LOG_CAP" by (simp add: SWL_LOG_CAP_def)

lemma length_ring_view [simp]: "length (ring_view fs) = SWL_LOG_CAP"
  by (simp add: ring_view_def)

lemma ring_view_Nil [simp]: "ring_view [] = replicate SWL_LOG_CAP (0, 0)"
  by (simp add: ring_view_def)

lemma ring_view_snoc: "ring_view (fs @ [f]) = tl (ring_view fs) @ [f]"
  by (simp add: ring_view_def padded_last_snoc)

lemma bytes_since_append [simp]:
  "bytes_since b (xs @ ys) = bytes_since b xs + bytes_since b ys"
  by (simp add: bytes_since_def)

lemma bytes_since_padding [simp]: "bytes_since b (replicate n (0, 0)) = 0"
  by (simp add: bytes_since_def sum_list_replicate)

lemma bytes_since_ring_view: "bytes_since b (ring_view fs) = bytes_since b (recent fs)"
  by (simp add: ring_view_def padded_last_def recent_def)

lemma bytes_since_rotate: "bytes_since b (rotate n xs) = bytes_since b xs"
proof -
  have "bytes_since b (drop m xs @ take m xs) = bytes_since b (take m xs @ drop m xs)" for m
    unfolding bytes_since_append by simp
  then show ?thesis by (simp add: rotate_drop_take del: bytes_since_append)
qed

subsection \<open>Refinement\<close>

definition ring_rel :: "frames \<Rightarrow> swl_ring \<Rightarrow> bool" where
  "ring_rel fs ring \<longleftrightarrow>
     length (sr_entries ring) = SWL_LOG_CAP \<and> unat (sr_head ring) \<le> SWL_LOG_CAP
     \<and> rotate (unat (sr_head ring) mod SWL_LOG_CAP) (sr_entries ring)
       = map (\<lambda>(ts, len). \<lparr>se_ts_ns = ts, se_len = ucast len\<rparr>) (ring_view fs)"

definition model_rel :: "frames \<Rightarrow> swl_model \<Rightarrow> bool" where
  "model_rel fs m \<longleftrightarrow>
     length (sm_ring m) = SWL_LOG_CAP \<and> sm_head m < SWL_LOG_CAP
     \<and> rotate (sm_head m) (sm_ring m)
       = map (\<lambda>(ts, len). \<lparr>me_ts_ns = ts, me_len = len\<rparr>) (ring_view fs)"

definition short_frames :: "frames \<Rightarrow> bool" where
  "short_frames fs \<longleftrightarrow> list_all (\<lambda>(ts, len). unat len \<le> 65535) fs"

lemma short_frames_simps [simp]:
  "short_frames []"
  "short_frames (f # fs) \<longleftrightarrow> unat (snd f) \<le> 65535 \<and> short_frames fs"
  "short_frames (fs @ gs) \<longleftrightarrow> short_frames fs \<and> short_frames gs"
  by (auto simp: short_frames_def)

lemma short_ring_view: "short_frames fs \<Longrightarrow> short_frames (ring_view fs)"
  by (auto simp: short_frames_def ring_view_def padded_last_def list_all_iff dest: in_set_dropD)

lemma bytes_since_le: "short_frames fs \<Longrightarrow> bytes_since b fs \<le> length fs * 65535"
  by (induction fs) (auto simp: bytes_since_def)

lemma unat_foldl_add:
  fixes a :: u64
  assumes "unat a + sum_list (map (\<lambda>x. if P x then unat (g x) else 0) xs) < 2 ^ 64"
  shows "unat (foldl (\<lambda>u x. if P x then u + g x else u) a xs)
    = unat a + sum_list (map (\<lambda>x. if P x then unat (g x) else 0) xs)"
  using assms
proof (induction xs arbitrary: a)
  case Nil
  then show ?case by simp
next
  case (Cons x xs)
  have "unat (a + g x) = unat a + unat (g x)" if "P x"
    using Cons.prems that by (intro unat_add_small) simp
  with Cons show ?case by (cases "P x") simp_all
qed

lemma swl_scan_ring:
  assumes "ring_rel fs ring" "short_frames fs"
  shows "unat (swl_scan bound (sr_entries ring)) = bytes_since bound (recent fs)"
proof -
  let ?g = "\<lambda>e. if bound < se_ts_ns e then unat (ucast (se_len e) :: u64) else 0"
  have short: "short_frames (ring_view fs)" using assms(2) by (rule short_ring_view)
  have "sum_list (map ?g (sr_entries ring))
      = sum_list (map ?g (rotate (unat (sr_head ring) mod SWL_LOG_CAP) (sr_entries ring)))"
    by (simp add: rotate_map [symmetric] sum_list_rotate)
  also have "\<dots> = bytes_since bound (ring_view fs)"
    using assms(1) short
    by (auto simp: ring_rel_def bytes_since_def unat_ops unat_ucast_u64_u32 short_frames_def
        list_all_iff intro!: arg_cong [where f = sum_list] map_cong)
  finally have sum: "sum_list (map ?g (sr_entries ring)) = bytes_since bound (recent fs)"
    by (simp add: bytes_since_ring_view)
  moreover have "bytes_since bound (recent fs) \<le> 1024 * 65535"
    using bytes_since_le [OF short, of bound] by (simp add: bytes_since_ring_view SWL_LOG_CAP_def)
  ultimately show ?thesis
    unfolding swl_scan_def by (subst unat_foldl_add) simp_all
qed

lemma unat_sum_list:
  fixes xs :: "u64 list"
  assumes "sum_list (map unat xs) < 2 ^ 64"
  shows "unat (sum_list xs) = sum_list (map unat xs)"
  using assms
proof (induction xs)
  case (Cons x xs)
  then show ?case by (simp add: unat_add_small)
qed simp

lemma window_used_model:
  assumes "model_rel fs m" "short_frames fs"
  shows "unat (window_used m now w) = bytes_since (now - w) (recent fs)"
proof -
  let ?g = "\<lambda>e. if now - w < me_ts_ns e then unat (me_len e) else 0"
  have short: "short_frames (ring_view fs)" using assms(2) by (rule short_ring_view)
  have "sum_list (map unat (map me_len (filter (\<lambda>e. now - w < me_ts_ns e) (sm_ring m))))
      = sum_list (map ?g (sm_ring m))"
    by (simp add: sum_list_map_filter' comp_def)
  also have "\<dots> = sum_list (map ?g (rotate (sm_head m) (sm_ring m)))"
    by (simp add: rotate_map [symmetric] sum_list_rotate)
  also have "\<dots> = bytes_since (now - w) (ring_view fs)"
    using assms(1)
    by (auto simp: model_rel_def bytes_since_def intro!: arg_cong [where f = sum_list] map_cong)
  finally have sum: "sum_list (map unat (map me_len (filter (\<lambda>e. now - w < me_ts_ns e) (sm_ring m))))
      = bytes_since (now - w) (recent fs)"
    by (simp add: bytes_since_ring_view)
  moreover have "bytes_since (now - w) (recent fs) \<le> 1024 * 65535"
    using bytes_since_le [OF short, of "now - w"] by (simp add: bytes_since_ring_view SWL_LOG_CAP_def)
  ultimately show ?thesis
    unfolding window_used_def Let_def by (subst unat_sum_list) simp_all
qed

lemma ring_rel_default: "ring_rel [] swl_ring_default"
  by (simp add: ring_rel_def swl_ring_default_def swl_entry_default_def)

lemma model_rel_new: "model_rel [] swl_model_new"
  by (simp add: model_rel_def swl_model_new_def)

lemma swl_step_refines:
  assumes "bounded_policy p" "ring_rel fs ring" "short_frames fs" "unat len \<le> 65535"
  shows "fst (swl_step p ring now len)
      = fst (log_step (lp_window_ns p) (allowance p) fs now len)"
    and "ring_rel (snd (log_step (lp_window_ns p) (allowance p) fs now len))
      (snd (swl_step p ring now len))"
proof -
  let ?b = "now - lp_window_ns p" and ?h = "unat (sr_head ring) mod SWL_LOG_CAP"
  have "bytes_since ?b (recent fs) \<le> 1024 * 65535"
    using bytes_since_le [OF short_ring_view [OF assms(3)], of ?b]
    by (simp add: bytes_since_ring_view SWL_LOG_CAP_def)
  then have used: "unat (sat_add (swl_scan ?b (sr_entries ring)) len)
      = bytes_since ?b (recent fs) + unat len"
    using assms(4) by (simp add: unat_ops swl_scan_ring [OF assms(2,3)])
  show eq: "fst (swl_step p ring now len)
      = fst (log_step (lp_window_ns p) (allowance p) fs now len)"
    by (simp add: swl_step_def log_step_def Let_def word_le_nat_alt used allowance_def)
  let ?e = "\<lparr>se_ts_ns = now, se_len = ucast len\<rparr>"
  define n :: u32 where "n = word_of_nat (?h + 1)"
  have head: "unat n = Suc ?h"
  proof -
    have "?h < SWL_LOG_CAP" by simp
    then show ?thesis unfolding n_def
      by (simp only: SWL_LOG_CAP_def unsigned_of_nat) (simp add: take_bit_nat_eq_self)
  qed
  have len: "length (sr_entries ring) = SWL_LOG_CAP" using assms(2) by (simp add: ring_rel_def)
  have h: "?h < SWL_LOG_CAP" by simp
  have "rotate (Suc ?h mod SWL_LOG_CAP) ((sr_entries ring)[?h := ?e])
      = tl (rotate ?h (sr_entries ring)) @ [?e]"
    using len h by (simp add: rotate_mod_length rotate_overwrite del: rotate_Suc)
  moreover have "length ((sr_entries ring)[?h := ?e]) = SWL_LOG_CAP" using len by simp
  ultimately have "ring_rel (fs @ [(now, len)])
      (ring\<lparr>sr_entries := (sr_entries ring)[?h := ?e], sr_head := n\<rparr>)"
    using assms(2) h unfolding ring_rel_def ring_view_snoc
    by (simp add: head map_tl Suc_leI)
  with eq assms(2) show "ring_rel (snd (log_step (lp_window_ns p) (allowance p) fs now len))
      (snd (swl_step p ring now len))"
    by (auto simp: swl_step_def log_step_def Let_def n_def split: if_splits)
qed

lemma model_police_refines:
  assumes "w \<noteq> 0" "model_rel fs m" "short_frames fs" "unat len \<le> 65535"
  shows "fst (model_police w a m now len) = fst (log_step w (unat a) fs now len)"
    and "model_rel (snd (log_step w (unat a) fs now len)) (snd (model_police w a m now len))"
proof -
  have "bytes_since (now - w) (recent fs) \<le> 1024 * 65535"
    using bytes_since_le [OF short_ring_view [OF assms(3)], of "now - w"]
    by (simp add: bytes_since_ring_view SWL_LOG_CAP_def)
  then have used: "unat (sat_add (window_used m now w) len)
      = bytes_since (now - w) (recent fs) + unat len"
    using assms(4) by (simp add: unat_ops window_used_model [OF assms(2,3)])
  show eq: "fst (model_police w a m now len) = fst (log_step w (unat a) fs now len)"
    using assms(1) by (simp add: model_police_def log_step_def Let_def word_le_nat_alt used)
  let ?e = "\<lparr>me_ts_ns = now, me_len = len\<rparr>" and ?h = "sm_head m"
  have "rotate (Suc ?h mod SWL_LOG_CAP) ((sm_ring m)[?h := ?e]) = tl (rotate ?h (sm_ring m)) @ [?e]"
    using assms(2) by (simp add: model_rel_def rotate_mod_length rotate_overwrite del: rotate_Suc)
  then have "model_rel (fs @ [(now, len)])
      (m\<lparr>sm_ring := (sm_ring m)[?h := ?e], sm_head := (?h + 1) mod length (sm_ring m)\<rparr>)"
    using assms(2) unfolding model_rel_def ring_view_snoc by (simp add: map_tl)
  with eq assms(1,2) show "model_rel (snd (log_step w (unat a) fs now len))
      (snd (model_police w a m now len))"
    by (auto simp: model_police_def log_step_def Let_def split: if_splits)
qed

text \<open>A step function that refines another, state by state, gives the same verdicts.\<close>

lemma verdicts_refine:
  assumes "\<And>s t now len. R s t \<Longrightarrow> P now len \<Longrightarrow>
      fst (step t now len) = fst (spec s now len) \<and> R (snd (spec s now len)) (snd (step t now len))"
    and "R s t" "list_all (\<lambda>(now, len). P now len) fs"
  shows "verdicts step fs t = verdicts spec fs s"
    and "R (final_state spec fs s) (final_state step fs t)"
proof -
  have "verdicts step fs t = verdicts spec fs s \<and> R (final_state spec fs s) (final_state step fs t)"
    using assms(2,3)
  proof (induction fs arbitrary: s t)
    case (Cons f fs)
    obtain now len where f: "f = (now, len)" by force
    with Cons.prems have "R s t" "P now len" by simp_all
    from assms(1) [OF this] Cons.IH [of "snd (spec s now len)" "snd (step t now len)"] Cons.prems
    show ?case by (simp add: f)
  qed simp
  then show "verdicts step fs t = verdicts spec fs s"
    and "R (final_state spec fs s) (final_state step fs t)" by simp_all
qed

lemma log_step_short: "short_frames fs \<Longrightarrow> unat len \<le> 65535 \<Longrightarrow>
    short_frames (snd (log_step w a fs now len))"
  by (simp add: log_step_def Let_def)

lemma swl_step_verdicts:
  assumes "bounded_policy p" "short_frames fs"
  shows "verdicts (swl_step p) fs swl_ring_default
      = verdicts (log_step (lp_window_ns p) (allowance p)) fs []"
  by (rule verdicts_refine(1) [where R = "\<lambda>gs r. ring_rel gs r \<and> short_frames gs"
        and P = "\<lambda>now len. unat len \<le> 65535"])
    (use assms(1) assms(2) [unfolded short_frames_def]
      in \<open>auto simp: swl_step_refines ring_rel_default log_step_short\<close>)

lemma model_police_verdicts:
  assumes "w \<noteq> 0" "short_frames fs"
  shows "verdicts (model_police w a) fs swl_model_new = verdicts (log_step w (unat a)) fs []"
  by (rule verdicts_refine(1) [where R = "\<lambda>gs r. model_rel gs r \<and> short_frames gs"
        and P = "\<lambda>now len. unat len \<le> 65535"])
    (use assms(1) assms(2) [unfolded short_frames_def]
      in \<open>auto simp: model_police_refines model_rel_new log_step_short\<close>)

subsection \<open>Exactness\<close>

text \<open>The admitted frames of the window of length \<open>W\<close> that ends at \<open>t\<close>.\<close>

definition in_window :: "nat \<Rightarrow> nat \<Rightarrow> u64 \<times> u64 \<Rightarrow> bool" where
  "in_window W t f \<longleftrightarrow> t < unat (fst f) + W \<and> unat (fst f) \<le> t"

definition window_frames :: "nat \<Rightarrow> nat \<Rightarrow> frames \<Rightarrow> frames" where
  "window_frames W t fs = filter (in_window W t) fs"

definition admitted_frames :: "('s \<Rightarrow> u64 \<Rightarrow> u64 \<Rightarrow> bool \<times> 's) \<Rightarrow> frames \<Rightarrow> 's \<Rightarrow> frames" where
  "admitted_frames step fs s = map fst (filter snd (zip fs (verdicts step fs s)))"

lemma final_state_append [simp]:
  "final_state step (fs @ gs) s = final_state step gs (final_state step fs s)"
  by (induction step fs s rule: final_state.induct) simp_all

lemma log_final_state:
  "final_state (log_step w a) fs gs = gs @ admitted_frames (log_step w a) fs gs"
proof (induction fs arbitrary: gs)
  case Nil
  then show ?case by (simp add: admitted_frames_def)
next
  case (Cons f fs)
  then show ?case
    by (cases f) (simp add: admitted_frames_def log_step_def Let_def)
qed

lemma filter_sorted_drop:
  assumes "sorted (map f xs)"
  shows "\<exists>n. filter (\<lambda>x. (c :: nat) < f x) xs = drop n xs"
  using assms
proof (induction xs)
  case (Cons x xs)
  show ?case
  proof (cases "c < f x")
    case True
    with Cons.prems have "filter (\<lambda>x. c < f x) (x # xs) = drop 0 (x # xs)"
      by (auto simp: filter_id_conv)
    then show ?thesis by blast
  next
    case False
    with Cons show ?thesis by simp (metis drop_Suc_Cons)
  qed
qed simp

lemma sum_list_drop_le: "sum_list (drop n xs) \<le> sum_list xs" for xs :: "nat list"
  by (metis append_take_drop_id le_add2 sum_list_append)

lemma window_bytes_recent:
  assumes "sorted (map (unat \<circ> fst) fs)" "\<forall>f \<in> set fs. unat (fst f) \<le> unat now"
    and "unat w \<le> unat now" "unat now \<le> t"
    and "length (window_frames (unat w) t fs) \<le> SWL_LOG_CAP"
  shows "sum_list (map (unat \<circ> snd) (window_frames (unat w) t fs)) \<le> bytes_since (now - w) (recent fs)"
proof -
  have w: "unat (now - w) = unat now - unat w"
    using assms(3) by (simp add: unat_sub word_le_nat_alt)
  let ?c = "t - unat w"
  have "window_frames (unat w) t fs = filter (\<lambda>f. ?c < (unat \<circ> fst) f) fs"
    using assms(2,3,4) unfolding window_frames_def in_window_def by (intro filter_cong) auto
  with filter_sorted_drop [OF assms(1), of ?c] obtain n where
    n: "window_frames (unat w) t fs = drop n fs" "filter (\<lambda>f. ?c < (unat \<circ> fst) f) fs = drop n fs"
    by auto
  have new: "unat now - unat w < unat (fst f)" if "f \<in> set (drop n fs)" for f
    using that assms(4) unfolding n(2) [symmetric] by auto
  have "drop n fs = drop (n - (length fs - SWL_LOG_CAP)) (recent fs)"
    using assms(5) unfolding n(1) recent_def by simp
  moreover have "sum_list (map (unat \<circ> snd) (drop n fs)) = bytes_since (now - w) (drop n fs)"
    using new unfolding bytes_since_def
    by (intro arg_cong [where f = sum_list] map_cong) (auto simp: word_less_nat_alt w)
  moreover have "bytes_since (now - w) (drop m xs) \<le> bytes_since (now - w) xs" for m xs
    unfolding bytes_since_def by (simp add: drop_map [symmetric] sum_list_drop_le)
  ultimately show ?thesis unfolding n(1) by simp
qed

lemma log_exact:
  assumes "sorted (map (unat \<circ> fst) fs)" "\<forall>f \<in> set fs. unat w \<le> unat (fst f)"
  shows "sorted (map (unat \<circ> fst) (final_state (log_step w a) fs []))
    \<and> set (final_state (log_step w a) fs []) \<subseteq> set fs
    \<and> (length (window_frames (unat w) t (final_state (log_step w a) fs [])) \<le> Suc SWL_LOG_CAP
       \<longrightarrow> sum_list (map (unat \<circ> snd)
             (window_frames (unat w) t (final_state (log_step w a) fs []))) \<le> a)"
  using assms
proof (induction fs rule: rev_induct)
  case Nil
  then show ?case by (simp add: window_frames_def)
next
  case (snoc f fs)
  let ?L = "final_state (log_step w a) fs []"
  from snoc.prems snoc.IH have IH: "sorted (map (unat \<circ> fst) ?L)" "set ?L \<subseteq> set fs"
    "length (window_frames (unat w) t ?L) \<le> Suc SWL_LOG_CAP
       \<Longrightarrow> sum_list (map (unat \<circ> snd) (window_frames (unat w) t ?L)) \<le> a"
    by (simp_all add: sorted_append comp_def)
  have before: "\<forall>g \<in> set ?L. unat (fst g) \<le> unat (fst f)"
    using snoc.prems(1) IH(2) by (auto simp: sorted_append)
  obtain now len where f: "f = (now, len)" by force
  show ?case
  proof (cases "bytes_since (now - w) (recent ?L) + unat len \<le> a")
    case False
    then have "final_state (log_step w a) (fs @ [f]) [] = ?L"
      by (simp add: f log_step_def)
    with IH show ?thesis by (auto simp: comp_def)
  next
    case fits: True
    then have L': "final_state (log_step w a) (fs @ [f]) [] = ?L @ [f]"
      by (simp add: f log_step_def)
    have window: "sum_list (map (unat \<circ> snd) (window_frames (unat w) t (?L @ [f]))) \<le> a"
      if count: "length (window_frames (unat w) t (?L @ [f])) \<le> Suc SWL_LOG_CAP"
    proof (cases "in_window (unat w) t f")
      case True
      then have "window_frames (unat w) t (?L @ [f]) = window_frames (unat w) t ?L @ [f]"
        by (simp add: window_frames_def)
      moreover from this count have "length (window_frames (unat w) t ?L) \<le> SWL_LOG_CAP" by simp
      then have "sum_list (map (unat \<circ> snd) (window_frames (unat w) t ?L))
          \<le> bytes_since (now - w) (recent ?L)"
        using True before snoc.prems(2) IH(1)
        by (intro window_bytes_recent) (auto simp: f in_window_def)
      ultimately show ?thesis using fits by (simp add: f)
    next
      case False
      then have "window_frames (unat w) t (?L @ [f]) = window_frames (unat w) t ?L"
        by (simp add: window_frames_def)
      with count IH(3) show ?thesis by simp
    qed
    show ?thesis unfolding L'
      using IH(1,2) before window by (auto simp: sorted_append comp_def)
  qed
qed

text \<open>C12: The ring of the data path and the userspace model are the same policer: from their
  initial states, and for any sequence of frames, they give the same verdicts, those of a
  policer that sums the last \<open>SWL_LOG_CAP\<close> admitted frames newer than one window.\<close>

theorem swl_data_path_matches_model:
  assumes "bounded_policy p" "lp_window_ns p \<noteq> 0" "short_frames fs"
  shows "verdicts (swl_step p) fs swl_ring_default
      = verdicts (model_police (lp_window_ns p) (window_allowance p)) fs swl_model_new
    \<and> verdicts (swl_step p) fs swl_ring_default
      = verdicts (log_step (lp_window_ns p) (allowance p)) fs []"
  using swl_step_verdicts [OF assms(1,3)] model_police_verdicts [OF assms(2,3)]
  by (simp add: allowance_def)

text \<open>C13: The sliding window log is exact up to its ring: when readings are monotone and past the
  first window of uptime, no window of the policy's length with at most one frame more than
  the ring holds ever carries more admitted bytes than the allowance.\<close>

theorem swl_exact_window:
  assumes "bounded_policy p" "short_frames fs" "sorted (map (unat \<circ> fst) fs)"
    and "\<forall>f \<in> set fs. window_size p \<le> unat (fst f)"
    and "length (window_frames (window_size p) t
           (admitted_frames (swl_step p) fs swl_ring_default)) \<le> Suc SWL_LOG_CAP"
  shows "sum_list (map (unat \<circ> snd) (window_frames (window_size p) t
           (admitted_frames (swl_step p) fs swl_ring_default))) \<le> allowance p"
proof -
  have "admitted_frames (swl_step p) fs swl_ring_default
      = final_state (log_step (lp_window_ns p) (allowance p)) fs []"
    using swl_step_verdicts [OF assms(1,2)] log_final_state [of _ _ fs "[]"]
    by (simp add: admitted_frames_def)
  with log_exact [OF assms(3), of "lp_window_ns p" "allowance p" t] assms(4,5) show ?thesis
    by (simp add: window_size_def)
qed

lemma swl_data_path_matches_model_witness:
  "verdicts (swl_step sample_policy) [(5000000000, 1000), (5000000001, 1500)] swl_ring_default
      = verdicts (model_police 1000000000 (window_allowance sample_policy))
          [(5000000000, 1000), (5000000001, 1500)] swl_model_new"
  using swl_data_path_matches_model [of sample_policy "[(5000000000, 1000), (5000000001, 1500)]"]
    sample_ok(1) by (simp add: sample_policy_def)

lemma swl_exact_window_witness:
  "sum_list (map (unat \<circ> snd) (window_frames (window_size sample_policy) 5000000001
     (admitted_frames (swl_step sample_policy) [(5000000000, 1000), (5000000001, 1500)]
       swl_ring_default))) \<le> allowance sample_policy"
proof (rule swl_exact_window [OF sample_ok(1)])
  have "length (admitted_frames (swl_step sample_policy) [(5000000000, 1000), (5000000001, 1500)]
      swl_ring_default) \<le> 2"
    unfolding admitted_frames_def length_map
    by (rule order_trans [OF length_filter_le]) simp
  then show "length (window_frames (window_size sample_policy) 5000000001
      (admitted_frames (swl_step sample_policy) [(5000000000, 1000), (5000000001, 1500)]
       swl_ring_default)) \<le> Suc SWL_LOG_CAP"
    unfolding window_frames_def SWL_LOG_CAP_def
    by (intro order_trans [OF length_filter_le]) simp
qed (simp_all add: window_size_def sample_policy_def)

end
