(* ===== verification/Datapath.thy ===== *)
theory Datapath
  imports Swl
begin

section \<open>Datapath: the TC classifiers\<close>

text \<open>
  The program half of \<open>vm-bandwidth-ebpf/src/main.rs\<close>: \<open>handle\<close> (both classifiers), \<open>count\<close>,
  \<open>handle_v6\<close>, \<open>count6\<close>, \<open>police\<close>, \<open>swl_police\<close>, \<open>record_oversized\<close> and
  \<open>record_verdict\<close>, over a state that holds the BPF maps.

  What belongs to the kernel, to aya or to network-types is a parameter: a \<open>tc_context\<close> gives
  the header loads of the frame (fields already read in host order, \<open>None\<close> when the load
  fails), an \<open>env\<close> gives the CPU, the clock and, for each map, whether an insertion succeeds
  and whether the entry is still there when it is looked up again; the longest-prefix lookup
  is the function \<open>lpm\<close>. A per-CPU map gives each key one value for every CPU; a critical
  section under \<open>bpf_spin_lock\<close> is one step.
\<close>

subsection \<open>State and parameters\<close>

datatype tc_act = TC_ACT_UNSPEC | TC_ACT_SHOT

record ip4_hdr =
  src_addr :: u32
  dst_addr :: u32

record tc_context =
  load_eth :: "nat \<Rightarrow> u16 option"
  load_vlan :: "nat \<Rightarrow> vlan_hdr option"
  load_ipv4 :: "nat \<Rightarrow> ip4_hdr option"
  load_ipv6 :: "nat \<Rightarrow> unit option"
  eth_hdr_len :: nat
  skb_len :: u32
  skb_ifindex :: u32

datatype map_id = TRAFFIC | TRAFFIC6 | POLICER_STATS | OVERSIZED

record env =
  e_cpu :: nat
  e_now :: u64
  e_insert_ok :: "map_id \<Rightarrow> bool"
  e_still_there :: "map_id \<Rightarrow> bool"

type_synonym 'v per_cpu = "nat \<Rightarrow> 'v"
type_synonym trie = "(u32 \<times> nat) set"

record dp_state =
  dp_monitored :: trie
  dp_traffic :: "traffic_key \<rightharpoonup> traffic_value per_cpu"
  dp_traffic6 :: "u32 \<rightharpoonup> traffic_value per_cpu"
  dp_policies :: "limit_key \<rightharpoonup> limit_policy"
  dp_limit_state :: "limit_key \<rightharpoonup> limit_state"
  dp_swl_log :: "limit_key \<rightharpoonup> swl_ring"
  dp_policer_stats :: "limit_key \<rightharpoonup> policer_stats per_cpu"
  dp_oversized :: "u8 \<rightharpoonup> oversized_stats per_cpu"

subsection \<open>Per-CPU slots\<close>

text \<open>
  The idiom all four recorders share: look the key up, insert a zero value when it is
  missing, look it up again, and update this CPU's slot; any failure leaves without effect.
\<close>

definition update_slot ::
  "env \<Rightarrow> map_id \<Rightarrow> 'v \<Rightarrow> ('v \<Rightarrow> 'v) \<Rightarrow> 'k \<Rightarrow> ('k \<rightharpoonup> 'v per_cpu) \<Rightarrow> ('k \<rightharpoonup> 'v per_cpu)" where
  "update_slot e i zero f k m =
     (case m k of
        Some v \<Rightarrow> m(k \<mapsto> v(e_cpu e := f (v (e_cpu e))))
      | None \<Rightarrow>
          if \<not> e_insert_ok e i then m
          else if \<not> e_still_there e i then m
          else m(k \<mapsto> (\<lambda>_. zero)(e_cpu e := f zero)))"

definition slot :: "'v \<Rightarrow> ('k \<rightharpoonup> 'v per_cpu) \<Rightarrow> 'k \<Rightarrow> nat \<Rightarrow> 'v" where
  "slot zero m k cpu = (case m k of None \<Rightarrow> zero | Some v \<Rightarrow> v cpu)"

definition slot_ready :: "env \<Rightarrow> map_id \<Rightarrow> ('k \<rightharpoonup> 'v per_cpu) \<Rightarrow> 'k \<Rightarrow> bool" where
  "slot_ready e i m k \<longleftrightarrow> m k \<noteq> None \<or> e_insert_ok e i \<and> e_still_there e i"

lemma slot_update_slot:
  "slot zero (update_slot e i zero f k m) k' cpu =
     (if k' = k \<and> cpu = e_cpu e \<and> slot_ready e i m k then f (slot zero m k cpu)
      else slot zero m k' cpu)"
  by (auto simp: slot_def update_slot_def slot_ready_def split: option.splits)

lemma update_slot_other: "k' \<noteq> k \<Longrightarrow> update_slot e i zero f k m k' = m k'"
  by (auto simp: update_slot_def split: option.splits)

subsection \<open>Accounting\<close>

definition add_traffic :: "bool \<Rightarrow> u64 \<Rightarrow> traffic_value \<Rightarrow> traffic_value" where
  "add_traffic is_tx len v =
     (if is_tx then v\<lparr>tv_tx_bytes := tv_tx_bytes v + len, tv_tx_packets := tv_tx_packets v + 1\<rparr>
      else v\<lparr>tv_rx_bytes := tv_rx_bytes v + len, tv_rx_packets := tv_rx_packets v + 1\<rparr>)"

definition count :: "env \<Rightarrow> tc_context \<Rightarrow> u32 \<Rightarrow> u32 \<Rightarrow> bool \<Rightarrow> dp_state \<Rightarrow> dp_state" where
  "count e ctx ipv4 ifindex is_tx s =
     (let key = \<lparr>tk_ifindex = ifindex, tk_ipv4 = ipv4\<rparr>;
          len = ucast (skb_len ctx)
      in s\<lparr>dp_traffic := update_slot e TRAFFIC traffic_value_default (add_traffic is_tx len) key
                           (dp_traffic s)\<rparr>)"

definition count6 :: "env \<Rightarrow> tc_context \<Rightarrow> u32 \<Rightarrow> bool \<Rightarrow> dp_state \<Rightarrow> dp_state" where
  "count6 e ctx ifindex is_tx s =
     (let len = ucast (skb_len ctx)
      in s\<lparr>dp_traffic6 := update_slot e TRAFFIC6 traffic_value_default (add_traffic is_tx len)
                            ifindex (dp_traffic6 s)\<rparr>)"

definition handle_v6 :: "env \<Rightarrow> tc_context \<Rightarrow> bool \<Rightarrow> nat \<Rightarrow> dp_state \<Rightarrow> tc_act \<times> dp_state" where
  "handle_v6 e ctx is_tx l3_off s =
     (case load_ipv6 ctx l3_off of
        None \<Rightarrow> (TC_ACT_UNSPEC, s)
      | Some _ \<Rightarrow> (TC_ACT_UNSPEC, count6 e ctx (skb_ifindex ctx) is_tx s))"

definition record_oversized :: "env \<Rightarrow> u8 \<Rightarrow> u64 \<Rightarrow> dp_state \<Rightarrow> dp_state" where
  "record_oversized e direction len_bytes s =
     s\<lparr>dp_oversized := update_slot e OVERSIZED oversized_stats_default
         (\<lambda>v. v\<lparr>os_packets := os_packets v + 1, os_bytes := os_bytes v + len_bytes\<rparr>)
         direction (dp_oversized s)\<rparr>"

definition record_verdict :: "env \<Rightarrow> limit_key \<Rightarrow> u64 \<Rightarrow> bool \<Rightarrow> dp_state \<Rightarrow> dp_state" where
  "record_verdict e key len_bytes passed s =
     s\<lparr>dp_policer_stats := update_slot e POLICER_STATS policer_stats_default
         (\<lambda>v. if passed
              then v\<lparr>ps_passed_bytes := ps_passed_bytes v + len_bytes,
                     ps_passed_packets := ps_passed_packets v + 1\<rparr>
              else v\<lparr>ps_dropped_bytes := ps_dropped_bytes v + len_bytes,
                     ps_dropped_packets := ps_dropped_packets v + 1\<rparr>)
         key (dp_policer_stats s)\<rparr>"

subsection \<open>Policing\<close>

definition run_policer :: "limit_policy \<Rightarrow> limit_state \<Rightarrow> u64 \<Rightarrow> u64 \<Rightarrow> bool \<times> limit_state" where
  "run_policer policy state now len_bytes =
     (if lp_algorithm policy = ALGO_TOKEN_BUCKET then token_bucket policy state now len_bytes
      else if lp_algorithm policy = ALGO_LEAKY_BUCKET then leaky_bucket policy state now len_bytes
      else if lp_algorithm policy = ALGO_FIXED_WINDOW then fixed_window policy state now len_bytes
      else if lp_algorithm policy = ALGO_SLIDING_WINDOW_COUNTER
        then sliding_window_counter policy state now len_bytes
      else if lp_algorithm policy = ALGO_GCRA then gcra policy state now len_bytes
      else (True, state))"

definition swl_police ::
  "env \<Rightarrow> limit_key \<Rightarrow> limit_policy \<Rightarrow> u64 \<Rightarrow> dp_state \<Rightarrow> bool \<times> dp_state" where
  "swl_police e key policy len_bytes s =
     (if lp_window_ns policy = 0 then (False, s)
      else case dp_swl_log s key of
        None \<Rightarrow> (False, s)
      | Some ring \<Rightarrow>
          let (conform, ring) = swl_step policy ring (e_now e) len_bytes;
              s = s\<lparr>dp_swl_log := (dp_swl_log s)(key \<mapsto> ring)\<rparr>
          in (\<not> conform, record_verdict e key len_bytes conform s))"

definition police :: "env \<Rightarrow> u32 \<Rightarrow> u8 \<Rightarrow> u64 \<Rightarrow> dp_state \<Rightarrow> bool \<times> dp_state" where
  "police e ipv4 direction len_bytes s =
     (let key = limit_key_new ipv4 direction in
      case dp_policies s key of
        None \<Rightarrow> (False, s)
      | Some policy \<Rightarrow>
          if lp_enabled policy = 0 \<or> lp_rate_bps policy = 0 then (False, s)
          else if len_bytes = 0 then (False, s)
          else if MAX_POLICED_LEN < len_bytes then (False, record_oversized e direction len_bytes s)
          else if lp_algorithm policy = ALGO_SLIDING_WINDOW_LOG
            then swl_police e key policy len_bytes s
          else case dp_limit_state s key of
            None \<Rightarrow> (False, s)
          | Some state \<Rightarrow>
              let (conform, state) = run_policer policy state (e_now e) len_bytes;
                  s = s\<lparr>dp_limit_state := (dp_limit_state s)(key \<mapsto> state)\<rparr>
              in (\<not> conform, record_verdict e key len_bytes conform s))"

subsection \<open>The classifiers\<close>

text \<open>The first half of \<open>handle\<close>: the header loads of the VLAN walk, up to the offset and the
  EtherType of the payload. No result means one of the early returns.\<close>

definition walk_frame :: "tc_context \<Rightarrow> (nat \<times> u16) option" where
  "walk_frame ctx =
     (case load_eth ctx 0 of
        None \<Rightarrow> None
      | Some et0 \<Rightarrow>
        case (if is_vlan_tag et0 then
                case load_vlan ctx (eth_hdr_len ctx) of
                  None \<Rightarrow> None
                | Some v \<Rightarrow>
                    let et1 = vh_ether_type v in
                    if is_vlan_tag et1 then
                      case load_vlan ctx (eth_hdr_len ctx + VLAN_HDR_LEN) of
                        None \<Rightarrow> None
                      | Some v \<Rightarrow> Some (et1, vh_ether_type v)
                    else Some (et1, 0)
              else Some (0, 0)) of
          None \<Rightarrow> None
        | Some (et1, et2) \<Rightarrow>
          case vlan_walk et0 et1 et2 of
            None \<Rightarrow> None
          | Some (tags, ether_type) \<Rightarrow> Some (eth_hdr_len ctx + tags * VLAN_HDR_LEN, ether_type))"

definition handle ::
  "(trie \<Rightarrow> u32 \<Rightarrow> bool) \<Rightarrow> env \<Rightarrow> tc_context \<Rightarrow> bool \<Rightarrow> dp_state \<Rightarrow> tc_act \<times> dp_state" where
  "handle lpm e ctx is_tx s =
     (case walk_frame ctx of
        None \<Rightarrow> (TC_ACT_UNSPEC, s)
      | Some (l3_off, ether_type) \<Rightarrow>
          if ether_type = ETHERTYPE_IPV6 then handle_v6 e ctx is_tx l3_off s
          else if ether_type \<noteq> ETHERTYPE_IPV4 then (TC_ACT_UNSPEC, s)
          else case load_ipv4 ctx l3_off of
            None \<Rightarrow> (TC_ACT_UNSPEC, s)
          | Some ip \<Rightarrow>
              let ipv4 = (if is_tx then src_addr ip else dst_addr ip);
                  ifindex = skb_ifindex ctx
              in if \<not> lpm (dp_monitored s) ipv4 then (TC_ACT_UNSPEC, s)
                 else
                   let s = count e ctx ipv4 ifindex is_tx s;
                       direction = (if is_tx then DIR_TX else DIR_RX);
                       (drop_it, s) = police e ipv4 direction (ucast (skb_len ctx)) s
                   in if drop_it then (TC_ACT_SHOT, s) else (TC_ACT_UNSPEC, s))"

definition tc_ingress :: "(trie \<Rightarrow> u32 \<Rightarrow> bool) \<Rightarrow> env \<Rightarrow> tc_context \<Rightarrow> dp_state \<Rightarrow> tc_act \<times> dp_state" where
  "tc_ingress lpm e ctx s = handle lpm e ctx True s"

definition tc_egress :: "(trie \<Rightarrow> u32 \<Rightarrow> bool) \<Rightarrow> env \<Rightarrow> tc_context \<Rightarrow> dp_state \<Rightarrow> tc_act \<times> dp_state" where
  "tc_egress lpm e ctx s = handle lpm e ctx False s"

subsection \<open>What a frame is\<close>

text \<open>
  The declarative reading of the parse: the EtherType chain of a frame is the EtherType of
  its Ethernet header and those of the tag headers behind it; a frame carries a payload of
  some EtherType when its chain has at most \<open>MAX_VLAN_TAGS\<close> tags and ends there.
\<close>

definition ethertype_chain :: "tc_context \<Rightarrow> u16 list \<Rightarrow> bool" where
  "ethertype_chain ctx ets \<longleftrightarrow>
     ets \<noteq> [] \<and> load_eth ctx 0 = Some (hd ets)
     \<and> (\<forall>i < length ets - 1. is_vlan_tag (ets ! i)
          \<and> map_option vh_ether_type (load_vlan ctx (eth_hdr_len ctx + i * VLAN_HDR_LEN))
            = Some (ets ! Suc i))"

definition carries :: "tc_context \<Rightarrow> nat \<Rightarrow> u16 \<Rightarrow> bool" where
  "carries ctx off ether_type \<longleftrightarrow>
     (\<exists>ets. ethertype_chain ctx ets \<and> length ets \<le> Suc MAX_VLAN_TAGS
        \<and> last ets = ether_type \<and> \<not> is_vlan_tag ether_type
        \<and> off = eth_hdr_len ctx + (length ets - 1) * VLAN_HDR_LEN)"

definition vm_address :: "tc_context \<Rightarrow> bool \<Rightarrow> u32 \<Rightarrow> bool" where
  "vm_address ctx is_tx ip \<longleftrightarrow>
     (\<exists>off hdr. carries ctx off ETHERTYPE_IPV4 \<and> load_ipv4 ctx off = Some hdr
        \<and> ip = (if is_tx then src_addr hdr else dst_addr hdr))"

text \<open>The chains of the three shapes the walk accepts, and what it returns on each.\<close>

lemma chain_simps:
  "ethertype_chain ctx [et0] \<longleftrightarrow> load_eth ctx 0 = Some et0"
  "ethertype_chain ctx [et0, et1] \<longleftrightarrow> load_eth ctx 0 = Some et0 \<and> is_vlan_tag et0
     \<and> map_option vh_ether_type (load_vlan ctx (eth_hdr_len ctx)) = Some et1"
  "ethertype_chain ctx [et0, et1, et2] \<longleftrightarrow> load_eth ctx 0 = Some et0 \<and> is_vlan_tag et0
     \<and> map_option vh_ether_type (load_vlan ctx (eth_hdr_len ctx)) = Some et1 \<and> is_vlan_tag et1
     \<and> map_option vh_ether_type (load_vlan ctx (eth_hdr_len ctx + VLAN_HDR_LEN)) = Some et2"
proof -
  have all2: "(\<forall>i < 2. P i) \<longleftrightarrow> P 0 \<and> P 1" for P :: "nat \<Rightarrow> bool"
    by (auto simp: less_2_cases_iff)
  show "ethertype_chain ctx [et0] \<longleftrightarrow> load_eth ctx 0 = Some et0"
    by (simp add: ethertype_chain_def)
  show "ethertype_chain ctx [et0, et1] \<longleftrightarrow> load_eth ctx 0 = Some et0 \<and> is_vlan_tag et0
     \<and> map_option vh_ether_type (load_vlan ctx (eth_hdr_len ctx)) = Some et1"
    by (simp add: ethertype_chain_def del: map_option_eq_Some)
  show "ethertype_chain ctx [et0, et1, et2] \<longleftrightarrow> load_eth ctx 0 = Some et0 \<and> is_vlan_tag et0
     \<and> map_option vh_ether_type (load_vlan ctx (eth_hdr_len ctx)) = Some et1 \<and> is_vlan_tag et1
     \<and> map_option vh_ether_type (load_vlan ctx (eth_hdr_len ctx + VLAN_HDR_LEN)) = Some et2"
    using all2 by (simp add: ethertype_chain_def numeral_2_eq_2 del: map_option_eq_Some)
qed

lemma walk_frame_cases:
  "walk_frame ctx = Some (off, et) \<longleftrightarrow>
     ethertype_chain ctx [et] \<and> \<not> is_vlan_tag et \<and> off = eth_hdr_len ctx
   \<or> (\<exists>et0. ethertype_chain ctx [et0, et] \<and> \<not> is_vlan_tag et
        \<and> off = eth_hdr_len ctx + VLAN_HDR_LEN)
   \<or> (\<exists>et0 et1. ethertype_chain ctx [et0, et1, et] \<and> \<not> is_vlan_tag et
        \<and> off = eth_hdr_len ctx + 2 * VLAN_HDR_LEN)"
proof (cases "load_eth ctx 0")
  case None
  then show ?thesis by (simp add: walk_frame_def chain_simps)
next
  case et0: (Some et0)
  show ?thesis
  proof (cases "is_vlan_tag et0")
    case False
    with et0 show ?thesis by (auto simp: walk_frame_def chain_simps vlan_walk_def)
  next
    case tag0: True
    show ?thesis
    proof (cases "load_vlan ctx (eth_hdr_len ctx)")
      case None
      with et0 tag0 show ?thesis by (auto simp: walk_frame_def chain_simps)
    next
      case v1: (Some v1)
      show ?thesis
      proof (cases "is_vlan_tag (vh_ether_type v1)")
        case False
        with et0 tag0 v1 show ?thesis by (auto simp: walk_frame_def chain_simps vlan_walk_def)
      next
        case True
        with et0 tag0 v1 show ?thesis
          by (cases "load_vlan ctx (eth_hdr_len ctx + VLAN_HDR_LEN)")
            (auto simp: walk_frame_def chain_simps vlan_walk_def)
      qed
    qed
  qed
qed

lemma carries_cases:
  "carries ctx off et \<longleftrightarrow>
     ethertype_chain ctx [et] \<and> \<not> is_vlan_tag et \<and> off = eth_hdr_len ctx
   \<or> (\<exists>et0. ethertype_chain ctx [et0, et] \<and> \<not> is_vlan_tag et
        \<and> off = eth_hdr_len ctx + VLAN_HDR_LEN)
   \<or> (\<exists>et0 et1. ethertype_chain ctx [et0, et1, et] \<and> \<not> is_vlan_tag et
        \<and> off = eth_hdr_len ctx + 2 * VLAN_HDR_LEN)"  (is "?l \<longleftrightarrow> ?r")
proof
  assume ?l
  then obtain ets where e: "ethertype_chain ctx ets" "length ets \<le> 3" "last ets = et"
      "\<not> is_vlan_tag et" "off = eth_hdr_len ctx + (length ets - 1) * VLAN_HDR_LEN"
    by (auto simp: carries_def MAX_VLAN_TAGS_def)
  have "length ets \<noteq> 0" using e(1) by (simp add: ethertype_chain_def)
  with e(2) have "length ets = 1 \<or> length ets = 2 \<or> length ets = 3" by linarith
  then consider et0 where "ets = [et0]" | et0 et1 where "ets = [et0, et1]"
    | et0 et1 et2 where "ets = [et0, et1, et2]"
    by (auto simp: length_Suc_conv eval_nat_numeral)
  then show ?r using e by cases auto
next
  have "carries ctx off et"
    if "ethertype_chain ctx ets" "last ets = et" "\<not> is_vlan_tag et"
      "off = eth_hdr_len ctx + (length ets - 1) * VLAN_HDR_LEN" "length ets \<le> 3" for ets
    using that by (auto simp: carries_def MAX_VLAN_TAGS_def)
  note this [of "[et]"] this [of "[_, et]"] this [of "[_, _, et]"]
  then show "?r \<Longrightarrow> ?l" by fastforce
qed

lemma walk_frame_iff: "walk_frame ctx = Some (off, et) \<longleftrightarrow> carries ctx off et"
  by (simp only: walk_frame_cases carries_cases)

lemma carries_unique: "carries ctx off et \<Longrightarrow> carries ctx off' et' \<Longrightarrow> off = off' \<and> et = et'"
  by (simp add: walk_frame_iff [symmetric])

lemma vm_address_unique: "vm_address ctx is_tx ip \<Longrightarrow> vm_address ctx is_tx ip' \<Longrightarrow> ip = ip'"
  unfolding vm_address_def by (auto dest: carries_unique)

subsection \<open>Verdicts\<close>

definition flow_direction :: "bool \<Rightarrow> u8" where
  "flow_direction is_tx = (if is_tx then DIR_TX else DIR_RX)"

definition armed :: "limit_policy \<Rightarrow> bool" where
  "armed p \<longleftrightarrow> lp_enabled p \<noteq> 0 \<and> lp_rate_bps p \<noteq> 0"

definition policeable :: "u64 \<Rightarrow> bool" where
  "policeable len \<longleftrightarrow> 0 < unat len \<and> unat len \<le> 65535"

text \<open>The verdict of a flow's policer on a frame, when the flow has the state it needs.\<close>

definition policer_verdict :: "env \<Rightarrow> limit_key \<Rightarrow> limit_policy \<Rightarrow> u64 \<Rightarrow> dp_state \<Rightarrow> bool option" where
  "policer_verdict e key p len s =
     (if lp_algorithm p = ALGO_SLIDING_WINDOW_LOG then
        if lp_window_ns p = 0 then None
        else map_option (\<lambda>ring. fst (swl_step p ring (e_now e) len)) (dp_swl_log s key)
      else map_option (\<lambda>st. fst (run_policer p st (e_now e) len)) (dp_limit_state s key))"

lemma policeable_iff: "policeable len \<longleftrightarrow> len \<noteq> 0 \<and> \<not> MAX_POLICED_LEN < len"
  by (simp add: policeable_def MAX_POLICED_LEN_def word_less_nat_alt unat_gt_0 not_less)

text \<open>\<open>police\<close> by cases: not armed, not policeable, and the two places of policer state.\<close>

lemma police_unarmed:
  assumes "\<And>p. dp_policies s (limit_key_new ip d) = Some p \<Longrightarrow> \<not> armed p"
  shows "police e ip d len s = (False, s)"
  using assms by (cases "dp_policies s (limit_key_new ip d)") (auto simp: police_def armed_def Let_def)

lemma police_unpoliceable:
  assumes "dp_policies s (limit_key_new ip d) = Some p" "armed p" "\<not> policeable len"
  shows "police e ip d len s = (False, if len = 0 then s else record_oversized e d len s)"
  using assms by (auto simp: police_def armed_def policeable_iff Let_def)

lemma police_state:
  assumes "dp_policies s (limit_key_new ip d) = Some p" "armed p" "policeable len"
    and "lp_algorithm p \<noteq> ALGO_SLIDING_WINDOW_LOG"
  shows "police e ip d len s =
     (case dp_limit_state s (limit_key_new ip d) of
        None \<Rightarrow> (False, s)
      | Some st \<Rightarrow>
          let r = run_policer p st (e_now e) len in
          (\<not> fst r, record_verdict e (limit_key_new ip d) len (fst r)
             (s\<lparr>dp_limit_state := (dp_limit_state s)(limit_key_new ip d \<mapsto> snd r)\<rparr>)))"
  using assms
  by (simp add: police_def armed_def policeable_iff Let_def case_prod_beta split: option.split)

lemma police_log:
  assumes "dp_policies s (limit_key_new ip d) = Some p" "armed p" "policeable len"
    and "lp_algorithm p = ALGO_SLIDING_WINDOW_LOG"
  shows "police e ip d len s = swl_police e (limit_key_new ip d) p len s"
  using assms by (simp add: police_def armed_def policeable_iff Let_def)

lemma police_drops_iff:
  "fst (police e ip d len s) \<longleftrightarrow>
     (\<exists>p. dp_policies s (limit_key_new ip d) = Some p \<and> armed p \<and> policeable len
        \<and> policer_verdict e (limit_key_new ip d) p len s = Some False)"
proof (cases "\<exists>p. dp_policies s (limit_key_new ip d) = Some p \<and> armed p")
  case False
  then show ?thesis by (auto simp: police_unarmed)
next
  case True
  then obtain p where p: "dp_policies s (limit_key_new ip d) = Some p" "armed p" by blast
  consider "\<not> policeable len" | (log) "policeable len" "lp_algorithm p = ALGO_SLIDING_WINDOW_LOG"
    | (st) "policeable len" "lp_algorithm p \<noteq> ALGO_SLIDING_WINDOW_LOG" by blast
  then show ?thesis
  proof cases
    case 1
    with p show ?thesis by (simp add: police_unpoliceable [OF p])
  next
    case log
    with p show ?thesis
      by (simp add: police_log [OF p log] policer_verdict_def swl_police_def Let_def case_prod_beta
          split: option.split)
  next
    case st
    with p show ?thesis
      by (simp add: police_state [OF p st] policer_verdict_def Let_def split: option.split)
  qed
qed

lemma count_fields [simp]:
  "dp_monitored (count e ctx ip i is_tx s) = dp_monitored s"
  "dp_policies (count e ctx ip i is_tx s) = dp_policies s"
  "dp_limit_state (count e ctx ip i is_tx s) = dp_limit_state s"
  "dp_swl_log (count e ctx ip i is_tx s) = dp_swl_log s"
  "dp_policer_stats (count e ctx ip i is_tx s) = dp_policer_stats s"
  "dp_oversized (count e ctx ip i is_tx s) = dp_oversized s"
  "dp_traffic6 (count e ctx ip i is_tx s) = dp_traffic6 s"
  by (simp_all add: count_def)

lemma record_fields [simp]:
  "dp_monitored (record_verdict e k len v s) = dp_monitored s"
  "dp_policies (record_verdict e k len v s) = dp_policies s"
  "dp_limit_state (record_verdict e k len v s) = dp_limit_state s"
  "dp_swl_log (record_verdict e k len v s) = dp_swl_log s"
  "dp_traffic (record_verdict e k len v s) = dp_traffic s"
  "dp_traffic6 (record_verdict e k len v s) = dp_traffic6 s"
  "dp_oversized (record_verdict e k len v s) = dp_oversized s"
  "dp_monitored (record_oversized e d len s) = dp_monitored s"
  "dp_policies (record_oversized e d len s) = dp_policies s"
  "dp_limit_state (record_oversized e d len s) = dp_limit_state s"
  "dp_swl_log (record_oversized e d len s) = dp_swl_log s"
  "dp_traffic (record_oversized e d len s) = dp_traffic s"
  "dp_traffic6 (record_oversized e d len s) = dp_traffic6 s"
  "dp_policer_stats (record_oversized e d len s) = dp_policer_stats s"
  by (simp_all add: record_verdict_def record_oversized_def)

lemma police_fields [simp]:
  "dp_monitored (snd (police e ip d len s)) = dp_monitored s"
  "dp_policies (snd (police e ip d len s)) = dp_policies s"
  "dp_traffic (snd (police e ip d len s)) = dp_traffic s"
  "dp_traffic6 (snd (police e ip d len s)) = dp_traffic6 s"
  by (simp_all add: police_def swl_police_def Let_def split: option.split prod.split)

text \<open>The classifier on a frame of a monitored address, and on any other frame.\<close>

definition monitored_frame ::
  "(trie \<Rightarrow> u32 \<Rightarrow> bool) \<Rightarrow> tc_context \<Rightarrow> bool \<Rightarrow> u32 \<Rightarrow> dp_state \<Rightarrow> bool" where
  "monitored_frame lpm ctx is_tx ip s \<longleftrightarrow> vm_address ctx is_tx ip \<and> lpm (dp_monitored s) ip"

lemma handle_monitored:
  assumes "monitored_frame lpm ctx is_tx ip s"
  shows "handle lpm e ctx is_tx s =
     (let r = police e ip (flow_direction is_tx) (ucast (skb_len ctx))
                (count e ctx ip (skb_ifindex ctx) is_tx s)
      in (if fst r then TC_ACT_SHOT else TC_ACT_UNSPEC, snd r))"
  using assms
  by (auto simp: monitored_frame_def vm_address_def walk_frame_iff [symmetric] handle_def
      flow_direction_def Let_def ethertype_defs split: prod.split)

lemma handle_unmonitored:
  assumes "\<nexists>ip. monitored_frame lpm ctx is_tx ip s"
  shows "fst (handle lpm e ctx is_tx s) = TC_ACT_UNSPEC"
    and "snd (handle lpm e ctx is_tx s) =
      (if \<exists>off. carries ctx off ETHERTYPE_IPV6 \<and> load_ipv6 ctx off \<noteq> None
       then count6 e ctx (skb_ifindex ctx) is_tx s else s)"
proof -
  note simps = handle_def handle_v6_def walk_frame_iff [symmetric]
  have "fst (handle lpm e ctx is_tx s) = TC_ACT_UNSPEC
    \<and> snd (handle lpm e ctx is_tx s) =
      (if \<exists>off. carries ctx off ETHERTYPE_IPV6 \<and> load_ipv6 ctx off \<noteq> None
       then count6 e ctx (skb_ifindex ctx) is_tx s else s)"
  proof (cases "walk_frame ctx")
    case None
    then show ?thesis by (simp add: simps)
  next
    case (Some w)
    then obtain off et where w: "walk_frame ctx = Some (off, et)" by (cases w) auto
    consider (v6) "et = ETHERTYPE_IPV6" | (v4) "et = ETHERTYPE_IPV4" "et \<noteq> ETHERTYPE_IPV6"
      | (other) "et \<noteq> ETHERTYPE_IPV4" "et \<noteq> ETHERTYPE_IPV6" by blast
    then show ?thesis
    proof cases
      case v6
      with w show ?thesis by (cases "load_ipv6 ctx off") (simp_all add: simps)
    next
      case v4
      show ?thesis
      proof (cases "load_ipv4 ctx off")
        case None
        with w v4 show ?thesis by (simp add: simps)
      next
        case (Some hdr)
        with w v4 have "vm_address ctx is_tx (if is_tx then src_addr hdr else dst_addr hdr)"
          unfolding vm_address_def walk_frame_iff [symmetric] by blast
        with assms have "\<not> lpm (dp_monitored s) (if is_tx then src_addr hdr else dst_addr hdr)"
          by (auto simp: monitored_frame_def simp del: if_split)
        with w v4 Some show ?thesis by (simp add: simps Let_def del: if_split)
      qed
    next
      case other
      with w show ?thesis by (simp add: simps)
    qed
  qed
  then show "fst (handle lpm e ctx is_tx s) = TC_ACT_UNSPEC"
    and "snd (handle lpm e ctx is_tx s) =
      (if \<exists>off. carries ctx off ETHERTYPE_IPV6 \<and> load_ipv6 ctx off \<noteq> None
       then count6 e ctx (skb_ifindex ctx) is_tx s else s)" by simp_all
qed

lemma monitored_frame_unique:
  "monitored_frame lpm ctx is_tx ip s \<Longrightarrow> monitored_frame lpm ctx is_tx ip' s \<Longrightarrow> ip = ip'"
  by (auto simp: monitored_frame_def dest: vm_address_unique)

lemma handle_shot_iff:
  "fst (handle lpm e ctx is_tx s) = TC_ACT_SHOT \<longleftrightarrow>
     (\<exists>ip p. vm_address ctx is_tx ip \<and> lpm (dp_monitored s) ip
        \<and> dp_policies s (limit_key_new ip (flow_direction is_tx)) = Some p \<and> armed p
        \<and> policeable (ucast (skb_len ctx))
        \<and> policer_verdict e (limit_key_new ip (flow_direction is_tx)) p (ucast (skb_len ctx)) s
          = Some False)"
proof (cases "\<exists>ip. monitored_frame lpm ctx is_tx ip s")
  case False
  then show ?thesis by (auto simp: handle_unmonitored(1) monitored_frame_def)
next
  case True
  then obtain ip where ip: "monitored_frame lpm ctx is_tx ip s" by blast
  have pv: "policer_verdict e k p len (count e ctx ip i is_tx s) = policer_verdict e k p len s"
    for k p len i by (simp add: policer_verdict_def)
  have "vm_address ctx is_tx ip' \<and> lpm (dp_monitored s) ip' \<longleftrightarrow> ip' = ip" for ip'
    using ip monitored_frame_unique [of lpm ctx is_tx ip s ip'] by (auto simp: monitored_frame_def)
  then have "(\<exists>ip' p. vm_address ctx is_tx ip' \<and> lpm (dp_monitored s) ip' \<and> Q ip' p)
      \<longleftrightarrow> (\<exists>p. Q ip p)" for Q :: "u32 \<Rightarrow> limit_policy \<Rightarrow> bool"
    by (simp add: conj_assoc [symmetric])
  then show ?thesis
    by (simp add: handle_monitored [OF ip] Let_def police_drops_iff pv)
qed

text \<open>C2: A classifier drops a frame exactly when the frame is an IPv4 frame (behind at most two
  VLAN tags) of a monitored address whose flow has an enabled policy of non-zero rate, the
  frame's length is between 1 and \<open>MAX_POLICED_LEN\<close>, the flow has its policer state, and
  the policer refuses the frame. Every other case fails open.\<close>

theorem handle_drops_iff:
  "fst (handle lpm e ctx is_tx s) = TC_ACT_SHOT \<longleftrightarrow>
     (\<exists>ip p. vm_address ctx is_tx ip \<and> lpm (dp_monitored s) ip
        \<and> dp_policies s (limit_key_new ip (flow_direction is_tx)) = Some p \<and> armed p
        \<and> policeable (ucast (skb_len ctx))
        \<and> policer_verdict e (limit_key_new ip (flow_direction is_tx)) p (ucast (skb_len ctx)) s
          = Some False)"
  by (rule handle_shot_iff)

text \<open>C15: Accounting is demand: a frame of a monitored address is counted once, under its TAP and
  address, in its direction, on the CPU that handles it, whatever the policer decides; a
  frame of no monitored address changes no IPv4 counter.\<close>

theorem handle_counts_demand:
  "slot traffic_value_default (dp_traffic (snd (handle lpm e ctx is_tx s))) key cpu =
     (if vm_address ctx is_tx (tk_ipv4 key) \<and> lpm (dp_monitored s) (tk_ipv4 key)
         \<and> tk_ifindex key = skb_ifindex ctx \<and> cpu = e_cpu e
         \<and> slot_ready e TRAFFIC (dp_traffic s) key
      then add_traffic is_tx (ucast (skb_len ctx))
             (slot traffic_value_default (dp_traffic s) key cpu)
      else slot traffic_value_default (dp_traffic s) key cpu)"
proof (cases "\<exists>ip. monitored_frame lpm ctx is_tx ip s")
  case False
  then show ?thesis
    by (auto simp: handle_unmonitored(2) monitored_frame_def count6_def Let_def)
next
  case True
  then obtain ip where ip: "monitored_frame lpm ctx is_tx ip s" by blast
  have u: "vm_address ctx is_tx ip' \<and> lpm (dp_monitored s) ip' \<longleftrightarrow> ip' = ip" for ip'
    using ip monitored_frame_unique [of lpm ctx is_tx ip s ip'] by (auto simp: monitored_frame_def)
  let ?k = "\<lparr>tk_ifindex = skb_ifindex ctx, tk_ipv4 = ip\<rparr>"
  have t: "dp_traffic (snd (handle lpm e ctx is_tx s)) =
      update_slot e TRAFFIC traffic_value_default (add_traffic is_tx (ucast (skb_len ctx))) ?k
        (dp_traffic s)"
    by (simp add: handle_monitored [OF ip] Let_def count_def)
  show ?thesis
  proof (cases "key = ?k")
    case True
    with u [of ip] show ?thesis by (simp add: t slot_update_slot)
  next
    case False
    then have "\<not> (tk_ipv4 key = ip \<and> tk_ifindex key = skb_ifindex ctx)" by (cases key) auto
    then have no: "\<not> (vm_address ctx is_tx (tk_ipv4 key) \<and> lpm (dp_monitored s) (tk_ipv4 key)
        \<and> tk_ifindex key = skb_ifindex ctx \<and> X)" for X
      using u [of "tk_ipv4 key"] by blast
    show ?thesis unfolding t slot_update_slot if_not_P [OF no] using False by simp
  qed
qed

subsection \<open>What a classifier leaves alone\<close>

lemma police_other_flow:
  assumes "key \<noteq> limit_key_new ip d"
  shows "dp_limit_state (snd (police e ip d len s)) key = dp_limit_state s key"
    and "dp_swl_log (snd (police e ip d len s)) key = dp_swl_log s key"
    and "dp_policer_stats (snd (police e ip d len s)) key = dp_policer_stats s key"
  using assms
  by (simp_all add: police_def swl_police_def Let_def record_verdict_def record_oversized_def
      update_slot_other split: option.split prod.split)

lemma police_dom:
  "dom (dp_limit_state (snd (police e ip d len s))) = dom (dp_limit_state s)"
  "dom (dp_swl_log (snd (police e ip d len s))) = dom (dp_swl_log s)"
  by (auto simp: police_def swl_police_def Let_def split: option.split prod.split)

lemma handle_unmonitored_fields:
  assumes "\<nexists>ip. monitored_frame lpm ctx is_tx ip s"
  shows "dp_monitored (snd (handle lpm e ctx is_tx s)) = dp_monitored s"
    and "dp_policies (snd (handle lpm e ctx is_tx s)) = dp_policies s"
    and "dp_limit_state (snd (handle lpm e ctx is_tx s)) = dp_limit_state s"
    and "dp_swl_log (snd (handle lpm e ctx is_tx s)) = dp_swl_log s"
    and "dp_policer_stats (snd (handle lpm e ctx is_tx s)) = dp_policer_stats s"
  by (simp_all add: handle_unmonitored(2) [OF assms] count6_def Let_def)

lemma handle_fields:
  "dp_monitored (snd (handle lpm e ctx is_tx s)) = dp_monitored s"
  "dp_policies (snd (handle lpm e ctx is_tx s)) = dp_policies s"
  "dom (dp_limit_state (snd (handle lpm e ctx is_tx s))) = dom (dp_limit_state s)"
  "dom (dp_swl_log (snd (handle lpm e ctx is_tx s))) = dom (dp_swl_log s)"
proof -
  have "dp_monitored (snd (handle lpm e ctx is_tx s)) = dp_monitored s
    \<and> dp_policies (snd (handle lpm e ctx is_tx s)) = dp_policies s
    \<and> dom (dp_limit_state (snd (handle lpm e ctx is_tx s))) = dom (dp_limit_state s)
    \<and> dom (dp_swl_log (snd (handle lpm e ctx is_tx s))) = dom (dp_swl_log s)"
  proof (cases "\<exists>ip. monitored_frame lpm ctx is_tx ip s")
    case True
    then obtain ip where ip: "monitored_frame lpm ctx is_tx ip s" by blast
    show ?thesis by (simp add: handle_monitored [OF ip] Let_def police_dom)
  next
    case False
    show ?thesis by (simp add: handle_unmonitored_fields [OF False])
  qed
  then show "dp_monitored (snd (handle lpm e ctx is_tx s)) = dp_monitored s"
    "dp_policies (snd (handle lpm e ctx is_tx s)) = dp_policies s"
    "dom (dp_limit_state (snd (handle lpm e ctx is_tx s))) = dom (dp_limit_state s)"
    "dom (dp_swl_log (snd (handle lpm e ctx is_tx s))) = dom (dp_swl_log s)" by simp_all
qed

lemma handle_other_flow:
  assumes "\<not> monitored_frame lpm ctx is_tx ip s \<or> d \<noteq> flow_direction is_tx"
  shows "dp_limit_state (snd (handle lpm e ctx is_tx s)) (limit_key_new ip d)
      = dp_limit_state s (limit_key_new ip d)"
    and "dp_swl_log (snd (handle lpm e ctx is_tx s)) (limit_key_new ip d)
      = dp_swl_log s (limit_key_new ip d)"
    and "dp_policer_stats (snd (handle lpm e ctx is_tx s)) (limit_key_new ip d)
      = dp_policer_stats s (limit_key_new ip d)"
proof -
  have "dp_limit_state (snd (handle lpm e ctx is_tx s)) (limit_key_new ip d)
      = dp_limit_state s (limit_key_new ip d)
    \<and> dp_swl_log (snd (handle lpm e ctx is_tx s)) (limit_key_new ip d)
      = dp_swl_log s (limit_key_new ip d)
    \<and> dp_policer_stats (snd (handle lpm e ctx is_tx s)) (limit_key_new ip d)
      = dp_policer_stats s (limit_key_new ip d)"
  proof (cases "\<exists>ip. monitored_frame lpm ctx is_tx ip s")
    case True
    then obtain ip' where ip': "monitored_frame lpm ctx is_tx ip' s" by blast
    with assms have "limit_key_new ip d \<noteq> limit_key_new ip' (flow_direction is_tx)" by auto
    then show ?thesis by (simp add: handle_monitored [OF ip'] Let_def police_other_flow)
  next
    case False
    show ?thesis by (simp add: handle_unmonitored_fields [OF False])
  qed
  then show "dp_limit_state (snd (handle lpm e ctx is_tx s)) (limit_key_new ip d)
      = dp_limit_state s (limit_key_new ip d)"
    "dp_swl_log (snd (handle lpm e ctx is_tx s)) (limit_key_new ip d)
      = dp_swl_log s (limit_key_new ip d)"
    "dp_policer_stats (snd (handle lpm e ctx is_tx s)) (limit_key_new ip d)
      = dp_policer_stats s (limit_key_new ip d)" by simp_all
qed

text \<open>The entries of one flow in the three runtime maps.\<close>

definition flow_runtime ::
  "dp_state \<Rightarrow> limit_key \<Rightarrow> limit_state option \<times> swl_ring option \<times> policer_stats per_cpu option" where
  "flow_runtime s key = (dp_limit_state s key, dp_swl_log s key, dp_policer_stats s key)"

text \<open>C16: The data path never arms, disarms or constructs: it leaves the whitelist and the
  policies as they are, creates and removes no policer state and no log ring, and touches
  the runtime state of no flow but the one the frame belongs to.\<close>

theorem handle_confined:
  "dp_monitored (snd (handle lpm e ctx is_tx s)) = dp_monitored s
   \<and> dp_policies (snd (handle lpm e ctx is_tx s)) = dp_policies s
   \<and> dom (dp_limit_state (snd (handle lpm e ctx is_tx s))) = dom (dp_limit_state s)
   \<and> dom (dp_swl_log (snd (handle lpm e ctx is_tx s))) = dom (dp_swl_log s)
   \<and> {(ip, d). flow_runtime (snd (handle lpm e ctx is_tx s)) (limit_key_new ip d)
                 \<noteq> flow_runtime s (limit_key_new ip d)}
     \<subseteq> {(ip, d). vm_address ctx is_tx ip \<and> lpm (dp_monitored s) ip \<and> d = flow_direction is_tx}"
proof -
  have "vm_address ctx is_tx ip \<and> lpm (dp_monitored s) ip \<and> d = flow_direction is_tx"
    if "flow_runtime (snd (handle lpm e ctx is_tx s)) (limit_key_new ip d)
      \<noteq> flow_runtime s (limit_key_new ip d)" for ip d
    using that handle_other_flow [of lpm ctx is_tx ip s d e]
    unfolding monitored_frame_def flow_runtime_def by auto
  then show ?thesis by (auto simp: handle_fields)
qed

text \<open>C14: Policing records what it decides: when the flow of a monitored frame is armed, the frame
  policeable, its policer state present and its entry in \<open>POLICER_STATS\<close> there or room for it, exactly one of the passed and dropped counters
  of the flow grows, by one packet and the frame's length, and it is the one that agrees
  with the verdict of the classifier.\<close>

theorem handle_records_verdict:
  assumes "vm_address ctx is_tx ip" "lpm (dp_monitored s) ip"
    and "dp_policies s (limit_key_new ip (flow_direction is_tx)) = Some p" "armed p"
    and "policeable (ucast (skb_len ctx))"
    and "policer_verdict e (limit_key_new ip (flow_direction is_tx)) p (ucast (skb_len ctx)) s
      = Some passed"
    and "slot_ready e POLICER_STATS (dp_policer_stats s)
      (limit_key_new ip (flow_direction is_tx))"
  shows "handle lpm e ctx is_tx s = (if passed then TC_ACT_UNSPEC else TC_ACT_SHOT,
      snd (handle lpm e ctx is_tx s))
    \<and> slot policer_stats_default (dp_policer_stats (snd (handle lpm e ctx is_tx s)))
        (limit_key_new ip (flow_direction is_tx)) (e_cpu e)
      = (let v = slot policer_stats_default (dp_policer_stats s)
                   (limit_key_new ip (flow_direction is_tx)) (e_cpu e);
             len = ucast (skb_len ctx)
         in if passed
            then v\<lparr>ps_passed_bytes := ps_passed_bytes v + len,
                   ps_passed_packets := ps_passed_packets v + 1\<rparr>
            else v\<lparr>ps_dropped_bytes := ps_dropped_bytes v + len,
                   ps_dropped_packets := ps_dropped_packets v + 1\<rparr>)"
proof -
  let ?key = "limit_key_new ip (flow_direction is_tx)" and ?len = "ucast (skb_len ctx) :: u64"
  let ?s = "count e ctx ip (skb_ifindex ctx) is_tx s"
  have ip: "monitored_frame lpm ctx is_tx ip s" using assms(1,2) by (simp add: monitored_frame_def)
  have p: "dp_policies ?s ?key = Some p" using assms(3) by simp
  have "\<exists>s'. police e ip (flow_direction is_tx) ?len ?s
          = (\<not> passed, record_verdict e ?key ?len passed s')
        \<and> dp_policer_stats s' = dp_policer_stats s"
  proof (cases "lp_algorithm p = ALGO_SLIDING_WINDOW_LOG")
    case True
    with assms(6) show ?thesis
      by (auto simp: police_log [OF p assms(4,5) True] swl_police_def policer_verdict_def Let_def
          case_prod_beta split: if_splits)
  next
    case False
    with assms(6) show ?thesis
      by (auto simp: police_state [OF p assms(4,5) False] policer_verdict_def Let_def
          split: if_splits)
  qed
  then obtain s' where s': "police e ip (flow_direction is_tx) ?len ?s
        = (\<not> passed, record_verdict e ?key ?len passed s')"
      "dp_policer_stats s' = dp_policer_stats s" by blast
  then show ?thesis
    using assms(7)
    by (simp add: handle_monitored [OF ip] Let_def record_verdict_def slot_update_slot)
qed

subsection \<open>The traffic of one flow\<close>

text \<open>
  An event is one run of a classifier. The frames of a flow among the events are those of
  the monitored address and direction whose length the policer accepts; their readings are
  in the order in which the critical sections ran.
\<close>

type_synonym event = "env \<times> tc_context \<times> bool"

fun run :: "(trie \<Rightarrow> u32 \<Rightarrow> bool) \<Rightarrow> event list \<Rightarrow> dp_state \<Rightarrow> tc_act list \<times> dp_state" where
  "run lpm [] s = ([], s)"
| "run lpm ((e, ctx, is_tx) # evs) s =
     (let (act, s') = handle lpm e ctx is_tx s;
          (acts, s'') = run lpm evs s'
      in (act # acts, s''))"

definition frame_address :: "tc_context \<Rightarrow> bool \<Rightarrow> u32 option" where
  "frame_address ctx is_tx =
     (case walk_frame ctx of
        None \<Rightarrow> None
      | Some (off, et) \<Rightarrow>
          if et \<noteq> ETHERTYPE_IPV4 then None
          else map_option (\<lambda>hdr. if is_tx then src_addr hdr else dst_addr hdr) (load_ipv4 ctx off))"

lemma frame_address_iff: "frame_address ctx is_tx = Some ip \<longleftrightarrow> vm_address ctx is_tx ip"
  by (auto simp: frame_address_def vm_address_def walk_frame_iff [symmetric] split: option.split)

definition in_flow :: "u32 \<Rightarrow> bool \<Rightarrow> event \<Rightarrow> bool" where
  "in_flow ip is_tx = (\<lambda>(e, ctx, tx). tx = is_tx \<and> frame_address ctx tx = Some ip
     \<and> policeable (ucast (skb_len ctx)))"

definition flow_frames :: "u32 \<Rightarrow> bool \<Rightarrow> event list \<Rightarrow> frames" where
  "flow_frames ip is_tx evs =
     map (\<lambda>(e, ctx, tx). (e_now e, ucast (skb_len ctx))) (filter (in_flow ip is_tx) evs)"

definition passed_frames :: "u32 \<Rightarrow> bool \<Rightarrow> event list \<Rightarrow> tc_act list \<Rightarrow> u64 list" where
  "passed_frames ip is_tx evs acts =
     map (\<lambda>((e, ctx, tx), act). ucast (skb_len ctx))
       (filter (\<lambda>(ev, act). in_flow ip is_tx ev \<and> act = TC_ACT_UNSPEC) (zip evs acts))"

definition passed_bytes :: "u32 \<Rightarrow> bool \<Rightarrow> event list \<Rightarrow> tc_act list \<Rightarrow> nat" where
  "passed_bytes ip is_tx evs acts = sum_list (map unat (passed_frames ip is_tx evs acts))"

text \<open>A flow is armed when its address is monitored and it has a policy that is switched on.\<close>

definition flow_armed :: "(trie \<Rightarrow> u32 \<Rightarrow> bool) \<Rightarrow> u32 \<Rightarrow> bool \<Rightarrow> limit_policy \<Rightarrow> dp_state \<Rightarrow> bool" where
  "flow_armed lpm ip is_tx p s \<longleftrightarrow>
     lpm (dp_monitored s) ip \<and> dp_policies s (limit_key_new ip (flow_direction is_tx)) = Some p \<and> armed p"

text \<open>The two places where a policer keeps its state, and what the flow's algorithm does on it. A flow
  without the state its algorithm needs is not policed.\<close>

datatype policer_state = In_Map limit_state | In_Log swl_ring

definition flow_state :: "limit_policy \<Rightarrow> limit_key \<Rightarrow> dp_state \<Rightarrow> policer_state option" where
  "flow_state p key s =
     (if lp_algorithm p = ALGO_SLIDING_WINDOW_LOG then
        if lp_window_ns p = 0 then None else map_option In_Log (dp_swl_log s key)
      else map_option In_Map (dp_limit_state s key))"

fun flow_step :: "limit_policy \<Rightarrow> policer_state \<Rightarrow> u64 \<Rightarrow> u64 \<Rightarrow> bool \<times> policer_state" where
  "flow_step p (In_Map st) now len = apsnd In_Map (run_policer p st now len)"
| "flow_step p (In_Log ring) now len = apsnd In_Log (swl_step p ring now len)"

lemma admitted_flow_step [simp]:
  "admitted (flow_step p) fs (In_Map st) = admitted (run_policer p) fs st"
  "admitted (flow_step p) fs (In_Log ring) = admitted (swl_step p) fs ring"
  by (induction fs arbitrary: st ring) (auto simp: admitted_def)

lemma flow_armed_handle:
  "flow_armed lpm ip is_tx p s \<Longrightarrow> flow_armed lpm ip is_tx p (snd (handle lpm e ctx tx s))"
  by (simp add: flow_armed_def handle_fields)

lemma police_flow:
  fixes s :: dp_state
  assumes "dp_policies s (limit_key_new ip d) = Some p" "armed p" "policeable len"
  shows "fst (police e ip d len s) \<longleftrightarrow>
      (case flow_state p (limit_key_new ip d) s of None \<Rightarrow> False | Some st \<Rightarrow> \<not> fst (flow_step p st (e_now e) len))"
    and "flow_state p (limit_key_new ip d) (snd (police e ip d len s))
      = map_option (\<lambda>st. snd (flow_step p st (e_now e) len)) (flow_state p (limit_key_new ip d) s)"
proof -
  have "(fst (police e ip d len s) \<longleftrightarrow>
      (case flow_state p (limit_key_new ip d) s of None \<Rightarrow> False | Some st \<Rightarrow> \<not> fst (flow_step p st (e_now e) len)))
    \<and> flow_state p (limit_key_new ip d) (snd (police e ip d len s))
      = map_option (\<lambda>st. snd (flow_step p st (e_now e) len)) (flow_state p (limit_key_new ip d) s)"
  proof (cases "lp_algorithm p = ALGO_SLIDING_WINDOW_LOG")
    case True
    then show ?thesis
      by (auto simp: police_log [OF assms True] swl_police_def flow_state_def Let_def case_prod_beta split: option.split)
  next
    case False
    then show ?thesis
      by (auto simp: police_state [OF assms False] flow_state_def Let_def split: option.split)
  qed
  then show "fst (police e ip d len s) \<longleftrightarrow>
      (case flow_state p (limit_key_new ip d) s of None \<Rightarrow> False | Some st \<Rightarrow> \<not> fst (flow_step p st (e_now e) len))"
    and "flow_state p (limit_key_new ip d) (snd (police e ip d len s))
      = map_option (\<lambda>st. snd (flow_step p st (e_now e) len)) (flow_state p (limit_key_new ip d) s)" by blast+
qed

lemma handle_in_flow:
  assumes "flow_armed lpm ip is_tx p s" "in_flow ip is_tx (e, ctx, tx)"
  defines "key \<equiv> limit_key_new ip (flow_direction is_tx)" and "len \<equiv> ucast (skb_len ctx)"
  shows "fst (handle lpm e ctx tx s) = TC_ACT_UNSPEC
      \<longleftrightarrow> (case flow_state p key s of None \<Rightarrow> True | Some st \<Rightarrow> fst (flow_step p st (e_now e) len))"
    and "flow_state p key (snd (handle lpm e ctx tx s))
      = map_option (\<lambda>st. snd (flow_step p st (e_now e) len)) (flow_state p key s)"
proof -
  have f: "tx = is_tx" "monitored_frame lpm ctx is_tx ip s" "policeable len"
    using assms(1,2) by (auto simp: in_flow_def flow_armed_def monitored_frame_def frame_address_iff len_def)
  let ?s = "count e ctx ip (skb_ifindex ctx) is_tx s"
  have p: "dp_policies ?s key = Some p" "armed p" using assms(1) by (simp_all add: flow_armed_def key_def)
  have same: "flow_state p key ?s = flow_state p key s" by (simp add: flow_state_def)
  note police = police_flow [OF p [unfolded key_def] f(3), folded key_def, unfolded same]
  show "fst (handle lpm e ctx tx s) = TC_ACT_UNSPEC
      \<longleftrightarrow> (case flow_state p key s of None \<Rightarrow> True | Some st \<Rightarrow> fst (flow_step p st (e_now e) len))"
    and "flow_state p key (snd (handle lpm e ctx tx s))
      = map_option (\<lambda>st. snd (flow_step p st (e_now e) len)) (flow_state p key s)"
    using police f(1)
    by (simp_all add: handle_monitored [OF f(2)] Let_def len_def [symmetric] split: option.split)
qed

lemma handle_not_in_flow:
  assumes "flow_armed lpm ip is_tx p s" "\<not> in_flow ip is_tx (e, ctx, tx)"
  shows "flow_state p (limit_key_new ip (flow_direction is_tx)) (snd (handle lpm e ctx tx s))
      = flow_state p (limit_key_new ip (flow_direction is_tx)) s"
proof (cases "monitored_frame lpm ctx tx ip s \<and> flow_direction is_tx = flow_direction tx")
  case False
  then have other: "\<not> monitored_frame lpm ctx tx ip s \<or> flow_direction is_tx \<noteq> flow_direction tx" by blast
  show ?thesis by (simp add: flow_state_def handle_other_flow(1,2) [OF other])
next
  case True
  then have tx: "tx = is_tx" by (auto simp: flow_direction_def split: if_splits)
  with True have ip: "monitored_frame lpm ctx is_tx ip s" by simp
  with assms(2) tx have len: "\<not> policeable (ucast (skb_len ctx))"
    by (simp add: in_flow_def monitored_frame_def frame_address_iff)
  let ?s = "count e ctx ip (skb_ifindex ctx) is_tx s"
  have p: "dp_policies ?s (limit_key_new ip (flow_direction is_tx)) = Some p" "armed p"
    using assms(1) by (simp_all add: flow_armed_def)
  show ?thesis by (simp add: tx handle_monitored [OF ip] police_unpoliceable [OF p len] Let_def flow_state_def)
qed

lemma run_flow:
  assumes "flow_armed lpm ip is_tx p s"
  defines "key \<equiv> limit_key_new ip (flow_direction is_tx)"
  shows "flow_state p key (snd (run lpm evs s))
      = map_option (final_state (flow_step p) (flow_frames ip is_tx evs)) (flow_state p key s)"
    and "passed_frames ip is_tx evs (fst (run lpm evs s))
      = (case flow_state p key s of
           None \<Rightarrow> map snd (flow_frames ip is_tx evs)
         | Some st \<Rightarrow> admitted (flow_step p) (flow_frames ip is_tx evs) st)"
proof -
  have "flow_state p key (snd (run lpm evs s))
        = map_option (final_state (flow_step p) (flow_frames ip is_tx evs)) (flow_state p key s)
      \<and> passed_frames ip is_tx evs (fst (run lpm evs s))
        = (case flow_state p key s of
             None \<Rightarrow> map snd (flow_frames ip is_tx evs)
           | Some st \<Rightarrow> admitted (flow_step p) (flow_frames ip is_tx evs) st)"
    using assms(1)
  proof (induction evs arbitrary: s)
    case Nil
    then show ?case by (simp add: flow_frames_def passed_frames_def option.map_ident split: option.split)
  next
    case (Cons ev evs)
    obtain e ctx tx where ev: "ev = (e, ctx, tx)" by (cases ev) auto
    let ?s' = "snd (handle lpm e ctx tx s)"
    note armed' = flow_armed_handle [OF Cons.prems, of e ctx tx]
    have passed: "passed_frames ip is_tx (ev # evs) (fst (run lpm (ev # evs) s)) =
        (if in_flow ip is_tx ev \<and> fst (handle lpm e ctx tx s) = TC_ACT_UNSPEC then [ucast (skb_len ctx)] else [])
        @ passed_frames ip is_tx evs (fst (run lpm evs ?s'))"
      and final: "snd (run lpm (ev # evs) s) = snd (run lpm evs ?s')"
      by (simp_all add: ev passed_frames_def Let_def case_prod_beta)
    show ?case
    proof (cases "in_flow ip is_tx ev")
      case True
      note step = handle_in_flow [OF Cons.prems True [unfolded ev], folded key_def]
      have frames: "flow_frames ip is_tx (ev # evs)
          = (e_now e, ucast (skb_len ctx)) # flow_frames ip is_tx evs"
        using True by (simp add: flow_frames_def ev)
      show ?thesis
      proof (cases "flow_state p key s")
        case None
        then have "flow_state p key ?s' = None" "fst (handle lpm e ctx tx s) = TC_ACT_UNSPEC" using step by simp_all
        with Cons.IH [OF armed'] True None show ?thesis unfolding passed final frames by simp
      next
        case (Some st)
        then have "flow_state p key ?s' = Some (snd (flow_step p st (e_now e) (ucast (skb_len ctx))))"
          "fst (handle lpm e ctx tx s) = TC_ACT_UNSPEC \<longleftrightarrow> fst (flow_step p st (e_now e) (ucast (skb_len ctx)))"
          using step by simp_all
        with Cons.IH [OF armed'] True Some show ?thesis unfolding passed final frames by simp
      qed
    next
      case False
      note step = handle_not_in_flow [OF Cons.prems False [unfolded ev], folded key_def]
      have frames: "flow_frames ip is_tx (ev # evs) = flow_frames ip is_tx evs"
        using False by (simp add: flow_frames_def)
      show ?thesis
        using Cons.IH [OF armed', unfolded step] False unfolding passed final frames by simp
    qed
  qed
  then show "flow_state p key (snd (run lpm evs s))
      = map_option (final_state (flow_step p) (flow_frames ip is_tx evs)) (flow_state p key s)"
    and "passed_frames ip is_tx evs (fst (run lpm evs s))
      = (case flow_state p key s of
           None \<Rightarrow> map snd (flow_frames ip is_tx evs)
         | Some st \<Rightarrow> admitted (flow_step p) (flow_frames ip is_tx evs) st)" by simp_all
qed

text \<open>C3: Each flow is policed in isolation, whatever the other flows send: over any run of the
  classifiers on any traffic, the state of an armed flow, in the state map or in the log ring, is
  that of its algorithm run on the flow's own policeable frames alone, and of those frames exactly
  the ones this algorithm admits are passed, in their order. A flow whose state is missing stays
  without it and passes all of them. All six algorithms are covered.\<close>

theorem run_flow_isolated:
  assumes "flow_armed lpm ip is_tx p s"
  shows "flow_state p (limit_key_new ip (flow_direction is_tx)) (snd (run lpm evs s))
      = map_option (final_state (flow_step p) (flow_frames ip is_tx evs))
          (flow_state p (limit_key_new ip (flow_direction is_tx)) s)
    \<and> passed_frames ip is_tx evs (fst (run lpm evs s))
      = (case flow_state p (limit_key_new ip (flow_direction is_tx)) s of
           None \<Rightarrow> map snd (flow_frames ip is_tx evs)
         | Some st \<Rightarrow> admitted (flow_step p) (flow_frames ip is_tx evs) st)"
  using run_flow [OF assms] by blast

lemma run_policer_algorithms:
  "lp_algorithm p = ALGO_TOKEN_BUCKET \<Longrightarrow> run_policer p = token_bucket p"
  "lp_algorithm p = ALGO_LEAKY_BUCKET \<Longrightarrow> run_policer p = leaky_bucket p"
  "lp_algorithm p = ALGO_FIXED_WINDOW \<Longrightarrow> run_policer p = fixed_window p"
  "lp_algorithm p = ALGO_SLIDING_WINDOW_COUNTER \<Longrightarrow> run_policer p = sliding_window_counter p"
  "lp_algorithm p = ALGO_GCRA \<Longrightarrow> run_policer p = gcra p"
  by (auto simp: fun_eq_iff run_policer_def algo_defs)

text \<open>The ceiling reaches the wire: over any run of the classifiers on any traffic, the bytes
  that an armed bucket-limited flow passes in policeable frames between two readings stay
  below burst plus rate times the interval, plus the slack for each frame passed.\<close>

theorem bucket_flow_ceiling:
  assumes "flow_armed lpm ip is_tx p s"
    and "lp_algorithm p \<in> {ALGO_TOKEN_BUCKET, ALGO_LEAKY_BUCKET}"
    and "dp_limit_state s (limit_key_new ip (flow_direction is_tx)) = Some st"
    and "bucket_wf p st" "frames_in t0 t1 (flow_frames ip is_tx evs)"
  shows "1000000000 * passed_bytes ip is_tx evs (fst (run lpm evs s))
    \<le> capacity p + (t1 - t0) * byte_rate p
      + length (passed_frames ip is_tx evs (fst (run lpm evs s))) * bucket_slack p"
proof -
  have passed: "passed_frames ip is_tx evs (fst (run lpm evs s)) = admitted (run_policer p) (flow_frames ip is_tx evs) st"
    using run_flow(2) [OF assms(1)] assms(2,3) by (auto simp: flow_state_def algo_defs)
  then have "passed_bytes ip is_tx evs (fst (run lpm evs s)) = admitted_bytes (run_policer p) (flow_frames ip is_tx evs) st"
    by (simp add: passed_bytes_def admitted_bytes_def)
  then show ?thesis
    using tb.rate_bound [OF assms(4,5)] lb.rate_bound [OF assms(4,5)] assms(2) passed
    by (auto simp: run_policer_algorithms scaled_admitted_bytes)
qed

subsection \<open>Concrete runs\<close>

definition sample_frame :: "u16 list \<Rightarrow> u32 \<Rightarrow> tc_context" where
  "sample_frame ets len =
     \<lparr>load_eth = (\<lambda>off. if off = 0 then Some (hd ets) else None),
      load_vlan = (\<lambda>off. if off = 14 \<and> 1 < length ets then Some \<lparr>vh_tci = 7, vh_ether_type = ets ! 1\<rparr>
                         else if off = 18 \<and> 2 < length ets
                         then Some \<lparr>vh_tci = 8, vh_ether_type = ets ! 2\<rparr> else None),
      load_ipv4 = (\<lambda>off. if off = 14 + 4 * (length ets - 1)
                         then Some \<lparr>src_addr = 10, dst_addr = 20\<rparr> else None),
      load_ipv6 = (\<lambda>_. None), eth_hdr_len = 14, skb_len = len, skb_ifindex = 3\<rparr>"

definition sample_env :: "u64 \<Rightarrow> env" where
  "sample_env now = \<lparr>e_cpu = 1, e_now = now, e_insert_ok = (\<lambda>_. True), e_still_there = (\<lambda>_. True)\<rparr>"

definition sample_lpm :: "trie \<Rightarrow> u32 \<Rightarrow> bool" where
  "sample_lpm t ip \<longleftrightarrow> (ip, 32) \<in> t"

definition sample_bucket :: limit_policy where
  "sample_bucket = sample_policy\<lparr>lp_algorithm := ALGO_TOKEN_BUCKET\<rparr>"

definition sample_dp :: dp_state where
  "sample_dp = \<lparr>dp_monitored = {(10, 32)}, dp_traffic = Map.empty, dp_traffic6 = Map.empty,
     dp_policies = [limit_key_new 10 DIR_TX \<mapsto> sample_bucket],
     dp_limit_state = [limit_key_new 10 DIR_TX \<mapsto> limit_state_default],
     dp_swl_log = Map.empty, dp_policer_stats = Map.empty, dp_oversized = Map.empty\<rparr>"

lemmas sample_dp_defs = sample_dp_def sample_frame_def sample_env_def sample_lpm_def
  sample_bucket_def sample_policy_def

lemma sample_walk:
  "walk_frame (sample_frame [ETHERTYPE_IPV4] len) = Some (14, ETHERTYPE_IPV4)"
  "walk_frame (sample_frame [ETHERTYPE_QINQ, ETHERTYPE_VLAN, ETHERTYPE_IPV4] len)
    = Some (22, ETHERTYPE_IPV4)"
  by (simp_all add: walk_frame_def sample_frame_def vlan_walk_def is_vlan_tag_def ethertype_defs
      VLAN_HDR_LEN_def)

lemma sample_address:
  "frame_address (sample_frame [ETHERTYPE_IPV4] len) True = Some 10"
  "frame_address (sample_frame [ETHERTYPE_QINQ, ETHERTYPE_VLAN, ETHERTYPE_IPV4] len) True = Some 10"
  by (simp_all add: frame_address_def sample_walk) (simp_all add: sample_frame_def)

lemma sample_armed: "flow_armed sample_lpm 10 True sample_bucket sample_dp"
  by (simp add: flow_armed_def sample_dp_defs armed_def flow_direction_def algo_defs)

lemma sample_flow_state:
  "dp_limit_state sample_dp (limit_key_new 10 (flow_direction True)) = Some limit_state_default"
  by (simp add: sample_dp_def flow_direction_def)

definition sample_events :: "event list" where
  "sample_events =
     [(sample_env 1000, sample_frame [ETHERTYPE_IPV4] 1500, True),
      (sample_env 3000000, sample_frame [ETHERTYPE_QINQ, ETHERTYPE_VLAN, ETHERTYPE_IPV4] 1500, True)]"

lemma sample_flow_frames: "flow_frames 10 True sample_events = [(1000, 1500), (3000000, 1500)]"
  by (simp add: flow_frames_def sample_events_def in_flow_def sample_address)
    (simp add: sample_frame_def sample_env_def policeable_def)

lemma handle_records_verdict_witness:
  "fst (handle sample_lpm (sample_env 1000) (sample_frame [ETHERTYPE_IPV4] 1500) True sample_dp)
      = TC_ACT_SHOT
   \<and> ps_dropped_packets (slot policer_stats_default
        (dp_policer_stats (snd (handle sample_lpm (sample_env 1000)
           (sample_frame [ETHERTYPE_IPV4] 1500) True sample_dp)))
        (limit_key_new 10 (flow_direction True)) 1) = 1"
proof -
  have a: "vm_address (sample_frame [ETHERTYPE_IPV4] 1500) True 10"
    "sample_lpm (dp_monitored sample_dp) 10"
    "dp_policies sample_dp (limit_key_new 10 (flow_direction True)) = Some sample_bucket"
    "armed sample_bucket" "policeable (ucast (skb_len (sample_frame [ETHERTYPE_IPV4] 1500)))"
    using sample_address(1) [of 1500]
    by (simp_all add: frame_address_iff sample_dp_defs flow_direction_def armed_def policeable_def)
  have v: "policer_verdict (sample_env 1000) (limit_key_new 10 (flow_direction True)) sample_bucket
      (ucast (skb_len (sample_frame [ETHERTYPE_IPV4] 1500))) sample_dp = Some False"
    by (simp add: policer_verdict_def sample_dp_defs flow_direction_def algo_defs run_policer_def
        token_bucket_def bucket_params_def unit_defs limit_state_default_def)
  have r: "slot_ready (sample_env 1000) POLICER_STATS (dp_policer_stats sample_dp)
      (limit_key_new 10 (flow_direction True))"
    by (simp add: slot_ready_def sample_env_def)
  from handle_records_verdict [of "sample_frame [ETHERTYPE_IPV4] 1500" True 10 sample_lpm sample_dp
      sample_bucket "sample_env 1000" False, OF a v r] show ?thesis
    by (simp add: sample_dp_def sample_env_def slot_def policer_stats_default_def Let_def)
      (metis fst_conv)
qed

lemma run_flow_isolated_witness:
  "dp_limit_state (snd (run sample_lpm sample_events sample_dp)) (limit_key_new 10 (flow_direction True))
      = Some (final_state (run_policer sample_bucket) [(1000, 1500), (3000000, 1500)] limit_state_default)
   \<and> passed_frames 10 True sample_events (fst (run sample_lpm sample_events sample_dp))
      = admitted (run_policer sample_bucket) [(1000, 1500), (3000000, 1500)] limit_state_default"
proof -
  have state: "flow_state sample_bucket key s = map_option In_Map (dp_limit_state s key)" for key s
    by (simp add: flow_state_def sample_bucket_def algo_defs)
  have "final_state (flow_step p) fs (In_Map st) = In_Map (final_state (run_policer p) fs st)" for p fs st
    by (induction fs arbitrary: st) auto
  then show ?thesis
    using run_flow_isolated [OF sample_armed, of sample_events] by (auto simp: state sample_flow_state sample_flow_frames)
qed

lemma bucket_flow_ceiling_witness:
  "1000000000 * passed_bytes 10 True sample_events (fst (run sample_lpm sample_events sample_dp))
    \<le> capacity sample_bucket + (3000000 - 1000) * byte_rate sample_bucket
      + length (passed_frames 10 True sample_events (fst (run sample_lpm sample_events sample_dp))) * bucket_slack sample_bucket"
proof (rule bucket_flow_ceiling [OF sample_armed _ sample_flow_state])
  show "bucket_wf sample_bucket limit_state_default"
    by (simp add: policer_wf_defs sample_bucket_def sample_policy_def limit_state_default_def)
  show "frames_in 1000 3000000 (flow_frames 10 True sample_events)"
    by (simp add: sample_flow_frames frame_ok_def)
qed (simp add: sample_bucket_def)

end
