(* ===== verification/Collector.thy ===== *)
theory Collector
  imports Limiter Datapath
begin

section \<open>Collector: from kernel counters to totals and rates\<close>

text \<open>
  \<open>vm-bandwidth/src/collector.rs\<close>: \<open>IdleTracker::observe\<close>, \<open>prune_ips\<close>, the aggregation over
  CPUs in \<open>poll\<close>, \<open>apply_poll\<close> and \<open>carry_forward\<close>. The \<open>rx_\<close> and \<open>tx_\<close> fields of the
  statistics structs are grouped into one record for each direction. Iteration orders are
  arguments (\<open>orders\<close>); rates are binary64 values (F64); time is read in nanoseconds.
\<close>

subsection \<open>Data\<close>

definition f64_add :: "f64 \<Rightarrow> f64 \<Rightarrow> f64" where "f64_add x y = f64_round (x + y)"

definition IDLE_EVICT_POLLS :: u32 where "IDLE_EVICT_POLLS = 300"
definition IDLE_ENUM_CAP :: u64 where "IDLE_ENUM_CAP = 4096"

record dir_stats =
  sd_bps :: f64
  sd_bytes :: u64
  sd_packets :: u64
  sd_passed_bytes :: u64
  sd_passed_packets :: u64
  sd_dropped_bytes :: u64
  sd_dropped_packets :: u64
  sd_dropped_bps :: f64

definition dir_stats_default :: dir_stats where
  "dir_stats_default = \<lparr>sd_bps = 0, sd_bytes = 0, sd_packets = 0, sd_passed_bytes = 0,
     sd_passed_packets = 0, sd_dropped_bytes = 0, sd_dropped_packets = 0, sd_dropped_bps = 0\<rparr>"

record ip_stats =
  is_rx :: dir_stats
  is_tx :: dir_stats

definition ip_stats_default :: ip_stats where
  "ip_stats_default = \<lparr>is_rx = dir_stats_default, is_tx = dir_stats_default\<rparr>"

record range_dir =
  rd_bps :: f64
  rd_bytes :: u64
  rd_packets :: u64
  rd_dropped_bps :: f64
  rd_dropped_bytes :: u64
  rd_dropped_packets :: u64

definition range_dir_default :: range_dir where
  "range_dir_default = \<lparr>rd_bps = 0, rd_bytes = 0, rd_packets = 0, rd_dropped_bps = 0,
     rd_dropped_bytes = 0, rd_dropped_packets = 0\<rparr>"

record range_stats =
  rg_name :: string
  rg_range :: string
  rg_rx :: range_dir
  rg_tx :: range_dir
  rg_ips :: "(u32 \<times> ip_stats) list"

record poll_inputs =
  pi_cur :: "traffic_key \<rightharpoonup> traffic_value"
  pi_cur6 :: "u32 \<rightharpoonup> traffic_value"
  pi_cur_policer :: "limit_key \<rightharpoonup> policer_stats"
  pi_incomplete :: bool

record policer_dir_totals =
  pd_passed_bytes :: u64
  pd_passed_packets :: u64
  pd_dropped_bytes :: u64
  pd_dropped_packets :: u64

record policer_ip_totals =
  pt_rx :: policer_dir_totals
  pt_tx :: policer_dir_totals

record poll_result =
  pr_snapshot :: "range_stats list"
  pr_totals :: "u32 \<rightharpoonup> ip_totals"
  pr_ipv6 :: ip_stats
  pr_policer :: "u32 \<rightharpoonup> policer_ip_totals"
  pr_stale_traffic :: "traffic_key list"
  pr_stale_traffic6 :: "u32 list"

record collector =
  co_prev :: "traffic_key \<rightharpoonup> traffic_value"
  co_totals :: "u32 \<rightharpoonup> ip_stats"
  co_prev6 :: "u32 \<rightharpoonup> traffic_value"
  co_ipv6 :: ip_stats
  co_prev_policer :: "limit_key \<rightharpoonup> policer_stats"
  co_idle4 :: "traffic_key \<rightharpoonup> u32"
  co_idle6 :: "u32 \<rightharpoonup> u32"
  co_last_poll :: "nat option"
  co_primed :: bool

definition collector_new :: collector where
  "collector_new = \<lparr>co_prev = Map.empty, co_totals = Map.empty, co_prev6 = Map.empty,
     co_ipv6 = ip_stats_default, co_prev_policer = Map.empty, co_idle4 = Map.empty,
     co_idle6 = Map.empty, co_last_poll = None, co_primed = False\<rparr>"

text \<open>The orders in which the loops of a poll visit the keys of their maps.\<close>

record orders =
  or_cur :: "traffic_key list"
  or_cur6 :: "u32 list"
  or_policer :: "limit_key list"
  or_totals :: "(u32 \<rightharpoonup> ip_stats) \<Rightarrow> u32 list"

subsection \<open>Idle keys\<close>

definition observe_key ::
  "('k \<Rightarrow> bool) \<Rightarrow> 'k \<Rightarrow> ('k \<rightharpoonup> u32) \<times> 'k list \<Rightarrow> ('k \<rightharpoonup> u32) \<times> 'k list" where
  "observe_key changed key ce =
     (let (counts, evict) = ce;
          n = lookup_or 0 counts key
      in if changed key then (counts(key \<mapsto> 0), evict)
         else
           let n = n + 1
           in (counts(key \<mapsto> n), if IDLE_EVICT_POLLS \<le> n then evict @ [key] else evict))"

definition observe :: "'k list \<Rightarrow> ('k \<Rightarrow> bool) \<Rightarrow> ('k \<rightharpoonup> u32) \<Rightarrow> ('k \<rightharpoonup> u32) \<times> 'k list" where
  "observe present changed counts =
     (let (counts, evict) = fold (observe_key changed) present (counts, [])
      in (retain (\<lambda>k _. k \<in> set present) counts, evict))"

definition changed_since :: "('k \<rightharpoonup> 'v) \<Rightarrow> ('k \<rightharpoonup> 'v) \<Rightarrow> 'k \<Rightarrow> bool" where
  "changed_since prev cur k = (case cur k of None \<Rightarrow> False | Some v \<Rightarrow> prev k \<noteq> Some v)"

definition carry_forward :: "('k \<rightharpoonup> 'v) \<Rightarrow> ('k \<rightharpoonup> 'v) \<Rightarrow> bool \<Rightarrow> ('k \<rightharpoonup> 'v)" where
  "carry_forward cur old incomplete = (if incomplete then old ++ cur else cur)"

subsection \<open>Deltas\<close>

record delta =
  de_rx_bytes :: u64
  de_tx_bytes :: u64
  de_rx_packets :: u64
  de_tx_packets :: u64

definition delta_default :: delta where
  "delta_default = \<lparr>de_rx_bytes = 0, de_tx_bytes = 0, de_rx_packets = 0, de_tx_packets = 0\<rparr>"

definition delta_add :: "delta \<Rightarrow> delta \<Rightarrow> delta" where
  "delta_add a b = \<lparr>de_rx_bytes = de_rx_bytes a + de_rx_bytes b, de_tx_bytes = de_tx_bytes a + de_tx_bytes b,
     de_rx_packets = de_rx_packets a + de_rx_packets b, de_tx_packets = de_tx_packets a + de_tx_packets b\<rparr>"

definition delta_is_zero :: "delta \<Rightarrow> bool" where
  "delta_is_zero d \<longleftrightarrow>
     or (or (or (de_rx_bytes d) (de_tx_bytes d)) (de_rx_packets d)) (de_tx_packets d) = 0"

definition delta_between :: "traffic_value \<Rightarrow> traffic_value \<Rightarrow> delta" where
  "delta_between prev v =
     \<lparr>de_rx_bytes = sat_sub (tv_rx_bytes v) (tv_rx_bytes prev),
      de_tx_bytes = sat_sub (tv_tx_bytes v) (tv_tx_bytes prev),
      de_rx_packets = sat_sub (tv_rx_packets v) (tv_rx_packets prev),
      de_tx_packets = sat_sub (tv_tx_packets v) (tv_tx_packets prev)\<rparr>"

text \<open>The sample to compare with: the previous one, zero for a key created since then, none
  before the first poll.\<close>

definition base_sample :: "bool \<Rightarrow> 'v \<Rightarrow> ('k \<rightharpoonup> 'v) \<Rightarrow> 'k \<Rightarrow> 'v option" where
  "base_sample primed zero prev k =
     (case prev k of Some p \<Rightarrow> Some p | None \<Rightarrow> if primed then Some zero else None)"

definition key_delta :: "bool \<Rightarrow> ('k \<rightharpoonup> traffic_value) \<Rightarrow> ('k \<rightharpoonup> traffic_value) \<Rightarrow> 'k \<Rightarrow> delta option" where
  "key_delta primed prev cur k =
     (case (cur k, base_sample primed traffic_value_default prev k) of
        (Some v, Some p) \<Rightarrow> let d = delta_between p v in if delta_is_zero d then None else Some d
      | _ \<Rightarrow> None)"

definition add_key_delta ::
  "bool \<Rightarrow> (traffic_key \<rightharpoonup> traffic_value) \<Rightarrow> (traffic_key \<rightharpoonup> traffic_value) \<Rightarrow> traffic_key
     \<Rightarrow> (u32 \<rightharpoonup> delta) \<Rightarrow> (u32 \<rightharpoonup> delta)" where
  "add_key_delta primed prev cur k deltas =
     (case key_delta primed prev cur k of
        None \<Rightarrow> deltas
      | Some d \<Rightarrow> deltas(tk_ipv4 k \<mapsto> delta_add (lookup_or delta_default deltas (tk_ipv4 k)) d))"

definition add_delta6 ::
  "bool \<Rightarrow> (u32 \<rightharpoonup> traffic_value) \<Rightarrow> (u32 \<rightharpoonup> traffic_value) \<Rightarrow> u32 \<Rightarrow> delta \<Rightarrow> delta" where
  "add_delta6 primed prev cur k d6 =
     (case key_delta primed prev cur k of None \<Rightarrow> d6 | Some d \<Rightarrow> delta_add d6 d)"

definition bits_per_sec :: "u64 \<Rightarrow> f64 \<Rightarrow> f64" where
  "bits_per_sec bytes elapsed_secs = f64_div (f64_mul (f64_of_nat (unat bytes)) 8) elapsed_secs"

definition add_counts :: "u64 \<Rightarrow> u64 \<Rightarrow> dir_stats \<Rightarrow> dir_stats" where
  "add_counts bytes packets s =
     s\<lparr>sd_bytes := sd_bytes s + bytes, sd_packets := sd_packets s + packets\<rparr>"

definition set_rate :: "f64 \<Rightarrow> u64 \<Rightarrow> dir_stats \<Rightarrow> dir_stats" where
  "set_rate elapsed_secs bytes s =
     (if 0 < elapsed_secs then s\<lparr>sd_bps := bits_per_sec bytes elapsed_secs\<rparr> else s)"

definition apply_delta :: "f64 \<Rightarrow> delta \<Rightarrow> ip_stats \<Rightarrow> ip_stats" where
  "apply_delta elapsed_secs d s =
     \<lparr>is_rx = set_rate elapsed_secs (de_rx_bytes d) (add_counts (de_rx_bytes d) (de_rx_packets d) (is_rx s)),
      is_tx = set_rate elapsed_secs (de_tx_bytes d) (add_counts (de_tx_bytes d) (de_tx_packets d) (is_tx s))\<rparr>"

definition zero_rates :: "ip_stats \<Rightarrow> ip_stats" where
  "zero_rates s = \<lparr>is_rx = (is_rx s)\<lparr>sd_bps := 0, sd_dropped_bps := 0\<rparr>,
                   is_tx = (is_tx s)\<lparr>sd_bps := 0, sd_dropped_bps := 0\<rparr>\<rparr>"

text \<open>The loop over \<open>deltas\<close> visits every address once.\<close>

definition apply_deltas :: "f64 \<Rightarrow> (u32 \<rightharpoonup> delta) \<Rightarrow> (u32 \<rightharpoonup> ip_stats) \<Rightarrow> (u32 \<rightharpoonup> ip_stats)" where
  "apply_deltas elapsed_secs deltas totals ip =
     (case deltas ip of
        None \<Rightarrow> totals ip
      | Some d \<Rightarrow> Some (apply_delta elapsed_secs d (lookup_or ip_stats_default totals ip)))"

subsection \<open>Verdicts\<close>

definition add_verdicts :: "f64 \<Rightarrow> policer_stats \<Rightarrow> dir_stats \<Rightarrow> dir_stats" where
  "add_verdicts elapsed_secs d s =
     s\<lparr>sd_passed_bytes := sd_passed_bytes s + ps_passed_bytes d,
       sd_passed_packets := sd_passed_packets s + ps_passed_packets d,
       sd_dropped_bytes := sd_dropped_bytes s + ps_dropped_bytes d,
       sd_dropped_packets := sd_dropped_packets s + ps_dropped_packets d,
       sd_dropped_bps := bits_per_sec (ps_dropped_bytes d) elapsed_secs\<rparr>"

definition policer_between :: "policer_stats \<Rightarrow> policer_stats \<Rightarrow> policer_stats" where
  "policer_between prev v =
     \<lparr>ps_passed_bytes = sat_sub (ps_passed_bytes v) (ps_passed_bytes prev),
      ps_passed_packets = sat_sub (ps_passed_packets v) (ps_passed_packets prev),
      ps_dropped_bytes = sat_sub (ps_dropped_bytes v) (ps_dropped_bytes prev),
      ps_dropped_packets = sat_sub (ps_dropped_packets v) (ps_dropped_packets prev)\<rparr>"

definition add_policer_key ::
  "f64 \<Rightarrow> bool \<Rightarrow> (limit_key \<rightharpoonup> policer_stats) \<Rightarrow> (limit_key \<rightharpoonup> policer_stats) \<Rightarrow> limit_key
     \<Rightarrow> (u32 \<rightharpoonup> ip_stats) \<Rightarrow> (u32 \<rightharpoonup> ip_stats)" where
  "add_policer_key elapsed_secs primed prev cur k totals =
     (case (cur k, base_sample primed policer_stats_default prev k) of
        (Some v, Some p) \<Rightarrow>
          let d = policer_between p v in
          if or (or (or (ps_passed_bytes d) (ps_passed_packets d)) (ps_dropped_bytes d)) (ps_dropped_packets d) = 0
          then totals
          else
            let s = lookup_or ip_stats_default totals (lk_ipv4 k)
            in totals(lk_ipv4 k \<mapsto>
                 if lk_direction k = DIR_TX then s\<lparr>is_tx := add_verdicts elapsed_secs d (is_tx s)\<rparr>
                 else s\<lparr>is_rx := add_verdicts elapsed_secs d (is_rx s)\<rparr>)
      | _ \<Rightarrow> totals)"

subsection \<open>Ranges\<close>

definition add_dir_to_range :: "dir_stats \<Rightarrow> range_dir \<Rightarrow> range_dir" where
  "add_dir_to_range s r =
     \<lparr>rd_bps = f64_add (rd_bps r) (sd_bps s), rd_bytes = rd_bytes r + sd_bytes s,
      rd_packets = rd_packets r + sd_packets s,
      rd_dropped_bps = f64_add (rd_dropped_bps r) (sd_dropped_bps s),
      rd_dropped_bytes = rd_dropped_bytes r + sd_dropped_bytes s,
      rd_dropped_packets = rd_dropped_packets r + sd_dropped_packets s\<rparr>"

definition add_to_range :: "u32 \<Rightarrow> ip_stats \<Rightarrow> range_stats \<Rightarrow> range_stats" where
  "add_to_range ip s r =
     r\<lparr>rg_rx := add_dir_to_range (is_rx s) (rg_rx r), rg_tx := add_dir_to_range (is_tx s) (rg_tx r),
       rg_ips := rg_ips r @ [(ip, s)]\<rparr>"

definition empty_range :: "ip_range \<Rightarrow> range_stats" where
  "empty_range r = \<lparr>rg_name = ir_name r, rg_range = show_range r, rg_rx = range_dir_default,
     rg_tx = range_dir_default, rg_ips = []\<rparr>"

definition range_position :: "ip_range list \<Rightarrow> u32 \<Rightarrow> nat option" where
  "range_position ranges ip =
     find (\<lambda>i. range_contains (ranges ! i) ip) [0 ..< length ranges]"

definition add_ip_to_ranges ::
  "ip_range list \<Rightarrow> (u32 \<rightharpoonup> ip_stats) \<Rightarrow> u32 \<Rightarrow> range_stats list \<Rightarrow> range_stats list" where
  "add_ip_to_ranges ranges totals ip snap =
     (case totals ip of
        None \<Rightarrow> snap
      | Some s \<Rightarrow>
          (case range_position ranges ip of
             None \<Rightarrow> snap
           | Some i \<Rightarrow> snap[i := add_to_range ip s (snap ! i)]))"

definition add_idle_ips :: "(u32 \<rightharpoonup> ip_stats) \<Rightarrow> range_stats \<times> ip_range \<Rightarrow> range_stats" where
  "add_idle_ips totals rr =
     (let (rs, r) = rr in
      if IDLE_ENUM_CAP < range_len r then rs
      else rs\<lparr>rg_ips := rg_ips rs @ concat (map (\<lambda>n. let ip = word_of_nat n in
             if totals ip = None then [(ip, ip_stats_default)] else [])
           [unat (ir_start r) ..< Suc (unat (ir_end r))])\<rparr>)"

definition ip_totals_of :: "ip_stats \<Rightarrow> ip_totals" where
  "ip_totals_of s = \<lparr>it_rx_bytes = sd_bytes (is_rx s), it_tx_bytes = sd_bytes (is_tx s),
     it_rx_packets = sd_packets (is_rx s), it_tx_packets = sd_packets (is_tx s)\<rparr>"

definition policer_dir_of :: "dir_stats \<Rightarrow> policer_dir_totals" where
  "policer_dir_of s = \<lparr>pd_passed_bytes = sd_passed_bytes s, pd_passed_packets = sd_passed_packets s,
     pd_dropped_bytes = sd_dropped_bytes s, pd_dropped_packets = sd_dropped_packets s\<rparr>"

definition policer_totals_of :: "ip_stats \<Rightarrow> policer_ip_totals option" where
  "policer_totals_of s =
     (if or (or (or (sd_passed_bytes (is_rx s)) (sd_passed_bytes (is_tx s))) (sd_dropped_bytes (is_rx s)))
           (sd_dropped_bytes (is_tx s)) \<noteq> 0
      then Some \<lparr>pt_rx = policer_dir_of (is_rx s), pt_tx = policer_dir_of (is_tx s)\<rparr> else None)"

subsection \<open>A poll\<close>

definition prune_ips :: "ip_range list \<Rightarrow> collector \<Rightarrow> collector" where
  "prune_ips ranges co =
     co\<lparr>co_totals := retain (\<lambda>ip _. list_ex (\<lambda>r. range_contains r ip) ranges) (co_totals co)\<rparr>"

text \<open>The IPv4 half: idle keys, deltas and the totals they leave.\<close>

definition poll_v4 :: "orders \<Rightarrow> poll_inputs \<Rightarrow> f64 \<Rightarrow> bool \<Rightarrow> collector
    \<Rightarrow> (u32 \<rightharpoonup> ip_stats) \<times> (traffic_key \<rightharpoonup> u32) \<times> traffic_key list" where
  "poll_v4 ord inp elapsed_secs primed co =
     (let cur = pi_cur inp;
          deltas = (if 0 < elapsed_secs
                    then fold (add_key_delta primed (co_prev co) cur) (or_cur ord) Map.empty
                    else Map.empty);
          (idle4, stale) = observe (or_cur ord) (changed_since (co_prev co) cur) (co_idle4 co);
          totals = (if pi_incomplete inp then co_totals co
                    else retain (\<lambda>ip _. \<exists>k \<in> set (or_cur ord). tk_ipv4 k = ip) (co_totals co));
          totals = (\<lambda>ip. map_option zero_rates (totals ip));
          totals = apply_deltas elapsed_secs deltas totals;
          totals = (if 0 < elapsed_secs
                    then fold (add_policer_key elapsed_secs primed (co_prev_policer co) (pi_cur_policer inp))
                           (or_policer ord) totals
                    else totals)
      in (totals, idle4, stale))"

definition poll_v6 :: "orders \<Rightarrow> poll_inputs \<Rightarrow> f64 \<Rightarrow> bool \<Rightarrow> collector
    \<Rightarrow> ip_stats \<times> (u32 \<rightharpoonup> u32) \<times> u32 list" where
  "poll_v6 ord inp elapsed_secs primed co =
     (let cur6 = pi_cur6 inp;
          d6 = (if 0 < elapsed_secs
                then fold (add_delta6 primed (co_prev6 co) cur6) (or_cur6 ord) delta_default
                else delta_default);
          (idle6, stale6) = observe (or_cur6 ord) (changed_since (co_prev6 co) cur6) (co_idle6 co)
      in (apply_delta elapsed_secs d6 (co_ipv6 co), idle6, stale6))"

definition snapshot_of :: "orders \<Rightarrow> ip_range list \<Rightarrow> bool \<Rightarrow> (u32 \<rightharpoonup> ip_stats) \<Rightarrow> range_stats list" where
  "snapshot_of ord ranges show_idle_ips totals =
     (let snap = fold (add_ip_to_ranges ranges totals) (or_totals ord totals) (map empty_range ranges)
      in if show_idle_ips then map (add_idle_ips totals) (zip snap ranges) else snap)"

definition apply_poll ::
  "orders \<Rightarrow> poll_inputs \<Rightarrow> f64 \<Rightarrow> ip_range list \<Rightarrow> bool \<Rightarrow> collector \<Rightarrow> poll_result \<times> collector" where
  "apply_poll ord inp elapsed_secs ranges show_idle_ips co =
     (let primed = co_primed co;
          (totals, idle4, stale) = poll_v4 ord inp elapsed_secs primed co;
          (ipv6, idle6, stale6) = poll_v6 ord inp elapsed_secs primed co;
          co = co\<lparr>co_primed := True, co_totals := totals, co_idle4 := idle4, co_idle6 := idle6,
                  co_ipv6 := ipv6,
                  co_prev := carry_forward (pi_cur inp) (co_prev co) (pi_incomplete inp),
                  co_prev6 := carry_forward (pi_cur6 inp) (co_prev6 co) (pi_incomplete inp),
                  co_prev_policer :=
                    carry_forward (pi_cur_policer inp) (co_prev_policer co) (pi_incomplete inp)\<rparr>
      in (\<lparr>pr_snapshot = snapshot_of ord ranges show_idle_ips totals,
           pr_totals = (\<lambda>ip. map_option ip_totals_of (totals ip)),
           pr_ipv6 = ipv6,
           pr_policer = (\<lambda>ip. Option.bind (totals ip) policer_totals_of),
           pr_stale_traffic = stale, pr_stale_traffic6 = stale6\<rparr>, co))"

subsection \<open>Reading the maps\<close>

text \<open>An iteration over a per-CPU map yields errors and entries with one value for every CPU.\<close>

definition sum_traffic :: "traffic_value list \<Rightarrow> traffic_value" where
  "sum_traffic vs = fold (\<lambda>v acc.
     \<lparr>tv_rx_bytes = tv_rx_bytes acc + tv_rx_bytes v, tv_tx_bytes = tv_tx_bytes acc + tv_tx_bytes v,
      tv_rx_packets = tv_rx_packets acc + tv_rx_packets v,
      tv_tx_packets = tv_tx_packets acc + tv_tx_packets v\<rparr>) vs traffic_value_default"

definition sum_policer :: "policer_stats list \<Rightarrow> policer_stats" where
  "sum_policer vs = fold (\<lambda>v acc.
     \<lparr>ps_passed_bytes = ps_passed_bytes acc + ps_passed_bytes v,
      ps_passed_packets = ps_passed_packets acc + ps_passed_packets v,
      ps_dropped_bytes = ps_dropped_bytes acc + ps_dropped_bytes v,
      ps_dropped_packets = ps_dropped_packets acc + ps_dropped_packets v\<rparr>) vs policer_stats_default"

definition read_map :: "('v list \<Rightarrow> 'v) \<Rightarrow> ('e + 'k \<times> 'v list) list \<Rightarrow> ('k \<rightharpoonup> 'v) \<times> bool" where
  "read_map sum_of items =
     fold (\<lambda>item (m, bad). case item of Inl _ \<Rightarrow> (m, True) | Inr (k, vs) \<Rightarrow> (m(k \<mapsto> sum_of vs), bad))
       items (Map.empty, False)"

definition secs_f64 :: "nat \<Rightarrow> f64" where
  "secs_f64 ns = f64_add (f64_of_nat (ns div 1000000000))
     (f64_div (f64_of_nat (ns mod 1000000000)) (f64_of_nat 1000000000))"

definition poll ::
  "orders \<Rightarrow> nat \<Rightarrow> ('e + traffic_key \<times> traffic_value list) list \<Rightarrow> ('e + u32 \<times> traffic_value list) list
     \<Rightarrow> ('e + limit_key \<times> policer_stats list) list \<Rightarrow> ip_range list \<Rightarrow> bool \<Rightarrow> collector
     \<Rightarrow> poll_result \<times> collector" where
  "poll ord now traffic traffic6 verdict_counts ranges show_idle_ips co =
     (let elapsed_secs = (case co_last_poll co of
            None \<Rightarrow> 0 | Some t \<Rightarrow> max (secs_f64 (now - t)) (f64_round (1 / 1000)));
          co = co\<lparr>co_last_poll := Some now\<rparr>;
          (cur, bad) = read_map sum_traffic traffic;
          (cur6, bad6) = read_map sum_traffic traffic6;
          (cur_policer, bad_policer) = read_map sum_policer verdict_counts
      in apply_poll ord
           \<lparr>pi_cur = cur, pi_cur6 = cur6, pi_cur_policer = cur_policer,
            pi_incomplete = (bad \<or> bad6 \<or> bad_policer)\<rparr>
           elapsed_secs ranges show_idle_ips co)"

end
