(* ===== verification/Collector_Counts.thy ===== *)
theory Collector_Counts
  imports Collector
begin

section \<open>Collector\_Counts: every byte is counted once\<close>

text \<open>
  Totals against kernel counters. The four cumulative counters of an address (bytes and
  packets, received and sent) are treated alike: the locale \<open>counter_field\<close> says how such a
  counter reads in a traffic value, in a delta and in the statistics of an address, and its
  lemmas follow it through a poll and through a sequence of polls.
\<close>

subsection \<open>Runs\<close>

text \<open>
  A sequence of polls. Between two of them the counters of an address are undisturbed when none of
  its keys is removed or lowered: keys appear with counters from zero, and counters grow.
\<close>

type_synonym poll_step = "orders \<times> poll_inputs \<times> f64 \<times> ip_range list \<times> bool"

definition poll_step :: "poll_step \<Rightarrow> collector \<Rightarrow> collector" where
  "poll_step st co = (case st of (ord, inp, t, ranges, idle) \<Rightarrow> snd (apply_poll ord inp t ranges idle co))"

definition value_le :: "traffic_value \<Rightarrow> traffic_value \<Rightarrow> bool" where
  "value_le v v' \<longleftrightarrow> tv_rx_bytes v \<le> tv_rx_bytes v' \<and> tv_tx_bytes v \<le> tv_tx_bytes v'
     \<and> tv_rx_packets v \<le> tv_rx_packets v' \<and> tv_tx_packets v \<le> tv_tx_packets v'"

definition growing :: "u32 \<Rightarrow> (traffic_key \<rightharpoonup> traffic_value) \<Rightarrow> (traffic_key \<rightharpoonup> traffic_value) \<Rightarrow> bool" where
  "growing ip cur cur' \<longleftrightarrow>
     (\<forall>k v. tk_ipv4 k = ip \<longrightarrow> cur k = Some v \<longrightarrow> (case cur' k of None \<Rightarrow> False | Some v' \<Rightarrow> value_le v v'))"

definition read_ok :: "poll_step \<Rightarrow> bool" where
  "read_ok st \<longleftrightarrow> (case st of (ord, inp, t, ranges, idle) \<Rightarrow>
     enumerates (or_cur ord) (pi_cur inp) \<and> \<not> pi_incomplete inp)"

definition counters_of :: "poll_step \<Rightarrow> traffic_key \<rightharpoonup> traffic_value" where
  "counters_of st = (case st of (ord, inp, t, ranges, idle) \<Rightarrow> pi_cur inp)"

definition duration_of :: "poll_step \<Rightarrow> f64" where
  "duration_of st = (case st of (ord, inp, t, ranges, idle) \<Rightarrow> t)"

fun undisturbed :: "u32 \<Rightarrow> (traffic_key \<rightharpoonup> traffic_value) \<Rightarrow> (traffic_key \<rightharpoonup> traffic_value) list \<Rightarrow> bool" where
  "undisturbed ip cur [] = True"
| "undisturbed ip cur (cur' # curs) \<longleftrightarrow> growing ip cur cur' \<and> undisturbed ip cur' curs"

text \<open>What one poll adds for a key: all of a key the poll before did not have, the growth of one it
  had, nothing for one whose counter is lower. And what a sequence of polls adds up for an address:
  the total starts again at zero when a poll finds no key of the address.\<close>

definition key_growth :: "(traffic_value \<Rightarrow> u64) \<Rightarrow> (traffic_key \<rightharpoonup> traffic_value) \<Rightarrow> (traffic_key \<rightharpoonup> traffic_value)
    \<Rightarrow> traffic_key \<Rightarrow> u64" where
  "key_growth f prev cur k =
     sat_sub (f (lookup_or traffic_value_default cur k)) (f (lookup_or traffic_value_default prev k))"

fun summed :: "(traffic_value \<Rightarrow> u64) \<Rightarrow> u32 \<Rightarrow> u64 \<Rightarrow> (traffic_key \<rightharpoonup> traffic_value)
    \<Rightarrow> (traffic_key \<rightharpoonup> traffic_value) list \<Rightarrow> u64" where
  "summed f ip n prev [] = n"
| "summed f ip n prev (cur # curs) =
     summed f ip ((if \<exists>k \<in> dom cur. tk_ipv4 k = ip then n else 0)
       + (\<Sum>k \<in> {k \<in> dom cur. tk_ipv4 k = ip}. key_growth f prev cur k)) cur curs"

text \<open>What the keys of an address have counted from one reading of the counters to another.\<close>

definition grown :: "(traffic_value \<Rightarrow> u64) \<Rightarrow> (traffic_key \<rightharpoonup> traffic_value) \<Rightarrow> (traffic_key \<rightharpoonup> traffic_value)
    \<Rightarrow> u32 \<Rightarrow> u64" where
  "grown f first cur ip = (\<Sum>k \<in> {k \<in> dom cur. tk_ipv4 k = ip}.
     f (lookup_or traffic_value_default cur k) - f (lookup_or traffic_value_default first k))"

subsection \<open>A counter\<close>

locale counter_field =
  fixes of_value :: "traffic_value \<Rightarrow> u64"
    and of_delta :: "delta \<Rightarrow> u64"
    and of_stats :: "ip_stats \<Rightarrow> u64"
  assumes delta_zero: "of_delta delta_default = 0"
    and value_zero: "of_value traffic_value_default = 0"
    and delta_sum: "of_delta (delta_add d e) = of_delta d + of_delta e"
    and between: "of_delta (delta_between v v') = sat_sub (of_value v') (of_value v)"
    and zero_delta: "delta_is_zero d \<Longrightarrow> of_delta d = 0"
    and applied: "of_stats (apply_delta t d s) = of_stats s + of_delta d"
    and rates: "of_stats (zero_rates s) = of_stats s"
    and stats_zero: "of_stats ip_stats_default = 0"
    and mono: "value_le v v' \<Longrightarrow> of_value v \<le> of_value v'"
    and verdicts: "of_stats (s\<lparr>is_tx := add_verdicts t q (is_tx s)\<rparr>) = of_stats s"
      "of_stats (s\<lparr>is_rx := add_verdicts t q (is_rx s)\<rparr>) = of_stats s"
begin

definition counted :: "(u32 \<rightharpoonup> ip_stats) \<Rightarrow> u32 \<Rightarrow> u64" where
  "counted totals ip = of_stats (lookup_or ip_stats_default totals ip)"

definition increment :: "bool \<Rightarrow> (traffic_key \<rightharpoonup> traffic_value) \<Rightarrow> (traffic_key \<rightharpoonup> traffic_value) \<Rightarrow> traffic_key \<Rightarrow> u64" where
  "increment primed prev cur k =
     (case (cur k, base_sample primed traffic_value_default prev k) of
        (Some v, Some p) \<Rightarrow> sat_sub (of_value v) (of_value p) | _ \<Rightarrow> 0)"

lemma key_delta_increment:
  "increment primed prev cur k = (case key_delta primed prev cur k of None \<Rightarrow> 0 | Some d \<Rightarrow> of_delta d)"
proof (cases "(cur k, base_sample primed traffic_value_default prev k)")
  case (Pair a b)
  then show ?thesis
    using zero_delta [of "delta_between (the b) (the a)"]
    by (cases a; cases b) (auto simp: increment_def key_delta_def Let_def between)
qed

lemma add_key_deltas:
  "of_delta (lookup_or delta_default (fold (add_key_delta primed prev cur) ks deltas) ip)
   = of_delta (lookup_or delta_default deltas ip)
     + sum_list (map (increment primed prev cur) (filter (\<lambda>k. tk_ipv4 k = ip) ks))"
proof (induction ks arbitrary: deltas)
  case (Cons k ks)
  have "of_delta (lookup_or delta_default (add_key_delta primed prev cur k deltas) ip)
      = of_delta (lookup_or delta_default deltas ip)
        + (if tk_ipv4 k = ip then increment primed prev cur k else 0)"
    by (auto simp: add_key_delta_def key_delta_increment delta_sum lookup_or_def split: option.split)
  then show ?case using Cons.IH by (simp add: algebra_simps)
qed simp

lemma add_policer_counted: "counted (add_policer_key t primed prev cur k totals) ip = counted totals ip"
  by (auto simp: add_policer_key_def counted_def lookup_or_def Let_def verdicts stats_zero
      split: option.split prod.split)

lemma add_policers_counted: "counted (fold (add_policer_key t primed prev cur) ks totals) ip = counted totals ip"
  by (induction ks arbitrary: totals) (simp_all add: add_policer_counted)

lemma apply_deltas_counted:
  "counted (apply_deltas t deltas totals) ip = counted totals ip + of_delta (lookup_or delta_default deltas ip)"
  by (auto simp: counted_def apply_deltas_def applied delta_zero lookup_or_def split: option.split)

text \<open>One poll: the counter of an address grows by the increments of its keys.\<close>

lemma poll_counted:
  assumes "poll_v4 ord inp t primed co = (totals, idle4, stale)" "0 < t"
  shows "counted totals ip =
     (if pi_incomplete inp \<or> (\<exists>k \<in> set (or_cur ord). tk_ipv4 k = ip) then counted (co_totals co) ip else 0)
     + sum_list (map (increment primed (co_prev co) (pi_cur inp)) (filter (\<lambda>k. tk_ipv4 k = ip) (or_cur ord)))"
proof -
  let ?base = "if pi_incomplete inp then co_totals co
    else retain (\<lambda>ip _. \<exists>k \<in> set (or_cur ord). tk_ipv4 k = ip) (co_totals co)"
  have base: "counted (\<lambda>ip. map_option zero_rates (?base ip)) ip =
      (if pi_incomplete inp \<or> (\<exists>k \<in> set (or_cur ord). tk_ipv4 k = ip) then counted (co_totals co) ip else 0)"
    by (auto simp: counted_def lookup_or_def retain_def rates stats_zero split: option.split)
  have "of_delta (lookup_or delta_default (fold (add_key_delta primed (co_prev co) (pi_cur inp)) (or_cur ord) Map.empty) ip)
      = sum_list (map (increment primed (co_prev co) (pi_cur inp)) (filter (\<lambda>k. tk_ipv4 k = ip) (or_cur ord)))"
    by (simp add: add_key_deltas delta_zero)
  moreover have "totals = fold (add_policer_key t primed (co_prev_policer co) (pi_cur_policer inp)) (or_policer ord)
      (apply_deltas t (fold (add_key_delta primed (co_prev co) (pi_cur inp)) (or_cur ord) Map.empty)
        (\<lambda>ip. map_option zero_rates (?base ip)))"
    using assms by (simp add: poll_v4_def Let_def split: prod.splits)
  ultimately show ?thesis by (simp only: add_policers_counted apply_deltas_counted base)
qed

lemma sat_sub_le: "b \<le> a \<Longrightarrow> sat_sub a b = a - b" for a b :: u64
  by (simp add: sat_sub_def word_le_nat_alt word_less_nat_alt)

text \<open>A run: every poll adds the growth of the keys.\<close>

lemma poll_step_counted:
  assumes "co_primed co" "read_ok st" "0 < duration_of st"
  shows "counted (co_totals (poll_step st co)) ip =
      (if \<exists>k \<in> dom (counters_of st). tk_ipv4 k = ip then counted (co_totals co) ip else 0)
      + (\<Sum>k \<in> {k \<in> dom (counters_of st). tk_ipv4 k = ip}. key_growth of_value (co_prev co) (counters_of st) k)"
    and "co_prev (poll_step st co) = counters_of st" "co_primed (poll_step st co)"
proof -
  obtain ord inp t ranges idle where st: "st = (ord, inp, t, ranges, idle)" by (metis prod_cases5)
  have read: "distinct (or_cur ord)" "set (or_cur ord) = dom (pi_cur inp)" "\<not> pi_incomplete inp" "0 < t"
    using assms(2,3) by (simp_all add: st read_ok_def enumerates_def duration_of_def)
  obtain totals idle4 stale where p: "poll_v4 ord inp t True co = (totals, idle4, stale)" by (metis prod_cases3)
  obtain ipv6 idle6 stale6 where p6: "poll_v6 ord inp t True co = (ipv6, idle6, stale6)" by (metis prod_cases3)
  have step: "co_totals (poll_step st co) = totals" "co_prev (poll_step st co) = pi_cur inp" "co_primed (poll_step st co)"
    using p p6 assms(1) read(3) by (simp_all add: st poll_step_def apply_poll_def Let_def carry_forward_def)
  have cur: "counters_of st = pi_cur inp" by (simp add: st counters_of_def)
  have inc: "increment True (co_prev co) (pi_cur inp) k = key_growth of_value (co_prev co) (pi_cur inp) k"
    if k: "k \<in> dom (pi_cur inp)" for k
  proof -
    obtain v where "pi_cur inp k = Some v" using k by auto
    then show ?thesis by (cases "co_prev co k") (simp_all add: increment_def key_growth_def base_sample_def value_zero)
  qed
  have "set (filter (\<lambda>k. tk_ipv4 k = ip) (or_cur ord)) = {k \<in> dom (pi_cur inp). tk_ipv4 k = ip}" using read(2) by auto
  then have "sum_list (map (increment True (co_prev co) (pi_cur inp)) (filter (\<lambda>k. tk_ipv4 k = ip) (or_cur ord)))
      = (\<Sum>k \<in> {k \<in> dom (pi_cur inp). tk_ipv4 k = ip}. key_growth of_value (co_prev co) (pi_cur inp) k)"
    using read(1) inc by (subst sum_list_distinct_conv_sum_set) (auto intro!: sum.cong)
  then show "counted (co_totals (poll_step st co)) ip =
      (if \<exists>k \<in> dom (counters_of st). tk_ipv4 k = ip then counted (co_totals co) ip else 0)
      + (\<Sum>k \<in> {k \<in> dom (counters_of st). tk_ipv4 k = ip}. key_growth of_value (co_prev co) (counters_of st) k)"
    using poll_counted [OF p read(4), of ip] read(2,3) unfolding cur step(1) by simp
  show "co_prev (poll_step st co) = counters_of st" "co_primed (poll_step st co)"
    using step(2,3) by (simp_all add: st counters_of_def)
qed

lemma run_counted:
  assumes "co_primed co" "\<forall>st \<in> set sts. read_ok st \<and> 0 < duration_of st"
  shows "counted (co_totals (fold poll_step sts co)) ip
    = summed of_value ip (counted (co_totals co) ip) (co_prev co) (map counters_of sts)"
  using assms
proof (induction sts arbitrary: co)
  case (Cons st sts)
  then have st: "read_ok st" "0 < duration_of st" by simp_all
  note step = poll_step_counted [OF Cons.prems(1) st]
  from Cons.IH [OF step(3)] Cons.prems(2) show ?case by (simp only: fold_simps list.map summed.simps step(1,2)) simp
qed simp

lemma first_poll_counted:
  assumes "read_ok st" "duration_of st = 0"
  shows "counted (co_totals (poll_step st collector_new)) ip = 0" "co_prev (poll_step st collector_new) = counters_of st"
    "co_primed (poll_step st collector_new)" "finite (dom (counters_of st))"
proof -
  obtain ord inp t ranges idle where st: "st = (ord, inp, t, ranges, idle)" by (metis prod_cases5)
  have "set (or_cur ord) = dom (pi_cur inp)" using assms(1) by (simp add: st read_ok_def enumerates_def)
  then show "finite (dom (counters_of st))" by (simp add: st counters_of_def) (metis finite_set)
  obtain totals idle4 stale where p: "poll_v4 ord inp t False collector_new = (totals, idle4, stale)"
    by (metis prod_cases3)
  moreover from p assms have "totals = Map.empty"
    by (auto simp: st poll_v4_def collector_new_def duration_of_def read_ok_def Let_def apply_deltas_def retain_def
        fun_eq_iff split: prod.splits)
  moreover obtain ipv6 idle6 stale6 where "poll_v6 ord inp t False collector_new = (ipv6, idle6, stale6)"
    by (metis prod_cases3)
  ultimately show "counted (co_totals (poll_step st collector_new)) ip = 0"
    "co_prev (poll_step st collector_new) = counters_of st" "co_primed (poll_step st collector_new)"
    using assms(1)
    by (auto simp: st poll_step_def apply_poll_def collector_new_def counters_of_def read_ok_def
        Let_def carry_forward_def counted_def stats_zero)
qed

text \<open>Undisturbed counters: the growths telescope.\<close>

lemma grown_step:
  assumes "growing ip cur cur'" "finite (dom cur')" "{k \<in> dom cur0. tk_ipv4 k = ip} \<subseteq> {k \<in> dom cur. tk_ipv4 k = ip}"
  shows "(if \<exists>k \<in> dom cur'. tk_ipv4 k = ip then grown of_value cur0 cur ip else 0)
      + (\<Sum>k \<in> {k \<in> dom cur'. tk_ipv4 k = ip}. key_growth of_value cur cur' k) = grown of_value cur0 cur' ip"
    and "{k \<in> dom cur. tk_ipv4 k = ip} \<subseteq> {k \<in> dom cur'. tk_ipv4 k = ip}"
proof -
  let ?K = "{k \<in> dom cur. tk_ipv4 k = ip}" and ?K' = "{k \<in> dom cur'. tk_ipv4 k = ip}"
  let ?v = "\<lambda>m k. of_value (lookup_or traffic_value_default m k)"
  show sub: "?K \<subseteq> ?K'" using assms(1) by (auto simp: growing_def split: option.splits)
  have le: "?v cur k \<le> ?v cur' k" if "k \<in> ?K'" for k
  proof (cases "cur k")
    case (Some v)
    then show ?thesis using assms(1) that mono by (auto simp: growing_def split: option.splits)
  qed (simp add: value_zero)
  have old: "(\<Sum>k \<in> ?K'. ?v cur k - ?v cur0 k) = grown of_value cur0 cur ip"
    unfolding grown_def
  proof (rule sum.mono_neutral_right)
    show "\<forall>k \<in> ?K' - ?K. ?v cur k - ?v cur0 k = 0"
    proof
      fix k assume "k \<in> ?K' - ?K"
      then have "cur k = None" "cur0 k = None" using assms(3) by auto
      then show "?v cur k - ?v cur0 k = 0" by simp
    qed
  qed (use assms(2) sub in auto)
  have keep: "(if \<exists>k \<in> dom cur'. tk_ipv4 k = ip then grown of_value cur0 cur ip else 0) = grown of_value cur0 cur ip"
  proof (cases "?K' = {}")
    case True
    then have "?K = {}" using sub by blast
    then show ?thesis by (simp add: grown_def del: Collect_empty_eq)
  qed auto
  have "(\<Sum>k \<in> ?K'. key_growth of_value cur cur' k) = (\<Sum>k \<in> ?K'. ?v cur' k - ?v cur k)"
    using le by (intro sum.cong) (simp_all add: key_growth_def sat_sub_le)
  then have "grown of_value cur0 cur ip + (\<Sum>k \<in> ?K'. key_growth of_value cur cur' k) = (\<Sum>k \<in> ?K'. ?v cur' k - ?v cur0 k)"
    by (simp add: old [symmetric] sum.distrib [symmetric] del: sum_subtractf)
  then show "(if \<exists>k \<in> dom cur'. tk_ipv4 k = ip then grown of_value cur0 cur ip else 0)
      + (\<Sum>k \<in> ?K'. key_growth of_value cur cur' k) = grown of_value cur0 cur' ip"
    unfolding keep by (simp add: grown_def)
qed

lemma summed_grown:
  assumes "undisturbed ip cur curs" "\<forall>m \<in> set curs. finite (dom m)"
    and "{k \<in> dom cur0. tk_ipv4 k = ip} \<subseteq> {k \<in> dom cur. tk_ipv4 k = ip}"
  shows "summed of_value ip (grown of_value cur0 cur ip) cur curs = grown of_value cur0 (last (cur # curs)) ip"
  using assms
proof (induction curs arbitrary: cur)
  case (Cons cur' curs)
  then have c: "growing ip cur cur'" "finite (dom cur')" by simp_all
  note step = grown_step [OF c Cons.prems(3)]
  have "{k \<in> dom cur0. tk_ipv4 k = ip} \<subseteq> {k \<in> dom cur'. tk_ipv4 k = ip}" using Cons.prems(3) step(2) by (rule order.trans)
  then show ?case using Cons.IH [of cur'] Cons.prems(1,2) by (simp only: summed.simps step(1)) simp
qed simp

lemma read_finite: "read_ok st \<Longrightarrow> finite (dom (counters_of st))"
  by (cases st) (auto simp: read_ok_def counters_of_def enumerates_def dest: arg_cong [where f = finite])

lemma counted_once:
  assumes "read_ok st" "duration_of st = 0" "\<forall>st \<in> set sts. read_ok st \<and> 0 < duration_of st"
  shows "counted (co_totals (fold poll_step (st # sts) collector_new)) ip
      = summed of_value ip 0 (counters_of st) (map counters_of sts)"
    and "undisturbed ip (counters_of st) (map counters_of sts) \<Longrightarrow>
      counted (co_totals (fold poll_step (st # sts) collector_new)) ip
      = grown of_value (counters_of st) (last (map counters_of (st # sts))) ip"
proof -
  note first = first_poll_counted [OF assms(1,2)]
  show all: "counted (co_totals (fold poll_step (st # sts) collector_new)) ip
      = summed of_value ip 0 (counters_of st) (map counters_of sts)"
    using run_counted [OF first(3) assms(3), of ip] by (simp add: first(1,2))
  have "grown of_value (counters_of st) (counters_of st) ip = 0" by (simp add: grown_def)
  moreover have "\<forall>m \<in> set (map counters_of sts). finite (dom m)" using assms(3) read_finite by auto
  ultimately show "counted (co_totals (fold poll_step (st # sts) collector_new)) ip
      = grown of_value (counters_of st) (last (map counters_of (st # sts))) ip"
    if "undisturbed ip (counters_of st) (map counters_of sts)"
    using summed_grown [OF that, of "counters_of st"] by (simp only: all) simp
qed

end

lemmas counter_simps = delta_default_def traffic_value_default_def delta_add_def delta_between_def
  delta_is_zero_def or_eq_0_iff apply_delta_def set_rate_def add_counts_def zero_rates_def ip_stats_default_def
  dir_stats_default_def add_verdicts_def value_le_def

interpretation rx_bytes: counter_field tv_rx_bytes de_rx_bytes "\<lambda>s. sd_bytes (is_rx s)"
  by unfold_locales (auto simp: counter_simps)

interpretation tx_bytes: counter_field tv_tx_bytes de_tx_bytes "\<lambda>s. sd_bytes (is_tx s)"
  by unfold_locales (auto simp: counter_simps)

interpretation rx_packets: counter_field tv_rx_packets de_rx_packets "\<lambda>s. sd_packets (is_rx s)"
  by unfold_locales (auto simp: counter_simps)

interpretation tx_packets: counter_field tv_tx_packets de_tx_packets "\<lambda>s. sd_packets (is_tx s)"
  by unfold_locales (auto simp: counter_simps)

subsection \<open>Every byte and packet is counted once\<close>

text \<open>C27: What the cumulative counters of an address add up. Take a collector that starts on a running
  data path and then makes any number of complete polls, whatever the poll intervals, the orders in
  which the hash maps are visited, the policer counters read beside them and the configured ranges,
  and whatever entries the kernel or the daemon adds, removes or resets in between. Then each of the
  four counters of every address is the sum, over the polls since the last one that found no key of
  the address, of what each of its (interface, address) keys has grown since the poll before: all of a
  new key, nothing of one that is lower than it was. So while no key of the address is removed or
  lowered (no idle entry is evicted, no TAP is rebuilt), every byte and packet since the first
  poll is counted exactly once. Sums wrap at 64 bits as in the program.\<close>

theorem traffic_counted_once:
  assumes "read_ok st" "duration_of st = 0" "\<forall>st \<in> set sts. read_ok st \<and> 0 < duration_of st"
  shows "let stats = lookup_or ip_stats_default (co_totals (fold poll_step (st # sts) collector_new)) ip;
      tally = (\<lambda>f. summed f ip 0 (counters_of st) (map counters_of sts));
      since = (\<lambda>f. grown f (counters_of st) (last (map counters_of (st # sts))) ip)
    in sd_bytes (is_rx stats) = tally tv_rx_bytes \<and> sd_packets (is_rx stats) = tally tv_rx_packets
     \<and> sd_bytes (is_tx stats) = tally tv_tx_bytes \<and> sd_packets (is_tx stats) = tally tv_tx_packets
     \<and> (undisturbed ip (counters_of st) (map counters_of sts) \<longrightarrow>
          sd_bytes (is_rx stats) = since tv_rx_bytes \<and> sd_packets (is_rx stats) = since tv_rx_packets
        \<and> sd_bytes (is_tx stats) = since tv_tx_bytes \<and> sd_packets (is_tx stats) = since tv_tx_packets)"
  using rx_bytes.counted_once [OF assms] rx_packets.counted_once [OF assms]
    tx_bytes.counted_once [OF assms] tx_packets.counted_once [OF assms]
  by (simp add: rx_bytes.counted_def rx_packets.counted_def tx_bytes.counted_def tx_packets.counted_def Let_def)

text \<open>Two interfaces of one address: the second appears after the first poll.\<close>

definition sample_key :: "u32 \<Rightarrow> traffic_key" where
  "sample_key ifindex = \<lparr>tk_ifindex = ifindex, tk_ipv4 = 0x0A000001\<rparr>"

definition sample_value :: "u64 \<Rightarrow> traffic_value" where
  "sample_value n = \<lparr>tv_rx_bytes = 100 * n, tv_tx_bytes = 40 * n, tv_rx_packets = n, tv_tx_packets = n\<rparr>"

definition sample_poll :: "(traffic_key \<times> traffic_value) list \<Rightarrow> f64 \<Rightarrow> poll_step" where
  "sample_poll kvs t =
     (\<lparr>or_cur = map fst kvs, or_cur6 = [], or_policer = [], or_totals = (\<lambda>_. [])\<rparr>,
      \<lparr>pi_cur = map_of kvs, pi_cur6 = Map.empty, pi_cur_policer = Map.empty, pi_incomplete = False\<rparr>, t, [], False)"

lemma traffic_counted_once_witness:
  "let st = sample_poll [(sample_key 1, sample_value 7)] 0;
      st' = sample_poll [(sample_key 1, sample_value 10), (sample_key 2, sample_value 5)] 1;
      stats = lookup_or ip_stats_default (co_totals (fold poll_step [st, st'] collector_new)) 0x0A000001
    in sd_bytes (is_rx stats) = 800 \<and> sd_packets (is_tx stats) = 8"
proof -
  let ?st = "sample_poll [(sample_key 1, sample_value 7)] 0"
  let ?st' = "sample_poll [(sample_key 1, sample_value 10), (sample_key 2, sample_value 5)] 1"
  let ?since = "\<lambda>f. grown f (counters_of ?st) (last (map counters_of [?st, ?st'])) 0x0A000001"
  have ok: "read_ok ?st" "duration_of ?st = 0" "\<forall>st \<in> set [?st']. read_ok st \<and> 0 < duration_of st"
    and quiet: "undisturbed 0x0A000001 (counters_of ?st) (map counters_of [?st'])"
    by (auto simp: sample_poll_def sample_key_def sample_value_def read_ok_def duration_of_def counters_of_def
        growing_def value_le_def enumerates_def)
  let ?stats = "lookup_or ip_stats_default (co_totals (fold poll_step [?st, ?st'] collector_new)) 0x0A000001"
  have "sd_bytes (is_rx ?stats) = ?since tv_rx_bytes" "sd_packets (is_tx ?stats) = ?since tv_tx_packets"
    using traffic_counted_once [OF ok, of "0x0A000001", unfolded Let_def] quiet by blast+
  moreover have "{k \<in> dom (last (map counters_of [?st, ?st'])). tk_ipv4 k = 0x0A000001} = {sample_key 1, sample_key 2}"
    by (auto simp: counters_of_def sample_poll_def sample_key_def split: if_splits)
  then have "?since tv_rx_bytes = 800" "?since tv_tx_packets = 8"
    by (simp_all add: grown_def) (simp_all add: counters_of_def sample_poll_def sample_key_def
        sample_value_def lookup_or_def traffic_value_default_def)
  ultimately show ?thesis unfolding Let_def by simp
qed

end
