(* ===== verification/Tc.thy ===== *)
theory Tc
  imports Strings "HOL-Library.List_Lexorder" "HOL-Library.Char_ord"
begin

section \<open>Tc: attaching the classifiers to the TAPs\<close>

text \<open>
  \<open>vm-bandwidth/src/tc.rs\<close> and the data of \<open>interface.rs\<close>: the decision flow of one attach
  (\<open>attach_flow\<close> over the \<open>AttachBackend\<close> trait), the backend on aya's programs, the retry
  backoff and \<open>AttachManager::reconcile\<close>. The kernel and aya answer through a \<open>tc_world\<close>: the
  links that exist, and for each call whether it is refused. Times are nanoseconds of the
  monotonic clock, names are in the order a hash map yields them (an argument).
\<close>

subsection \<open>Interfaces and qdiscs\<close>

record tap =
  tap_name :: string
  tap_ifindex :: u32

datatype qdisc_origin = NotRequired | ReusedExisting | CreatedByUs

definition may_delete_qdisc :: "qdisc_origin \<Rightarrow> bool \<Rightarrow> bool" where
  "may_delete_qdisc origin emptiness_proven \<longleftrightarrow> origin = CreatedByUs \<and> emptiness_proven"

datatype attach_failure = QdiscMissing | OtherFailure

definition EINVAL :: int where "EINVAL = 22"
definition ENOENT :: int where "ENOENT = 2"
definition EEXIST :: int where "EEXIST = 17"

definition classify_netlink_errno :: "int option \<Rightarrow> attach_failure" where
  "classify_netlink_errno errno =
     (case errno of
        None \<Rightarrow> OtherFailure
      | Some n \<Rightarrow> if n = EINVAL \<or> n = ENOENT then QdiscMissing else OtherFailure)"

datatype program_error = Netlink "int option" | OtherProgramError string

definition classify_attach_failure :: "program_error \<Rightarrow> attach_failure" where
  "classify_attach_failure err =
     (case err of Netlink errno \<Rightarrow> classify_netlink_errno errno | OtherProgramError _ \<Rightarrow> OtherFailure)"

definition qdisc_already_present_errno :: "int option \<Rightarrow> bool" where
  "qdisc_already_present_errno errno \<longleftrightarrow> errno = Some EEXIST"

datatype qdisc_add_outcome = Created | AlreadyPresent

subsection \<open>The flow of one attach\<close>

record ('s, 'l) attach_backend =
  attach_ingress :: "string \<Rightarrow> 's \<Rightarrow> (attach_failure + 'l) \<times> 's"
  attach_egress :: "string \<Rightarrow> 's \<Rightarrow> (attach_failure + 'l) \<times> 's"
  detach_ingress :: "'l \<Rightarrow> 's \<Rightarrow> 's"
  add_clsact :: "string \<Rightarrow> 's \<Rightarrow> (string + qdisc_add_outcome) \<times> 's"

datatype attach_flow_error =
    IngressFailed string
  | QdiscAdd string
  | EgressFailed qdisc_origin bool string

definition failure_text :: "attach_failure \<Rightarrow> string" where
  "failure_text e = (case e of QdiscMissing \<Rightarrow> ''QdiscMissing'' | OtherFailure \<Rightarrow> ''Other'')"

definition ensure_clsact ::
  "('s, 'l) attach_backend \<Rightarrow> string \<Rightarrow> 's \<Rightarrow> (attach_flow_error + qdisc_origin) \<times> 's" where
  "ensure_clsact b tap s =
     (case add_clsact b tap s of
        (Inr Created, s) \<Rightarrow> (Inr CreatedByUs, s)
      | (Inr AlreadyPresent, s) \<Rightarrow> (Inr ReusedExisting, s)
      | (Inl e, s) \<Rightarrow> (Inl (QdiscAdd e), s))"

definition attach_ingress_flow ::
  "('s, 'l) attach_backend \<Rightarrow> string \<Rightarrow> 's \<Rightarrow> (attach_flow_error + 'l \<times> qdisc_origin) \<times> 's" where
  "attach_ingress_flow b tap s =
     (case attach_ingress b tap s of
        (Inr link, s) \<Rightarrow> (Inr (link, NotRequired), s)
      | (Inl QdiscMissing, s) \<Rightarrow>
          (case ensure_clsact b tap s of
             (Inl e, s) \<Rightarrow> (Inl e, s)
           | (Inr origin, s) \<Rightarrow>
               (case attach_ingress b tap s of
                  (Inr link, s) \<Rightarrow> (Inr (link, origin), s)
                | (Inl e, s) \<Rightarrow>
                    (Inl (IngressFailed (''still failing after clsact ensure: '' @ failure_text e)), s)))
      | (Inl OtherFailure, s) \<Rightarrow> (Inl (IngressFailed ''direct attach failed (not a missing qdisc)''), s))"

definition attach_flow ::
  "('s, 'l) attach_backend \<Rightarrow> string \<Rightarrow> 's \<Rightarrow> (attach_flow_error + 'l \<times> 'l \<times> qdisc_origin) \<times> 's" where
  "attach_flow b tap s =
     (case attach_ingress_flow b tap s of
        (Inl e, s) \<Rightarrow> (Inl e, s)
      | (Inr (ingress, origin), s) \<Rightarrow>
          (case attach_egress b tap s of
             (Inr egress, s) \<Rightarrow> (Inr (ingress, egress, origin), s)
           | (Inl e, s) \<Rightarrow>
               if e = QdiscMissing \<and> origin = NotRequired then
                 (case ensure_clsact b tap s of
                    (Inl e, s) \<Rightarrow> (Inl e, detach_ingress b ingress s)
                  | (Inr origin, s) \<Rightarrow>
                      (case attach_egress b tap s of
                         (Inr egress, s) \<Rightarrow> (Inr (ingress, egress, origin), s)
                       | (Inl e, s) \<Rightarrow>
                           (Inl (EgressFailed origin True (failure_text e)), detach_ingress b ingress s)))
               else (Inl (EgressFailed origin False (failure_text e)), detach_ingress b ingress s)))"

subsection \<open>The backend on aya\<close>

datatype hook = Ingress | Egress

text \<open>The links of the programs, the identifier of the next one, and for each call a possible
  refusal: of an attach, of a detach, of a qdisc; \<open>tw_leaked\<close> collects the links whose detach
  failed, because it was refused or because the program could not be looked up.\<close>

record tc_world =
  tw_links :: "(hook \<times> string \<times> nat) set"
  tw_next :: nat
  tw_calls :: nat
  tw_programs :: "hook \<Rightarrow> bool"
  tw_attach_refused :: "nat \<Rightarrow> program_error option"
  tw_detach_refused :: "nat \<Rightarrow> bool"
  tw_qdisc_refused :: "nat \<Rightarrow> program_error option"
  tw_leaked :: "(hook \<times> string \<times> nat) set"

definition prog_attach :: "hook \<Rightarrow> string \<Rightarrow> tc_world \<Rightarrow> (program_error + nat) \<times> tc_world" where
  "prog_attach hook tap w =
     (let n = tw_calls w; w = w\<lparr>tw_calls := Suc n\<rparr>
      in case tw_attach_refused w n of
           Some e \<Rightarrow> (Inl e, w)
         | None \<Rightarrow> (Inr (tw_next w),
             w\<lparr>tw_links := insert (hook, tap, tw_next w) (tw_links w), tw_next := Suc (tw_next w)\<rparr>))"

definition prog_detach :: "hook \<Rightarrow> nat \<Rightarrow> tc_world \<Rightarrow> tc_world" where
  "prog_detach hook link w =
     (let n = tw_calls w; w = w\<lparr>tw_calls := Suc n\<rparr>;
          gone = {l \<in> tw_links w. fst l = hook \<and> snd (snd l) = link}
      in if tw_detach_refused w n then w\<lparr>tw_leaked := tw_leaked w \<union> gone\<rparr>
         else w\<lparr>tw_links := tw_links w - gone, tw_leaked := tw_leaked w - gone\<rparr>)"

definition attach_prog :: "hook \<Rightarrow> string \<Rightarrow> tc_world \<Rightarrow> (attach_failure + nat) \<times> tc_world" where
  "attach_prog hook tap w =
     (if \<not> tw_programs w hook then (Inl OtherFailure, w)
      else case prog_attach hook tap w of
        (Inl e, w) \<Rightarrow> (Inl (classify_attach_failure e), w)
      | (Inr link, w) \<Rightarrow> (Inr link, w))"

definition detach_prog :: "hook \<Rightarrow> nat \<Rightarrow> tc_world \<Rightarrow> tc_world" where
  "detach_prog hook link w =
     (if tw_programs w hook then prog_detach hook link w
      else w\<lparr>tw_leaked := tw_leaked w \<union> {l \<in> tw_links w. fst l = hook \<and> snd (snd l) = link}\<rparr>)"

definition aya_add_clsact :: "(program_error \<Rightarrow> string) \<Rightarrow> string \<Rightarrow> tc_world \<Rightarrow> (string + qdisc_add_outcome) \<times> tc_world" where
  "aya_add_clsact describe tap w =
     (let n = tw_calls w; w = w\<lparr>tw_calls := Suc n\<rparr>
      in case tw_qdisc_refused w n of
           None \<Rightarrow> (Inr Created, w)
         | Some (Netlink errno) \<Rightarrow>
             if qdisc_already_present_errno errno then (Inr AlreadyPresent, w)
             else (Inl (describe (Netlink errno)), w)
         | Some e \<Rightarrow> (Inl (describe e), w))"

definition aya_backend :: "(program_error \<Rightarrow> string) \<Rightarrow> (tc_world, nat) attach_backend" where
  "aya_backend describe =
     \<lparr>attach_ingress = attach_prog Ingress, attach_egress = attach_prog Egress,
      detach_ingress = detach_prog Ingress, add_clsact = aya_add_clsact describe\<rparr>"

subsection \<open>Backoff\<close>

definition MAX_RETRY_BACKOFF_SECS :: u64 where "MAX_RETRY_BACKOFF_SECS = 300"

record backoff =
  bo_ifindex :: u32
  bo_failures :: u32
  bo_retry_at :: nat

definition should_attempt :: "(string \<rightharpoonup> backoff) \<Rightarrow> tap \<Rightarrow> nat \<Rightarrow> bool" where
  "should_attempt bs t now \<longleftrightarrow>
     (case bs (tap_name t) of None \<Rightarrow> True
      | Some b \<Rightarrow> bo_ifindex b \<noteq> tap_ifindex t \<or> bo_retry_at b \<le> now)"

definition backoff_delay :: "u32 \<Rightarrow> u64" where
  "backoff_delay failures = min (push_bit (unat (min (failures - 1) 6)) 5) MAX_RETRY_BACKOFF_SECS"

definition record_failure :: "(string \<rightharpoonup> backoff) \<Rightarrow> tap \<Rightarrow> nat \<Rightarrow> u32 \<times> (string \<rightharpoonup> backoff)" where
  "record_failure bs t now =
     (let fresh = \<lparr>bo_ifindex = tap_ifindex t, bo_failures = 0, bo_retry_at = now\<rparr>;
          entry = (case bs (tap_name t) of None \<Rightarrow> fresh | Some b \<Rightarrow> b);
          entry = (if bo_ifindex entry \<noteq> tap_ifindex t then fresh else entry);
          failures = bo_failures entry + 1;
          entry = entry\<lparr>bo_failures := failures,
                        bo_retry_at := now + unat (backoff_delay failures) * 1000000000\<rparr>
      in (failures, bs(tap_name t \<mapsto> entry)))"

definition record_success :: "(string \<rightharpoonup> backoff) \<Rightarrow> string \<Rightarrow> (string \<rightharpoonup> backoff)" where
  "record_success bs name = bs(name := None)"

definition prune_backoff :: "tap list \<Rightarrow> (string \<rightharpoonup> backoff) \<Rightarrow> (string \<rightharpoonup> backoff)" where
  "prune_backoff found bs =
     retain (\<lambda>name b. list_ex (\<lambda>t. tap_name t = name \<and> tap_ifindex t = bo_ifindex b) found) bs"

subsection \<open>The manager\<close>

record attached_tap =
  at_tap :: tap
  at_ingress_link :: nat
  at_egress_link :: nat
  at_qdisc_origin :: qdisc_origin

record attach_manager =
  am_bpf :: tc_world
  am_attached :: "string \<rightharpoonup> attached_tap"
  am_retry_backoff :: "string \<rightharpoonup> backoff"

text \<open>\<open>taps\<close> is sorted by name; \<open>names\<close> lists the keys of \<open>attached\<close> in hash order.\<close>

definition manager_taps :: "string list \<Rightarrow> attach_manager \<Rightarrow> tap list" where
  "manager_taps names am =
     sort_key tap_name (map (\<lambda>n. at_tap (the (am_attached am n))) names)"

definition reconcile_plan :: "(string \<times> u32) list \<Rightarrow> tap list \<Rightarrow> string list \<times> tap list" where
  "reconcile_plan attached found =
     (let to_detach = map fst (filter (\<lambda>(name, ifindex).
            case find (\<lambda>t. tap_name t = name) found of
              None \<Rightarrow> True | Some t \<Rightarrow> tap_ifindex t \<noteq> ifindex) attached);
          to_add = filter (\<lambda>t.
            case find (\<lambda>a. fst a = tap_name t) attached of
              None \<Rightarrow> True | Some (_, ifindex) \<Rightarrow> ifindex \<noteq> tap_ifindex t) found
      in (to_detach, to_add))"

definition detach :: "string \<Rightarrow> attach_manager \<Rightarrow> attach_manager" where
  "detach name am =
     (case am_attached am name of
        None \<Rightarrow> am
      | Some att \<Rightarrow>
          let am = am\<lparr>am_attached := (am_attached am)(name := None),
                      am_retry_backoff := record_success (am_retry_backoff am) name\<rparr>;
              w = detach_prog Ingress (at_ingress_link att) (am_bpf am);
              w = detach_prog Egress (at_egress_link att) w
          in am\<lparr>am_bpf := w\<rparr>)"

definition attach_one :: "(program_error \<Rightarrow> string) \<Rightarrow> nat \<Rightarrow> tap \<Rightarrow> nat \<times> nat \<times> attach_manager \<Rightarrow> nat \<times> nat \<times> attach_manager" where
  "attach_one describe now t st =
     (let (added, failed, am) = st in
      if \<not> should_attempt (am_retry_backoff am) t now then (added, failed, am)
      else case attach_flow (aya_backend describe) (tap_name t) (am_bpf am) of
        (Inr (ingress_link, egress_link, origin), w) \<Rightarrow>
          (Suc added, failed,
           am\<lparr>am_bpf := w, am_retry_backoff := record_success (am_retry_backoff am) (tap_name t),
              am_attached := (am_attached am)(tap_name t \<mapsto>
                \<lparr>at_tap = t, at_ingress_link = ingress_link, at_egress_link = egress_link,
                 at_qdisc_origin = origin\<rparr>)\<rparr>)
      | (Inl _, w) \<Rightarrow>
          (added, Suc failed,
           am\<lparr>am_bpf := w, am_retry_backoff := snd (record_failure (am_retry_backoff am) t now)\<rparr>))"

definition reconcile :: "(program_error \<Rightarrow> string) \<Rightarrow> string list \<Rightarrow> nat \<Rightarrow> tap list \<Rightarrow> attach_manager
    \<Rightarrow> nat \<times> nat \<times> attach_manager" where
  "reconcile describe names now found am =
     (let attached_view = map (\<lambda>n. let t = at_tap (the (am_attached am n)) in (tap_name t, tap_ifindex t)) names;
          (to_detach, to_add) = reconcile_plan attached_view found;
          am = am\<lparr>am_retry_backoff := prune_backoff found (am_retry_backoff am)\<rparr>;
          am = fold detach to_detach am
      in fold (attach_one describe now) to_add (0, 0, am))"

text \<open>\<open>Drop\<close> detaches everything.\<close>

definition drop_manager :: "string list \<Rightarrow> attach_manager \<Rightarrow> attach_manager" where
  "drop_manager names am = fold detach names am"

subsection \<open>Messages\<close>

definition show_origin :: "qdisc_origin \<Rightarrow> string" where
  "show_origin origin =
     (case origin of NotRequired \<Rightarrow> ''NotRequired'' | ReusedExisting \<Rightarrow> ''ReusedExisting'' | CreatedByUs \<Rightarrow> ''CreatedByUs'')"

definition flow_error :: "attach_flow_error \<Rightarrow> tap \<Rightarrow> string" where
  "flow_error e t =
     ''TAP '' @ tap_name t @ '' (ifindex '' @ show_nat (unat (tap_ifindex t)) @ ''): ''
     @ (case e of
          IngressFailed d \<Rightarrow> ''TC ingress attach failed: '' @ d
        | QdiscAdd d \<Rightarrow> ''clsact qdisc creation failed: '' @ d
        | EgressFailed origin conflict detail \<Rightarrow>
            ''TC egress attach failed (qdisc origin '' @ show_origin origin @ '', ingress rolled back): '' @ detail)"

text \<open>\<open>str::split\<close> at every character that is no digit.\<close>

fun digit_parts :: "string \<Rightarrow> string list" where
  "digit_parts [] = [[]]"
| "digit_parts (c # cs) =
     (if is_digit c
      then (case digit_parts cs of [] \<Rightarrow> [[c]] | p # ps \<Rightarrow> (c # p) # ps)
      else [] # digit_parts cs)"

text \<open>The version of the running kernel, from the text of \<open>osrelease\<close>.\<close>

definition kernel_at_least :: "string option \<Rightarrow> nat \<Rightarrow> nat \<Rightarrow> bool" where
  "kernel_at_least osrelease major minor =
     (case osrelease of
        None \<Rightarrow> True
      | Some release \<Rightarrow>
          let parts = digit_parts release;
              number = (\<lambda>i. if i < length parts then (case parse_unsigned (2 ^ 32) (parts ! i) of None \<Rightarrow> 0 | Some n \<Rightarrow> n) else 0)
          in major < number 0 \<or> major = number 0 \<and> minor \<le> number 1)"

definition attach_message :: "string option \<Rightarrow> tap \<Rightarrow> qdisc_origin \<Rightarrow> string" where
  "attach_message osrelease t origin =
     ''TAP '' @ tap_name t @ '': ''
     @ (case origin of
          NotRequired \<Rightarrow> if kernel_at_least osrelease 6 6 then ''attached via TCX; clsact not required''
            else ''attached via existing TC qdisc; clsact not required''
        | ReusedExisting \<Rightarrow> ''reusing existing clsact''
        | CreatedByUs \<Rightarrow> ''created clsact for legacy TC attach'')"

lemma kernel_versions:
  "kernel_at_least (Some ''6.8.0-31-generic'') 6 6" "\<not> kernel_at_least (Some ''5.15.0'') 6 6"
  "\<not> kernel_at_least (Some ''6.5'') 6 6" "kernel_at_least (Some ''10'') 6 6" "\<not> kernel_at_least (Some ''v7.0'') 6 6"
  by (simp_all add: kernel_at_least_def parse_unsigned_def is_digit_def digits_val_def digit_val_def Let_def)

subsection \<open>TAP discovery\<close>

text \<open>\<open>discover_taps\<close> of \<open>interface.rs\<close>; \<open>read_dir\<close> and \<open>read_file\<close> stand for the file system,
  with the readable entries of a directory and the text of a file.\<close>

definition IFF_TYPE_MASK :: u32 where "IFF_TYPE_MASK = 0x000f"
definition IFF_TAP :: u32 where "IFF_TAP = 0x0002"

definition hex_val :: "char \<Rightarrow> nat option" where
  "hex_val c =
     (let n = of_char c :: nat in
      if 48 \<le> n \<and> n \<le> 57 then Some (n - 48)
      else if 97 \<le> n \<and> n \<le> 102 then Some (n - 87)
      else if 65 \<le> n \<and> n \<le> 70 then Some (n - 55) else None)"

fun hex_digits :: "nat \<Rightarrow> string \<Rightarrow> nat option" where
  "hex_digits n [] = Some n"
| "hex_digits n (c # cs) =
     (case hex_val c of None \<Rightarrow> None
      | Some d \<Rightarrow> if 16 * n + d < 2 ^ 32 then hex_digits (16 * n + d) cs else None)"

definition from_str_radix_16 :: "string \<Rightarrow> u32 option" where
  "from_str_radix_16 s =
     (let ds = (if s \<noteq> [] \<and> hd s = CHR ''+'' then tl s else s)
      in if ds = [] then None else map_option word_of_nat (hex_digits 0 ds))"

fun trim_start_0x :: "string \<Rightarrow> string" where
  "trim_start_0x (c # d # cs) =
     (if c = CHR ''0'' \<and> d = CHR ''x'' then trim_start_0x cs else c # d # cs)"
| "trim_start_0x cs = cs"

definition read_ifindex :: "(string \<Rightarrow> string option) \<Rightarrow> string \<Rightarrow> u32 option" where
  "read_ifindex read_file name =
     Option.bind (read_file (''/sys/class/net/'' @ name @ ''/ifindex'')) (\<lambda>s.
     map_option word_of_nat (parse_unsigned (2 ^ 32) (trim s)))"

definition is_tap :: "(string \<Rightarrow> string option) \<Rightarrow> string \<Rightarrow> bool" where
  "is_tap read_file name =
     (case read_file (''/sys/class/net/'' @ name @ ''/tun_flags'') of
        None \<Rightarrow> False
      | Some raw \<Rightarrow>
          (case from_str_radix_16 (trim_start_0x (trim raw)) of
             None \<Rightarrow> False
           | Some flags \<Rightarrow> and flags IFF_TYPE_MASK = IFF_TAP))"

definition discover_taps ::
  "(string \<Rightarrow> string + string list) \<Rightarrow> (string \<Rightarrow> string option) \<Rightarrow> string \<Rightarrow> string + tap list" where
  "discover_taps read_dir read_file bridge =
     (let brif = ''/sys/class/net/'' @ bridge @ ''/brif''
      in case read_dir brif of
           Inl e \<Rightarrow> Inl (''cannot read '' @ brif @ '': '' @ e)
         | Inr names \<Rightarrow> Inr (sort_key tap_name (concat (map (\<lambda>name.
             case read_ifindex read_file name of
               None \<Rightarrow> []
             | Some ifindex \<Rightarrow>
                 if is_tap read_file name then [\<lparr>tap_name = name, tap_ifindex = ifindex\<rparr>] else []) names))))"

end
