(* ===== verification/Tc_Safety.thy ===== *)
theory Tc_Safety
  imports Tc
begin

section \<open>Tc\_Safety: nothing half attached, every TAP attached or retried\<close>

text \<open>
  The contract of the \<open>AttachBackend\<close> trait as a locale over the links a backend accounts
  for, the attach flow proved in it, its interpretation on the backend the daemon uses, and
  what a reconciliation leaves: the links of the attached TAPs, besides them only those whose
  detach failed, and every TAP found either attached or scheduled for a retry.
\<close>

subsection \<open>The contract\<close>

type_synonym 'l link = "hook \<times> string \<times> 'l"

definition fresh_link :: "'l link set \<Rightarrow> 'l \<Rightarrow> bool" where
  "fresh_link live l \<longleftrightarrow> (\<forall>x \<in> live. snd (snd x) \<noteq> l)"

definition attached_live :: "hook \<Rightarrow> string \<Rightarrow> 'l link set \<Rightarrow> attach_failure + 'l \<Rightarrow> 'l link set \<Rightarrow> bool" where
  "attached_live hook tap live r live' \<longleftrightarrow>
     (case r of Inl _ \<Rightarrow> live' = live | Inr l \<Rightarrow> fresh_link live l \<and> live' = insert (hook, tap, l) live)"

locale attach_contract =
  fixes b :: "('s, 'l) attach_backend"
    and live :: "'s \<Rightarrow> 'l link set"
    and wf :: "'s \<Rightarrow> bool"
  assumes ingress_law: "wf s \<Longrightarrow> attach_ingress b tap s = (r, s') \<Longrightarrow>
      wf s' \<and> attached_live Ingress tap (live s) r (live s')"
    and egress_law: "wf s \<Longrightarrow> attach_egress b tap s = (r, s') \<Longrightarrow>
      wf s' \<and> attached_live Egress tap (live s) r (live s')"
    and detach_law: "wf s \<Longrightarrow> wf (detach_ingress b l s)
      \<and> live (detach_ingress b l s) = {x \<in> live s. \<not> (fst x = Ingress \<and> snd (snd x) = l)}"
    and clsact_law: "wf s \<Longrightarrow> add_clsact b tap s = (q, s') \<Longrightarrow> wf s' \<and> live s' = live s"
begin

lemma clsact_live:
  assumes "wf s" "ensure_clsact b tap s = (r, s')"
  shows "wf s' \<and> live s' = live s"
proof -
  obtain q s1 where "add_clsact b tap s = (q, s1)" by force
  with assms clsact_law [OF assms(1) this] show ?thesis
    by (auto simp: ensure_clsact_def split: sum.splits qdisc_add_outcome.splits)
qed

lemma ingress_flow_live:
  assumes "wf s" "attach_ingress_flow b tap s = (r, s')"
  shows "wf s' \<and> (case r of Inl _ \<Rightarrow> live s' = live s
    | Inr (l, _) \<Rightarrow> fresh_link (live s) l \<and> live s' = insert (Ingress, tap, l) (live s))"
proof -
  obtain r1 s1 where 1: "attach_ingress b tap s = (r1, s1)" by force
  note l1 = ingress_law [OF assms(1) 1]
  obtain q s2 where 2: "ensure_clsact b tap s1 = (q, s2)" by force
  note l2 = clsact_live [OF conjunct1 [OF l1] 2]
  obtain r3 s3 where 3: "attach_ingress b tap s2 = (r3, s3)" by force
  note l3 = ingress_law [OF conjunct1 [OF l2] 3]
  show ?thesis
    using assms(2) 1 2 3 l1 l2 l3
    by (auto simp: attach_ingress_flow_def attached_live_def split: sum.splits attach_failure.splits)
qed

text \<open>An ingress link whose egress could not be attached is taken back.\<close>

lemma take_back:
  assumes "wf s1" "live s1 = insert (Ingress, tap, l) L" "fresh_link L l"
  shows "wf (detach_ingress b l s1)" "live (detach_ingress b l s1) = L"
  using detach_law [OF assms(1), of l] assms(2,3) by (auto simp: fresh_link_def)

lemma attach_flow_live:
  assumes "wf s" "attach_flow b tap s = (r, s')"
  shows "wf s' \<and> (case r of Inl _ \<Rightarrow> live s' = live s
    | Inr (i, e, _) \<Rightarrow> fresh_link (live s) i \<and> fresh_link (insert (Ingress, tap, i) (live s)) e
        \<and> live s' = insert (Egress, tap, e) (insert (Ingress, tap, i) (live s)))"
proof -
  obtain r1 s1 where 1: "attach_ingress_flow b tap s = (r1, s1)" by force
  note l1 = ingress_flow_live [OF assms(1) 1]
  show ?thesis
  proof (cases r1)
    case (Inl e)
    with assms(2) 1 l1 show ?thesis by (auto simp: attach_flow_def)
  next
    case (Inr p)
    obtain i origin where p: "p = (i, origin)" by force
    with Inr l1 have on: "wf s1" "fresh_link (live s) i" "live s1 = insert (Ingress, tap, i) (live s)" by auto
    obtain r2 s2 where 2: "attach_egress b tap s1 = (r2, s2)" by force
    note l2 = egress_law [OF on(1) 2]
    obtain q s3 where 3: "ensure_clsact b tap s2 = (q, s3)" by force
    note l3 = clsact_live [OF conjunct1 [OF l2] 3]
    obtain r4 s4 where 4: "attach_egress b tap s3 = (r4, s4)" by force
    note l4 = egress_law [OF conjunct1 [OF l3] 4]
    have undone: "wf (detach_ingress b i t) \<and> live (detach_ingress b i t) = live s"
      if "wf t" "live t = live s1" for t
      using take_back [OF that(1) _ on(2)] that(2) on(3) by simp
    show ?thesis
      using assms(2) 1 2 3 4 Inr p on l2 l3 l4 undone [of s2] undone [of s3] undone [of s4]
      by (auto simp: attach_flow_def attached_live_def split: sum.splits if_splits)
  qed
qed

end

subsection \<open>The daemon's backend\<close>

text \<open>The links the daemon accounts for: all but the leaked ones, whose detach failed.\<close>

definition tc_live :: "tc_world \<Rightarrow> nat link set" where
  "tc_live w = tw_links w - tw_leaked w"

definition tc_wf :: "tc_world \<Rightarrow> bool" where
  "tc_wf w \<longleftrightarrow> (\<forall>h t l. (h, t, l) \<in> tw_links w \<longrightarrow> l < tw_next w) \<and> tw_leaked w \<subseteq> tw_links w"

lemma attach_prog_live:
  assumes "tc_wf w" "attach_prog hook tap w = (r, w')"
  shows "tc_wf w' \<and> attached_live hook tap (tc_live w) r (tc_live w')"
proof -
  have new: "(h, t, tw_next w) \<notin> tw_links w" for h t using assms(1) by (auto simp: tc_wf_def)
  then have "(h, t, tw_next w) \<notin> tw_leaked w" for h t using assms(1) by (auto simp: tc_wf_def)
  then show ?thesis
    using assms new
    by (auto simp: attach_prog_def prog_attach_def Let_def attached_live_def fresh_link_def tc_live_def tc_wf_def
        less_Suc_eq split: if_splits option.splits)
qed

lemma detach_prog_live:
  assumes "tc_wf w"
  shows "tc_wf (detach_prog hook l w)
    \<and> tc_live (detach_prog hook l w) = {x \<in> tc_live w. \<not> (fst x = hook \<and> snd (snd x) = l)}"
  using assms by (auto simp: detach_prog_def prog_detach_def Let_def tc_live_def tc_wf_def)

interpretation aya: attach_contract "aya_backend describe" tc_live tc_wf
proof
  fix tap l and w w' :: tc_world and r q
  assume wf: "tc_wf w"
  show "attach_ingress (aya_backend describe) tap w = (r, w') \<Longrightarrow>
      tc_wf w' \<and> attached_live Ingress tap (tc_live w) r (tc_live w')"
    using attach_prog_live [OF wf] by (simp add: aya_backend_def)
  show "attach_egress (aya_backend describe) tap w = (r, w') \<Longrightarrow>
      tc_wf w' \<and> attached_live Egress tap (tc_live w) r (tc_live w')"
    using attach_prog_live [OF wf] by (simp add: aya_backend_def)
  show "tc_wf (detach_ingress (aya_backend describe) l w)
      \<and> tc_live (detach_ingress (aya_backend describe) l w)
        = {x \<in> tc_live w. \<not> (fst x = Ingress \<and> snd (snd x) = l)}"
    using detach_prog_live [OF wf] by (simp add: aya_backend_def)
  show "add_clsact (aya_backend describe) tap w = (q, w') \<Longrightarrow> tc_wf w' \<and> tc_live w' = tc_live w"
    using wf by (auto simp: aya_backend_def aya_add_clsact_def Let_def tc_wf_def tc_live_def
        split: option.splits program_error.splits if_splits)
qed

text \<open>Where no detach can fail, because both programs can be looked up and the kernel refuses none, no
  further link is left behind. The law is the contract again, over a stronger well-formedness.\<close>

definition detaches_succeed :: "tc_world \<Rightarrow> bool" where
  "detaches_succeed w \<longleftrightarrow> tw_programs w = (\<lambda>_. True) \<and> tw_detach_refused w = (\<lambda>_. False)"

definition leaks_within :: "nat link set \<Rightarrow> tc_world \<Rightarrow> bool" where
  "leaks_within old w \<longleftrightarrow> tc_wf w \<and> detaches_succeed w \<and> tw_leaked w \<subseteq> old"

lemma leaks_within_steps:
  assumes "leaks_within old w"
  shows "attach_prog hook tap w = (r, w') \<Longrightarrow> leaks_within old w'"
    and "leaks_within old (detach_prog hook l w)"
    and "aya_add_clsact describe tap w = (q, w') \<Longrightarrow> leaks_within old w'"
proof -
  note w = assms [unfolded leaks_within_def]
  show "leaks_within old w'" if step: "attach_prog hook tap w = (r, w')"
  proof -
    have "tw_leaked w' = tw_leaked w \<and> detaches_succeed w'"
      using w step
      by (auto simp: attach_prog_def prog_attach_def Let_def detaches_succeed_def split: if_splits option.splits)
    with w attach_prog_live [OF _ step] show ?thesis by (simp add: leaks_within_def)
  qed
  show "leaks_within old (detach_prog hook l w)"
  proof -
    have "tw_leaked (detach_prog hook l w) \<subseteq> tw_leaked w \<and> detaches_succeed (detach_prog hook l w)"
      using w by (auto simp: detach_prog_def prog_detach_def Let_def detaches_succeed_def)
    with w detach_prog_live [of w hook l] show ?thesis by (auto simp: leaks_within_def)
  qed
  show "leaks_within old w'" if "aya_add_clsact describe tap w = (q, w')"
    using w that
    by (auto simp: aya_add_clsact_def Let_def leaks_within_def tc_wf_def detaches_succeed_def
        split: option.splits program_error.splits if_splits)
qed

interpretation unrefused: attach_contract "aya_backend describe" tc_live "leaks_within old"
proof
  fix tap l and w w' :: tc_world and r q
  assume within: "leaks_within old w"
  then have wf: "tc_wf w" by (simp add: leaks_within_def)
  show "leaks_within old w' \<and> attached_live Ingress tap (tc_live w) r (tc_live w')"
    if "attach_ingress (aya_backend describe) tap w = (r, w')"
    using aya.ingress_law [OF wf that] leaks_within_steps(1) [OF within] that by (simp add: aya_backend_def)
  show "leaks_within old w' \<and> attached_live Egress tap (tc_live w) r (tc_live w')"
    if "attach_egress (aya_backend describe) tap w = (r, w')"
    using aya.egress_law [OF wf that] leaks_within_steps(1) [OF within] that by (simp add: aya_backend_def)
  show "leaks_within old (detach_ingress (aya_backend describe) l w)
      \<and> tc_live (detach_ingress (aya_backend describe) l w)
        = {x \<in> tc_live w. \<not> (fst x = Ingress \<and> snd (snd x) = l)}"
    using aya.detach_law [OF wf] leaks_within_steps(2) [OF within] by (simp add: aya_backend_def)
  show "leaks_within old w' \<and> tc_live w' = tc_live w"
    if "add_clsact (aya_backend describe) tap w = (q, w')"
    using aya.clsact_law [OF wf that] leaks_within_steps(3) [OF within] that by (simp add: aya_backend_def)
qed

subsection \<open>The manager\<close>

definition tap_links :: "attached_tap \<Rightarrow> nat link set" where
  "tap_links a = {(Ingress, tap_name (at_tap a), at_ingress_link a), (Egress, tap_name (at_tap a), at_egress_link a)}"

definition manager_ok :: "attach_manager \<Rightarrow> bool" where
  "manager_ok am \<longleftrightarrow> tc_wf (am_bpf am)
     \<and> tc_live (am_bpf am) = (\<Union>a \<in> ran (am_attached am). tap_links a)
     \<and> (\<forall>n a. am_attached am n = Some a \<longrightarrow> tap_name (at_tap a) = n)
     \<and> inj_on (\<lambda>x. snd (snd x)) (tc_live (am_bpf am))"

lemma manager_ok_backoff [simp]: "manager_ok (am\<lparr>am_retry_backoff := bs\<rparr>) = manager_ok am"
  by (cases am) (simp only: manager_ok_def attach_manager.select_convs attach_manager.update_convs)

lemma tap_links_name: "x \<in> tap_links a \<Longrightarrow> fst (snd x) = tap_name (at_tap a)"
  by (auto simp: tap_links_def)

lemma detach_ok:
  assumes "manager_ok am"
  shows "manager_ok (detach name am)" "am_attached (detach name am) = (am_attached am)(name := None)"
    and "am_retry_backoff (detach name am) n = Some b \<Longrightarrow> am_retry_backoff am n = Some b"
proof -
  note ok = assms [unfolded manager_ok_def]
  show att: "am_attached (detach name am) = (am_attached am)(name := None)"
    by (auto simp: detach_def Let_def split: option.split)
  show "am_retry_backoff (detach name am) n = Some b \<Longrightarrow> am_retry_backoff am n = Some b"
    by (auto simp: detach_def Let_def record_success_def split: option.splits if_splits)
  show "manager_ok (detach name am)"
  proof (cases "am_attached am name")
    case None
    with assms show ?thesis by (simp add: detach_def)
  next
    case (Some a)
    let ?w1 = "detach_prog Ingress (at_ingress_link a) (am_bpf am)"
    let ?w = "detach_prog Egress (at_egress_link a) ?w1"
    have bpf: "am_bpf (detach name am) = ?w" by (simp add: detach_def Some Let_def)
    have wf: "tc_wf (am_bpf am)" using ok by blast
    note d1 = detach_prog_live [OF wf, of Ingress "at_ingress_link a"]
    note d2 = detach_prog_live [OF conjunct1 [OF d1], of Egress "at_egress_link a"]
    have name: "tap_name (at_tap a) = name" using ok Some by blast
    have mine: "tap_links a \<subseteq> tc_live (am_bpf am)" using ok Some by (auto simp: ran_def)
    have "tc_live ?w = {x \<in> tc_live (am_bpf am). x \<notin> tap_links a}"
    proof -
      have "x = y" if "x \<in> tc_live (am_bpf am)" "y \<in> tap_links a" "snd (snd x) = snd (snd y)" for x y
        using ok mine that by (metis inj_onD subsetD)
      note same = this
      have "tc_live ?w = {x \<in> tc_live (am_bpf am). \<not> (fst x = Ingress \<and> snd (snd x) = at_ingress_link a)
          \<and> \<not> (fst x = Egress \<and> snd (snd x) = at_egress_link a)}"
        using d1 d2 by auto
      moreover have "x \<in> tap_links a \<longleftrightarrow> fst x = Ingress \<and> snd (snd x) = at_ingress_link a
          \<or> fst x = Egress \<and> snd (snd x) = at_egress_link a" if "x \<in> tc_live (am_bpf am)" for x
        using same [OF that, of "(Ingress, tap_name (at_tap a), at_ingress_link a)"]
          same [OF that, of "(Egress, tap_name (at_tap a), at_egress_link a)"]
        by (auto simp: tap_links_def)
      ultimately show ?thesis by auto
    qed
    also have "\<dots> = (\<Union>a' \<in> ran ((am_attached am)(name := None)). tap_links a')"
    proof (rule set_eqI)
      fix x
      have "x \<in> tc_live (am_bpf am) \<longleftrightarrow> (\<exists>n a'. am_attached am n = Some a' \<and> x \<in> tap_links a')"
        using ok by (auto simp: ran_def)
      moreover have "x \<in> (\<Union>a' \<in> ran ((am_attached am)(name := None)). tap_links a')
          \<longleftrightarrow> (\<exists>n a'. n \<noteq> name \<and> am_attached am n = Some a' \<and> x \<in> tap_links a')"
        by (auto simp: ran_def split: if_splits)
      moreover have "n \<noteq> name" if "am_attached am n = Some a'" "x \<in> tap_links a'" "x \<notin> tap_links a" for n a'
        using that Some by auto
      moreover have "x \<notin> tap_links a" if "am_attached am n = Some a'" "x \<in> tap_links a'" "n \<noteq> name" for n a'
        using that ok name tap_links_name by metis
      ultimately show "x \<in> {x \<in> tc_live (am_bpf am). x \<notin> tap_links a}
          \<longleftrightarrow> x \<in> (\<Union>a' \<in> ran ((am_attached am)(name := None)). tap_links a')"
        by simp blast
    qed
    finally have live: "tc_live ?w = (\<Union>a' \<in> ran ((am_attached am)(name := None)). tap_links a')" .
    moreover have "tc_live ?w \<subseteq> tc_live (am_bpf am)" using d1 d2 by auto
    then have "inj_on (\<lambda>x. snd (snd x)) (tc_live ?w)" using ok by (blast intro: inj_on_subset)
    ultimately show ?thesis
      using d2 ok unfolding manager_ok_def bpf att by simp
  qed
qed

lemma detach_all_ok:
  "manager_ok am \<Longrightarrow> manager_ok (fold detach names am)
     \<and> (\<forall>n. am_attached (fold detach names am) n = (if n \<in> set names then None else am_attached am n))
     \<and> (\<forall>n b. am_retry_backoff (fold detach names am) n = Some b \<longrightarrow> am_retry_backoff am n = Some b)"
proof (induction names arbitrary: am)
  case (Cons name names)
  note d = detach_ok [OF Cons.prems, of name]
  show ?case using Cons.IH [OF d(1)] d(2,3) by auto
qed simp

lemma detach_all_unrefused:
  "leaks_within old (am_bpf am) \<Longrightarrow> leaks_within old (am_bpf (fold detach names am))"
proof (induction names arbitrary: am)
  case (Cons name names)
  have "leaks_within old (am_bpf (detach name am))"
    using Cons.prems by (auto simp: detach_def Let_def leaks_within_steps(2) split: option.split)
  then show ?case using Cons.IH by simp
qed simp

lemma attach_all_unrefused:
  "leaks_within old (am_bpf (snd (snd st)))
    \<Longrightarrow> leaks_within old (am_bpf (snd (snd (fold (attach_one describe now) ts st))))"
proof (induction ts arbitrary: st)
  case (Cons t ts)
  obtain added failed am where st: "st = (added, failed, am)" by (rule prod_cases3)
  obtain r w where f: "attach_flow (aya_backend describe) (tap_name t) (am_bpf am) = (r, w)" by force
  have "leaks_within old w" using unrefused.attach_flow_live [OF _ f] Cons.prems st by simp
  then have "leaks_within old (am_bpf (snd (snd (attach_one describe now t st))))"
    using Cons.prems st by (simp add: attach_one_def f split: sum.split prod.split)
  then show ?case using Cons.IH by simp
qed simp

subsection \<open>Backoff\<close>

definition retry_bounded :: "nat \<Rightarrow> (string \<rightharpoonup> backoff) \<Rightarrow> bool" where
  "retry_bounded now bs \<longleftrightarrow> (\<forall>n b. bs n = Some b \<longrightarrow> bo_retry_at b \<le> now + 300 * 1000000000)"

lemma backoff_delay_bounds: "5 \<le> unat (backoff_delay f) \<and> unat (backoff_delay f) \<le> 300"
proof -
  have "unat (min (f - 1) 6) \<le> 6" by (simp add: unat_min)
  then have "unat (min (f - 1) 6) \<in> {0, 1, 2, 3, 4, 5, 6}" by auto
  then show ?thesis by (auto simp: backoff_delay_def MAX_RETRY_BACKOFF_SECS_def min_def word_le_nat_alt)
qed

text \<open>A TAP that was found is attached, or waits for a retry.\<close>

definition served :: "nat \<Rightarrow> attach_manager \<Rightarrow> tap \<Rightarrow> bool" where
  "served now am t \<longleftrightarrow>
     (case am_attached am (tap_name t) of
        Some a \<Rightarrow> at_tap a = t
      | None \<Rightarrow> (case am_retry_backoff am (tap_name t) of
          None \<Rightarrow> False
        | Some b \<Rightarrow> bo_ifindex b = tap_ifindex t \<and> now < bo_retry_at b))"

lemma attach_one_ok:
  assumes "manager_ok am" "am_attached am (tap_name t) = None" "retry_bounded now (am_retry_backoff am)"
    and "attach_one describe now t (added, failed, am) = (added', failed', am')"
  shows "manager_ok am' \<and> retry_bounded now (am_retry_backoff am') \<and> served now am' t
    \<and> (\<forall>n. n \<noteq> tap_name t \<longrightarrow> am_attached am' n = am_attached am n \<and> am_retry_backoff am' n = am_retry_backoff am n)"
proof (cases "should_attempt (am_retry_backoff am) t now")
  case False
  with assms show ?thesis
    by (auto simp: attach_one_def should_attempt_def served_def split: option.splits)
next
  case True
  obtain r w where f: "attach_flow (aya_backend describe) (tap_name t) (am_bpf am) = (r, w)" by force
  note ok = assms(1) [unfolded manager_ok_def]
  note live = aya.attach_flow_live [OF conjunct1 [OF ok] f]
  show ?thesis
  proof (cases r)
    case (Inl e)
    have am': "am' = am\<lparr>am_bpf := w, am_retry_backoff := snd (record_failure (am_retry_backoff am) t now)\<rparr>"
      using assms(4) True f Inl by (simp add: attach_one_def)
    obtain b where b: "snd (record_failure (am_retry_backoff am) t now) = (am_retry_backoff am)(tap_name t \<mapsto> b)"
        "bo_ifindex b = tap_ifindex t" "now < bo_retry_at b" "bo_retry_at b \<le> now + 300 * 1000000000"
      using backoff_delay_bounds by (force simp: record_failure_def Let_def split: option.splits if_splits)
    with assms(2,3) live Inl ok show ?thesis
      by (auto simp: am' manager_ok_def served_def retry_bounded_def)
  next
    case (Inr p)
    obtain i e origin where p: "p = (i, e, origin)" by (metis prod_cases3)
    let ?a = "\<lparr>at_tap = t, at_ingress_link = i, at_egress_link = e, at_qdisc_origin = origin\<rparr>"
    have am': "am' = am\<lparr>am_bpf := w, am_retry_backoff := record_success (am_retry_backoff am) (tap_name t),
        am_attached := (am_attached am)(tap_name t \<mapsto> ?a)\<rparr>"
      using assms(4) True f Inr p by (simp add: attach_one_def)
    have new: "tc_wf w" "fresh_link (tc_live (am_bpf am)) i" "fresh_link (insert (Ingress, tap_name t, i) (tc_live (am_bpf am))) e"
        "tc_live w = insert (Egress, tap_name t, e) (insert (Ingress, tap_name t, i) (tc_live (am_bpf am)))"
      using live Inr p by auto
    have "ran ((am_attached am)(tap_name t \<mapsto> ?a)) = insert ?a (ran (am_attached am))"
      using assms(2) by (rule ran_map_upd)
    then have "tc_live w = (\<Union>a \<in> ran ((am_attached am)(tap_name t \<mapsto> ?a)). tap_links a)"
      using ok new(4) by (auto simp: tap_links_def)
    moreover have "inj_on (\<lambda>x. snd (snd x)) (tc_live w)"
    proof -
      have "inj_on (\<lambda>x. snd (snd x)) (tc_live (am_bpf am))" using ok by blast
      then show ?thesis
        using new(2,3) unfolding new(4) fresh_link_def by (intro inj_on_insert [THEN iffD2]) fastforce
    qed
    ultimately have "manager_ok am'" using ok new(1) by (simp add: am' manager_ok_def)
    with assms(3) show ?thesis
      by (auto simp: am' served_def retry_bounded_def record_success_def)
  qed
qed

lemma attach_all_ok:
  assumes "manager_ok am" "distinct (map tap_name ts)" "\<forall>t \<in> set ts. am_attached am (tap_name t) = None"
    and "retry_bounded now (am_retry_backoff am)"
    and "fold (attach_one describe now) ts (added, failed, am) = (added', failed', am')"
  shows "manager_ok am' \<and> retry_bounded now (am_retry_backoff am') \<and> (\<forall>t \<in> set ts. served now am' t)
    \<and> (\<forall>n. n \<notin> tap_name ` set ts \<longrightarrow> am_attached am' n = am_attached am n \<and> am_retry_backoff am' n = am_retry_backoff am n)"
  using assms
proof (induction ts arbitrary: am added failed)
  case (Cons t ts)
  obtain a1 f1 am1 where one: "attach_one describe now t (added, failed, am) = (a1, f1, am1)" by (metis prod_cases3)
  have t: "am_attached am (tap_name t) = None" "tap_name t \<notin> tap_name ` set ts" using Cons.prems(2,3) by auto
  note o = attach_one_ok [OF Cons.prems(1) t(1) Cons.prems(4) one]
  have "\<forall>t' \<in> set ts. am_attached am1 (tap_name t') = None"
  proof
    fix t' assume t': "t' \<in> set ts"
    with t(2) have "tap_name t' \<noteq> tap_name t" by (metis image_eqI)
    with o Cons.prems(3) t' show "am_attached am1 (tap_name t') = None" by simp
  qed
  moreover have "fold (attach_one describe now) ts (a1, f1, am1) = (added', failed', am')" using Cons.prems(5) one by simp
  ultimately have rest: "manager_ok am' \<and> retry_bounded now (am_retry_backoff am') \<and> (\<forall>t \<in> set ts. served now am' t)
      \<and> (\<forall>n. n \<notin> tap_name ` set ts \<longrightarrow> am_attached am' n = am_attached am1 n \<and> am_retry_backoff am' n = am_retry_backoff am1 n)"
    using Cons.prems(2) o by (intro Cons.IH) auto
  moreover have "am_attached am' (tap_name t) = am_attached am1 (tap_name t)"
      "am_retry_backoff am' (tap_name t) = am_retry_backoff am1 (tap_name t)"
    using rest t(2) by blast+
  then have "served now am' t = served now am1 t" by (simp only: served_def)
  ultimately show ?case using o by auto
qed simp

text \<open>What the plan is.\<close>

lemma find_unique_name:
  assumes "distinct (map f xs)" "x \<in> set xs"
  shows "find (\<lambda>y. f y = f x) xs = Some x"
  using assms by (induction xs) (auto simp: rev_image_eqI)

lemma plan_members:
  assumes "distinct (map fst attached)" "distinct (map tap_name found)" "reconcile_plan attached found = (to_detach, to_add)"
  shows "name \<in> set to_detach \<longleftrightarrow> (\<exists>i. (name, i) \<in> set attached \<and> (\<forall>t \<in> set found. \<not> (tap_name t = name \<and> tap_ifindex t = i)))"
    and "t \<in> set to_add \<longleftrightarrow> t \<in> set found \<and> (tap_name t, tap_ifindex t) \<notin> set attached"
proof -
  have f: "(case find (\<lambda>t. tap_name t = name) found of None \<Rightarrow> True | Some t \<Rightarrow> tap_ifindex t \<noteq> i)
      \<longleftrightarrow> (\<forall>t \<in> set found. \<not> (tap_name t = name \<and> tap_ifindex t = i))" for name i
  proof (cases "\<exists>t \<in> set found. tap_name t = name")
    case True
    then obtain t where t: "t \<in> set found" "name = tap_name t" by blast
    have "tap_name t' = tap_name t \<longrightarrow> t' = t" if "t' \<in> set found" for t'
      using assms(2) t(1) that by (auto simp: distinct_map inj_on_def)
    with t show ?thesis by (auto simp: find_unique_name [OF assms(2) t(1)])
  next
    case False
    then have "find (\<lambda>t. tap_name t = name) found = None" by (auto simp: find_None_iff)
    with False show ?thesis by auto
  qed
  have a: "(case find (\<lambda>a. fst a = n) attached of None \<Rightarrow> True | Some (_, i) \<Rightarrow> i \<noteq> j)
      \<longleftrightarrow> (n, j) \<notin> set attached" for n j
  proof (cases "\<exists>x \<in> set attached. fst x = n")
    case True
    then obtain i where i: "(n, i) \<in> set attached" by force
    have "j = i" if "(n, j) \<in> set attached"
      using assms(1) i that by (metis eq_key_imp_eq_value)
    with find_unique_name [OF assms(1) i] i show ?thesis by auto
  next
    case False
    then have "find (\<lambda>a. fst a = n) attached = None" by (auto simp: find_None_iff)
    with False show ?thesis by force
  qed
  show "name \<in> set to_detach \<longleftrightarrow> (\<exists>i. (name, i) \<in> set attached \<and> (\<forall>t \<in> set found. \<not> (tap_name t = name \<and> tap_ifindex t = i)))"
    using assms(3) by (force simp: reconcile_plan_def Let_def f)
  show "t \<in> set to_add \<longleftrightarrow> t \<in> set found \<and> (tap_name t, tap_ifindex t) \<notin> set attached"
    using assms(3) by (auto simp: reconcile_plan_def Let_def a)
qed

lemma attached_view_members:
  assumes "manager_ok am" "set names = dom (am_attached am)" "distinct names"
  defines "view \<equiv> map (\<lambda>n. let t = at_tap (the (am_attached am n)) in (tap_name t, tap_ifindex t)) names"
  shows "distinct (map fst view)"
    and "(n, i) \<in> set view \<longleftrightarrow> (\<exists>a. am_attached am n = Some a \<and> tap_ifindex (at_tap a) = i)"
proof -
  have name: "tap_name (at_tap (the (am_attached am n))) = n" if "n \<in> set names" for n
    using assms(1,2) that by (auto simp: manager_ok_def)
  then have "map fst view = names" by (simp add: view_def Let_def map_idI)
  with assms(3) show "distinct (map fst view)" by simp
  show "(n, i) \<in> set view \<longleftrightarrow> (\<exists>a. am_attached am n = Some a \<and> tap_ifindex (at_tap a) = i)"
    using assms(2) name by (force simp: view_def Let_def dom_def)
qed

subsection \<open>Reconciliation\<close>

text \<open>The plan over a manager in order: what goes is what was not found, what comes is what is not
  attached under its name and ifindex.\<close>

abbreviation attached_view :: "string list \<Rightarrow> attach_manager \<Rightarrow> (string \<times> u32) list" where
  "attached_view names am \<equiv>
     map (\<lambda>n. let t = at_tap (the (am_attached am n)) in (tap_name t, tap_ifindex t)) names"

lemma plan_of_manager:
  assumes "manager_ok am" "set names = dom (am_attached am)" "distinct names" "distinct (map tap_name found)"
    and "reconcile_plan (attached_view names am) found = (to_detach, to_add)"
  shows "am_attached am n = Some a \<Longrightarrow> n \<in> set to_detach \<longleftrightarrow> at_tap a \<notin> set found"
    and "t \<in> set to_add \<longleftrightarrow> t \<in> set found \<and> (\<forall>a. am_attached am (tap_name t) = Some a \<longrightarrow> at_tap a \<noteq> t)"
    and "distinct (map tap_name to_add)"
proof -
  note view = attached_view_members [OF assms(1-3)]
  note mem = plan_members [OF view(1) assms(4,5), unfolded view(2)]
  have same: "tap_ifindex (at_tap a) = tap_ifindex t \<longleftrightarrow> at_tap a = t" if "am_attached am (tap_name t) = Some a" for a t
    using assms(1) that by (auto simp: manager_ok_def intro: tap.equality)
  have name: "tap_name (at_tap a) = n" if "am_attached am n = Some a" for n a
    using assms(1) that by (simp add: manager_ok_def)
  show "n \<in> set to_detach \<longleftrightarrow> at_tap a \<notin> set found" if "am_attached am n = Some a"
  proof -
    have uniq: "t = at_tap a" if "tap_name t = tap_name (at_tap a)" "tap_ifindex t = tap_ifindex (at_tap a)" for t
      using that by (intro tap.equality) simp_all
    from that name [OF that] show ?thesis by (auto simp: mem dest: uniq)
  qed
  show "t \<in> set to_add \<longleftrightarrow> t \<in> set found \<and> (\<forall>a. am_attached am (tap_name t) = Some a \<longrightarrow> at_tap a \<noteq> t)"
    using same by (auto simp: mem)
  have "to_add = filter (\<lambda>t. case find (\<lambda>a. fst a = tap_name t) (attached_view names am) of
      None \<Rightarrow> True | Some (_, ifindex) \<Rightarrow> ifindex \<noteq> tap_ifindex t) found"
    using assms(5) by (simp add: reconcile_plan_def Let_def)
  then show "distinct (map tap_name to_add)" using assms(4) by (simp add: distinct_map_filter)
qed

lemma detach_phase:
  assumes "manager_ok am" "retry_bounded now (am_retry_backoff am)"
    and am2: "am2 = fold detach to_detach (am\<lparr>am_retry_backoff := prune_backoff found (am_retry_backoff am)\<rparr>)"
  shows "manager_ok am2" "am_attached am2 n = (if n \<in> set to_detach then None else am_attached am n)"
    and "retry_bounded now (am_retry_backoff am2)"
proof -
  let ?am1 = "am\<lparr>am_retry_backoff := prune_backoff found (am_retry_backoff am)\<rparr>"
  have "manager_ok ?am1" using assms(1) by simp
  note d = detach_all_ok [OF this, of to_detach, folded am2]
  then show "manager_ok am2" "am_attached am2 n = (if n \<in> set to_detach then None else am_attached am n)"
    by simp_all
  show "retry_bounded now (am_retry_backoff am2)"
    unfolding retry_bounded_def
  proof (intro allI impI)
    fix n b assume "am_retry_backoff am2 n = Some b"
    then have "am_retry_backoff ?am1 n = Some b" using d by blast
    then have "am_retry_backoff am n = Some b" by (simp add: prune_backoff_def retain_Some_iff)
    then show "bo_retry_at b \<le> now + 300 * 1000000000" using assms(2) by (simp add: retry_bounded_def)
  qed
qed

text \<open>C28: A reconciliation converges, whatever attach, qdisc and detach calls fail. The links on the
  hooks are afterwards the ingress and the egress link of every attached TAP, so that no TAP is half
  attached, and besides them only leaked links: those of a detach that failed, now or earlier, which
  the code only logs and which no TAP refers to any more. Where no detach can fail, this
  reconciliation leaks none. Every attached TAP is one of those found (same name and ifindex), those
  that already were keep their links, and every TAP found is attached or has a pending retry that
  lies ahead, at most 300 seconds.\<close>

theorem reconcile_converges:
  assumes "manager_ok am" "set names = dom (am_attached am)" "distinct names" "distinct (map tap_name found)"
    and "retry_bounded now (am_retry_backoff am)"
    and "reconcile describe names now found am = (added, failed, am')"
  shows "manager_ok am' \<and> retry_bounded now (am_retry_backoff am')
    \<and> tw_links (am_bpf am') = (\<Union>a \<in> ran (am_attached am'). tap_links a) \<union> tw_leaked (am_bpf am')
    \<and> (\<Union>a \<in> ran (am_attached am'). tap_links a) \<inter> tw_leaked (am_bpf am') = {}
    \<and> (detaches_succeed (am_bpf am) \<longrightarrow> tw_leaked (am_bpf am') \<subseteq> tw_leaked (am_bpf am))
    \<and> (\<forall>n a. am_attached am' n = Some a \<longrightarrow> at_tap a \<in> set found) \<and> (\<forall>t \<in> set found. served now am' t)
    \<and> (\<forall>n a. am_attached am n = Some a \<longrightarrow> at_tap a \<in> set found \<longrightarrow> am_attached am' n = Some a)"
proof -
  obtain to_detach to_add where plan: "reconcile_plan (attached_view names am) found = (to_detach, to_add)" by force
  note p = plan_of_manager [OF assms(1-4) plan]
  let ?am2 = "fold detach to_detach (am\<lparr>am_retry_backoff := prune_backoff found (am_retry_backoff am)\<rparr>)"
  note d = detach_phase [OF assms(1,5) refl, of to_detach found]
  have add: "\<forall>t \<in> set to_add. am_attached ?am2 (tap_name t) = None"
  proof
    fix t assume t: "t \<in> set to_add"
    show "am_attached ?am2 (tap_name t) = None"
    proof (cases "am_attached am (tap_name t)")
      case (Some a)
      then have "at_tap a \<noteq> t" "tap_name (at_tap a) = tap_name t" using t assms(1) by (auto simp: p(2) manager_ok_def)
      then have "at_tap a \<notin> set found" using t assms(4) by (auto simp: p(2) distinct_map inj_on_def)
      then show ?thesis using p(1) [OF Some] by (simp add: d(2))
    qed (simp add: d(2))
  qed
  have attached: "fold (attach_one describe now) to_add (0, 0, ?am2) = (added, failed, am')"
    using assms(6) plan by (simp add: reconcile_def Let_def)
  note o = attach_all_ok [OF d(1) p(3) add d(3) attached]
  have links: "tw_links (am_bpf am') = (\<Union>a \<in> ran (am_attached am'). tap_links a) \<union> tw_leaked (am_bpf am')"
    "(\<Union>a \<in> ran (am_attached am'). tap_links a) \<inter> tw_leaked (am_bpf am') = {}"
    using o by (auto simp: manager_ok_def tc_live_def tc_wf_def)
  have unleaked: "tw_leaked (am_bpf am') \<subseteq> tw_leaked (am_bpf am)" if "detaches_succeed (am_bpf am)"
  proof -
    have "leaks_within (tw_leaked (am_bpf am)) (am_bpf am)" using that assms(1) by (simp add: leaks_within_def manager_ok_def)
    then have "leaks_within (tw_leaked (am_bpf am)) (am_bpf ?am2)" by (simp add: detach_all_unrefused)
    with attach_all_unrefused [of _ "(0, 0, ?am2)" describe now to_add] attached show ?thesis by (simp add: leaks_within_def)
  qed
  have kept: "am_attached am' n = Some a" if "am_attached am n = Some a" "at_tap a \<in> set found" for n a
  proof -
    have "tap_name t \<noteq> n" if "t \<in> set to_add" for t
      using add that p(1) [OF \<open>am_attached am n = Some a\<close>] \<open>at_tap a \<in> set found\<close> \<open>am_attached am n = Some a\<close>
      by (auto simp: d(2))
    then have "n \<notin> tap_name ` set to_add" by blast
    with o d(2) [of n] p(1) [OF that(1)] that show ?thesis by simp
  qed
  have from_found: "at_tap a \<in> set found" if a: "am_attached am' n = Some a" for n a
  proof (cases "n \<in> tap_name ` set to_add")
    case True
    then obtain t where t: "t \<in> set to_add" "n = tap_name t" by blast
    then have "served now am' t" using o by blast
    with a t show ?thesis by (simp add: served_def p(2))
  next
    case False
    with o a d(2) [of n] p(1) [of n a] show ?thesis by (auto split: if_splits)
  qed
  have "served now am' t" if "t \<in> set found" for t
    using that o kept [of "tap_name t"] by (cases "t \<in> set to_add") (auto simp: p(2) served_def)
  with o kept from_found links unleaked show ?thesis by (intro conjI) blast+
qed

text \<open>A TAP that left, one that appeared, and a kernel that refuses the first egress attach.\<close>

definition reconcile_example :: attach_manager where
  "reconcile_example =
     \<lparr>am_bpf = \<lparr>tw_links = {(Ingress, ''tap0'', 0), (Egress, ''tap0'', 1)}, tw_next = 2, tw_calls = 0,
        tw_programs = (\<lambda>_. True), tw_attach_refused = (\<lambda>n. if n = 3 then Some (Netlink (Some 12)) else None),
        tw_detach_refused = (\<lambda>_. False), tw_qdisc_refused = (\<lambda>_. None), tw_leaked = {}\<rparr>,
      am_attached = [''tap0'' \<mapsto> \<lparr>at_tap = \<lparr>tap_name = ''tap0'', tap_ifindex = 3\<rparr>, at_ingress_link = 0,
        at_egress_link = 1, at_qdisc_origin = NotRequired\<rparr>],
      am_retry_backoff = Map.empty\<rparr>"

lemma reconcile_converges_witness:
  "served 0 (snd (snd (reconcile (\<lambda>_. '''') [''tap0''] 0 [\<lparr>tap_name = ''tap1'', tap_ifindex = 4\<rparr>] reconcile_example)))
     \<lparr>tap_name = ''tap1'', tap_ifindex = 4\<rparr>"
proof -
  let ?r = "reconcile (\<lambda>_. '''') [''tap0''] 0 [\<lparr>tap_name = ''tap1'', tap_ifindex = 4\<rparr>] reconcile_example"
  have "manager_ok reconcile_example"
    by (auto simp: reconcile_example_def manager_ok_def tc_wf_def tc_live_def tap_links_def)
  moreover have "set [''tap0''] = dom (am_attached reconcile_example)" by (simp add: reconcile_example_def)
  moreover have "retry_bounded 0 (am_retry_backoff reconcile_example)"
    by (simp add: retry_bounded_def reconcile_example_def)
  moreover have "?r = (fst ?r, fst (snd ?r), snd (snd ?r))" by simp
  ultimately show ?thesis
    using reconcile_converges [of reconcile_example "[''tap0'']" "[\<lparr>tap_name = ''tap1'', tap_ifindex = 4\<rparr>]" 0
        "\<lambda>_. ''''" "fst ?r" "fst (snd ?r)" "snd (snd ?r)"] by simp
qed

end
