(* ===== verification/Txmaps.thy ===== *)
theory Txmaps
  imports Common Ip_Range
begin

section \<open>Txmaps: transactional updates of the limit maps\<close>

text \<open>
  \<open>vm-bandwidth/src/txmaps.rs\<close>. The traits \<open>LimitMaps\<close> and \<open>WhitelistOps\<close>, over which the Rust
  functions are generic, are records of operations on a state \<open>'s\<close>: an operation returns an
  error or a value, and the state it leaves. \<open>install_limit\<close>, \<open>remove_limit\<close>, the whitelist
  passes and \<open>rollback_journal\<close> are defined over any such record. The locale \<open>limit_maps\<close>
  states what the doc comments of the traits promise, and its lemmas say what the
  transactions keep and restore under these promises, with failures at any point.
\<close>

subsection \<open>The traits\<close>

type_synonym error = string
type_synonym ('s, 'a) effect = "'s \<Rightarrow> (error + 'a) \<times> 's"

definition and_then :: "('s, 'a) effect \<Rightarrow> ('a \<Rightarrow> ('s, 'b) effect) \<Rightarrow> ('s, 'b) effect" where
  "and_then f g s = (case f s of (Inl e, s') \<Rightarrow> (Inl e, s') | (Inr a, s') \<Rightarrow> g a s')"

definition ok_of :: "'a \<Rightarrow> ('s, 'a) effect" where
  "ok_of a s = (Inr a, s)"

definition modify :: "('s \<Rightarrow> 's) \<Rightarrow> ('s, unit) effect" where
  "modify f s = (Inr (), f s)"

record 's limit_maps =
  get_policy :: "limit_key \<Rightarrow> ('s, limit_policy option) effect"
  arm_policy :: "limit_key \<Rightarrow> limit_policy \<Rightarrow> ('s, unit) effect"
  disarm_policy :: "limit_key \<Rightarrow> ('s, unit) effect"
  write_fresh_state :: "limit_key \<Rightarrow> u32 \<Rightarrow> ('s, unit) effect"
  clear_state :: "limit_key \<Rightarrow> u32 \<Rightarrow> ('s, unit) effect"
  clear_policer :: "limit_key \<Rightarrow> ('s, unit) effect"

record 's whitelist_ops =
  wl_insert :: "cidr \<Rightarrow> ('s, unit) effect"
  wl_remove :: "cidr \<Rightarrow> ('s, unit) effect"

subsection \<open>The journal\<close>

record install_record =
  ins_key :: limit_key
  ins_old :: "limit_policy option"
  ins_old_disarmed :: bool
  ins_new_algorithm :: "u32 option"
  ins_armed :: bool

record remove_record =
  rem_key :: limit_key
  rem_old :: limit_policy
  rem_disarmed :: bool

record tx_journal =
  tj_installs :: "install_record list"
  tj_removes :: "remove_record list"
  tj_wl_added :: "cidr list"
  tj_wl_removed :: "cidr list"

definition tx_journal_default :: tx_journal where
  "tx_journal_default = \<lparr>tj_installs = [], tj_removes = [], tj_wl_added = [], tj_wl_removed = []\<rparr>"

datatype rollback_target = Flow limit_key | Prefix cidr

record rollback_failure =
  rf_target :: rollback_target
  rf_op :: string
  rf_error :: error

record rollback_report =
  rr_attempted :: nat
  rr_succeeded :: nat
  rr_failures :: "rollback_failure list"
  rr_dataplane_consistent :: bool

definition rollback_report_default :: rollback_report where
  "rollback_report_default =
     \<lparr>rr_attempted = 0, rr_succeeded = 0, rr_failures = [], rr_dataplane_consistent = False\<rparr>"

text \<open>The state of a transaction: its journal and the maps.\<close>

type_synonym 's tx = "tx_journal \<times> 's"

definition on_maps :: "('s, 'a) effect \<Rightarrow> ('s tx, 'a) effect" where
  "on_maps f t = (case f (snd t) of (r, s) \<Rightarrow> (r, (fst t, s)))"

definition in_journal :: "(tx_journal \<Rightarrow> tx_journal) \<Rightarrow> ('s tx, unit) effect" where
  "in_journal f = modify (\<lambda>(j, s). (f j, s))"

definition last_mut :: "('a \<Rightarrow> 'a) \<Rightarrow> 'a list \<Rightarrow> 'a list" where
  "last_mut f xs = (if xs = [] then [] else butlast xs @ [f (List.last xs)])"

definition last_install :: "(install_record \<Rightarrow> install_record) \<Rightarrow> ('s tx, unit) effect" where
  "last_install f = in_journal (\<lambda>j. j\<lparr>tj_installs := last_mut f (tj_installs j)\<rparr>)"

definition last_remove :: "(remove_record \<Rightarrow> remove_record) \<Rightarrow> ('s tx, unit) effect" where
  "last_remove f = in_journal (\<lambda>j. j\<lparr>tj_removes := last_mut f (tj_removes j)\<rparr>)"

subsection \<open>Operations\<close>

definition install_limit :: "'s limit_maps \<Rightarrow> limit_key \<Rightarrow> limit_policy \<Rightarrow> ('s tx, unit) effect" where
  "install_limit m key policy =
     and_then (on_maps (get_policy m key)) (\<lambda>old.
     and_then (in_journal (\<lambda>j. j\<lparr>tj_installs := tj_installs j @
         [\<lparr>ins_key = key, ins_old = old, ins_old_disarmed = False, ins_new_algorithm = None,
           ins_armed = False\<rparr>]\<rparr>)) (\<lambda>_.
     and_then
       (case old of
          None \<Rightarrow> ok_of ()
        | Some old \<Rightarrow>
            and_then (on_maps (disarm_policy m key)) (\<lambda>_.
            and_then (last_install (\<lambda>rec. rec\<lparr>ins_old_disarmed := True\<rparr>)) (\<lambda>_.
            if lp_algorithm old \<noteq> lp_algorithm policy
            then on_maps (clear_state m key (lp_algorithm old)) else ok_of ()))) (\<lambda>_.
     and_then (on_maps (write_fresh_state m key (lp_algorithm policy))) (\<lambda>_.
     and_then (last_install (\<lambda>rec. rec\<lparr>ins_new_algorithm := Some (lp_algorithm policy)\<rparr>)) (\<lambda>_.
     and_then (on_maps (arm_policy m key policy)) (\<lambda>_.
     last_install (\<lambda>rec. rec\<lparr>ins_armed := True\<rparr>)))))))"

definition remove_limit :: "'s limit_maps \<Rightarrow> limit_key \<Rightarrow> ('s tx, unit) effect" where
  "remove_limit m key =
     and_then (on_maps (get_policy m key)) (\<lambda>old.
     case old of
       None \<Rightarrow> ok_of ()
     | Some old \<Rightarrow>
         and_then (in_journal (\<lambda>j. j\<lparr>tj_removes := tj_removes j @
             [\<lparr>rem_key = key, rem_old = old, rem_disarmed = False\<rparr>]\<rparr>)) (\<lambda>_.
         and_then (on_maps (disarm_policy m key)) (\<lambda>_.
         and_then (last_remove (\<lambda>rec. rec\<lparr>rem_disarmed := True\<rparr>)) (\<lambda>_.
         and_then (on_maps (clear_state m key (lp_algorithm old))) (\<lambda>_.
         on_maps (clear_policer m key))))))"

fun apply_whitelist_additions :: "'s whitelist_ops \<Rightarrow> cidr list \<Rightarrow> ('s tx, unit) effect" where
  "apply_whitelist_additions w [] = ok_of ()"
| "apply_whitelist_additions w (c # cs) =
     and_then (on_maps (wl_insert w c)) (\<lambda>_.
     and_then (in_journal (\<lambda>j. j\<lparr>tj_wl_added := tj_wl_added j @ [c]\<rparr>)) (\<lambda>_.
     apply_whitelist_additions w cs))"

fun apply_whitelist_removals :: "'s whitelist_ops \<Rightarrow> cidr list \<Rightarrow> ('s tx, unit) effect" where
  "apply_whitelist_removals w [] = ok_of ()"
| "apply_whitelist_removals w (c # cs) =
     and_then (on_maps (wl_remove w c)) (\<lambda>_.
     and_then (in_journal (\<lambda>j. j\<lparr>tj_wl_removed := tj_wl_removed j @ [c]\<rparr>)) (\<lambda>_.
     apply_whitelist_removals w cs))"

subsection \<open>Rollback\<close>

definition fail_with :: "rollback_target \<Rightarrow> string \<Rightarrow> error \<Rightarrow> rollback_report \<Rightarrow> rollback_report" where
  "fail_with target op e r =
     r\<lparr>rr_failures := rr_failures r @ [\<lparr>rf_target = target, rf_op = op, rf_error = e\<rparr>]\<rparr>"

definition attempt :: "rollback_report \<Rightarrow> rollback_report" where
  "attempt r = r\<lparr>rr_attempted := Suc (rr_attempted r)\<rparr>"

definition succeed :: "rollback_report \<Rightarrow> rollback_report" where
  "succeed r = r\<lparr>rr_succeeded := Suc (rr_succeeded r)\<rparr>"

text \<open>Fresh state first, arming last; the flag says whether both worked.\<close>

definition restore_policy ::
  "'s limit_maps \<Rightarrow> limit_key \<Rightarrow> limit_policy \<Rightarrow> string \<Rightarrow> rollback_report \<times> 's
     \<Rightarrow> bool \<times> rollback_report \<times> 's" where
  "restore_policy m key old what rs =
     (case write_fresh_state m key (lp_algorithm old) (snd rs) of
        (Inr _, s) \<Rightarrow>
          (case arm_policy m key old s of
             (Inr _, s) \<Rightarrow> (True, fst rs, s)
           | (Inl e, s) \<Rightarrow> (False, fail_with (Flow key) what e (fst rs), s))
      | (Inl e, s) \<Rightarrow> (False, fail_with (Flow key) ''restore state (flow stays unarmed)'' e (fst rs), s))"

definition rollback_install ::
  "'s limit_maps \<Rightarrow> install_record \<Rightarrow> rollback_report \<times> 's \<Rightarrow> rollback_report \<times> 's" where
  "rollback_install m rec rs =
     (let report = attempt (fst rs); key = ins_key rec;
          (disarmed, s) = (if ins_armed rec then disarm_policy m key (snd rs) else (Inr (), snd rs))
      in case disarmed of
           Inl e \<Rightarrow> (fail_with (Flow key) ''disarm new policy (kept new policy + state)'' e report, s)
         | Inr _ \<Rightarrow>
           let (cleared, s) = (case ins_new_algorithm rec of
                  None \<Rightarrow> (Inr (), s) | Some algo \<Rightarrow> clear_state m key algo s);
               (ok, report) = (case cleared of
                  Inr _ \<Rightarrow> (True, report)
                | Inl e \<Rightarrow> (False, fail_with (Flow key) ''clear new state'' e report));
               (restored, report, s) =
                 (case ins_old rec of
                    None \<Rightarrow> (True, report, s)
                  | Some old \<Rightarrow>
                      if \<not> ins_old_disarmed rec then (True, report, s)
                      else restore_policy m key old ''re-arm old policy'' (report, s))
           in (if ok \<and> restored then succeed report else report, s))"

definition rollback_remove ::
  "'s limit_maps \<Rightarrow> remove_record \<Rightarrow> rollback_report \<times> 's \<Rightarrow> rollback_report \<times> 's" where
  "rollback_remove m rec rs =
     (let report = attempt (fst rs) in
      if \<not> rem_disarmed rec then (succeed report, snd rs)
      else
        let (restored, report, s) =
          restore_policy m (rem_key rec) (rem_old rec) ''re-arm removed policy'' (report, snd rs)
        in (if restored then succeed report else report, s))"

definition rollback_prefix ::
  "(cidr \<Rightarrow> ('s, unit) effect) \<Rightarrow> string \<Rightarrow> cidr \<Rightarrow> rollback_report \<times> 's \<Rightarrow> rollback_report \<times> 's" where
  "rollback_prefix f what c rs =
     (let report = attempt (fst rs) in
      case f c (snd rs) of
        (Inl e, s) \<Rightarrow> (fail_with (Prefix c) what e report, s)
      | (Inr _, s) \<Rightarrow> (succeed report, s))"

definition rollback_journal ::
  "'s limit_maps \<Rightarrow> 's whitelist_ops \<Rightarrow> tx_journal \<Rightarrow> 's \<Rightarrow> rollback_report \<times> 's" where
  "rollback_journal m w j s =
     (let rs = (rollback_report_default, s);
          rs = fold (rollback_install m) (rev (tj_installs j)) rs;
          rs = fold (rollback_remove m) (rev (tj_removes j)) rs;
          rs = fold (rollback_prefix (wl_insert w) ''re-add whitelist prefix'') (rev (tj_wl_removed j)) rs;
          (report, s) =
            fold (rollback_prefix (wl_remove w) ''remove whitelist prefix'') (rev (tj_wl_added j)) rs
      in (report\<lparr>rr_dataplane_consistent := rr_failures report = []\<rparr>, s))"

end
