(* ===== verification/Tx_Safety.thy ===== *)
theory Tx_Safety
  imports Txmaps
begin

section \<open>Tx\_Safety: what transactions keep and restore\<close>

text \<open>
  The contract of the \<open>LimitMaps\<close> and \<open>WhitelistOps\<close> traits as locales, and the two promises
  of \<open>txmaps.rs\<close> proved from it: an armed policy always has the state artifact of its
  algorithm, at every instant and whatever fails; and a rollback that reports no failure has
  restored every flow and prefix. Of a flow the data path sees a slot: its policy and which
  of the two artifacts, an entry of LIMIT\_STATE or a ring of SWL\_LOG, exist.
\<close>

subsection \<open>Slots\<close>

record slot =
  sl_policy :: "limit_policy option"
  sl_state :: bool
  sl_ring :: bool

type_synonym slots = "limit_key \<Rightarrow> slot"

definition has_artifact :: "slot \<Rightarrow> u32 \<Rightarrow> bool" where
  "has_artifact sl algorithm =
     (if algorithm = ALGO_SLIDING_WINDOW_LOG then sl_ring sl else sl_state sl)"

definition put_artifact :: "bool \<Rightarrow> u32 \<Rightarrow> slot \<Rightarrow> slot" where
  "put_artifact b algorithm sl =
     (if algorithm = ALGO_SLIDING_WINDOW_LOG then sl\<lparr>sl_ring := b\<rparr> else sl\<lparr>sl_state := b\<rparr>)"

text \<open>The invariant of the module comment, and its sharper form without orphans.\<close>

definition slot_safe :: "slot \<Rightarrow> bool" where
  "slot_safe sl \<longleftrightarrow> (case sl_policy sl of None \<Rightarrow> True | Some p \<Rightarrow> has_artifact sl (lp_algorithm p))"

definition slot_exact :: "slot \<Rightarrow> bool" where
  "slot_exact sl \<longleftrightarrow>
     (case sl_policy sl of
        None \<Rightarrow> \<not> sl_state sl \<and> \<not> sl_ring sl
      | Some p \<Rightarrow> sl_ring sl = (lp_algorithm p = ALGO_SLIDING_WINDOW_LOG) \<and> sl_state sl = (\<not> sl_ring sl))"

lemma slot_simps [simp]:
  "sl_policy (put_artifact b a sl) = sl_policy sl"
  "has_artifact (put_artifact b a sl) a = b"
  "has_artifact (sl\<lparr>sl_policy := q\<rparr>) a = has_artifact sl a"
  "put_artifact b a (sl\<lparr>sl_policy := q\<rparr>) = (put_artifact b a sl)\<lparr>sl_policy := q\<rparr>"
  by (simp_all add: put_artifact_def has_artifact_def)

lemma slot_exact_safe: "slot_exact sl \<Longrightarrow> slot_safe sl"
  by (simp add: slot_exact_def slot_safe_def has_artifact_def split: option.splits)

lemma slot_safe_simps [simp]:
  "slot_safe (sl\<lparr>sl_policy := None\<rparr>)"
  "sl_policy sl = None \<Longrightarrow> slot_safe sl"
  "slot_safe (put_artifact True (lp_algorithm p) sl\<lparr>sl_policy := Some p\<rparr>)"
  by (simp_all add: slot_safe_def)

lemma slot_safe_put: "slot_safe sl \<Longrightarrow> slot_safe (put_artifact True a sl)"
  by (auto simp: slot_safe_def put_artifact_def has_artifact_def split: option.splits)

text \<open>What a record says of a flow between the start of its action and the rollback.\<close>

definition install_pending :: "install_record \<Rightarrow> slot \<Rightarrow> slot \<Rightarrow> bool" where
  "install_pending rec sl0 sl \<longleftrightarrow>
     ins_old rec = sl_policy sl0
     \<and> (if ins_old rec \<noteq> None \<and> \<not> ins_old_disarmed rec
        then \<not> ins_armed rec \<and> ins_new_algorithm rec = None \<and> sl = sl0
        else (ins_armed rec \<or> sl_policy sl = None)
          \<and> (\<forall>a. has_artifact sl a \<longrightarrow> has_artifact sl0 a
               \<or> (\<exists>b. ins_new_algorithm rec = Some b
                    \<and> (b = ALGO_SLIDING_WINDOW_LOG \<longleftrightarrow> a = ALGO_SLIDING_WINDOW_LOG))))"

definition remove_pending :: "remove_record \<Rightarrow> slot \<Rightarrow> slot \<Rightarrow> bool" where
  "remove_pending rec sl0 sl \<longleftrightarrow>
     sl_policy sl0 = Some (rem_old rec)
     \<and> (if rem_disarmed rec
        then sl_policy sl = None \<and> (\<forall>a. has_artifact sl a \<longrightarrow> has_artifact sl0 a)
        else sl = sl0)"

lemma has_artifact_cases:
  "(\<forall>a. has_artifact sl a \<longrightarrow> P (a = ALGO_SLIDING_WINDOW_LOG)) \<longleftrightarrow>
     (sl_ring sl \<longrightarrow> P True) \<and> (sl_state sl \<longrightarrow> P False)"
proof -
  have "ALGO_GCRA \<noteq> ALGO_SLIDING_WINDOW_LOG" by (simp add: algo_defs)
  then show ?thesis by (auto simp: has_artifact_def)
qed

lemma slot_exact_iff:
  "slot_exact sl \<longleftrightarrow> (\<forall>a. has_artifact sl a \<longleftrightarrow>
     (\<exists>p. sl_policy sl = Some p \<and> (a = ALGO_SLIDING_WINDOW_LOG \<longleftrightarrow> lp_algorithm p = ALGO_SLIDING_WINDOW_LOG)))"
proof -
  have "ALGO_GCRA \<noteq> ALGO_SLIDING_WINDOW_LOG" by (simp add: algo_defs)
  then show ?thesis by (auto simp: slot_exact_def has_artifact_def split: option.splits)
qed

lemma has_artifact_put:
  "has_artifact (put_artifact x b sl) a \<longleftrightarrow>
     (if b = ALGO_SLIDING_WINDOW_LOG \<longleftrightarrow> a = ALGO_SLIDING_WINDOW_LOG then x else has_artifact sl a)"
  by (auto simp: put_artifact_def has_artifact_def)

lemma slot_eqI: "sl_policy sl = sl_policy sl' \<Longrightarrow> (\<And>a. has_artifact sl a = has_artifact sl' a) \<Longrightarrow> sl = sl'"
proof (rule slot.equality)
  assume "\<And>a. has_artifact sl a = has_artifact sl' a"
  from this [of ALGO_SLIDING_WINDOW_LOG] this [of ALGO_GCRA]
  show "sl_ring sl = sl_ring sl'" "sl_state sl = sl_state sl'"
    by (simp_all add: has_artifact_def algo_defs)
qed simp_all

subsection \<open>Weakest preconditions\<close>

definition wp :: "('s, 'a) effect \<Rightarrow> (error + 'a \<Rightarrow> 's \<Rightarrow> bool) \<Rightarrow> 's \<Rightarrow> bool" where
  "wp f Q s \<longleftrightarrow> (case f s of (r, s') \<Rightarrow> Q r s')"

lemma wp_simps [simp]:
  "wp (and_then f g) Q s \<longleftrightarrow> wp f (\<lambda>r s'. case r of Inl e \<Rightarrow> Q (Inl e) s' | Inr a \<Rightarrow> wp (g a) Q s') s"
  "wp (ok_of a) Q s \<longleftrightarrow> Q (Inr a) s"
  "wp (on_maps f) P t \<longleftrightarrow> wp f (\<lambda>r s'. P r (fst t, s')) (snd t)"
  "wp (in_journal h) R (j, x) \<longleftrightarrow> R (Inr ()) (h j, x)"
  by (auto simp: wp_def and_then_def ok_of_def on_maps_def in_journal_def modify_def split: prod.split sum.split)

lemma wp_last [simp]:
  "wp (last_install f) Q (j\<lparr>tj_installs := xs @ [x]\<rparr>, s) \<longleftrightarrow> Q (Inr ()) (j\<lparr>tj_installs := xs @ [f x]\<rparr>, s)"
  "wp (last_remove g) Q (j\<lparr>tj_removes := ys @ [y]\<rparr>, s) \<longleftrightarrow> Q (Inr ()) (j\<lparr>tj_removes := ys @ [g y]\<rparr>, s)"
  by (simp_all add: last_install_def last_remove_def last_mut_def)

lemma wp_steps:
  "wp (and_then (in_journal h) g) Q (j, s) \<longleftrightarrow> wp (g ()) Q (h j, s)"
  "wp (and_then (ok_of a) g') Q t \<longleftrightarrow> wp (g' a) Q t"
  "wp (and_then (and_then f g'') g3) Q t \<longleftrightarrow> wp (and_then f (\<lambda>a. and_then (g'' a) g3)) Q t"
  by (auto simp: wp_def and_then_def ok_of_def in_journal_def modify_def split: prod.splits sum.splits)

lemma wp_mono: "wp f Q s \<Longrightarrow> (\<And>r s'. Q r s' \<Longrightarrow> Q' r s') \<Longrightarrow> wp f Q' s"
  by (auto simp: wp_def split: prod.splits)

subsection \<open>The contracts\<close>

definition slots_safe :: "slots \<Rightarrow> bool" where
  "slots_safe v \<longleftrightarrow> (\<forall>k. slot_safe (v k))"

lemma slots_safe_upd: "slots_safe (v(k := sl)) \<Longrightarrow> slot_safe sl' \<Longrightarrow> slots_safe (v(k := sl'))"
  by (auto simp: slots_safe_def split: if_splits)

text \<open>
  An operation touches one slot: if it returns a value the slot is changed by \<open>g\<close>, if it
  fails nothing is changed; what the data path may have seen grows by the result at most.
\<close>

definition touches ::
  "('s \<Rightarrow> slots) \<Rightarrow> ('s \<Rightarrow> slots set) \<Rightarrow> ('s, 'a) effect \<Rightarrow> limit_key \<Rightarrow> (slot \<Rightarrow> slot) \<Rightarrow> bool" where
  "touches slots seen f k g \<longleftrightarrow>
     (\<forall>s. case f s of (r, s') \<Rightarrow>
        slots s' = (case r of Inl _ \<Rightarrow> slots s | Inr _ \<Rightarrow> (slots s)(k := g (slots s k)))
        \<and> seen s' \<subseteq> insert (slots s') (seen s))"

locale limit_maps =
  fixes m :: "'s limit_maps"
    and slots :: "'s \<Rightarrow> slots"
    and seen :: "'s \<Rightarrow> slots set"
  assumes get_touches: "touches slots seen (get_policy m k) k id"
    and get_value: "get_policy m k s = (Inr old, s') \<Longrightarrow> old = sl_policy (slots s k)"
    and arm_touches: "touches slots seen (arm_policy m k p) k (\<lambda>sl. sl\<lparr>sl_policy := Some p\<rparr>)"
    and disarm_touches: "touches slots seen (disarm_policy m k) k (\<lambda>sl. sl\<lparr>sl_policy := None\<rparr>)"
    and fresh_touches: "touches slots seen (write_fresh_state m k a) k (put_artifact True a)"
    and clear_touches: "touches slots seen (clear_state m k a) k (put_artifact False a)"
    and policer_touches: "touches slots seen (clear_policer m k) k id"
begin

definition all_safe :: "'s \<Rightarrow> bool" where
  "all_safe s \<longleftrightarrow> slots_safe (slots s) \<and> (\<forall>v \<in> seen s. slots_safe v)"

text \<open>The maps are as at \<open>s0\<close> but for the slot of \<open>k\<close>.\<close>

definition at :: "'s \<Rightarrow> limit_key \<Rightarrow> slot \<Rightarrow> 's \<Rightarrow> bool" where
  "at s0 k sl s \<longleftrightarrow> slots s = (slots s0)(k := sl) \<and> all_safe s"

lemma touch_at:
  assumes "touches slots seen f k g" "at s0 k sl s" "slot_safe (g sl)"
    and "\<And>e s'. at s0 k sl s' \<Longrightarrow> Q (Inl e) s'" "\<And>a s'. f s = (Inr a, s') \<Longrightarrow> at s0 k (g sl) s' \<Longrightarrow> Q (Inr a) s'"
  shows "wp f Q s"
proof -
  obtain r s' where f: "f s = (r, s')" by force
  have t: "slots s' = (case r of Inl _ \<Rightarrow> slots s | Inr _ \<Rightarrow> (slots s)(k := g (slots s k)))"
      "seen s' \<subseteq> insert (slots s') (seen s)"
    using spec [OF assms(1) [unfolded touches_def], of s] f by auto
  have old: "slots s = (slots s0)(k := sl)" "slots_safe ((slots s0)(k := sl))" "\<forall>v \<in> seen s. slots_safe v"
    using assms(2) by (auto simp: at_def all_safe_def)
  show ?thesis
  proof (cases r)
    case (Inl e)
    with t old have "at s0 k sl s'" by (auto simp: at_def all_safe_def)
    with assms(4) Inl f show ?thesis by (simp add: wp_def)
  next
    case (Inr a)
    with t old slots_safe_upd [OF old(2) assms(3)] have "at s0 k (g sl) s'" by (auto simp: at_def all_safe_def)
    with assms(5) Inr f show ?thesis by (simp add: wp_def)
  qed
qed

lemma get_at:
  assumes "at s0 k sl s" "slot_safe sl"
    and "\<And>e s'. at s0 k sl s' \<Longrightarrow> Q (Inl e) s'" "\<And>s'. at s0 k sl s' \<Longrightarrow> Q (Inr (sl_policy sl)) s'"
  shows "wp (get_policy m k) Q s"
  using assms(1)
proof (rule touch_at [OF get_touches])
  fix a s'
  assume "get_policy m k s = (Inr a, s')" "at s0 k (id sl) s'"
  moreover from this(1) get_value have "a = sl_policy (slots s k)" by blast
  ultimately show "Q (Inr a) s'" using assms(1,4) by (simp add: at_def)
qed (use assms in simp_all)

lemmas disarm_at = touch_at [OF disarm_touches]
lemmas arm_at = touch_at [OF arm_touches]
lemmas fresh_at = touch_at [OF fresh_touches]
lemmas clear_at = touch_at [OF clear_touches]
lemmas policer_at = touch_at [OF policer_touches]

subsection \<open>Installing and removing\<close>

definition installed ::
  "'s \<Rightarrow> limit_key \<Rightarrow> tx_journal \<Rightarrow> install_record \<Rightarrow> slot \<Rightarrow> 's tx \<Rightarrow> bool" where
  "installed s0 k j rec sl t \<longleftrightarrow>
     fst t = j\<lparr>tj_installs := tj_installs j @ [rec]\<rparr> \<and> ins_key rec = k
     \<and> install_pending rec (slots s0 k) sl \<and> at s0 k sl (snd t)"

definition install_ends :: "'s \<Rightarrow> limit_key \<Rightarrow> tx_journal \<Rightarrow> limit_policy \<Rightarrow> error + unit \<Rightarrow> 's tx \<Rightarrow> bool" where
  "install_ends s0 k j p r t \<longleftrightarrow>
     (\<exists>rec sl. installed s0 k j rec sl t
        \<and> (r = Inr () \<longrightarrow> sl_policy sl = Some p \<and> (slot_exact (slots s0 k) \<longrightarrow> slot_exact sl)))"

lemma install_endsI:
  assumes "at s0 k sl s" "ins_key rec = k" "install_pending rec (slots s0 k) sl"
    and "r = Inr () \<longrightarrow> sl_policy sl = Some p \<and> (slot_exact (slots s0 k) \<longrightarrow> slot_exact sl)"
  shows "install_ends s0 k j p r (j\<lparr>tj_installs := tj_installs j @ [rec]\<rparr>, s)"
  using assms by (auto simp: install_ends_def installed_def)

lemma put_artifact_new:
  "has_artifact (put_artifact True b sl) a \<Longrightarrow>
     has_artifact sl a \<or> (b = ALGO_SLIDING_WINDOW_LOG \<longleftrightarrow> a = ALGO_SLIDING_WINDOW_LOG)"
  by (auto simp: put_artifact_def has_artifact_def split: if_splits)

lemma put_artifact_old: "has_artifact (put_artifact False b sl) a \<Longrightarrow> has_artifact sl a"
  by (auto simp: put_artifact_def has_artifact_def split: if_splits)

lemma arm_stage:
  assumes "at s0 k sl s" "sl_policy sl = None" "ins_key rec = k" "ins_old rec = sl_policy (slots s0 k)"
    and "\<not> ins_armed rec" "ins_new_algorithm rec = None" "ins_old rec \<noteq> None \<longrightarrow> ins_old_disarmed rec"
    and "\<forall>a. has_artifact sl a \<longrightarrow> has_artifact (slots s0 k) a"
    and "slot_exact (slots s0 k) \<longrightarrow> (\<forall>a. has_artifact sl a \<longrightarrow>
      (a = ALGO_SLIDING_WINDOW_LOG \<longleftrightarrow> lp_algorithm p = ALGO_SLIDING_WINDOW_LOG))"
  shows "wp (and_then (on_maps (write_fresh_state m k (lp_algorithm p))) (\<lambda>_.
     and_then (last_install (\<lambda>rec. rec\<lparr>ins_new_algorithm := Some (lp_algorithm p)\<rparr>)) (\<lambda>_.
     and_then (on_maps (arm_policy m k p)) (\<lambda>_.
     last_install (\<lambda>rec. rec\<lparr>ins_armed := True\<rparr>))))) (install_ends s0 k j p)
     (j\<lparr>tj_installs := tj_installs j @ [rec]\<rparr>, s)"
proof -
  let ?sl = "put_artifact True (lp_algorithm p) sl"
  let ?rec = "rec\<lparr>ins_new_algorithm := Some (lp_algorithm p)\<rparr>"
  have before: "install_pending rec (slots s0 k) sl"
    using assms by (auto simp: install_pending_def)
  have written: "install_pending ?rec (slots s0 k) ?sl"
      "install_pending (?rec\<lparr>ins_armed := True\<rparr>) (slots s0 k) (?sl\<lparr>sl_policy := Some p\<rparr>)"
    using assms put_artifact_new [of "lp_algorithm p" sl] by (auto simp: install_pending_def)
  have exact: "slot_exact (slots s0 k) \<longrightarrow> slot_exact (?sl\<lparr>sl_policy := Some p\<rparr>)"
    using assms(9) by (auto simp: slot_exact_iff [of "?sl\<lparr>sl_policy := Some p\<rparr>"] has_artifact_put)
  have arm: "wp (arm_policy m k p) (\<lambda>r s'. case r of
        Inl e \<Rightarrow> install_ends s0 k j p (Inl e) (j\<lparr>tj_installs := tj_installs j @ [?rec]\<rparr>, s')
      | Inr _ \<Rightarrow> install_ends s0 k j p (Inr ())
          (j\<lparr>tj_installs := tj_installs j @ [?rec\<lparr>ins_armed := True\<rparr>]\<rparr>, s')) s'" if "at s0 k ?sl s'" for s'
    by (rule arm_at [OF that]) (use assms(3) written exact in \<open>auto intro!: install_endsI\<close>)
  have "wp (write_fresh_state m k (lp_algorithm p)) (\<lambda>r s'. case r of
        Inl e \<Rightarrow> install_ends s0 k j p (Inl e) (j\<lparr>tj_installs := tj_installs j @ [rec]\<rparr>, s')
      | Inr _ \<Rightarrow> wp (arm_policy m k p) (\<lambda>r s'. case r of
        Inl e \<Rightarrow> install_ends s0 k j p (Inl e) (j\<lparr>tj_installs := tj_installs j @ [?rec]\<rparr>, s')
      | Inr _ \<Rightarrow> install_ends s0 k j p (Inr ())
          (j\<lparr>tj_installs := tj_installs j @ [?rec\<lparr>ins_armed := True\<rparr>]\<rparr>, s')) s') s"
    by (rule fresh_at [OF assms(1)]) (use assms(2,3) before arm in \<open>auto intro!: install_endsI\<close>)
  then show ?thesis by (simp cong: sum.case_cong)
qed

lemma install_limit_outcome:
  assumes "all_safe s0"
  shows "wp (install_limit m k p) (\<lambda>r t.
      (fst t = j \<and> at s0 k (slots s0 k) (snd t) \<and> r \<noteq> Inr ()) \<or> install_ends s0 k j p r t) (j, s0)"
    (is "wp _ ?Q _")
proof -
  let ?sl = "slots s0 k"
  have start: "at s0 k ?sl s0" "slot_safe ?sl"
    using assms by (simp_all add: at_def all_safe_def slots_safe_def)
  let ?rec = "\<lambda>old. \<lparr>ins_key = k, ins_old = old, ins_old_disarmed = False, ins_new_algorithm = None,
    ins_armed = False\<rparr>"
  let ?j = "\<lambda>rec. j\<lparr>tj_installs := tj_installs j @ [rec]\<rparr>"
  let ?rest = "\<lambda>old. and_then (case old of
          None \<Rightarrow> ok_of ()
        | Some old \<Rightarrow>
            and_then (on_maps (disarm_policy m k)) (\<lambda>_.
            and_then (last_install (\<lambda>rec. rec\<lparr>ins_old_disarmed := True\<rparr>)) (\<lambda>_.
            if lp_algorithm old \<noteq> lp_algorithm p
            then on_maps (clear_state m k (lp_algorithm old)) else ok_of ()))) (\<lambda>_.
     and_then (on_maps (write_fresh_state m k (lp_algorithm p))) (\<lambda>_.
     and_then (last_install (\<lambda>rec. rec\<lparr>ins_new_algorithm := Some (lp_algorithm p)\<rparr>)) (\<lambda>_.
     and_then (on_maps (arm_policy m k p)) (\<lambda>_.
     last_install (\<lambda>rec. rec\<lparr>ins_armed := True\<rparr>)))))"
  have rest: "wp (?rest (sl_policy ?sl)) (install_ends s0 k j p) (?j (?rec (sl_policy ?sl)), s)"
    if "at s0 k ?sl s" for s
  proof (cases "sl_policy ?sl")
    case None
    then show ?thesis by (simp only: option.case wp_steps) (rule arm_stage [OF that], simp_all add: slot_exact_iff)
  next
    case (Some old)
    let ?rec' = "(?rec (Some old))\<lparr>ins_old_disarmed := True\<rparr>" and ?sl' = "?sl\<lparr>sl_policy := None\<rparr>"
    let ?tail = "and_then (on_maps (write_fresh_state m k (lp_algorithm p))) (\<lambda>_.
     and_then (last_install (\<lambda>rec. rec\<lparr>ins_new_algorithm := Some (lp_algorithm p)\<rparr>)) (\<lambda>_.
     and_then (on_maps (arm_policy m k p)) (\<lambda>_.
     last_install (\<lambda>rec. rec\<lparr>ins_armed := True\<rparr>))))"
    have tail: "wp ?tail (install_ends s0 k j p) (?j ?rec', s')"
      if "at s0 k sl s'" "sl_policy sl = None" "\<forall>a. has_artifact sl a \<longrightarrow> has_artifact ?sl a"
        "slot_exact ?sl \<longrightarrow> (\<forall>a. has_artifact sl a \<longrightarrow>
          (a = ALGO_SLIDING_WINDOW_LOG \<longleftrightarrow> lp_algorithm p = ALGO_SLIDING_WINDOW_LOG))" for sl s'
      by (rule arm_stage [OF that(1,2)]) (use that(3,4) Some in simp_all)
    have clear: "wp (and_then (if lp_algorithm old \<noteq> lp_algorithm p
            then on_maps (clear_state m k (lp_algorithm old)) else ok_of ()) (\<lambda>_. ?tail))
          (install_ends s0 k j p) (?j ?rec', s')" if "at s0 k ?sl' s'" for s'
    proof (cases "lp_algorithm old = lp_algorithm p")
      case True
      have "wp ?tail (install_ends s0 k j p) (?j ?rec', s')"
        by (rule tail [OF that]) (use True Some in \<open>auto simp: slot_exact_iff\<close>)
      then show ?thesis using True by (simp only: wp_steps if_False simp_thms)
    next
      case False
      have cleared: "wp ?tail (install_ends s0 k j p) (?j ?rec', s'')"
        if "at s0 k (put_artifact False (lp_algorithm old) ?sl') s''" for s''
        by (rule tail [OF that]) (use Some in \<open>auto simp: slot_exact_iff [of ?sl] has_artifact_put split: if_splits\<close>)
      have "wp (clear_state m k (lp_algorithm old)) (\<lambda>r s'. case r of
            Inl e \<Rightarrow> install_ends s0 k j p (Inl e) (?j ?rec', s')
          | Inr a \<Rightarrow> wp ?tail (install_ends s0 k j p) (?j ?rec', s')) s'"
        by (rule clear_at [OF that])
          (use that Some cleared in \<open>auto intro!: install_endsI simp: install_pending_def
            simp del: wp_simps\<close>)
      then show ?thesis using False by (simp only: wp_simps(1,3) if_True simp_thms fst_conv snd_conv)
    qed
    have "wp (disarm_policy m k) (\<lambda>r s'. case r of
            Inl e \<Rightarrow> install_ends s0 k j p (Inl e) (?j (?rec (Some old)), s')
          | Inr a \<Rightarrow> wp (and_then (if lp_algorithm old \<noteq> lp_algorithm p
            then on_maps (clear_state m k (lp_algorithm old)) else ok_of ()) (\<lambda>_. ?tail))
          (install_ends s0 k j p) (?j ?rec', s')) s"
      by (rule disarm_at [OF that]) (use clear Some in \<open>auto intro!: install_endsI simp: install_pending_def\<close>)
    then show ?thesis
      by (simp only: Some option.case wp_steps) (simp only: wp_simps(1,3) wp_last sum.case fst_conv snd_conv)
  qed
  have rest': "wp (?rest (sl_policy ?sl)) ?Q (?j (?rec (sl_policy ?sl)), s)" if "at s0 k ?sl s" for s
    by (rule wp_mono [OF rest [OF that]]) simp
  have "wp (get_policy m k) (\<lambda>r s'. case r of
        Inl e \<Rightarrow> ?Q (Inl e) (j, s') | Inr old \<Rightarrow> wp (?rest old) ?Q (?j (?rec old), s')) s0"
    by (rule get_at [OF start]) (use rest' in \<open>auto simp del: wp_simps\<close>)
  then show ?thesis
    unfolding install_limit_def by (simp only: wp_simps(1,3,4) sum.case fst_conv snd_conv)
qed

definition remove_ends :: "'s \<Rightarrow> limit_key \<Rightarrow> tx_journal \<Rightarrow> error + unit \<Rightarrow> 's tx \<Rightarrow> bool" where
  "remove_ends s0 k j r t \<longleftrightarrow>
     (\<exists>rec sl. fst t = j\<lparr>tj_removes := tj_removes j @ [rec]\<rparr> \<and> rem_key rec = k
        \<and> remove_pending rec (slots s0 k) sl \<and> at s0 k sl (snd t)
        \<and> (r = Inr () \<longrightarrow> sl_policy sl = None \<and> (slot_exact (slots s0 k) \<longrightarrow> slot_exact sl)))"

lemma remove_limit_outcome:
  assumes "all_safe s0"
  shows "wp (remove_limit m k) (\<lambda>r t.
      (fst t = j \<and> at s0 k (slots s0 k) (snd t) \<and> (r = Inr () \<longrightarrow> sl_policy (slots s0 k) = None))
      \<or> remove_ends s0 k j r t) (j, s0)"
    (is "wp _ ?Q _")
proof -
  let ?sl = "slots s0 k" and ?sl' = "(slots s0 k)\<lparr>sl_policy := None\<rparr>"
  have start: "at s0 k ?sl s0" "slot_safe ?sl"
    using assms by (simp_all add: at_def all_safe_def slots_safe_def)
  show ?thesis
  proof (cases "sl_policy ?sl")
    case None
    have "wp (get_policy m k) (\<lambda>r s'. case r of
        Inl e \<Rightarrow> ?Q (Inl e) (j, s') | Inr old \<Rightarrow> old = None \<and> ?Q (Inr ()) (j, s')) s0"
      by (rule get_at [OF start]) (use None in auto)
    then show ?thesis
      by (auto simp: remove_limit_def wp_def and_then_def on_maps_def ok_of_def split: prod.splits sum.splits)
  next
    case (Some old)
    let ?rec = "\<lparr>rem_key = k, rem_old = old, rem_disarmed = False\<rparr>"
    let ?j = "\<lambda>rec. j\<lparr>tj_removes := tj_removes j @ [rec]\<rparr>"
    let ?fin = "\<lambda>sl. put_artifact False (lp_algorithm old) sl"
    have ends: "remove_ends s0 k j r (?j rec, s)"
      if "rem_key rec = k" "remove_pending rec ?sl sl" "at s0 k sl s"
        "r = Inr () \<longrightarrow> sl_policy sl = None \<and> (slot_exact ?sl \<longrightarrow> slot_exact sl)" for r rec sl s
      using that unfolding remove_ends_def by auto
    have pending: "remove_pending ?rec ?sl ?sl" "remove_pending (?rec\<lparr>rem_disarmed := True\<rparr>) ?sl ?sl'"
        "remove_pending (?rec\<lparr>rem_disarmed := True\<rparr>) ?sl (?fin ?sl')"
      using Some by (auto simp: remove_pending_def dest: put_artifact_old)
    have exact: "slot_exact ?sl \<longrightarrow> slot_exact (?fin ?sl')"
      using Some by (auto simp: slot_exact_iff [of "_\<lparr>sl_policy := None\<rparr>"] slot_exact_iff [of ?sl] has_artifact_put)
    have policer: "wp (clear_policer m k) (\<lambda>r s'. remove_ends s0 k j r (?j (?rec\<lparr>rem_disarmed := True\<rparr>), s')) s"
      if "at s0 k (?fin ?sl') s" for s
      by (rule policer_at [OF that]) (use pending(3) exact in \<open>auto intro!: ends\<close>)
    have clear: "wp (clear_state m k (lp_algorithm old)) (\<lambda>r s'. case r of
          Inl e \<Rightarrow> remove_ends s0 k j (Inl e) (?j (?rec\<lparr>rem_disarmed := True\<rparr>), s')
        | Inr _ \<Rightarrow> wp (clear_policer m k) (\<lambda>r s'. remove_ends s0 k j r (?j (?rec\<lparr>rem_disarmed := True\<rparr>), s')) s') s"
      if "at s0 k ?sl' s" for s
      by (rule clear_at [OF that]) (use pending(2) policer in \<open>auto intro!: ends\<close>)
    have disarm: "wp (disarm_policy m k) (\<lambda>r s'. case r of
          Inl e \<Rightarrow> remove_ends s0 k j (Inl e) (?j ?rec, s')
        | Inr _ \<Rightarrow> wp (clear_state m k (lp_algorithm old)) (\<lambda>r s'. case r of
          Inl e \<Rightarrow> remove_ends s0 k j (Inl e) (?j (?rec\<lparr>rem_disarmed := True\<rparr>), s')
        | Inr _ \<Rightarrow> wp (clear_policer m k) (\<lambda>r s'. remove_ends s0 k j r (?j (?rec\<lparr>rem_disarmed := True\<rparr>), s')) s') s') s"
      if "at s0 k ?sl s" for s
      by (rule disarm_at [OF that]) (use pending(1) clear in \<open>auto intro!: ends\<close>)
    let ?rest = "and_then (on_maps (disarm_policy m k)) (\<lambda>_.
         and_then (last_remove (\<lambda>rec. rec\<lparr>rem_disarmed := True\<rparr>)) (\<lambda>_.
         and_then (on_maps (clear_state m k (lp_algorithm old))) (\<lambda>_.
         on_maps (clear_policer m k))))"
    have rest: "wp ?rest (remove_ends s0 k j) (?j ?rec, s)" if "at s0 k ?sl s" for s
      using disarm [OF that] by (simp cong: sum.case_cong)
    have "wp (get_policy m k) (\<lambda>r s'. case r of
        Inl e \<Rightarrow> ?Q (Inl e) (j, s') | Inr x \<Rightarrow> x = Some old \<and> wp ?rest ?Q (?j ?rec, s')) s0"
      by (rule get_at [OF start])
        (use Some rest in \<open>auto simp del: wp_simps intro: wp_mono [OF rest]\<close>)
    then show ?thesis
      by (auto simp: remove_limit_def wp_def and_then_def on_maps_def in_journal_def modify_def
          split: prod.splits sum.splits)
  qed
qed

subsection \<open>Rolling back\<close>

lemma touch_result:
  assumes "touches slots seen f k g" "at s0 k sl s" "slot_safe (g sl)" "f s = (r, s')"
  shows "at s0 k (case r of Inl _ \<Rightarrow> sl | Inr _ \<Rightarrow> g sl) s'"
proof -
  have "wp f (\<lambda>r s'. at s0 k (case r of Inl _ \<Rightarrow> sl | Inr _ \<Rightarrow> g sl) s') s"
    by (rule touch_at [OF assms(1-3)]) auto
  then show ?thesis by (simp add: wp_def assms(4))
qed

lemma at_self: "all_safe s \<Longrightarrow> at s k (slots s k) s"
  by (simp add: at_def)

lemma restore_policy_at:
  assumes "restore_policy m k old what (rep, s) = (ok, rep', s')" "at s0 k sl s"
  shows "\<exists>sl' fs. at s0 k sl' s' \<and> rr_failures rep' = rr_failures rep @ fs \<and> (ok \<longleftrightarrow> fs = [])
    \<and> (fs = [] \<longrightarrow> rep' = rep \<and> sl' = (put_artifact True (lp_algorithm old) sl)\<lparr>sl_policy := Some old\<rparr>)"
proof -
  have safe: "slot_safe sl" using assms(2) unfolding at_def all_safe_def slots_safe_def
    by (metis fun_upd_same)
  obtain r1 s1 where w: "write_fresh_state m k (lp_algorithm old) s = (r1, s1)" by force
  note at1 = touch_result [OF fresh_touches assms(2) slot_safe_put [OF safe] w]
  show ?thesis
  proof (cases r1)
    case (Inl e)
    with at1 assms(1) w show ?thesis by (auto simp: restore_policy_def fail_with_def)
  next
    case (Inr u)
    then have "at s0 k (put_artifact True (lp_algorithm old) sl) s1" using at1 by simp
    moreover obtain r2 s2 where a: "arm_policy m k old s1 = (r2, s2)" by force
    ultimately have at2: "at s0 k (case r2 of Inl _ \<Rightarrow> put_artifact True (lp_algorithm old) sl
        | Inr _ \<Rightarrow> (put_artifact True (lp_algorithm old) sl)\<lparr>sl_policy := Some old\<rparr>) s2"
      by (intro touch_result [OF arm_touches]) simp_all
    show ?thesis
    proof (cases r2)
      case e: (Inl e)
      with Inr at2 assms(1) w a show ?thesis by (auto simp: restore_policy_def fail_with_def)
    next
      case u2: (Inr u2)
      with Inr at2 assms(1) w a show ?thesis by (auto simp: restore_policy_def)
    qed
  qed
qed

text \<open>
  One step of a rollback: it touches one flow only, keeps the invariant, and adds its failures
  to the report; without a failure the flow has its old slot back.
\<close>

definition restores :: "limit_key \<Rightarrow> slot \<Rightarrow> rollback_report \<times> 's \<Rightarrow> rollback_report \<times> 's \<Rightarrow> bool" where
  "restores k sl0 rs rs' \<longleftrightarrow>
     (\<exists>sl fs. at (snd rs) k sl (snd rs') \<and> rr_failures (fst rs') = rr_failures (fst rs) @ fs
        \<and> (fs = [] \<and> slot_exact sl0 \<longrightarrow> sl = sl0))"

lemma rollback_install_restores:
  assumes "install_pending rec sl0 (slots s (ins_key rec))" "all_safe s"
  shows "restores (ins_key rec) sl0 (rep, s) (rollback_install m rec (rep, s))"
proof (cases "ins_old rec \<noteq> None \<and> \<not> ins_old_disarmed rec")
  case True
  with assms have "rollback_install m rec (rep, s) = (succeed (attempt rep), s)"
    by (auto simp: rollback_install_def install_pending_def Let_def)
  moreover have "slots s (ins_key rec) = sl0" using True assms(1) by (auto simp: install_pending_def)
  ultimately show ?thesis
    using at_self [OF assms(2), of "ins_key rec"] by (auto simp: restores_def succeed_def attempt_def)
next
  case False
  let ?k = "ins_key rec" and ?sl = "slots s (ins_key rec)"
  let ?rep = "attempt rep"
  have pending: "ins_old rec = sl_policy sl0" "ins_armed rec \<or> sl_policy ?sl = None"
    "\<And>a. has_artifact ?sl a \<Longrightarrow> has_artifact sl0 a
       \<or> (\<exists>b. ins_new_algorithm rec = Some b \<and> (b = ALGO_SLIDING_WINDOW_LOG \<longleftrightarrow> a = ALGO_SLIDING_WINDOW_LOG))"
    using assms(1) False by (auto simp: install_pending_def)
  obtain r1 s1 where r1: "(if ins_armed rec then disarm_policy m ?k s else (Inr (), s)) = (r1, s1)" by force
  show ?thesis
  proof (cases r1)
    case (Inl e)
    then have "disarm_policy m ?k s = (Inl e, s1)" using r1 by (simp split: if_splits)
    from touch_result [OF disarm_touches at_self [OF assms(2)] _ this] have "at s ?k ?sl s1" by simp
    moreover have "rollback_install m rec (rep, s) =
        (fail_with (Flow ?k) ''disarm new policy (kept new policy + state)'' e ?rep, s1)"
      by (simp only: rollback_install_def Let_def fst_conv snd_conv r1 Inl prod.case sum.case)
    ultimately show ?thesis by (auto simp: restores_def fail_with_def attempt_def)
  next
    case (Inr u)
    let ?sl1 = "?sl\<lparr>sl_policy := None\<rparr>"
    have at1: "at s ?k ?sl1 s1"
    proof (cases "ins_armed rec")
      case True
      then have "disarm_policy m ?k s = (Inr u, s1)" using r1 Inr by simp
      from touch_result [OF disarm_touches at_self [OF assms(2)] _ this] show ?thesis by simp
    next
      case False
      then have "?sl1 = ?sl" using pending(2) by simp
      then show ?thesis using r1 False at_self [OF assms(2), of ?k] by simp
    qed
    obtain r2 s2 where r2: "(case ins_new_algorithm rec of None \<Rightarrow> (Inr (), s1)
        | Some a \<Rightarrow> clear_state m ?k a s1) = (r2, s2)" by force
    define rep2 where "rep2 = (case r2 of Inr _ \<Rightarrow> ?rep | Inl e \<Rightarrow> fail_with (Flow ?k) ''clear new state'' e ?rep)"
    have "\<exists>sl2. at s ?k sl2 s2 \<and> sl_policy sl2 = None
      \<and> (\<forall>x. r2 = Inr x \<longrightarrow> (\<forall>a. has_artifact sl2 a \<longrightarrow> has_artifact sl0 a))"
    proof (cases "ins_new_algorithm rec")
      case None
      with r2 at1 pending(3) show ?thesis by (intro exI [of _ ?sl1]) auto
    next
      case (Some b)
      then have "clear_state m ?k b s1 = (r2, s2)" using r2 by simp
      from touch_result [OF clear_touches at1 _ this] have at2:
        "at s ?k (case r2 of Inl _ \<Rightarrow> ?sl1 | Inr _ \<Rightarrow> put_artifact False b ?sl1) s2" by simp
      with Some pending(3) show ?thesis
        by (intro exI [of _ "case r2 of Inl _ \<Rightarrow> ?sl1 | Inr _ \<Rightarrow> put_artifact False b ?sl1"])
          (auto simp: has_artifact_put split: sum.splits if_splits)
    qed
    then obtain sl2 where sl2: "at s ?k sl2 s2" "sl_policy sl2 = None"
      "\<And>x a. r2 = Inr x \<Longrightarrow> has_artifact sl2 a \<Longrightarrow> has_artifact sl0 a" by blast
    let ?fs2 = "case r2 of Inr _ \<Rightarrow> []
        | Inl e \<Rightarrow> [\<lparr>rf_target = Flow ?k, rf_op = ''clear new state'', rf_error = e\<rparr>]"
    have fs2: "rr_failures rep2 = rr_failures rep @ ?fs2"
      by (simp add: rep2_def fail_with_def attempt_def split: sum.split)
    show ?thesis
    proof (cases "ins_old rec")
      case None
      have "snd (rollback_install m rec (rep, s)) = s2"
        "rr_failures (fst (rollback_install m rec (rep, s))) = rr_failures rep2"
        by (simp_all only: rollback_install_def Let_def fst_conv snd_conv r1 Inr r2 None prod.case sum.case option.case)
          (auto simp: rep2_def succeed_def split: sum.split)
      moreover have "sl2 = sl0" if "r2 = Inr x" "slot_exact sl0" for x
        using that None pending(1) sl2 by (intro slot_eqI) (auto simp: slot_exact_iff)
      ultimately show ?thesis
        using sl2(1) fs2 unfolding restores_def by (intro exI [of _ sl2] exI [of _ ?fs2]) (auto split: sum.splits)
    next
      case (Some old)
      obtain ok rep3 s3 where r3: "restore_policy m ?k old ''re-arm old policy'' (rep2, s2) = (ok, rep3, s3)"
        by (metis prod_cases3)
      from restore_policy_at [OF r3 sl2(1)] obtain sl3 fs where sl3: "at s ?k sl3 s3"
        "rr_failures rep3 = rr_failures rep2 @ fs"
        "fs = [] \<Longrightarrow> sl3 = (put_artifact True (lp_algorithm old) sl2)\<lparr>sl_policy := Some old\<rparr>" by blast
      have "snd (rollback_install m rec (rep, s)) = s3"
        "rr_failures (fst (rollback_install m rec (rep, s))) = rr_failures rep3"
        using r3 False Some
        by (simp_all only: rollback_install_def Let_def fst_conv snd_conv r1 Inr r2 prod.case sum.case)
          (auto simp: rep2_def succeed_def split: sum.splits prod.splits)
      moreover have "sl3 = sl0" if "r2 = Inr x" "fs = []" "slot_exact sl0" for x
        using that Some pending(1) sl2(3) sl3(3)
        by (intro slot_eqI) (auto simp: slot_exact_iff has_artifact_put)
      ultimately show ?thesis
        using sl3(1,2) fs2 unfolding restores_def by (intro exI [of _ sl3] exI [of _ "?fs2 @ fs"]) (auto split: sum.splits)
    qed
  qed
qed

lemma rollback_remove_restores:
  assumes "remove_pending rec sl0 (slots s (rem_key rec))" "all_safe s"
  shows "restores (rem_key rec) sl0 (rep, s) (rollback_remove m rec (rep, s))"
proof (cases "rem_disarmed rec")
  case False
  with assms show ?thesis
    using at_self [OF assms(2), of "rem_key rec"]
    by (auto simp: rollback_remove_def remove_pending_def restores_def succeed_def attempt_def)
next
  case True
  let ?k = "rem_key rec" and ?sl = "slots s (rem_key rec)"
  obtain ok rep1 s1 where r: "restore_policy m ?k (rem_old rec) ''re-arm removed policy'' (attempt rep, s) = (ok, rep1, s1)"
    by (metis prod_cases3)
  from restore_policy_at [OF r at_self [OF assms(2)]] obtain sl1 fs where sl1: "at s ?k sl1 s1"
    "rr_failures rep1 = rr_failures (attempt rep) @ fs"
    "fs = [] \<Longrightarrow> sl1 = (put_artifact True (lp_algorithm (rem_old rec)) ?sl)\<lparr>sl_policy := Some (rem_old rec)\<rparr>"
    by blast
  have "snd (rollback_remove m rec (rep, s)) = s1"
    "rr_failures (fst (rollback_remove m rec (rep, s))) = rr_failures rep @ fs"
    using r True sl1(2) by (auto simp: rollback_remove_def Let_def succeed_def attempt_def)
  moreover have "sl1 = sl0" if "fs = []" "slot_exact sl0"
    using that True assms(1) sl1(3)
    by (intro slot_eqI) (auto simp: slot_exact_iff has_artifact_put remove_pending_def)
  ultimately show ?thesis using sl1(1) by (auto simp: restores_def)
qed

subsection \<open>Journals\<close>

definition tx_keys :: "tx_journal \<Rightarrow> limit_key list" where
  "tx_keys j = map ins_key (tj_installs j) @ map rem_key (tj_removes j)"

definition tx_inv :: "'s \<Rightarrow> 's tx \<Rightarrow> bool" where
  "tx_inv s0 t \<longleftrightarrow> all_safe (snd t) \<and> distinct (tx_keys (fst t))
     \<and> (\<forall>k. k \<notin> set (tx_keys (fst t)) \<longrightarrow> slots (snd t) k = slots s0 k)
     \<and> (\<forall>rec \<in> set (tj_installs (fst t)).
          install_pending rec (slots s0 (ins_key rec)) (slots (snd t) (ins_key rec)))
     \<and> (\<forall>rec \<in> set (tj_removes (fst t)).
          remove_pending rec (slots s0 (rem_key rec)) (slots (snd t) (rem_key rec)))"

lemma tx_inv_start: "all_safe s \<Longrightarrow> tx_inv s (tx_journal_default, s)"
  by (simp add: tx_inv_def tx_keys_def tx_journal_default_def)

text \<open>An action on a flow without a record, in a transaction.\<close>

definition tx_step :: "'s \<Rightarrow> limit_key \<Rightarrow> limit_policy option \<Rightarrow> 's tx \<Rightarrow> error + unit \<Rightarrow> 's tx \<Rightarrow> bool" where
  "tx_step s0 k target t r t' \<longleftrightarrow>
     tx_inv s0 t' \<and> set (tx_keys (fst t')) \<subseteq> insert k (set (tx_keys (fst t)))
     \<and> tj_wl_added (fst t') = tj_wl_added (fst t) \<and> tj_wl_removed (fst t') = tj_wl_removed (fst t)
     \<and> (\<forall>k'. k' \<noteq> k \<longrightarrow> slots (snd t') k' = slots (snd t) k')
     \<and> (r = Inr () \<longrightarrow> sl_policy (slots (snd t') k) = target
          \<and> (slot_exact (slots s0 k) \<longrightarrow> slot_exact (slots (snd t') k)))"

lemma at_slots: "at s k sl s' \<Longrightarrow> slots s' = (slots s)(k := sl) \<and> all_safe s'"
  by (simp add: at_def)

lemma tx_stepI:
  assumes "tx_inv s0 (j, s)" "k \<notin> set (tx_keys j)" "at s k sl s'"
    and "j' = j \<and> sl = slots s k
      \<or> (\<exists>rec. j' = j\<lparr>tj_installs := tj_installs j @ [rec]\<rparr> \<and> ins_key rec = k \<and> install_pending rec (slots s k) sl)
      \<or> (\<exists>rec. j' = j\<lparr>tj_removes := tj_removes j @ [rec]\<rparr> \<and> rem_key rec = k \<and> remove_pending rec (slots s k) sl)"
    and "r = Inr () \<longrightarrow> sl_policy sl = target \<and> (slot_exact (slots s k) \<longrightarrow> slot_exact sl)"
  shows "tx_step s0 k target (j, s) r (j', s')"
proof -
  have s': "slots s' = (slots s)(k := sl)" "all_safe s'" using assms(3) by (simp_all add: at_def)
  have same: "slots s k = slots s0 k" using assms(1,2) by (simp add: tx_inv_def)
  have not_k: "ins_key rec \<noteq> k" if "rec \<in> set (tj_installs j)" for rec
    using that assms(2) by (auto simp: tx_keys_def)
  have not_k': "rem_key rec \<noteq> k" if "rec \<in> set (tj_removes j)" for rec
    using that assms(2) by (auto simp: tx_keys_def)
  note inv = assms(1) [unfolded tx_inv_def fst_conv snd_conv]
  from assms(4) have "tx_inv s0 (j', s') \<and> set (tx_keys j') \<subseteq> insert k (set (tx_keys j))
      \<and> tj_wl_added j' = tj_wl_added j \<and> tj_wl_removed j' = tj_wl_removed j"
    using inv s' same not_k not_k' assms(2) unfolding tx_inv_def fst_conv snd_conv
    by (elim disjE exE conjE) (auto simp: tx_keys_def)
  with s' assms(5) same show ?thesis by (auto simp: tx_step_def)
qed

lemma install_limit_tx:
  assumes "tx_inv s0 (j, s)" "k \<notin> set (tx_keys j)"
  shows "wp (install_limit m k p) (tx_step s0 k (Some p) (j, s)) (j, s)"
proof (rule wp_mono [OF install_limit_outcome [where j = j]])
  show safe: "all_safe s" using assms(1) by (simp add: tx_inv_def)
  fix r and t :: "'s tx"
  obtain j' s' where t: "t = (j', s')" by force
  assume "(fst t = j \<and> at s k (slots s k) (snd t) \<and> r \<noteq> Inr ()) \<or> install_ends s k j p r t"
  then show "tx_step s0 k (Some p) (j, s) r t"
    unfolding t install_ends_def installed_def
    by (elim disjE exE conjE; intro tx_stepI [OF assms]) auto
qed

lemma remove_limit_tx:
  assumes "tx_inv s0 (j, s)" "k \<notin> set (tx_keys j)"
  shows "wp (remove_limit m k) (tx_step s0 k None (j, s)) (j, s)"
proof (rule wp_mono [OF remove_limit_outcome [where j = j]])
  show safe: "all_safe s" using assms(1) by (simp add: tx_inv_def)
  fix r and t :: "'s tx"
  obtain j' s' where t: "t = (j', s')" by force
  assume "(fst t = j \<and> at s k (slots s k) (snd t) \<and> (r = Inr () \<longrightarrow> sl_policy (slots s k) = None))
      \<or> remove_ends s k j r t"
  then show "tx_step s0 k None (j, s) r t"
    unfolding t remove_ends_def
    by (elim disjE exE conjE; intro tx_stepI [OF assms]) auto
qed

text \<open>A pass of the rollback over records with distinct keys.\<close>

definition restored :: "'s \<Rightarrow> limit_key set \<Rightarrow> rollback_report \<times> 's \<Rightarrow> rollback_report \<times> 's \<Rightarrow> bool" where
  "restored s0 ks rs rs' \<longleftrightarrow>
     all_safe (snd rs') \<and> (\<forall>k. k \<notin> ks \<longrightarrow> slots (snd rs') k = slots (snd rs) k)
     \<and> (\<exists>fs. rr_failures (fst rs') = rr_failures (fst rs) @ fs
         \<and> (fs = [] \<longrightarrow> (\<forall>k \<in> ks. slot_exact (slots s0 k) \<longrightarrow> slots (snd rs') k = slots s0 k)))"

lemma fold_restores:
  assumes step: "\<And>rec rep s. P rec (slots s0 (key rec)) (slots s (key rec)) \<Longrightarrow> all_safe s \<Longrightarrow>
      restores (key rec) (slots s0 (key rec)) (rep, s) (step rec (rep, s))"
    and "distinct (map key recs)" "\<forall>rec \<in> set recs. P rec (slots s0 (key rec)) (slots (snd rs) (key rec))"
    and "all_safe (snd rs)"
  shows "restored s0 (key ` set recs) rs (fold step recs rs)"
  using assms(2-4)
proof (induction recs arbitrary: rs)
  case Nil
  then show ?case by (simp add: restored_def)
next
  case (Cons rec recs)
  let ?k = "key rec" and ?rs = "step rec rs"
  from Cons.prems step [of rec "snd rs" "fst rs"] obtain sl fs where
    r: "at (snd rs) ?k sl (snd ?rs)" "rr_failures (fst ?rs) = rr_failures (fst rs) @ fs"
      "fs = [] \<and> slot_exact (slots s0 ?k) \<longrightarrow> sl = slots s0 ?k"
    by (auto simp: restores_def)
  have slots1: "slots (snd ?rs) = (slots (snd rs))(?k := sl)" and safe1: "all_safe (snd ?rs)"
    using r(1) by (simp_all add: at_def)
  have "restored s0 (key ` set recs) ?rs (fold step recs ?rs)"
  proof (rule Cons.IH)
    show "\<forall>x \<in> set recs. P x (slots s0 (key x)) (slots (snd ?rs) (key x))"
    proof
      fix x assume x: "x \<in> set recs"
      then have "key x \<noteq> ?k" using Cons.prems(1) by (metis distinct.simps(2) image_eqI list.map(2) set_map)
      with x Cons.prems(2) show "P x (slots s0 (key x)) (slots (snd ?rs) (key x))" by (simp add: slots1)
    qed
  qed (use Cons.prems safe1 in auto)
  then obtain fs' where rest: "all_safe (snd (fold step recs ?rs))"
      "\<And>k. k \<notin> key ` set recs \<Longrightarrow> slots (snd (fold step recs ?rs)) k = slots (snd ?rs) k"
      "rr_failures (fst (fold step recs ?rs)) = rr_failures (fst ?rs) @ fs'"
      "fs' = [] \<Longrightarrow> \<forall>k \<in> key ` set recs. slot_exact (slots s0 k) \<longrightarrow> slots (snd (fold step recs ?rs)) k = slots s0 k"
    unfolding restored_def by blast
  have new: "?k \<notin> key ` set recs" using Cons.prems(1) by auto
  show ?case
    unfolding restored_def
  proof (intro conjI allI impI exI [of _ "fs @ fs'"])
    show "all_safe (snd (fold step (rec # recs) rs))" using rest(1) by simp
    show "rr_failures (fst (fold step (rec # recs) rs)) = rr_failures (fst rs) @ fs @ fs'"
      using rest(3) r(2) by simp
    show "slots (snd (fold step (rec # recs) rs)) k = slots (snd rs) k" if "k \<notin> key ` set (rec # recs)" for k
      using that rest(2) [of k] by (simp add: slots1)
    show "\<forall>k \<in> key ` set (rec # recs). slot_exact (slots s0 k) \<longrightarrow>
        slots (snd (fold step (rec # recs) rs)) k = slots s0 k" if "fs @ fs' = []"
      using that rest(2) [OF new] rest(4) r(3) by (auto simp: slots1)
  qed
qed

lemma restored_trans:
  assumes "restored s0 ks rs rs'" "restored s0 ks' rs' rs''" "ks \<inter> ks' = {}"
  shows "restored s0 (ks \<union> ks') rs rs''"
proof -
  obtain fs fs' where f: "rr_failures (fst rs') = rr_failures (fst rs) @ fs"
      "fs = [] \<Longrightarrow> \<forall>k \<in> ks. slot_exact (slots s0 k) \<longrightarrow> slots (snd rs') k = slots s0 k"
      "rr_failures (fst rs'') = rr_failures (fst rs') @ fs'"
      "fs' = [] \<Longrightarrow> \<forall>k \<in> ks'. slot_exact (slots s0 k) \<longrightarrow> slots (snd rs'') k = slots s0 k"
    using assms(1,2) unfolding restored_def by blast
  have frame: "\<And>k. k \<notin> ks \<Longrightarrow> slots (snd rs') k = slots (snd rs) k"
      "\<And>k. k \<notin> ks' \<Longrightarrow> slots (snd rs'') k = slots (snd rs') k" and "all_safe (snd rs'')"
    using assms(1,2) unfolding restored_def by blast+
  moreover have "fs @ fs' = [] \<longrightarrow> (\<forall>k \<in> ks \<union> ks'. slot_exact (slots s0 k) \<longrightarrow> slots (snd rs'') k = slots s0 k)"
    using f(2,4) frame(2) assms(3) by (metis Int_iff Un_iff append_is_Nil_conv empty_iff)
  ultimately show ?thesis
    unfolding restored_def using f(1,3) by auto
qed

text \<open>The limit half of a rollback.\<close>

lemma rollback_limits:
  assumes "tx_inv s0 (j, s)"
  shows "restored s0 (set (tx_keys j)) (rep, s)
    (fold (rollback_remove m) (rev (tj_removes j)) (fold (rollback_install m) (rev (tj_installs j)) (rep, s)))"
proof -
  note inv = assms [unfolded tx_inv_def fst_conv snd_conv]
  let ?rs = "fold (rollback_install m) (rev (tj_installs j)) (rep, s)"
  have dist: "distinct (map ins_key (rev (tj_installs j)))" "distinct (map rem_key (rev (tj_removes j)))"
      "ins_key ` set (tj_installs j) \<inter> rem_key ` set (tj_removes j) = {}"
    using inv by (auto simp: tx_keys_def rev_map [symmetric])
  have first: "restored s0 (ins_key ` set (tj_installs j)) (rep, s) ?rs"
    using fold_restores [where P = install_pending and key = ins_key and step = "rollback_install m"
        and recs = "rev (tj_installs j)" and rs = "(rep, s)", OF rollback_install_restores dist(1)] inv
    by simp
  have safe: "all_safe (snd ?rs)" using first by (simp add: restored_def)
  have kept: "slots (snd ?rs) (rem_key rec) = slots s (rem_key rec)" if "rec \<in> set (tj_removes j)" for rec
  proof -
    have "rem_key rec \<notin> ins_key ` set (tj_installs j)" using dist(3) that by blast
    with first show ?thesis unfolding restored_def by simp
  qed
  have "restored s0 (rem_key ` set (tj_removes j)) ?rs (fold (rollback_remove m) (rev (tj_removes j)) ?rs)"
    using fold_restores [where P = remove_pending and key = rem_key and step = "rollback_remove m"
        and recs = "rev (tj_removes j)" and rs = ?rs, OF rollback_remove_restores dist(2)] inv safe kept
    by simp
  from restored_trans [OF first this dist(3)] show ?thesis by (simp add: tx_keys_def)
qed

end

subsection \<open>With the whitelist\<close>

locale tx_maps = limit_maps m slots seen
  for m :: "'s limit_maps" and slots :: "'s \<Rightarrow> slots" and seen :: "'s \<Rightarrow> slots set" +
  fixes w :: "'s whitelist_ops"
    and wl :: "'s \<Rightarrow> cidr set"
  assumes wl_insert_law: "wl_insert w c s = (r, s') \<Longrightarrow>
      wl s' = (case r of Inl _ \<Rightarrow> wl s | Inr _ \<Rightarrow> insert c (wl s))
      \<and> slots s' = slots s \<and> seen s' \<subseteq> insert (slots s') (seen s)"
    and wl_remove_law: "wl_remove w c s = (r, s') \<Longrightarrow>
      wl s' = (case r of Inl _ \<Rightarrow> wl s | Inr _ \<Rightarrow> wl s - {c})
      \<and> slots s' = slots s \<and> seen s' \<subseteq> insert (slots s') (seen s)"
    and maps_keep_wl: "wl (snd (get_policy m k s)) = wl s" "wl (snd (arm_policy m k p s)) = wl s"
      "wl (snd (disarm_policy m k s)) = wl s" "wl (snd (write_fresh_state m k a s)) = wl s"
      "wl (snd (clear_state m k a s)) = wl s" "wl (snd (clear_policer m k s)) = wl s"
begin

definition keeps :: "('s tx, 'a) effect \<Rightarrow> bool" where
  "keeps f \<longleftrightarrow> (\<forall>t. wl (snd (snd (f t))) = wl (snd t))"

lemma keeps_and_then: "keeps f \<Longrightarrow> (\<And>a. keeps (g a)) \<Longrightarrow> keeps (and_then f g)"
  by (auto simp: keeps_def and_then_def split: prod.split sum.split) (metis snd_conv)+

lemma keeps_simps [simp]:
  "keeps (ok_of a)" "keeps (in_journal h)" "keeps (last_install h1)" "keeps (last_remove h2)"
  by (simp_all add: keeps_def ok_of_def in_journal_def modify_def last_install_def last_remove_def
      split: prod.split)

lemma keeps_ops [simp]:
  "keeps (on_maps (get_policy m k))" "keeps (on_maps (arm_policy m k p))" "keeps (on_maps (disarm_policy m k))"
  "keeps (on_maps (write_fresh_state m k a))" "keeps (on_maps (clear_state m k a))" "keeps (on_maps (clear_policer m k))"
  by (auto simp: keeps_def on_maps_def split: prod.split) (metis maps_keep_wl snd_conv)+

lemma keeps_actions: "keeps (install_limit m k p)" "keeps (remove_limit m k)"
  by (auto simp: install_limit_def remove_limit_def intro!: keeps_and_then split: option.split)

lemma restore_policy_keeps: "wl (snd (snd (restore_policy m k old what rs))) = wl (snd rs)"
  using maps_keep_wl(4) [of k "lp_algorithm old" "snd rs"]
    maps_keep_wl(2) [of k old "snd (write_fresh_state m k (lp_algorithm old) (snd rs))"]
  by (auto simp: restore_policy_def split: prod.splits sum.splits)

lemma rollback_install_keeps: "wl (snd (rollback_install m rec rs)) = wl (snd rs)"
proof -
  obtain r1 s1 where r1: "(if ins_armed rec then disarm_policy m (ins_key rec) (snd rs) else (Inr (), snd rs)) = (r1, s1)"
    by force
  have 1: "wl s1 = wl (snd rs)"
    using r1 maps_keep_wl(3) [of "ins_key rec" "snd rs"] by (auto split: if_splits)
  obtain r2 s2 where r2: "(case ins_new_algorithm rec of None \<Rightarrow> (Inr (), s1)
      | Some a \<Rightarrow> clear_state m (ins_key rec) a s1) = (r2, s2)" by force
  have 2: "wl s2 = wl s1"
    using r2 maps_keep_wl(5) [of "ins_key rec" "the (ins_new_algorithm rec)" s1] by (auto split: option.splits)
  have 3: "wl (snd (snd (if \<not> ins_old_disarmed rec then (True, rep, s2)
      else restore_policy m (ins_key rec) old what (rep, s2)))) = wl s2" for old what rep
    by (simp add: restore_policy_keeps)
  show ?thesis
    by (simp only: rollback_install_def Let_def r1 r2 prod.case)
      (auto simp: 1 2 restore_policy_keeps [of _ _ _ "(_, s2)", simplified] split: sum.split option.split prod.splits
        dest: arg_cong [of _ _ "\<lambda>x. wl (snd (snd x))"])
qed

lemma rollback_remove_keeps: "wl (snd (rollback_remove m rec rs)) = wl (snd rs)"
proof -
  obtain ok rep s where r: "restore_policy m (rem_key rec) (rem_old rec) ''re-arm removed policy''
      (attempt (fst rs), snd rs) = (ok, rep, s)" by (metis prod_cases3)
  have "wl s = wl (snd rs)"
    using restore_policy_keeps [of "rem_key rec" "rem_old rec" "''re-arm removed policy''" "(attempt (fst rs), snd rs)"]
    by (simp add: r)
  then show ?thesis by (simp add: rollback_remove_def Let_def r)
qed

lemma rollback_installs_keep: "wl (snd (fold (rollback_install m) recs rs)) = wl (snd rs)"
  by (induction recs arbitrary: rs) (simp_all add: rollback_install_keeps)

lemma rollback_removes_keep: "wl (snd (fold (rollback_remove m) recs rs)) = wl (snd rs)"
  by (induction recs arbitrary: rs) (simp_all add: rollback_remove_keeps)

text \<open>A pass over prefixes.\<close>

lemma prefix_fold:
  assumes law: "\<And>c s r s'. f c s = (r, s') \<Longrightarrow>
      wl s' = (case r of Inl _ \<Rightarrow> wl s | Inr _ \<Rightarrow> g c (wl s)) \<and> slots s' = slots s \<and> seen s' \<subseteq> insert (slots s') (seen s)"
    and "all_safe (snd rs)"
  shows "all_safe (snd (fold (rollback_prefix f what) cs rs))
    \<and> slots (snd (fold (rollback_prefix f what) cs rs)) = slots (snd rs)
    \<and> (\<exists>fs. rr_failures (fst (fold (rollback_prefix f what) cs rs)) = rr_failures (fst rs) @ fs
         \<and> (fs = [] \<longrightarrow> wl (snd (fold (rollback_prefix f what) cs rs)) = fold g cs (wl (snd rs))))"
  using assms(2)
proof (induction cs arbitrary: rs)
  case (Cons c cs)
  obtain r s' where f: "f c (snd rs) = (r, s')" by force
  note l = law [OF f]
  let ?rs = "rollback_prefix f what c rs"
  have rs': "snd ?rs = s'" and fs: "rr_failures (fst ?rs) = rr_failures (fst rs) @ (case r of
      Inl e \<Rightarrow> [\<lparr>rf_target = Prefix c, rf_op = what, rf_error = e\<rparr>] | Inr _ \<Rightarrow> [])"
    by (auto simp: rollback_prefix_def Let_def f attempt_def succeed_def fail_with_def split: sum.split)
  have safe: "all_safe s'" using l Cons.prems unfolding all_safe_def by auto
  show ?case
  proof (cases r)
    case (Inl e)
    with Cons.IH [of ?rs] safe l rs' fs show ?thesis by auto
  next
    case (Inr u)
    with Cons.IH [of ?rs] safe l rs' fs show ?thesis by auto
  qed
qed simp

lemma fold_insert_set: "fold insert cs A = A \<union> set cs"
  by (induction cs arbitrary: A) auto

lemma fold_remove_set: "fold (\<lambda>c A. A - {c}) cs A = A - set cs"
  by (induction cs arbitrary: A) auto

definition wl_journal :: "'s \<Rightarrow> 's tx \<Rightarrow> bool" where
  "wl_journal s0 t \<longleftrightarrow>
     wl (snd t) = (wl s0 - set (tj_wl_removed (fst t))) \<union> set (tj_wl_added (fst t))
     \<and> set (tj_wl_added (fst t)) \<inter> wl s0 = {} \<and> set (tj_wl_removed (fst t)) \<subseteq> wl s0"

text \<open>
  The two promises: the invariant holds whatever fails, and a rollback whose report is clean
  has restored the maps.
\<close>

lemma rollback_restores:
  assumes "tx_inv s0 (j, s)" "wl_journal s0 (j, s)" "rollback_journal m w j s = (report, s')"
  shows "all_safe s' \<and> (rr_dataplane_consistent report \<longleftrightarrow> rr_failures report = [])
    \<and> (rr_dataplane_consistent report \<longrightarrow> wl s' = wl s0
        \<and> ((\<forall>k. slot_exact (slots s0 k)) \<longrightarrow> slots s' = slots s0))"
proof -
  let ?rs0 = "(rollback_report_default, s)"
  let ?rs1 = "fold (rollback_install m) (rev (tj_installs j)) ?rs0"
  let ?rs2 = "fold (rollback_remove m) (rev (tj_removes j)) ?rs1"
  let ?rs3 = "fold (rollback_prefix (wl_insert w) ''re-add whitelist prefix'') (rev (tj_wl_removed j)) ?rs2"
  let ?rs4 = "fold (rollback_prefix (wl_remove w) ''remove whitelist prefix'') (rev (tj_wl_added j)) ?rs3"
  have limits: "restored s0 (set (tx_keys j)) ?rs0 ?rs2" by (rule rollback_limits [OF assms(1)])
  then obtain fs where safe2: "all_safe (snd ?rs2)"
    and frame: "\<And>k. k \<notin> set (tx_keys j) \<Longrightarrow> slots (snd ?rs2) k = slots s k"
    and fs: "rr_failures (fst ?rs2) = fs"
    and backed: "fs = [] \<Longrightarrow> \<forall>k \<in> set (tx_keys j). slot_exact (slots s0 k) \<longrightarrow> slots (snd ?rs2) k = slots s0 k"
    unfolding restored_def by (auto simp: rollback_report_default_def)
  have wl2: "wl (snd ?rs2) = wl s" by (simp add: rollback_installs_keep rollback_removes_keep)
  have added: "all_safe (snd ?rs3) \<and> slots (snd ?rs3) = slots (snd ?rs2)
    \<and> (\<exists>fs'. rr_failures (fst ?rs3) = rr_failures (fst ?rs2) @ fs'
         \<and> (fs' = [] \<longrightarrow> wl (snd ?rs3) = fold insert (rev (tj_wl_removed j)) (wl (snd ?rs2))))"
    by (rule prefix_fold [OF wl_insert_law safe2])
  then obtain fs3 where p3: "all_safe (snd ?rs3)" "slots (snd ?rs3) = slots (snd ?rs2)"
      "rr_failures (fst ?rs3) = fs @ fs3" "fs3 = [] \<Longrightarrow> wl (snd ?rs3) = wl s \<union> set (tj_wl_removed j)"
    by (auto simp: fs wl2 fold_insert_set)
  have "all_safe (snd ?rs4) \<and> slots (snd ?rs4) = slots (snd ?rs3)
    \<and> (\<exists>fs'. rr_failures (fst ?rs4) = rr_failures (fst ?rs3) @ fs'
         \<and> (fs' = [] \<longrightarrow> wl (snd ?rs4) = fold (\<lambda>c A. A - {c}) (rev (tj_wl_added j)) (wl (snd ?rs3))))"
    by (rule prefix_fold [OF wl_remove_law p3(1)])
  then obtain fs4 where p4: "all_safe (snd ?rs4)" "slots (snd ?rs4) = slots (snd ?rs3)"
      "rr_failures (fst ?rs4) = fs @ fs3 @ fs4"
      "fs4 = [] \<Longrightarrow> wl (snd ?rs4) = wl (snd ?rs3) - set (tj_wl_added j)"
    by (auto simp: p3(3) fold_remove_set)
  have end4: "s' = snd ?rs4" "rr_failures report = fs @ fs3 @ fs4"
      "rr_dataplane_consistent report \<longleftrightarrow> rr_failures report = []"
    using assms(3) p4(3) by (auto simp: rollback_journal_def Let_def split: prod.splits)
  have "wl s' = wl s0" if "fs @ fs3 @ fs4 = []"
    using that p3(4) p4(4) assms(2) end4(1) by (auto simp: wl_journal_def)
  moreover have "slots s' = slots s0" if "fs @ fs3 @ fs4 = []" "\<forall>k. slot_exact (slots s0 k)"
  proof
    fix k
    show "slots s' k = slots s0 k"
      using that backed frame [of k] assms(1) p3(2) p4(2) end4(1)
      by (cases "k \<in> set (tx_keys j)") (auto simp: tx_inv_def)
  qed
  ultimately show ?thesis using p4(1) end4 by auto
qed

end

end
