(* ===== verification/Engine_Maps.thy ===== *)
theory Engine_Maps
  imports Datapath Tx_Safety
begin

section \<open>Engine\_Maps: the daemon's access to the BPF maps\<close>

text \<open>
  \<open>EngineMaps\<close>, \<open>EngineWhitelist\<close>, \<open>trie_key\<close>, \<open>map_gone\<close>, \<open>key_already_absent\<close> and
  \<open>remove_counter_keys\<close> of \<open>vm-bandwidth/src/daemon.rs\<close>, on a world in which the data path
  runs beside the daemon: after every system call the classifiers of \<open>Datapath\<close> handle the
  frames that arrive, on the same maps. The kernel may refuse any call; a call that is not
  refused does what the BPF map operation is documented to do. The text of a \<open>MapError\<close> is
  aya's and comes from the parameter \<open>describe\<close>.
\<close>

subsection \<open>Map errors\<close>

datatype io_kind = NotFound | OtherKind

datatype map_error =
    KeyNotFound
  | ElementNotFound
  | SyscallError io_kind string
  | IoError io_kind string
  | OtherError string

definition key_already_absent :: "map_error \<Rightarrow> bool" where
  "key_already_absent e =
     (case e of
        KeyNotFound \<Rightarrow> True
      | ElementNotFound \<Rightarrow> True
      | SyscallError kind _ \<Rightarrow> kind = NotFound
      | IoError kind _ \<Rightarrow> kind = NotFound
      | _ \<Rightarrow> False)"

definition map_gone :: "(map_error \<Rightarrow> error) \<Rightarrow> map_error + unit \<Rightarrow> error + unit" where
  "map_gone describe r =
     (case r of
        Inr _ \<Rightarrow> Inr ()
      | Inl KeyNotFound \<Rightarrow> Inr ()
      | Inl (SyscallError kind msg) \<Rightarrow>
          if kind = NotFound then Inr () else Inl (describe (SyscallError kind msg))
      | Inl e \<Rightarrow> Inl (describe e))"

definition into_error :: "(map_error \<Rightarrow> error) \<Rightarrow> map_error + 'a \<Rightarrow> error + 'a" where
  "into_error describe r = (case r of Inl e \<Rightarrow> Inl (describe e) | Inr a \<Rightarrow> Inr a)"

subsection \<open>The world\<close>

text \<open>\<open>wo_refused\<close> says of the \<open>n\<close>th system call whether the kernel refuses it, \<open>wo_frames\<close> which
  frames arrive before the next one, and \<open>wo_met\<close> collects the states these frames met.\<close>

record world =
  wo_maps :: dp_state
  wo_calls :: nat
  wo_refused :: "nat \<Rightarrow> string option"
  wo_frames :: "nat \<Rightarrow> event list"
  wo_met :: "dp_state list"

fun handle_all :: "(trie \<Rightarrow> u32 \<Rightarrow> bool) \<Rightarrow> event list \<Rightarrow> dp_state \<Rightarrow> dp_state list \<times> dp_state" where
  "handle_all lpm [] s = ([], s)"
| "handle_all lpm ((e, ctx, is_tx) # evs) s =
     (let (met, s') = handle_all lpm evs (snd (handle lpm e ctx is_tx s)) in (s # met, s'))"

definition let_frames :: "(trie \<Rightarrow> u32 \<Rightarrow> bool) \<Rightarrow> event list \<Rightarrow> world \<Rightarrow> world" where
  "let_frames lpm evs w =
     (let (met, s) = handle_all lpm evs (wo_maps w)
      in w\<lparr>wo_maps := s, wo_met := wo_met w @ met\<rparr>)"

definition syscall :: "(trie \<Rightarrow> u32 \<Rightarrow> bool) \<Rightarrow> (dp_state \<Rightarrow> (map_error + 'a) \<times> dp_state) \<Rightarrow> world
    \<Rightarrow> (map_error + 'a) \<times> world" where
  "syscall lpm f w =
     (let n = wo_calls w;
          (r, s) = (case wo_refused w n of
              Some msg \<Rightarrow> (Inl (SyscallError OtherKind msg), wo_maps w)
            | None \<Rightarrow> f (wo_maps w))
      in (r, let_frames lpm (wo_frames w n) (w\<lparr>wo_maps := s, wo_calls := Suc n\<rparr>)))"

text \<open>Lookup, insertion and deletion of one key.\<close>

definition map_get :: "('k \<rightharpoonup> 'v) \<Rightarrow> 'k \<Rightarrow> map_error + 'v" where
  "map_get m k = (case m k of None \<Rightarrow> Inl KeyNotFound | Some v \<Rightarrow> Inr v)"

definition map_remove :: "('k \<rightharpoonup> 'v) \<Rightarrow> 'k \<Rightarrow> (map_error + unit) \<times> ('k \<rightharpoonup> 'v)" where
  "map_remove m k =
     (case m k of None \<Rightarrow> (Inl (SyscallError NotFound ''bpf_map_delete_elem''), m)
      | Some _ \<Rightarrow> (Inr (), m(k := None)))"

subsection \<open>EngineMaps\<close>

definition engine_maps :: "(trie \<Rightarrow> u32 \<Rightarrow> bool) \<Rightarrow> (map_error \<Rightarrow> error) \<Rightarrow> world limit_maps" where
  "engine_maps lpm describe =
     \<lparr>get_policy = (\<lambda>key w.
        apfst (\<lambda>r. case r of Inr p \<Rightarrow> Inr (Some p) | Inl KeyNotFound \<Rightarrow> Inr None | Inl e \<Rightarrow> Inl (describe e))
          (syscall lpm (\<lambda>s. (map_get (dp_policies s) key, s)) w)),
      arm_policy = (\<lambda>key policy w.
        apfst (into_error describe)
          (syscall lpm (\<lambda>s. (Inr (), s\<lparr>dp_policies := (dp_policies s)(key \<mapsto> policy)\<rparr>)) w)),
      disarm_policy = (\<lambda>key w.
        apfst (map_gone describe)
          (syscall lpm (\<lambda>s. apsnd (\<lambda>m. s\<lparr>dp_policies := m\<rparr>) (map_remove (dp_policies s) key)) w)),
      write_fresh_state = (\<lambda>key algorithm w.
        if algorithm = ALGO_SLIDING_WINDOW_LOG then
          apfst (into_error describe)
            (syscall lpm (\<lambda>s. (Inr (), s\<lparr>dp_swl_log := (dp_swl_log s)(key \<mapsto> swl_ring_default)\<rparr>)) w)
        else
          apfst (into_error describe)
            (syscall lpm (\<lambda>s. (Inr (), s\<lparr>dp_limit_state := (dp_limit_state s)(key \<mapsto> limit_state_default)\<rparr>)) w)),
      clear_state = (\<lambda>key algorithm w.
        if algorithm = ALGO_SLIDING_WINDOW_LOG then
          apfst (map_gone describe)
            (syscall lpm (\<lambda>s. apsnd (\<lambda>m. s\<lparr>dp_swl_log := m\<rparr>) (map_remove (dp_swl_log s) key)) w)
        else
          apfst (map_gone describe)
            (syscall lpm (\<lambda>s. apsnd (\<lambda>m. s\<lparr>dp_limit_state := m\<rparr>) (map_remove (dp_limit_state s) key)) w)),
      clear_policer = (\<lambda>key w.
        apfst (map_gone describe)
          (syscall lpm (\<lambda>s. apsnd (\<lambda>m. s\<lparr>dp_policer_stats := m\<rparr>) (map_remove (dp_policer_stats s) key)) w))\<rparr>"

subsection \<open>EngineWhitelist\<close>

text \<open>\<open>u32::to_be\<close> on a little-endian machine.\<close>

definition to_be :: "u32 \<Rightarrow> u32" where
  "to_be x = or (or (push_bit 24 (and x 0xFF)) (push_bit 8 (and x 0xFF00)))
     (or (and (drop_bit 8 x) 0xFF00) (and (drop_bit 24 x) 0xFF))"

definition trie_key :: "cidr \<Rightarrow> u32 \<times> nat" where
  "trie_key c = (to_be (cidr_network c), unat (cidr_prefix_len c))"

definition engine_whitelist :: "(trie \<Rightarrow> u32 \<Rightarrow> bool) \<Rightarrow> (map_error \<Rightarrow> error) \<Rightarrow> world whitelist_ops" where
  "engine_whitelist lpm describe =
     \<lparr>wl_insert = (\<lambda>c w. apfst (into_error describe)
        (syscall lpm (\<lambda>s. (Inr (), s\<lparr>dp_monitored := insert (trie_key c) (dp_monitored s)\<rparr>)) w)),
      wl_remove = (\<lambda>c w. apfst (map_gone describe)
        (syscall lpm (\<lambda>s. if trie_key c \<in> dp_monitored s
            then (Inr (), s\<lparr>dp_monitored := dp_monitored s - {trie_key c}\<rparr>)
            else (Inl (SyscallError NotFound ''bpf_map_delete_elem''), s)) w))\<rparr>"

subsection \<open>Counter keys\<close>

record 'k removal_stats =
  rm_attempted :: nat
  rm_removed :: nat
  rm_failed :: nat
  rm_failed_keys :: "'k list"

definition remove_counter_key ::
  "('k \<Rightarrow> 's \<Rightarrow> (map_error + unit) \<times> 's) \<Rightarrow> 'k \<Rightarrow> 'k removal_stats \<times> 's \<Rightarrow> 'k removal_stats \<times> 's" where
  "remove_counter_key remove key st =
     (let (stats, s) = st; (r, s) = remove key s
      in case r of
           Inr _ \<Rightarrow> (stats\<lparr>rm_removed := Suc (rm_removed stats)\<rparr>, s)
         | Inl e \<Rightarrow>
             if key_already_absent e then (stats\<lparr>rm_removed := Suc (rm_removed stats)\<rparr>, s)
             else (stats\<lparr>rm_failed := Suc (rm_failed stats), rm_failed_keys := rm_failed_keys stats @ [key]\<rparr>, s))"

definition remove_counter_keys ::
  "('k \<Rightarrow> 's \<Rightarrow> (map_error + unit) \<times> 's) \<Rightarrow> 'k list \<Rightarrow> 's \<Rightarrow> 'k removal_stats \<times> 's" where
  "remove_counter_keys remove keys s =
     fold (remove_counter_key remove) keys
       (\<lparr>rm_attempted = length keys, rm_removed = 0, rm_failed = 0, rm_failed_keys = []\<rparr>, s)"

text \<open>The removals the engine passes: from TRAFFIC and from TRAFFIC6.\<close>

definition remove_traffic :: "(trie \<Rightarrow> u32 \<Rightarrow> bool) \<Rightarrow> traffic_key \<Rightarrow> world \<Rightarrow> (map_error + unit) \<times> world" where
  "remove_traffic lpm key =
     syscall lpm (\<lambda>s. apsnd (\<lambda>m. s\<lparr>dp_traffic := m\<rparr>) (map_remove (dp_traffic s) key))"

definition remove_traffic6 :: "(trie \<Rightarrow> u32 \<Rightarrow> bool) \<Rightarrow> u32 \<Rightarrow> world \<Rightarrow> (map_error + unit) \<times> world" where
  "remove_traffic6 lpm key =
     syscall lpm (\<lambda>s. apsnd (\<lambda>m. s\<lparr>dp_traffic6 := m\<rparr>) (map_remove (dp_traffic6 s) key))"

text \<open>\<open>PendingRemovals::retry_traffic\<close>; the keys are drained in the order of a hash set.\<close>

record pending_retry_stats =
  pr_cancelled_reused :: nat
  pr_removed :: nat
  pr_still_pending :: nat

definition retry_key ::
  "u32 set \<Rightarrow> (traffic_key \<Rightarrow> 's \<Rightarrow> (map_error + unit) \<times> 's) \<Rightarrow> traffic_key
    \<Rightarrow> pending_retry_stats \<times> traffic_key set \<times> 's \<Rightarrow> pending_retry_stats \<times> traffic_key set \<times> 's" where
  "retry_key live_ifindexes remove key st =
     (let (stats, pending, s) = st in
      if tk_ifindex key \<in> live_ifindexes
      then (stats\<lparr>pr_cancelled_reused := Suc (pr_cancelled_reused stats)\<rparr>, pending, s)
      else
        let (r, s) = remove key s
        in case r of
             Inr _ \<Rightarrow> (stats\<lparr>pr_removed := Suc (pr_removed stats)\<rparr>, pending, s)
           | Inl e \<Rightarrow>
               if key_already_absent e then (stats\<lparr>pr_removed := Suc (pr_removed stats)\<rparr>, pending, s)
               else (stats\<lparr>pr_still_pending := Suc (pr_still_pending stats)\<rparr>, insert key pending, s))"

definition retry_traffic ::
  "(traffic_key set \<Rightarrow> traffic_key list) \<Rightarrow> u32 set \<Rightarrow> (traffic_key \<Rightarrow> 's \<Rightarrow> (map_error + unit) \<times> 's)
    \<Rightarrow> traffic_key set \<times> 's \<Rightarrow> pending_retry_stats \<times> traffic_key set \<times> 's" where
  "retry_traffic order live_ifindexes remove st =
     fold (retry_key live_ifindexes remove) (order (fst st))
       (\<lparr>pr_cancelled_reused = 0, pr_removed = 0, pr_still_pending = 0\<rparr>, {}, snd st)"

end
