(* ===== verification/Reload.thy ===== *)
theory Reload
  imports Txmaps Limiter Collector
begin

section \<open>Reload: applying limit actions and committing a reload\<close>

text \<open>
  The free functions of \<open>vm-bandwidth/src/daemon.rs\<close> that drive the transactions:
  \<open>run_limit_actions\<close>, \<open>apply_tick_actions\<close>, \<open>apply_reload_steps\<close>, \<open>apply_and_commit\<close>,
  \<open>prefix_set\<close> and \<open>whitelist_peak\<close>. Like the code they are generic in the two map traits.
  Error contexts are joined as anyhow renders a chain (\<open>{:#}\<close>). The order in which a hash set
  of prefixes is iterated is the parameter \<open>order\<close>.
\<close>

subsection \<open>Limit actions\<close>

definition with_context :: "string \<Rightarrow> ('s, 'a) effect \<Rightarrow> ('s, 'a) effect" where
  "with_context what f s = (case f s of (Inl e, s) \<Rightarrow> (Inl (what @ '': '' @ e), s) | (Inr a, s) \<Rightarrow> (Inr a, s))"

definition flow_text :: "u32 \<Rightarrow> u8 \<Rightarrow> string" where
  "flow_text ip direction = show_ipv4 ip @ '' dir='' @ show_nat (unat direction)"

fun run_removes :: "'s limit_maps \<Rightarrow> limit_action list \<Rightarrow> ('s tx, unit) effect" where
  "run_removes m [] = ok_of ()"
| "run_removes m (Remove ipv4 direction # actions) =
     and_then (with_context (''removing limit policy for '' @ flow_text ipv4 direction)
         (remove_limit m (limit_key_new ipv4 direction))) (\<lambda>_.
     run_removes m actions)"
| "run_removes m (Install _ _ _ _ _ _ # actions) = run_removes m actions"

fun run_installs :: "'s limit_maps \<Rightarrow> limit_action list \<Rightarrow> ('s tx, unit) effect" where
  "run_installs m [] = ok_of ()"
| "run_installs m (Install ipv4 direction rate_bps burst_bytes algorithm window_ns # actions) =
     and_then (with_context (''installing limit policy for '' @ flow_text ipv4 direction)
         (install_limit m (limit_key_new ipv4 direction)
           \<lparr>lp_enabled = 1, lp_algorithm = algorithm, lp_rate_bps = rate_bps, lp_burst_bytes = burst_bytes,
            lp_window_ns = window_ns\<rparr>)) (\<lambda>_.
     run_installs m actions)"
| "run_installs m (Remove _ _ # actions) = run_installs m actions"

definition run_limit_actions :: "'s limit_maps \<Rightarrow> limit_action list \<Rightarrow> ('s tx, unit) effect" where
  "run_limit_actions m actions = and_then (run_removes m actions) (\<lambda>_. run_installs m actions)"

subsection \<open>The actions of a tick\<close>

record tick_action_failure =
  tf_error :: error
  tf_report :: rollback_report

definition is_remove :: "limit_action \<Rightarrow> bool" where
  "is_remove action = (case action of Remove _ _ \<Rightarrow> True | Install _ _ _ _ _ _ \<Rightarrow> False)"

definition apply_tick_action ::
  "'s limit_maps \<Rightarrow> 's whitelist_ops \<Rightarrow> limit_action \<Rightarrow> tick_action_failure list \<times> limiter \<times> 's
    \<Rightarrow> tick_action_failure list \<times> limiter \<times> 's" where
  "apply_tick_action m w action st =
     (let (failures, l, s) = st
      in case run_limit_actions m [action] (tx_journal_default, s) of
           (Inr _, (_, s)) \<Rightarrow> (failures, l, s)
         | (Inl e, (j, s)) \<Rightarrow>
             let (report, s) = rollback_journal m w j s
             in (failures @ [\<lparr>tf_error = e, tf_report = report\<rparr>], revert_failed_action action l, s))"

definition apply_tick_actions ::
  "'s limit_maps \<Rightarrow> 's whitelist_ops \<Rightarrow> limit_action list \<Rightarrow> limiter \<times> 's
    \<Rightarrow> tick_action_failure list \<times> limiter \<times> 's" where
  "apply_tick_actions m w actions ls =
     fold (apply_tick_action m w)
       (filter is_remove actions @ filter (\<lambda>a. \<not> is_remove a) actions) ([], fst ls, snd ls)"

subsection \<open>A reload\<close>

definition prefix_set :: "validated_config \<Rightarrow> cidr set" where
  "prefix_set cfg = set (concat (map (\<lambda>r. cidrs (vr_inner r)) (vc_ranges cfg)))"

definition whitelist_peak :: "cidr set \<Rightarrow> cidr set \<Rightarrow> nat" where
  "whitelist_peak old new = card (old \<union> new)"

definition apply_reload_steps ::
  "(cidr set \<Rightarrow> cidr list) \<Rightarrow> 's limit_maps \<Rightarrow> 's whitelist_ops \<Rightarrow> limit_action list \<Rightarrow> cidr set \<Rightarrow> cidr set
    \<Rightarrow> ('s tx, unit) effect" where
  "apply_reload_steps order m w actions old_prefixes new_prefixes =
     and_then (with_context ''whitelisting new prefixes''
         (apply_whitelist_additions w (order (new_prefixes - old_prefixes)))) (\<lambda>_.
     and_then (run_limit_actions m actions) (\<lambda>_.
     with_context ''dropping removed whitelist prefixes''
         (apply_whitelist_removals w (order (old_prefixes - new_prefixes)))))"

text \<open>What a commit switches over: the limiter, the collector, the visible configuration and its
  generation.\<close>

record control =
  ct_limiter :: limiter
  ct_collector :: collector
  ct_config :: validated_config
  ct_generation :: u64

record reload_apply_error =
  re_message :: error
  re_report :: rollback_report

definition config_ranges :: "validated_config \<Rightarrow> ip_range list" where
  "config_ranges cfg = map vr_inner (vc_ranges cfg)"

definition apply_and_commit ::
  "(cidr set \<Rightarrow> cidr list) \<Rightarrow> 's limit_maps \<Rightarrow> 's whitelist_ops \<Rightarrow> cidr set \<Rightarrow> reload_plan \<Rightarrow> validated_config
    \<Rightarrow> control \<times> 's \<Rightarrow> (reload_apply_error + unit) \<times> control \<times> 's" where
  "apply_and_commit order m w old_prefixes plan new_cfg cs =
     (let (c, s) = cs
      in case apply_reload_steps order m w (rp_actions plan) old_prefixes (prefix_set new_cfg)
                (tx_journal_default, s) of
           (Inl e, (j, s)) \<Rightarrow>
             let (report, s) = rollback_journal m w j s
             in (Inl \<lparr>re_message = e, re_report = report\<rparr>, c, s)
         | (Inr _, (_, s)) \<Rightarrow>
             (Inr (), c\<lparr>ct_limiter := commit_reload plan (ct_limiter c),
                        ct_collector := prune_ips (config_ranges new_cfg) (ct_collector c),
                        ct_config := new_cfg, ct_generation := ct_generation c + 1\<rparr>, s))"

end
