(* ===== verification/Timefmt.thy ===== *)
theory Timefmt
  imports Strings "HOL-Library.Signed_Division"
begin

section \<open>Timefmt: UTC timestamps\<close>

text \<open>
  \<open>vm-bandwidth-core/src/timefmt.rs\<close>. The calendar it is measured against is written down
  here from its rules: the length of each month, the leap years, and the day after a day.
  Every intermediate value of \<open>civil_from_days\<close> is far from the 64-bit limits (a \<open>u64\<close> of seconds
  is less than \<open>2 ^ 48\<close> days), so the model computes with integers.
\<close>

subsection \<open>The code\<close>

definition civil_from_days :: "int \<Rightarrow> int \<times> int \<times> int" where
  "civil_from_days z =
     (let z = z + 719468;
          era = (if z \<ge> 0 then z else z - 146096) sdiv 146097;
          doe = z - era * 146097;
          yoe = (doe - doe div 1460 + doe div 36524 - doe div 146096) div 365;
          y = yoe + era * 400;
          doy = doe - (365 * yoe + yoe div 4 - yoe div 100);
          mp = (5 * doy + 2) div 153;
          d = doy - (153 * mp + 2) div 5 + 1;
          m = (if mp < 10 then mp + 3 else mp - 9)
      in (if m \<le> 2 then y + 1 else y, m, d))"

definition pad :: "nat \<Rightarrow> int \<Rightarrow> string" where
  "pad width n = (let s = show_nat (nat n) in replicate (width - length s) CHR ''0'' @ s)"

definition format_unix_utc :: "u64 \<Rightarrow> string" where
  "format_unix_utc unix_secs =
     (let t = uint unix_secs;
          days = t div 86400;
          secs_of_day = t mod 86400;
          h = secs_of_day div 3600; m = secs_of_day mod 3600 div 60; s = secs_of_day mod 60;
          (year, month, day) = civil_from_days days
      in pad 4 year @ ''-'' @ pad 2 month @ ''-'' @ pad 2 day @ '' '' @ pad 2 h @ '':'' @ pad 2 m @ '':''
         @ pad 2 s @ '' UTC'')"

subsection \<open>The calendar\<close>

definition leap_year :: "int \<Rightarrow> bool" where
  "leap_year y \<longleftrightarrow> 4 dvd y \<and> (\<not> 100 dvd y \<or> 400 dvd y)"

definition month_days :: "int \<Rightarrow> int \<Rightarrow> int" where
  "month_days y m =
     (if m = 2 then (if leap_year y then 29 else 28) else if m \<in> {4, 6, 9, 11} then 30 else 31)"

definition next_day :: "int \<times> int \<times> int \<Rightarrow> int \<times> int \<times> int" where
  "next_day date =
     (case date of (y, m, d) \<Rightarrow>
        if d < month_days y m then (y, m, d + 1)
        else if m < 12 then (y, m + 1, 1) else (y + 1, 1, 1))"

subsection \<open>Years from March to February\<close>

text \<open>The days before the first of March of year \<open>Y\<close>, and the date \<open>t\<close> days after it.\<close>

definition days_before :: "int \<Rightarrow> int" where
  "days_before Y = 365 * Y + Y div 4 - Y div 100 + Y div 400"

definition year_length :: "int \<Rightarrow> int" where
  "year_length Y = (if leap_year (Y + 1) then 366 else 365)"

definition civil :: "int \<Rightarrow> int \<Rightarrow> int \<times> int \<times> int" where
  "civil Y t =
     (let mp = (5 * t + 2) div 153; d = t - (153 * mp + 2) div 5 + 1; m = (if mp < 10 then mp + 3 else mp - 9)
      in (if m \<le> 2 then Y + 1 else Y, m, d))"

lemma year_digits:
  obtains e c q r :: int where "Y = 400 * e + 100 * c + 4 * q + r" "0 \<le> c" "c \<le> 3" "0 \<le> q" "q \<le> 24" "0 \<le> r" "r \<le> 3"
proof -
  define k where "k = Y mod 400"
  define m where "m = k mod 100"
  have k: "0 \<le> k" "k < 400" and m: "0 \<le> m" "m < 100" by (simp_all add: k_def m_def)
  have "Y = 400 * (Y div 400) + k" "k = 100 * (k div 100) + m" "m = 4 * (m div 4) + m mod 4"
    by (simp_all add: k_def m_def)
  then have "Y = 400 * (Y div 400) + 100 * (k div 100) + 4 * (m div 4) + m mod 4" by linarith
  moreover from \<open>k = 100 * (k div 100) + m\<close> have "0 \<le> k div 100" "k div 100 \<le> 3" "0 \<le> m div 4" "m div 4 \<le> 24" "0 \<le> m mod 4" "m mod 4 \<le> 3"
    using k m div_mult_mod_eq [of m 4] pos_mod_bound [of 4 m] pos_mod_sign [of 4 m]
    by linarith+
  ultimately show ?thesis by (rule that)
qed

lemma dvd_last: "0 < x \<Longrightarrow> x \<le> n \<Longrightarrow> n dvd n * k + x \<longleftrightarrow> x = n" for n k x :: int
  using zdvd_imp_le [of n x] by (auto simp: dvd_add_right_iff)

lemma digits_divs:
  fixes e c q r :: int
  assumes "0 \<le> c" "c \<le> 3" "0 \<le> q" "q \<le> 24" "0 \<le> r" "r \<le> 3" "Y = 400 * e + 100 * c + 4 * q + r"
  shows "Y div 4 = 100 * e + 25 * c + q" "Y div 100 = 4 * e + c" "Y div 400 = e"
    and "leap_year (Y + 1) \<longleftrightarrow> r = 3 \<and> (q < 24 \<or> c = 3)"
proof -
  show "Y div 4 = 100 * e + 25 * c + q" by (rule int_div_pos_eq [where r = r]) (use assms in auto)
  show "Y div 100 = 4 * e + c" by (rule int_div_pos_eq [where r = "4 * q + r"]) (use assms in auto)
  show "Y div 400 = e" by (rule int_div_pos_eq [where r = "100 * c + 4 * q + r"]) (use assms in auto)
  have "4 dvd Y + 1 \<longleftrightarrow> r + 1 = 4"
    using dvd_last [of "r + 1" 4 "100 * e + 25 * c + q"] assms(5-7) by (simp add: algebra_simps)
  moreover have "100 dvd Y + 1 \<longleftrightarrow> 4 * q + r + 1 = 100"
    using dvd_last [of "4 * q + r + 1" 100 "4 * e + c"] assms(3-7) by (simp add: algebra_simps)
  moreover have "400 dvd Y + 1 \<longleftrightarrow> 100 * c + 4 * q + r + 1 = 400"
    using dvd_last [of "100 * c + 4 * q + r + 1" 400 e] assms by (simp add: algebra_simps)
  ultimately show "leap_year (Y + 1) \<longleftrightarrow> r = 3 \<and> (q < 24 \<or> c = 3)"
    using assms(1-6) unfolding leap_year_def by auto
qed

lemma days_before_digits:
  fixes e c q r :: int
  assumes "0 \<le> c" "c \<le> 3" "0 \<le> q" "q \<le> 24" "0 \<le> r" "r \<le> 3" "Y = 400 * e + 100 * c + 4 * q + r"
  shows "days_before Y = 146097 * e + 36524 * c + 1461 * q + 365 * r"
  using assms(7) digits_divs [OF assms] by (simp add: days_before_def)

lemma days_before_Suc: "days_before (Y + 1) = days_before Y + year_length Y"
proof -
  obtain e c q r where Y: "Y = 400 * e + 100 * c + 4 * q + r"
    and r: "0 \<le> c" "c \<le> 3" "0 \<le> q" "q \<le> 24" "0 \<le> r" "r \<le> 3" by (rule year_digits)
  note now = days_before_digits [OF r Y] digits_divs(4) [OF r Y]
  consider "r < 3" | "r = 3" "q < 24" | "r = 3" "q = 24" "c < 3" | "r = 3" "q = 24" "c = 3" using r by linarith
  then show ?thesis
  proof cases
    case 1
    with now days_before_digits [of c q "r + 1" "Y + 1" e] r Y show ?thesis by (simp add: year_length_def)
  next
    case 2
    with now days_before_digits [of c "q + 1" 0 "Y + 1" e] r Y show ?thesis by (simp add: year_length_def)
  next
    case 3
    with now days_before_digits [of "c + 1" 0 0 "Y + 1" e] r Y show ?thesis by (simp add: year_length_def)
  next
    case 4
    with now days_before_digits [of 0 0 0 "Y + 1" "e + 1"] r Y show ?thesis by (simp add: year_length_def)
  qed
qed

lemma year_of_era:
  fixes c q r t :: int
  assumes "0 \<le> c" "c \<le> 3" "0 \<le> q" "q \<le> 24" "0 \<le> r" "r \<le> 3" "0 \<le> t" "t \<le> 364 \<or> t = 365 \<and> r = 3 \<and> (q < 24 \<or> c = 3)"
    and doe: "doe = 36524 * c + 1461 * q + 365 * r + t"
  shows "(doe - doe div 1460 + doe div 36524 - doe div 146096) div 365 = 100 * c + 4 * q + r"
proof -
  let ?s = "24 * c + q + 365 * r + t"
  define b where "b = (if 1460 \<le> ?s then 1 else 0 :: int)"
  define e where "e = (if c = 3 \<and> q = 24 \<and> r = 3 \<and> t = 365 then 1 else 0 :: int)"
  have "doe div 1460 = 25 * c + q + b"
    by (rule int_div_pos_eq [where r = "?s - 1460 * b"]) (use assms in \<open>auto simp: b_def\<close>)
  moreover have "doe div 36524 = c + e"
    by (rule int_div_pos_eq [where r = "1461 * q + 365 * r + t - 36524 * e"]) (use assms in \<open>auto simp: e_def\<close>)
  moreover have "doe div 146096 = e"
    by (rule int_div_pos_eq [where r = "doe - 146096 * e"]) (use assms in \<open>auto simp: e_def\<close>)
  ultimately have "doe - doe div 1460 + doe div 36524 - doe div 146096 = 365 * (100 * c + 4 * q + r) + (t - b)"
    using doe by simp
  moreover have "0 \<le> t - b" "t - b < 365" using assms by (auto simp: b_def)
  ultimately show ?thesis by (simp add: div_mult_self4 div_pos_pos_trivial)
qed

lemma civil_from_days_split:
  assumes "0 \<le> z" "z + 719468 = days_before Y + t" "0 \<le> t" "t < year_length Y"
  shows "civil_from_days z = civil Y t"
proof -
  obtain e c q r where Y: "Y = 400 * e + 100 * c + 4 * q + r"
    and r: "0 \<le> c" "c \<le> 3" "0 \<le> q" "q \<le> 24" "0 \<le> r" "r \<le> 3" by (rule year_digits)
  note divs = digits_divs [OF r Y]
  let ?doe = "36524 * c + 1461 * q + 365 * r + t"
  have t: "t \<le> 364 \<or> t = 365 \<and> r = 3 \<and> (q < 24 \<or> c = 3)"
    using assms(4) divs(4) by (auto simp: year_length_def split: if_splits)
  have z: "z + 719468 = 146097 * e + ?doe" using assms(2) days_before_digits [OF r Y] by simp
  have "0 \<le> ?doe" "?doe < 146097" using r assms(3) t by auto
  then have "(z + 719468) div 146097 = e" using z by (simp add: int_div_pos_eq)
  moreover have "(z + 719468) sdiv 146097 = (z + 719468) div 146097" using assms(1) by (simp add: signed_divide_int_def sgn_if)
  ultimately have era: "(if z + 719468 \<ge> 0 then z + 719468 else z + 719468 - 146096) sdiv 146097 = e"
    using assms(1) by simp
  have doe: "z + 719468 - e * 146097 = ?doe" using z by simp
  have yoe: "(?doe - ?doe div 1460 + ?doe div 36524 - ?doe div 146096) div 365 = 100 * c + 4 * q + r"
    by (rule year_of_era [OF r assms(3) t refl])
  have "(100 * c + 4 * q + r) div 4 = 25 * c + q" "(100 * c + 4 * q + r) div 100 = c"
    using digits_divs(1,2) [OF r, of "100 * c + 4 * q + r" 0] by simp_all
  then have doy: "?doe - (365 * (100 * c + 4 * q + r) + (100 * c + 4 * q + r) div 4 - (100 * c + 4 * q + r) div 100) = t"
    by simp
  have "100 * c + 4 * q + r + e * 400 = Y" using Y by simp
  then show ?thesis
    unfolding civil_from_days_def Let_def era doe yoe doy by (simp add: civil_def Let_def)
qed

text \<open>The months of such a year: 364 days that no leap year disturbs, and its end.\<close>

lemma month_bounds:
  fixes t :: int
  shows "153 * ((5 * t + 2) div 153) \<le> 5 * t + 2" "5 * t + 2 < 153 * ((5 * t + 2) div 153) + 153"
  using div_mult_mod_eq [of "5 * t + 2" 153] pos_mod_bound [of 153 "5 * t + 2"] pos_mod_sign [of 153 "5 * t + 2"]
  by linarith+

lemma civil_month:
  assumes "(5 * t + 2) div 153 = mp"
  shows "civil Y t = (if (if mp < 10 then mp + 3 else mp - 9) \<le> 2 then Y + 1 else Y,
    if mp < 10 then mp + 3 else mp - 9, t - (153 * mp + 2) div 5 + 1)"
  using assms by (simp add: civil_def Let_def)

lemma civil_next:
  assumes "0 \<le> t" "t < 364"
  shows "next_day (civil Y t) = civil Y (t + 1)"
proof -
  obtain mp mp' where mp: "(5 * t + 2) div 153 = mp" "(5 * (t + 1) + 2) div 153 = mp'" by blast
  note b = month_bounds [of t, unfolded mp] month_bounds [of "t + 1", unfolded mp]
  have r: "0 \<le> mp" "mp \<le> 11" using b(1,2) assms by linarith+
  then have m: "mp \<in> {0, 1, 2, 3, 4, 5, 6, 7, 8, 9, 10, 11}" by simp presburger
  have "mp < mp' + 1" "mp' < mp + 2" using b unfolding distrib_left by linarith+
  then have "mp' = mp \<or> mp' = mp + 1" by arith
  then show ?thesis
    using m b assms unfolding civil_month [OF mp(1)] civil_month [OF mp(2)]
    by (elim insertE disjE emptyE; hypsubst) (simp_all add: next_day_def month_days_def)
qed

lemma civil_february: "civil Y 364 = (Y + 1, 2, 28)" "civil Y 365 = (Y + 1, 2, 29)" "civil Y 0 = (Y, 3, 1)"
  by (simp_all add: civil_def Let_def)

lemma civil_step:
  assumes "0 \<le> t" "t < year_length Y"
  shows "next_day (civil Y t) = (if t + 1 < year_length Y then civil Y (t + 1) else civil (Y + 1) 0)"
proof (cases "t < 364")
  case True
  with civil_next [OF assms(1)] show ?thesis by (simp add: year_length_def)
next
  case False
  with assms have "t = 364 \<or> t = 365 \<and> leap_year (Y + 1)" by (auto simp: year_length_def split: if_splits)
  then show ?thesis by (auto simp: civil_february next_day_def month_days_def year_length_def)
qed

lemma day_number:
  "\<exists>Y t. int n + 719468 = days_before Y + t \<and> 0 \<le> t \<and> t < year_length Y \<and> civil Y t = (next_day ^^ n) (1970, 1, 1)"
proof (induction n)
  case 0
  have "civil 1969 306 = (1970, 1, 1)" "days_before 1969 = 719162" "(306 :: int) < year_length 1969"
    by (simp_all add: civil_def Let_def days_before_def year_length_def)
  then show ?case by (intro exI [of _ 1969] exI [of _ 306]) simp
next
  case (Suc n)
  then obtain Y t where s: "int n + 719468 = days_before Y + t" "0 \<le> t" "t < year_length Y"
    "civil Y t = (next_day ^^ n) (1970, 1, 1)" by blast
  show ?case
  proof (cases "t + 1 < year_length Y")
    case True
    with s civil_step [OF s(2,3)] show ?thesis by (intro exI [of _ Y] exI [of _ "t + 1"]) simp
  next
    case False
    then have "t + 1 = year_length Y" using s(3) by simp
    moreover have "0 < year_length (Y + 1)" by (simp add: year_length_def)
    ultimately show ?thesis
      using s civil_step [OF s(2,3)] days_before_Suc [of Y]
      by (intro exI [of _ "Y + 1"] exI [of _ 0]) simp
  qed
qed

lemma clock_sum: "h = r div 3600 \<Longrightarrow> x = r mod 3600 \<Longrightarrow> r = 3600 * h + x \<and> 0 \<le> x \<and> x < 3600" for r :: int
  by simp

lemma clock:
  fixes r :: int
  assumes "0 \<le> r" "r < 86400"
  shows "0 \<le> r div 3600" "r div 3600 < 24" "0 \<le> r mod 3600 div 60" "r mod 3600 div 60 < 60"
    "0 \<le> r mod 60" "r mod 60 < 60" "3600 * (r div 3600) + 60 * (r mod 3600 div 60) + r mod 60 = r"
proof -
  obtain h x mi s where v: "h = r div 3600" "x = r mod 3600" "mi = x div 60" "s = x mod 60" by blast
  have s: "r mod 60 = s" unfolding v by (rule mod_mod_cancel [symmetric]) simp
  have "x = 60 * mi + s \<and> 0 \<le> s \<and> s < 60" using v by simp
  with clock_sum [OF v(1,2)] assms
  have "0 \<le> h" "h < 24" "0 \<le> mi" "mi < 60" "0 \<le> s" "s < 60" "3600 * h + 60 * mi + s = r" by linarith+
  then show "0 \<le> r div 3600" "r div 3600 < 24" "0 \<le> r mod 3600 div 60" "r mod 3600 div 60 < 60"
    "0 \<le> r mod 60" "r mod 60 < 60" "3600 * (r div 3600) + 60 * (r mod 3600 div 60) + r mod 60 = r"
    by (simp_all only: s v(1) [symmetric] v(2) [symmetric] v(3) [symmetric])
qed

text \<open>C29: A timestamp is rendered with the date that is \<open>t div 86400\<close> days after the first of January
  1970 in the Gregorian calendar, counted day by day with its leap years, and with the hour, minute
  and second of the day.\<close>

theorem format_unix_utc_exact:
  "\<exists>y mo d h mi s. (next_day ^^ (unat t div 86400)) (1970, 1, 1) = (y, mo, d)
     \<and> 0 \<le> h \<and> h < 24 \<and> 0 \<le> mi \<and> mi < 60 \<and> 0 \<le> s \<and> s < 60 \<and> 3600 * h + 60 * mi + s = int (unat t mod 86400)
     \<and> format_unix_utc t = pad 4 y @ ''-'' @ pad 2 mo @ ''-'' @ pad 2 d @ '' '' @ pad 2 h @ '':'' @ pad 2 mi
         @ '':'' @ pad 2 s @ '' UTC''"
proof -
  let ?n = "unat t div 86400" and ?r = "uint t mod 86400"
  obtain Y u where s: "int ?n + 719468 = days_before Y + u" "0 \<le> u" "u < year_length Y"
    "civil Y u = (next_day ^^ ?n) (1970, 1, 1)" using day_number by blast
  have n: "uint t div 86400 = int ?n" "int (unat t mod 86400) = ?r" by (simp_all add: zdiv_int zmod_int)
  obtain y mo d where date: "civil Y u = (y, mo, d)" by (metis prod_cases3)
  then have civ: "civil_from_days (uint t div 86400) = (y, mo, d)"
    using civil_from_days_split [OF _ s(1-3)] n(1) by simp
  have r: "0 \<le> ?r" "?r < 86400" by simp_all
  show ?thesis
  proof (intro exI conjI)
    show "(next_day ^^ ?n) (1970, 1, 1) = (y, mo, d)" using s(4) date by simp
    show "format_unix_utc t = pad 4 y @ ''-'' @ pad 2 mo @ ''-'' @ pad 2 d @ '' '' @ pad 2 (?r div 3600) @ '':''
        @ pad 2 (?r mod 3600 div 60) @ '':'' @ pad 2 (?r mod 60) @ '' UTC''"
      unfolding format_unix_utc_def Let_def civ by (simp only: prod.case)
    show "3600 * (?r div 3600) + 60 * (?r mod 3600 div 60) + ?r mod 60 = int (unat t mod 86400)"
      unfolding n(2) by (rule clock(7) [OF r])
  qed (rule clock [OF r])+
qed

end
