(* ===== verification/Ipc.thy ===== *)
theory Ipc
  imports Ip_Range F64
begin

section \<open>Ipc: messages and frames between the daemon and its clients\<close>

text \<open>
  \<open>vm-bandwidth-core/src/ipc.rs\<close>, and \<open>Client::request\<close> of \<open>ui.rs\<close>, which reads the frames. The
  per-direction fields of a message are one record for each direction, and the fields of \<open>Status\<close>
  that belong to one concern are one record. JSON is serde's: \<open>to_vec\<close> and \<open>from_slice\<close> are
  parameters. Bytes are 8-bit words.
\<close>

subsection \<open>Messages\<close>

definition PROTOCOL_VERSION :: u32 where "PROTOCOL_VERSION = 1"
definition MAX_REQUEST_FRAME :: nat where "MAX_REQUEST_FRAME = 64 * 1024"
definition MAX_RESPONSE_FRAME :: nat where "MAX_RESPONSE_FRAME = 8 * 1024 * 1024"

datatype request = Overview | RangeDetail nat

record summary_dir =
  su_bps :: f64
  su_bytes :: u64
  su_dropped_bps :: f64
  su_dropped_bytes :: u64

record range_summary =
  rs_name :: string
  rs_range :: string
  rs_rx :: summary_dir
  rs_tx :: summary_dir
  rs_ip_count :: nat
  rs_limited :: nat

record reload_status =
  rl_config_loaded_at :: string
  rl_last_reload_at :: string
  rl_last_reload_ok :: bool
  rl_last_reload_error :: string

record watcher_status =
  ws_healthy :: bool
  ws_errors_total :: u64
  ws_last_error :: string

record rollback_health =
  rh_degraded :: bool
  rh_failures_total :: u64

record push_totals =
  pu_successes :: u64
  pu_failures :: u64
  pu_skipped :: u64

record oversized_totals =
  ov_rx_packets :: u64
  ov_rx_bytes :: u64
  ov_tx_packets :: u64
  ov_tx_bytes :: u64

record tap_status =
  ts_bridge :: string
  ts_tap_count :: nat
  ts_attach_failures_total :: u64

record op_counters =
  op_push :: push_totals
  op_oversized :: oversized_totals
  op_swl_map_capacity :: u32
  op_swl_map_used :: u32

record status =
  st_protocol_version :: u32
  st_generation :: u64
  st_reload :: reload_status
  st_taps :: tap_status
  st_watcher :: watcher_status
  st_rollback :: rollback_health
  st_ops :: op_counters
  st_ranges :: "range_summary list"

record limit_view =
  lv_threshold :: u64
  lv_limit :: u64
  lv_state :: string
  lv_remaining :: u64

record detail_dir =
  dd_bps :: f64
  dd_bytes :: u64
  dd_packets :: u64
  dd_window_bps :: f64
  dd_limit :: limit_view
  dd_dropped_bytes :: u64
  dd_dropped_packets :: u64

record ip_detail =
  id_ip :: u32
  id_rx :: detail_dir
  id_tx :: detail_dir

record range_total =
  rt_bps :: f64
  rt_bytes :: u64
  rt_dropped_bytes :: u64
  rt_dropped_packets :: u64

record range_detail =
  de_name :: string
  de_range :: string
  de_rx :: range_total
  de_tx :: range_total
  de_ips :: "ip_detail list"

datatype response = StatusReply status | DetailReply range_detail | ErrorReply string

subsection \<open>Frames\<close>

type_synonym bytes = "u8 list"

definition to_be_bytes :: "u32 \<Rightarrow> bytes" where
  "to_be_bytes n = [ucast (drop_bit 24 n), ucast (drop_bit 16 n), ucast (drop_bit 8 n), ucast n]"

definition from_be_bytes :: "bytes \<Rightarrow> u32" where
  "from_be_bytes bs = foldl (\<lambda>n b. or (push_bit 8 n) (ucast b)) 0 bs"

definition validate_frame_len :: "u32 \<Rightarrow> nat \<Rightarrow> string + nat" where
  "validate_frame_len len limit =
     (if limit < unat len
      then Inl (''frame length '' @ show_nat (unat len) @ '' exceeds limit '' @ show_nat limit)
      else Inr (unat len))"

definition encode :: "('a \<Rightarrow> string + bytes) \<Rightarrow> 'a \<Rightarrow> string + bytes" where
  "encode to_vec value =
     (case to_vec value of
        Inl e \<Rightarrow> Inl (''serialize: '' @ e)
      | Inr body \<Rightarrow>
          if 2 ^ 32 - 1 < length body then Inl ''frame too large''
          else Inr (to_be_bytes (word_of_nat (length body)) @ body))"

definition decode :: "(bytes \<Rightarrow> string + 'a) \<Rightarrow> bytes \<Rightarrow> string + 'a" where
  "decode from_slice body = map_err (\<lambda>e. ''deserialize: '' @ e) (from_slice body)"

text \<open>\<open>read_exact\<close> from a stream that is its unread bytes.\<close>

definition read_exact :: "nat \<Rightarrow> bytes \<Rightarrow> (string + bytes) \<times> bytes" where
  "read_exact n stream =
     (if length stream < n then (Inl ''failed to fill whole buffer'', [])
      else (Inr (take n stream), drop n stream))"

text \<open>What \<open>Client::request\<close> does with the reply.\<close>

definition read_reply :: "(bytes \<Rightarrow> string + 'a) \<Rightarrow> bytes \<Rightarrow> (string + 'a) \<times> bytes" where
  "read_reply from_slice stream =
     (case read_exact 4 stream of
        (Inl e, s) \<Rightarrow> (Inl e, s)
      | (Inr lenbuf, s) \<Rightarrow>
          (case validate_frame_len (from_be_bytes lenbuf) MAX_RESPONSE_FRAME of
             Inl e \<Rightarrow> (Inl e, s)
           | Inr len \<Rightarrow>
               (case read_exact len s of
                  (Inl e, s) \<Rightarrow> (Inl e, s)
                | (Inr body, s) \<Rightarrow> (decode from_slice body, s))))"

text \<open>\<open>send\<close> stands for the write to the stream and the daemon's answer: the bytes it makes
  readable, or the error of the write.\<close>

definition client_request ::
  "('a \<Rightarrow> string + bytes) \<Rightarrow> (bytes \<Rightarrow> string + 'b) \<Rightarrow> (bytes \<Rightarrow> string + bytes) \<Rightarrow> 'a \<Rightarrow> string + 'b" where
  "client_request to_vec from_slice send req =
     (case encode to_vec req of
        Inl e \<Rightarrow> Inl e
      | Inr frame \<Rightarrow> (case send frame of Inl e \<Rightarrow> Inl e | Inr stream \<Rightarrow> fst (read_reply from_slice stream)))"

subsection \<open>Round trip\<close>

lemma append_byte: "or (push_bit 8 (drop_bit 8 n)) (ucast (ucast n :: u8)) = n" for n :: u32
  by (rule bit_word_eqI) (auto simp: bit_simps)

lemma be_bytes_roundtrip: "from_be_bytes (to_be_bytes n) = n"
proof -
  have step: "or (push_bit 8 (drop_bit (k + 8) n)) (ucast (ucast (drop_bit k n) :: u8)) = drop_bit k n" for k
    using append_byte [of "drop_bit k n"] by (simp add: add.commute)
  have "drop_bit 32 n = 0" by (rule bit_word_eqI) (auto simp: bit_simps)
  then show ?thesis
    using step [of 24] step [of 16] step [of 8] step [of 0] by (simp add: from_be_bytes_def to_be_bytes_def)
qed

lemma length_to_be_bytes [simp]: "length (to_be_bytes n) = 4"
  by (simp add: to_be_bytes_def)

lemma read_exact_append [simp]: "length xs = n \<Longrightarrow> read_exact n (xs @ ys) = (Inr xs, ys)"
  by (auto simp: read_exact_def)

text \<open>A frame survives the socket. What \<open>encode\<close> writes for a value, the client reads back: if the
  body is within the response limit, the reader consumes exactly the frame and returns the value that
  was sent, and it leaves whatever follows for the next reply. A longer body is refused from its
  length field alone, before anything of the body is read. JSON decoding is assumed to invert JSON
  encoding.\<close>

theorem frame_roundtrip:
  assumes "to_vec v = Inr body" "from_slice body = Inr v" "encode to_vec v = Inr frame"
  shows "read_reply from_slice (frame @ rest) =
    (if length body \<le> MAX_RESPONSE_FRAME then (Inr v, rest)
     else (Inl (''frame length '' @ show_nat (length body) @ '' exceeds limit '' @ show_nat MAX_RESPONSE_FRAME),
           body @ rest))"
proof -
  have len: "length body \<le> 2 ^ 32 - 1" and frame: "frame = to_be_bytes (word_of_nat (length body)) @ body"
    using assms(1,3) by (auto simp: encode_def split: if_splits)
  have "length body < 2 ^ 32" using len by auto
  then have "unat (word_of_nat (length body) :: u32) = length body" by (simp add: unsigned_of_nat take_bit_nat_eq_self)
  then show ?thesis
    using assms(2) by (auto simp: frame read_reply_def be_bytes_roundtrip validate_frame_len_def decode_def)
qed

lemma frame_roundtrip_witness:
  "read_reply (\<lambda>body. Inr body) (to_be_bytes 3 @ [1, 2, 3] @ [9]) = (Inr [1, 2, 3], [9 :: u8])"
proof -
  have "encode (\<lambda>v. Inr v) [1, 2, 3 :: u8] = Inr (to_be_bytes 3 @ [1, 2, 3])" by (simp add: encode_def)
  from frame_roundtrip [where from_slice = "\<lambda>body. Inr body" and rest = "[9]", OF refl refl this]
  show ?thesis by (simp add: MAX_RESPONSE_FRAME_def)
qed

text \<open>Nothing longer than the limit is ever allocated, whatever the peer sends.\<close>

lemma validate_frame_len_bounded: "validate_frame_len len limit = Inr n \<Longrightarrow> n \<le> limit \<and> n = unat len"
  by (auto simp: validate_frame_len_def split: if_splits)

end
