(* ===== verification/Metrics.thy ===== *)
theory Metrics
  imports Collector Config
begin

section \<open>Metrics: the VictoriaMetrics push\<close>

text \<open>
  \<open>vm-bandwidth/src/metrics.rs\<close>: rendering of the counters in the Prometheus text format,
  the capped response body and one push; and the single-flight bookkeeping of \<open>PushCounters\<close> and
  \<open>run_metrics_push\<close> in \<open>daemon.rs\<close>, as a step relation over the tasks that are pushing. The HTTP
  client is a parameter. Keys come in the order of a hash map and are sorted, as in the code.
\<close>

subsection \<open>Lines\<close>

abbreviation quote :: char where "quote \<equiv> CHR 0x22"
abbreviation backslash :: char where "backslash \<equiv> CHR 0x5C"
abbreviation newline :: char where "newline \<equiv> CHR 0x0A"

definition quoted :: "string \<Rightarrow> string" where "quoted s = quote # s @ [quote]"

definition show_int :: "int \<Rightarrow> string" where
  "show_int n = (if n < 0 then CHR ''-'' # show_nat (nat (- n)) else show_nat (nat n))"

definition series_line :: "string \<Rightarrow> string \<Rightarrow> string \<Rightarrow> u64 \<Rightarrow> int \<Rightarrow> string" where
  "series_line name ip range_label value now_ms =
     name @ ''{ip='' @ quoted ip @ '',range='' @ quoted range_label @ ''} '' @ show_nat (unat value) @ '' ''
     @ show_int now_ms @ [newline]"

definition escape_char :: "char \<Rightarrow> string" where
  "escape_char c =
     (if c = backslash then [backslash, backslash]
      else if c = quote then [backslash, quote]
      else if c = newline then [backslash, CHR ''n''] else [c])"

definition escape_label :: "string \<Rightarrow> string" where
  "escape_label v = concat (map escape_char v)"

definition render_prom_lines_ipv6 :: "ip_stats \<Rightarrow> int \<Rightarrow> string" where
  "render_prom_lines_ipv6 t now_ms =
     (if or (or (or (sd_bytes (is_rx t)) (sd_bytes (is_tx t))) (sd_packets (is_rx t))) (sd_packets (is_tx t)) = 0 then []
      else concat (map (\<lambda>(name, value). series_line name ''ipv6-all'' IPV6_RANGE_NAME value now_ms)
        [(''vmbw_rx_bytes_total'', sd_bytes (is_rx t)), (''vmbw_tx_bytes_total'', sd_bytes (is_tx t)),
         (''vmbw_rx_packets_total'', sd_packets (is_rx t)), (''vmbw_tx_packets_total'', sd_packets (is_tx t))]))"

definition render_prom_lines_oversized :: "oversized_stats \<times> oversized_stats \<Rightarrow> int \<Rightarrow> string" where
  "render_prom_lines_oversized oversized now_ms =
     concat (map (\<lambda>(dir, stats).
         if or (os_packets stats) (os_bytes stats) = 0 then []
         else ''vmbw_oversized_'' @ dir @ ''_packets_total '' @ show_nat (unat (os_packets stats)) @ '' ''
           @ show_int now_ms @ [newline] @ ''vmbw_oversized_'' @ dir @ ''_bytes_total ''
           @ show_nat (unat (os_bytes stats)) @ '' '' @ show_int now_ms @ [newline])
       [(''rx'', fst oversized), (''tx'', snd oversized)])"

definition render_prom_lines_process :: "u64 \<Rightarrow> u64 \<Rightarrow> u64 \<Rightarrow> u64 \<Rightarrow> int \<Rightarrow> string" where
  "render_prom_lines_process tap_attach_failures push_successes push_failures push_skipped now_ms =
     concat (map (\<lambda>(name, value). name @ ''{instance='' @ quoted ''process'' @ ''} '' @ show_nat (unat value) @ '' ''
         @ show_int now_ms @ [newline])
       [(''vmbw_tap_attach_failures_total'', tap_attach_failures),
        (''vmbw_metrics_push_successes_total'', push_successes),
        (''vmbw_metrics_push_failures_total'', push_failures),
        (''vmbw_metrics_push_skipped_total'', push_skipped)])"

definition totals_lines :: "(u32 \<Rightarrow> string) \<Rightarrow> int \<Rightarrow> u32 \<Rightarrow> ip_totals \<Rightarrow> string" where
  "totals_lines range_name now_ms ip t =
     (if or (or (or (it_rx_bytes t) (it_tx_bytes t)) (it_rx_packets t)) (it_tx_packets t) = 0 then []
      else concat (map (\<lambda>(name, value). series_line name (show_ipv4 ip) (escape_label (range_name ip)) value now_ms)
        [(''vmbw_rx_bytes_total'', it_rx_bytes t), (''vmbw_tx_bytes_total'', it_tx_bytes t),
         (''vmbw_rx_packets_total'', it_rx_packets t), (''vmbw_tx_packets_total'', it_tx_packets t)]))"

definition render_prom_lines :: "u32 list \<Rightarrow> (u32 \<rightharpoonup> ip_totals) \<Rightarrow> (u32 \<Rightarrow> string) \<Rightarrow> int \<Rightarrow> string" where
  "render_prom_lines keys totals range_name now_ms =
     concat (map (\<lambda>ip. case totals ip of None \<Rightarrow> [] | Some t \<Rightarrow> totals_lines range_name now_ms ip t) (sort keys))"

definition policer_lines :: "(u32 \<Rightarrow> string) \<Rightarrow> int \<Rightarrow> u32 \<Rightarrow> policer_ip_totals \<Rightarrow> string" where
  "policer_lines range_name now_ms ip t =
     concat (map (\<lambda>(name, value). if value = 0 then []
         else series_line name (show_ipv4 ip) (escape_label (range_name ip)) value now_ms)
       [(''vmbw_policer_rx_passed_bytes_total'', pd_passed_bytes (pt_rx t)),
        (''vmbw_policer_tx_passed_bytes_total'', pd_passed_bytes (pt_tx t)),
        (''vmbw_policer_rx_passed_packets_total'', pd_passed_packets (pt_rx t)),
        (''vmbw_policer_tx_passed_packets_total'', pd_passed_packets (pt_tx t)),
        (''vmbw_policer_rx_dropped_bytes_total'', pd_dropped_bytes (pt_rx t)),
        (''vmbw_policer_tx_dropped_bytes_total'', pd_dropped_bytes (pt_tx t)),
        (''vmbw_policer_rx_dropped_packets_total'', pd_dropped_packets (pt_rx t)),
        (''vmbw_policer_tx_dropped_packets_total'', pd_dropped_packets (pt_tx t))])"

definition render_prom_lines_policer ::
  "u32 list \<Rightarrow> (u32 \<rightharpoonup> policer_ip_totals) \<Rightarrow> (u32 \<Rightarrow> string) \<Rightarrow> int \<Rightarrow> string" where
  "render_prom_lines_policer keys totals range_name now_ms =
     concat (map (\<lambda>ip. case totals ip of None \<Rightarrow> [] | Some t \<Rightarrow> policer_lines range_name now_ms ip t) (sort keys))"

subsection \<open>One push\<close>

definition MAX_RESPONSE_BODY :: nat where "MAX_RESPONSE_BODY = 2 ^ 20"

text \<open>A response is its status and its chunks; a chunk may fail to arrive. The body is text here.\<close>

fun body_capped :: "string \<Rightarrow> (string + string) list \<Rightarrow> string + string" where
  "body_capped body [] = Inr body"
| "body_capped body (Inl e # chunks) = Inl (''reading response body: '' @ e)"
| "body_capped body (Inr chunk # chunks) =
     (if MAX_RESPONSE_BODY < length body + length chunk
      then Inl (''response body exceeds '' @ show_nat MAX_RESPONSE_BODY @ '' bytes'')
      else body_capped (body @ chunk) chunks)"

definition push ::
  "(string \<Rightarrow> string + parsed_url) \<Rightarrow> (string \<Rightarrow> string \<Rightarrow> string + (nat \<times> (string + string) list)) \<Rightarrow> string \<Rightarrow> string
    \<Rightarrow> string + unit" where
  "push url_parse post base_url lines =
     (if lines = [] then Inr ()
      else case post (base_url @ ''/api/v1/import/prometheus'') lines of
        Inl e \<Rightarrow> Inl (''POST '' @ safe_endpoint_display url_parse base_url @ '': '' @ e)
      | Inr (code, chunks) \<Rightarrow>
          if 200 \<le> code \<and> code < 300 then Inr ()
          else Inl (''HTTP '' @ show_nat code @ '': ''
                 @ take 200 (case body_capped [] chunks of Inl _ \<Rightarrow> [] | Inr body \<Rightarrow> body)))"

subsection \<open>Label values cannot be broken out of\<close>

text \<open>The reader's side of the text format: a label value up to its closing quote, with the three
  escapes; a bare line feed or an unknown escape is an error.\<close>

fun scan_label :: "string \<Rightarrow> (string \<times> string) option" where
  "scan_label [] = None"
| "scan_label (c # cs) =
     (if c = quote then Some ([], cs)
      else if c = newline then None
      else if c = backslash then
        (case cs of
           [] \<Rightarrow> None
         | d # ds \<Rightarrow>
             if d = backslash \<or> d = quote then map_option (apfst (Cons d)) (scan_label ds)
             else if d = CHR ''n'' then map_option (apfst (Cons newline)) (scan_label ds) else None)
      else map_option (apfst (Cons c)) (scan_label cs))"

text \<open>C30: A label value survives the push. Whatever characters the configured name of a range holds,
  quotes, backslashes and line feeds included, a reader of the text format gets exactly that name back
  from the escaped value and goes on behind its closing quote: a name can neither end the label early
  nor start a line of its own.\<close>

theorem label_roundtrip: "scan_label (escape_label v @ quote # rest) = Some (v, rest)"
proof (induction v)
  case Nil
  then show ?case by (simp add: escape_label_def)
next
  case (Cons c v)
  then show ?case by (simp add: escape_label_def escape_char_def)
qed

text \<open>The order of the hash map does not show in a payload.\<close>

lemma render_order:
  assumes "distinct keys" "distinct keys'" "set keys = set keys'"
  shows "render_prom_lines keys totals range_name now_ms = render_prom_lines keys' totals range_name now_ms"
    and "render_prom_lines_policer keys ptotals range_name now_ms = render_prom_lines_policer keys' ptotals range_name now_ms"
proof -
  have "sort keys = sort keys'" using assms by (intro sorted_distinct_set_unique) simp_all
  then show "render_prom_lines keys totals range_name now_ms = render_prom_lines keys' totals range_name now_ms"
    "render_prom_lines_policer keys ptotals range_name now_ms = render_prom_lines_policer keys' ptotals range_name now_ms"
    by (simp_all only: render_prom_lines_def render_prom_lines_policer_def)
qed

subsection \<open>Single flight\<close>

record push_counters =
  pc_inflight :: bool
  pc_successes :: u64
  pc_failures :: u64
  pc_skipped :: u64

definition push_counters_new :: push_counters where
  "push_counters_new = \<lparr>pc_inflight = False, pc_successes = 0, pc_failures = 0, pc_skipped = 0\<rparr>"

definition try_start :: "push_counters \<Rightarrow> bool \<times> push_counters" where
  "try_start c =
     (if pc_inflight c then (False, c\<lparr>pc_skipped := pc_skipped c + 1\<rparr>)
      else (True, c\<lparr>pc_inflight := True\<rparr>))"

definition note_success :: "push_counters \<Rightarrow> push_counters" where
  "note_success c = c\<lparr>pc_successes := pc_successes c + 1\<rparr>"

definition note_failure :: "push_counters \<Rightarrow> push_counters" where
  "note_failure c = c\<lparr>pc_failures := pc_failures c + 1\<rparr>"

definition drop_guard :: "push_counters \<Rightarrow> push_counters" where
  "drop_guard c = c\<lparr>pc_inflight := False\<rparr>"

text \<open>A task of \<open>run_metrics_push\<close> that holds the guard is either still waiting for its push or has
  noted the outcome. The tasks run on several threads: their steps interleave in any order. A task
  that is cancelled or panics drops the guard from where it is. \<open>started\<close> and \<open>lost\<close> count the
  tasks spawned and those that ended without an outcome.\<close>

datatype push_task = Pushing | Noted

record push_world =
  pw_counters :: push_counters
  pw_tasks :: "push_task list"
  pw_started :: u64
  pw_lost :: u64

definition run_metrics_push_start :: "push_world \<Rightarrow> push_world" where
  "run_metrics_push_start w =
     (let (got, c) = try_start (pw_counters w)
      in w\<lparr>pw_counters := c, pw_started := pw_started w + 1, pw_tasks := (if got then [Pushing] else []) @ pw_tasks w\<rparr>)"

inductive push_step :: "push_world \<Rightarrow> push_world \<Rightarrow> bool" where
  start: "push_step w (run_metrics_push_start w)"
| succeed: "pw_tasks w = xs @ Pushing # ys \<Longrightarrow>
    push_step w (w\<lparr>pw_counters := note_success (pw_counters w), pw_tasks := xs @ Noted # ys\<rparr>)"
| fail: "pw_tasks w = xs @ Pushing # ys \<Longrightarrow>
    push_step w (w\<lparr>pw_counters := note_failure (pw_counters w), pw_tasks := xs @ Noted # ys\<rparr>)"
| finish: "pw_tasks w = xs @ Noted # ys \<Longrightarrow>
    push_step w (w\<lparr>pw_counters := drop_guard (pw_counters w), pw_tasks := xs @ ys\<rparr>)"
| unwind: "pw_tasks w = xs @ Pushing # ys \<Longrightarrow>
    push_step w (w\<lparr>pw_counters := drop_guard (pw_counters w), pw_tasks := xs @ ys, pw_lost := pw_lost w + 1\<rparr>)"

definition push_idle :: push_world where
  "push_idle = \<lparr>pw_counters = push_counters_new, pw_tasks = [], pw_started = 0, pw_lost = 0\<rparr>"

definition single_flight :: "push_world \<Rightarrow> bool" where
  "single_flight w \<longleftrightarrow> (let c = pw_counters w in
     length (pw_tasks w) \<le> 1 \<and> (pc_inflight c \<longleftrightarrow> pw_tasks w \<noteq> [])
     \<and> pw_started w = pc_successes c + pc_failures c + pc_skipped c + pw_lost w
         + (if Pushing \<in> set (pw_tasks w) then 1 else 0))"

lemma push_step_single_flight: "push_step w w' \<Longrightarrow> single_flight w \<Longrightarrow> single_flight w'"
  by (induction rule: push_step.induct)
    (auto simp: single_flight_def Let_def run_metrics_push_start_def try_start_def note_success_def note_failure_def
      drop_guard_def add_ac length_Suc_conv le_Suc_eq append_eq_Cons_conv split: if_splits)

text \<open>C31: The push is single flight. However the steps of the spawned pushes interleave, cancellations and
  panics included, at most one of them holds the guard, the flag is set exactly while one does, so the
  slot is never leaked, and every push that was ever started is accounted for: it succeeded, failed, was
  skipped, ended without an outcome, or is the one in flight.\<close>

theorem push_single_flight:
  assumes "push_step\<^sup>*\<^sup>* push_idle w"
  shows "length (pw_tasks w) \<le> 1 \<and> (pc_inflight (pw_counters w) \<longleftrightarrow> pw_tasks w \<noteq> [])
    \<and> pw_started w = pc_successes (pw_counters w) + pc_failures (pw_counters w) + pc_skipped (pw_counters w)
        + pw_lost w + (if Pushing \<in> set (pw_tasks w) then 1 else 0)"
proof -
  from assms have "single_flight w"
  proof (induction rule: rtranclp_induct)
    case base
    then show ?case by (simp add: single_flight_def push_idle_def push_counters_new_def)
  next
    case (step w w')
    then show ?case by (blast intro: push_step_single_flight)
  qed
  then show ?thesis by (simp add: single_flight_def Let_def)
qed

text \<open>Two pushes, the second while the first is in flight.\<close>

lemma push_single_flight_witness:
  "(let w = run_metrics_push_start (run_metrics_push_start push_idle)
    in length (pw_tasks w) \<le> 1 \<and> pw_tasks w = [Pushing] \<and> pc_skipped (pw_counters w) = 1)"
proof -
  have "push_step\<^sup>*\<^sup>* push_idle (run_metrics_push_start (run_metrics_push_start push_idle))"
    by (meson push_step.start rtranclp.rtrancl_into_rtrancl rtranclp.rtrancl_refl)
  from push_single_flight [OF this] show ?thesis
    by (simp add: Let_def run_metrics_push_start_def try_start_def push_idle_def push_counters_new_def)
qed

end
