(* ===== verification/Timers.thy ===== *)
theory Timers
  imports Config
begin

section \<open>Timers: the deadlines of the engine loop\<close>

text \<open>
  \<open>TimerIntervals\<close>, \<open>next_deadline\<close> and \<open>rescheduled\<close> of \<open>vm-bandwidth/src/daemon.rs\<close>. Instants and
  durations are nanoseconds.
\<close>

record timer_intervals =
  ti_collect :: nat
  ti_scan :: nat
  ti_push :: nat

definition intervals_of :: "validated_config \<Rightarrow> timer_intervals" where
  "intervals_of cfg =
     \<lparr>ti_collect = unat (max (vc_refresh_interval_ms cfg) 1) * 1000000,
      ti_scan = unat (max (vc_scan_interval_secs cfg) 1) * 1000000000,
      ti_push = unat (max (vc_metrics_push_interval_secs cfg) 5) * 1000000000\<rparr>"

definition next_deadline :: "nat \<Rightarrow> nat \<Rightarrow> nat \<Rightarrow> nat" where
  "next_deadline prev period now = (let next = prev + period in if now < next then next else now + period)"

definition rescheduled :: "nat \<Rightarrow> nat \<Rightarrow> nat \<Rightarrow> nat" where
  "rescheduled current period now = min current (now + period)"

lemma intervals_pos: "0 < ti_collect (intervals_of cfg)" "0 < ti_scan (intervals_of cfg)" "0 < ti_push (intervals_of cfg)"
  by (simp_all add: intervals_of_def max_def word_le_nat_alt)

lemma next_deadline_bounds:
  assumes "prev \<le> now" "0 < period"
  shows "now < next_deadline prev period now" "next_deadline prev period now \<le> now + period"
  using assms by (auto simp: next_deadline_def Let_def)

text \<open>Reloads while a deadline is pending: each reschedules it with its own period.\<close>

definition reschedules :: "(nat \<times> nat) list \<Rightarrow> nat \<Rightarrow> nat" where
  "reschedules reloads deadline = fold (\<lambda>(period, now) d. rescheduled d period now) reloads deadline"

lemma reschedules_le: "reschedules reloads d \<le> d"
  unfolding reschedules_def
proof (induction reloads arbitrary: d)
  case (Cons r reloads)
  from Cons [of "rescheduled d (fst r) (snd r)"] show ?case by (auto simp: rescheduled_def case_prod_beta)
qed simp

lemma reschedules_after: "\<forall>(period, now) \<in> set reloads. t < now + period \<Longrightarrow> t < d \<Longrightarrow> t < reschedules reloads d"
  unfolding reschedules_def by (induction reloads arbitrary: d) (auto simp: rescheduled_def)

lemma cadence_step:
  assumes "\<forall>i < length nows. d + i * period \<le> nows ! i \<and> nows ! i < d + (i + 1) * period"
  shows "fold (\<lambda>now d. next_deadline d period now) nows d = d + length nows * period"
  using assms
proof (induction nows arbitrary: d)
  case (Cons now nows)
  have "now < d + period" using Cons.prems [rule_format, of 0] by simp
  moreover have "\<forall>i < length nows. d + period + i * period \<le> nows ! i \<and> nows ! i < d + period + (i + 1) * period"
    using Cons.prems by (auto dest: spec [of _ "Suc _"])
  ultimately show ?case using Cons.IH [of "d + period"] by (simp add: next_deadline_def)
qed simp

text \<open>C32: The engine timers neither drift nor starve. When every tick is handled within its own period
  the deadlines stay on the grid of the first one, whatever time the handling took. A tick handled at
  \<open>now\<close>, however late, is followed by exactly one deadline, after \<open>now\<close> and at most one period away, and
  no sequence of configuration reloads can push that deadline out.\<close>

theorem timers_keep_cadence:
  assumes "period = ti_collect (intervals_of cfg) \<or> period = ti_scan (intervals_of cfg) \<or> period = ti_push (intervals_of cfg)"
    and "prev \<le> now" "\<forall>i < length nows. prev + i * period \<le> nows ! i \<and> nows ! i < prev + (i + 1) * period"
  shows "fold (\<lambda>now d. next_deadline d period now) nows prev = prev + length nows * period
    \<and> now < next_deadline prev period now
    \<and> reschedules reloads (next_deadline prev period now) \<le> now + period"
proof -
  have "0 < period" using assms(1) intervals_pos [of cfg] by auto
  from next_deadline_bounds [OF assms(2) this] show ?thesis
    using cadence_step [OF assms(3)] reschedules_le [of reloads "next_deadline prev period now"] by simp
qed

text \<open>A configuration without ranges.\<close>

definition empty_config :: validated_config where
  "empty_config = \<lparr>vc_bridge = ''br0'', vc_refresh_interval_ms = 2000, vc_scan_interval_secs = 5,
     vc_map_max_entries = 1024, vc_swl_map_max_entries = 16, vc_show_interface = False, vc_show_packets = False,
     vc_show_idle_ips = False, vc_default_sort = SortIp, vc_metrics_enabled = False, vc_metrics_url = [],
     vc_metrics_push_interval_secs = 60, vc_ranges = []\<rparr>"

lemma timers_keep_cadence_witness:
  "(let p = ti_collect (intervals_of empty_config)
    in fold (\<lambda>now d. next_deadline d p now) [10, 3999999999] 5 = 5 + 2 * p
       \<and> reschedules [(1, 3)] (next_deadline 5 p (9 * p)) \<le> 10 * p)"
proof -
  let ?p = "ti_collect (intervals_of empty_config)"
  have p: "?p = 2000000000" by (simp add: empty_config_def intervals_of_def max_def word_le_nat_alt)
  have "\<forall>i < length [10, 3999999999 :: nat]. 5 + i * ?p \<le> [10, 3999999999] ! i \<and> [10, 3999999999] ! i < 5 + (i + 1) * ?p"
    by (auto simp: p less_Suc_eq)
  from timers_keep_cadence [OF _ _ this, of empty_config "9 * ?p" "[(1, 3)]"] show ?thesis by (simp add: p Let_def)
qed

end
