(* ===== verification/Engine.thy ===== *)
theory Engine
  imports Engine_Maps Reload Tc Timefmt Ipc Metrics Timers
begin

section \<open>Engine: the task that owns the state\<close>

text \<open>
  \<open>Engine\<close> of \<open>vm-bandwidth/src/daemon.rs\<close>: the collection tick, the TAP scan, the hot reload with
  its guards, the push, the IPC replies, and the start of the daemon up to its loop. The BPF maps and
  the data path beside them are a \<open>world\<close> (Engine\_Maps). What comes from outside in one operation,
  such as the bytes of the configuration file, the clocks, the items a map iterator yields and the
  orders of hash maps, is a record of inputs of that operation; third-party code is a \<open>platform\<close>.
  Log lines are left out.
\<close>

subsection \<open>What is not the daemon's own code\<close>

text \<open>The longest-prefix lookup of the kernel, the TOML and URL parsers, and the texts of errors that
  other crates (and \<open>thiserror\<close>) render.\<close>

record platform =
  pf_lpm :: "trie \<Rightarrow> u32 \<Rightarrow> bool"
  pf_describe :: "map_error \<Rightarrow> error"
  pf_describe_program :: "program_error \<Rightarrow> string"
  pf_from_toml :: "string \<Rightarrow> string + config"
  pf_url_parse :: "string \<Rightarrow> string + parsed_url"
  pf_config_error :: "config_error \<Rightarrow> string"
  pf_policy_error :: "policy_error \<Rightarrow> string"
  pf_utf8_error :: "bytes \<Rightarrow> string"

abbreviation engine_limit_maps :: "platform \<Rightarrow> world limit_maps" where
  "engine_limit_maps pf \<equiv> engine_maps (pf_lpm pf) (pf_describe pf)"

abbreviation engine_wl :: "platform \<Rightarrow> world whitelist_ops" where
  "engine_wl pf \<equiv> engine_whitelist (pf_lpm pf) (pf_describe pf)"

subsection \<open>State\<close>

record reload_side =
  rd_status :: reload_status
  rd_last_config_bytes :: bytes
  rd_config_watch :: u64

record tap_side =
  tp_bridge :: string
  tp_manager :: attach_manager
  tp_taps :: "tap list"
  tp_attach_failures_total :: u64
  tp_pending_removes :: "traffic_key set"

record last_poll =
  lq_snapshot :: "range_stats list option"
  lq_totals :: "u32 \<rightharpoonup> ip_totals"
  lq_policer :: "u32 \<rightharpoonup> policer_ip_totals"
  lq_ipv6 :: ip_stats
  lq_oversized :: "oversized_stats \<times> oversized_stats"

record engine =
  en_control :: control
  en_reload :: reload_side
  en_watcher :: watcher_status
  en_health :: rollback_health
  en_taps :: tap_side
  en_last :: last_poll
  en_whitelist_capacity :: u32
  en_push :: push_counters
  en_world :: world

subsection \<open>The collection tick\<close>

text \<open>\<open>RollbackHealth::record\<close>, once for each report.\<close>

definition record_report :: "rollback_report \<Rightarrow> rollback_health \<Rightarrow> rollback_health" where
  "record_report report h =
     (if \<not> rr_dataplane_consistent report
      then h\<lparr>rh_degraded := True, rh_failures_total := rh_failures_total h + word_of_nat (length (rr_failures report))\<rparr>
      else h)"

definition surface_rollback_report :: "rollback_report \<Rightarrow> engine \<Rightarrow> engine" where
  "surface_rollback_report report E = E\<lparr>en_health := record_report report (en_health E)\<rparr>"

definition add_oversized :: "oversized_stats list \<Rightarrow> oversized_stats \<Rightarrow> oversized_stats" where
  "add_oversized values acc =
     fold (\<lambda>v a. \<lparr>os_packets = os_packets a + os_packets v, os_bytes = os_bytes a + os_bytes v\<rparr>) values acc"

definition read_oversized :: "('e + u8 \<times> oversized_stats list) list \<Rightarrow> oversized_stats \<times> oversized_stats" where
  "read_oversized items =
     fold (\<lambda>item (rx, tx).
       case item of
         Inl _ \<Rightarrow> (rx, tx)
       | Inr (dir, values) \<Rightarrow>
           if dir = DIR_RX then (add_oversized values rx, tx)
           else if dir = DIR_TX then (rx, add_oversized values tx) else (rx, tx))
       items (oversized_stats_default, oversized_stats_default)"

record tick_inputs =
  tk_now_secs :: u64
  tk_now :: nat
  tk_orders :: orders
  tk_traffic :: "(map_error + traffic_key \<times> traffic_value list) list"
  tk_traffic6 :: "(map_error + u32 \<times> traffic_value list) list"
  tk_policer :: "(map_error + limit_key \<times> policer_stats list) list"
  tk_oversized :: "(map_error + u8 \<times> oversized_stats list) list"
  tk_ips :: "u32 set \<Rightarrow> u32 list"

text \<open>The limiter's tick with its actions carried out.\<close>

definition limiter_tick ::
  "platform \<Rightarrow> tick_inputs \<Rightarrow> (u32 \<rightharpoonup> ip_totals) \<Rightarrow> limiter \<times> world \<Rightarrow> tick_action_failure list \<times> limiter \<times> world" where
  "limiter_tick pf i totals lw =
     (let (l, w) = lw;
          (l, actions) = tick (tk_ips i (tick_ips l totals)) (tk_now_secs i) totals l
      in if actions = [] then ([], l, w)
         else apply_tick_actions (engine_limit_maps pf) (engine_wl pf) actions (l, w))"

definition collect_tick :: "platform \<Rightarrow> tick_inputs \<Rightarrow> engine \<Rightarrow> engine" where
  "collect_tick pf i E =
     (let c = en_control E; cfg = ct_config c;
          (res, collector) = poll (tk_orders i) (tk_now i) (tk_traffic i) (tk_traffic6 i) (tk_policer i)
             (config_ranges cfg) (vc_show_idle_ips cfg) (ct_collector c);
          (_, w) = remove_counter_keys (remove_traffic (pf_lpm pf)) (pr_stale_traffic res) (en_world E);
          (_, w) = remove_counter_keys (remove_traffic6 (pf_lpm pf)) (pr_stale_traffic6 res) w;
          (failures, l, w) = limiter_tick pf i (pr_totals res) (ct_limiter c, w);
          E = E\<lparr>en_control := c\<lparr>ct_limiter := l, ct_collector := collector\<rparr>, en_world := w\<rparr>;
          E = fold (\<lambda>f. surface_rollback_report (tf_report f)) failures E
      in E\<lparr>en_last := \<lparr>lq_snapshot = Some (pr_snapshot res), lq_totals = pr_totals res, lq_policer = pr_policer res,
                       lq_ipv6 = pr_ipv6 res, lq_oversized = read_oversized (tk_oversized i)\<rparr>\<rparr>)"

subsection \<open>The TAP scan\<close>

record scan_inputs =
  sc_read_dir :: "string \<Rightarrow> string + string list"
  sc_read_file :: "string \<Rightarrow> string option"
  sc_names :: "(string \<rightharpoonup> attached_tap) \<Rightarrow> string list"
  sc_now :: nat
  sc_keys :: "(map_error + traffic_key) list"
  sc_pending :: "traffic_key set \<Rightarrow> traffic_key list"

definition oks :: "('e + 'a) list \<Rightarrow> 'a list" where
  "oks items = concat (map (\<lambda>r. case r of Inl _ \<Rightarrow> [] | Inr a \<Rightarrow> [a]) items)"

text \<open>The removal of the counters of TAPs that are gone; failed keys stay pending.\<close>

definition prune_stale ::
  "platform \<Rightarrow> scan_inputs \<Rightarrow> u32 set \<Rightarrow> traffic_key set \<times> world \<Rightarrow> traffic_key set \<times> world" where
  "prune_stale pf i new_ifindexes pw =
     (let (pending, w) = pw;
          stale = filter (\<lambda>key. tk_ifindex key \<notin> new_ifindexes \<and> key \<notin> pending) (oks (sc_keys i));
          (pruned, w) = remove_counter_keys (remove_traffic (pf_lpm pf)) stale w
      in (pending \<union> set (rm_failed_keys pruned), w))"

definition rescan_taps :: "platform \<Rightarrow> scan_inputs \<Rightarrow> engine \<Rightarrow> engine" where
  "rescan_taps pf i E =
     (let t = en_taps E in
      case discover_taps (sc_read_dir i) (sc_read_file i) (tp_bridge t) of
        Inl _ \<Rightarrow> E
      | Inr found \<Rightarrow>
          let (_, failed, am) = reconcile (pf_describe_program pf) (sc_names i (am_attached (tp_manager t)))
                 (sc_now i) found (tp_manager t);
              new_taps = manager_taps (sc_names i (am_attached am)) am;
              new_ifindexes = set (map tap_ifindex new_taps);
              old_ifindexes = set (map tap_ifindex (tp_taps t));
              (_, pending, w) = retry_traffic (sc_pending i) new_ifindexes (remove_traffic (pf_lpm pf))
                 (tp_pending_removes t, en_world E);
              (pending, w) = (if new_ifindexes \<noteq> old_ifindexes then prune_stale pf i new_ifindexes (pending, w)
                              else (pending, w))
          in E\<lparr>en_world := w,
               en_taps := t\<lparr>tp_manager := am, tp_taps := new_taps, tp_pending_removes := pending,
                 tp_attach_failures_total := tp_attach_failures_total t + word_of_nat failed\<rparr>\<rparr>)"

subsection \<open>Reload\<close>

definition record_watcher_error :: "string \<Rightarrow> engine \<Rightarrow> engine" where
  "record_watcher_error e E =
     E\<lparr>en_watcher := \<lparr>ws_healthy = False, ws_errors_total = ws_errors_total (en_watcher E) + 1, ws_last_error = e\<rparr>\<rparr>"

text \<open>\<open>str::from_utf8\<close>: the byte sequences of the Unicode standard (no surrogates, no overlong forms,
  nothing above U+10FFFF). The text is handed on as its bytes.\<close>

definition cont :: "u8 \<Rightarrow> bool" where "cont b \<longleftrightarrow> 0x80 \<le> b \<and> b \<le> 0xBF"

fun utf8_valid :: "bytes \<Rightarrow> bool" where
  "utf8_valid [] = True"
| "utf8_valid (a # bs) =
     (if a < 0x80 then utf8_valid bs
      else if 0xC2 \<le> a \<and> a \<le> 0xDF then
        (case bs of b # bs \<Rightarrow> cont b \<and> utf8_valid bs | _ \<Rightarrow> False)
      else if 0xE0 \<le> a \<and> a \<le> 0xEF then
        (case bs of b # c # bs \<Rightarrow>
            (if a = 0xE0 then 0xA0 \<le> b \<and> b \<le> 0xBF else if a = 0xED then 0x80 \<le> b \<and> b \<le> 0x9F else cont b)
            \<and> cont c \<and> utf8_valid bs
          | _ \<Rightarrow> False)
      else if 0xF0 \<le> a \<and> a \<le> 0xF4 then
        (case bs of b # c # d # bs \<Rightarrow>
            (if a = 0xF0 then 0x90 \<le> b \<and> b \<le> 0xBF else if a = 0xF4 then 0x80 \<le> b \<and> b \<le> 0x8F else cont b)
            \<and> cont c \<and> cont d \<and> utf8_valid bs
          | _ \<Rightarrow> False)
      else False)"

definition parse_config :: "platform \<Rightarrow> string \<Rightarrow> bytes \<Rightarrow> string + validated_config" where
  "parse_config pf path bytes =
     (if \<not> utf8_valid bytes then Inl (''config is not valid UTF-8: '' @ pf_utf8_error pf bytes)
      else map_err (\<lambda>e. pf_config_error pf e @ '' (in '' @ path @ '')'')
             (parse (pf_from_toml pf) (pf_url_parse pf) (map (\<lambda>b. char_of (unat b)) bytes)))"

record reload_inputs =
  ri_path :: string
  ri_file :: "string + bytes"
  ri_now_unix :: u64
  ri_now_secs :: u64
  ri_overrides :: "(u32 \<rightharpoonup> policy_fields) \<Rightarrow> u32 list"
  ri_flows :: "flow_key list"
  ri_prefixes :: "cidr set \<Rightarrow> cidr list"
  ri_tick :: tick_inputs

text \<open>The guards of \<open>apply_config\<close> that need no plan.\<close>

definition reload_guards :: "engine \<Rightarrow> validated_config \<Rightarrow> string option" where
  "reload_guards E new_cfg =
     (let cur = ct_config (en_control E); bridge = tp_bridge (en_taps E);
          old_prefixes = prefix_set cur; new_prefixes = prefix_set new_cfg;
          peak = whitelist_peak old_prefixes new_prefixes
      in if vc_bridge new_cfg \<noteq> bridge then
           Some (''changing network.bridge ('' @ bridge @ '' -> '' @ vc_bridge new_cfg
             @ '') is not supported by hot reload; restart the daemon instead'')
         else if vc_refresh_interval_ms new_cfg \<noteq> vc_refresh_interval_ms cur then
           Some (''changing collector.refresh_interval_ms is not supported by hot reload ''
             @ ''(the limiter's windows are calibrated in whole tick seconds); restart the daemon instead'')
         else if vc_map_max_entries new_cfg \<noteq> vc_map_max_entries cur then
           Some (''changing collector.map_max_entries is not supported by hot reload ''
             @ ''(the eBPF maps are sized once at startup); restart the daemon instead'')
         else if vc_swl_map_max_entries new_cfg \<noteq> vc_swl_map_max_entries cur then
           Some (''changing collector.swl_map_max_entries is not supported by hot reload ''
             @ ''(the eBPF maps are sized once at startup); restart the daemon instead'')
         else if unat (en_whitelist_capacity E) < peak then
           Some (''new config needs '' @ show_nat (card new_prefixes) @ '' whitelist prefixes ('' @ show_nat peak
             @ '' while the reload swaps them in) but MONITORED_IPS capacity is ''
             @ show_nat (unat (en_whitelist_capacity E))
             @ '' (sized at startup); restart the daemon to resize it'')
         else None)"

definition apply_config :: "platform \<Rightarrow> reload_inputs \<Rightarrow> validated_config \<Rightarrow> engine \<Rightarrow> (string + unit) \<times> engine" where
  "apply_config pf i new_cfg E =
     (case reload_guards E new_cfg of
        Some e \<Rightarrow> (Inl e, E)
      | None \<Rightarrow>
          let c = en_control E; old_prefixes = prefix_set (ct_config c) in
          case plan_reload (ri_overrides i) (ri_flows i) (ct_limiter c) new_cfg (ri_now_secs i) of
            Inl e \<Rightarrow> (Inl (pf_policy_error pf e), E)
          | Inr plan \<Rightarrow>
              (case apply_and_commit (ri_prefixes i) (engine_limit_maps pf) (engine_wl pf) old_prefixes plan new_cfg
                      (c, en_world E) of
                 (Inr _, (c, w)) \<Rightarrow> (Inr (), E\<lparr>en_control := c, en_world := w\<rparr>)
               | (Inl rb, (c, w)) \<Rightarrow>
                   (Inl (re_message rb), surface_rollback_report (re_report rb) (E\<lparr>en_control := c, en_world := w\<rparr>))))"

definition reload_failed :: "string \<Rightarrow> string \<Rightarrow> engine \<Rightarrow> engine" where
  "reload_failed stamp e E =
     E\<lparr>en_reload := (en_reload E)\<lparr>rd_status := (rd_status (en_reload E))
        \<lparr>rl_last_reload_at := stamp, rl_last_reload_ok := False, rl_last_reload_error := e\<rparr>\<rparr>\<rparr>"

definition reload :: "platform \<Rightarrow> reload_inputs \<Rightarrow> engine \<Rightarrow> engine" where
  "reload pf i E =
     (let stamp = format_unix_utc (ri_now_unix i) in
      case ri_file i of
        Inl e \<Rightarrow> reload_failed stamp (''cannot read '' @ ri_path i @ '': '' @ e) E
      | Inr bytes \<Rightarrow>
          if bytes = rd_last_config_bytes (en_reload E) then
            E\<lparr>en_reload := (en_reload E)\<lparr>rd_status := (rd_status (en_reload E))
               \<lparr>rl_last_reload_at := stamp, rl_last_reload_ok := True, rl_last_reload_error := []\<rparr>\<rparr>\<rparr>
          else case parse_config pf (ri_path i) bytes of
            Inl e \<Rightarrow> reload_failed stamp e E
          | Inr new_cfg \<Rightarrow>
              (case apply_config pf i new_cfg E of
                 (Inl e, E) \<Rightarrow> reload_failed stamp e E
               | (Inr _, E) \<Rightarrow>
                   collect_tick pf (ri_tick i)
                     (E\<lparr>en_reload := \<lparr>rd_status = \<lparr>rl_config_loaded_at = stamp, rl_last_reload_at = stamp,
                          rl_last_reload_ok = True, rl_last_reload_error = []\<rparr>,
                        rd_last_config_bytes = bytes, rd_config_watch = ct_generation (en_control E)\<rparr>\<rparr>)))"

subsection \<open>Replies\<close>

definition state_label :: "bool \<Rightarrow> string" where
  "state_label limited = (if limited then ''LIMITED'' else ''NORMAL'')"

definition summary_of :: "range_dir \<Rightarrow> summary_dir" where
  "summary_of d = \<lparr>su_bps = rd_bps d, su_bytes = rd_bytes d, su_dropped_bps = rd_dropped_bps d,
     su_dropped_bytes = rd_dropped_bytes d\<rparr>"

definition range_summary_of :: "flow_key list \<Rightarrow> limiter \<Rightarrow> validated_config \<Rightarrow> nat \<Rightarrow> range_stats \<Rightarrow> range_summary" where
  "range_summary_of flows l cfg i rs =
     \<lparr>rs_name = rg_name rs, rs_range = rg_range rs, rs_rx = summary_of (rg_rx rs), rs_tx = summary_of (rg_tx rs),
      rs_ip_count = length (rg_ips rs),
      rs_limited =
        (if i < length (vc_ranges cfg)
         then let r = vr_inner (vc_ranges cfg ! i) in limited_count flows l (ir_start r) (ir_end r) else 0)\<rparr>"

definition ipv6_summary :: "ip_stats \<Rightarrow> range_summary" where
  "ipv6_summary v6 =
     (let dir = (\<lambda>d. \<lparr>su_bps = sd_bps d, su_bytes = sd_bytes d, su_dropped_bps = 0, su_dropped_bytes = 0\<rparr>)
      in \<lparr>rs_name = IPV6_RANGE_NAME, rs_range = [], rs_rx = dir (is_rx v6), rs_tx = dir (is_tx v6),
          rs_ip_count = 0, rs_limited = 0\<rparr>)"

text \<open>\<open>flows\<close> are the limiter's states in hash order, \<open>swl_keys\<close> what the key iterator of SWL\_LOG yields.\<close>

definition build_status :: "flow_key list \<Rightarrow> (map_error + limit_key) list \<Rightarrow> engine \<Rightarrow> status" where
  "build_status flows swl_keys E =
     (let c = en_control E; cfg = ct_config c; p = en_last E; t = en_taps E; (rx, tx) = lq_oversized p;
          ranges = (case lq_snapshot p of
            None \<Rightarrow> []
          | Some snap \<Rightarrow>
              map (\<lambda>(i, rs). range_summary_of flows (ct_limiter c) cfg i rs) (enumerate 0 snap)
              @ [ipv6_summary (lq_ipv6 p)])
      in \<lparr>st_protocol_version = PROTOCOL_VERSION, st_generation = ct_generation c,
          st_reload = rd_status (en_reload E),
          st_taps = \<lparr>ts_bridge = tp_bridge t, ts_tap_count = length (tp_taps t),
            ts_attach_failures_total = tp_attach_failures_total t\<rparr>,
          st_watcher = en_watcher E, st_rollback = en_health E,
          st_ops = \<lparr>op_push = \<lparr>pu_successes = pc_successes (en_push E), pu_failures = pc_failures (en_push E),
              pu_skipped = pc_skipped (en_push E)\<rparr>,
            op_oversized = \<lparr>ov_rx_packets = os_packets rx, ov_rx_bytes = os_bytes rx,
              ov_tx_packets = os_packets tx, ov_tx_bytes = os_bytes tx\<rparr>,
            op_swl_map_capacity = vc_swl_map_max_entries cfg,
            op_swl_map_used = word_of_nat (length (oks swl_keys))\<rparr>,
          st_ranges = ranges\<rparr>)"

definition detail_of :: "limiter \<Rightarrow> u64 \<Rightarrow> u32 \<Rightarrow> u8 \<Rightarrow> dir_policy option \<Rightarrow> dir_stats \<Rightarrow> detail_dir" where
  "detail_of l now ip dir pol d =
     \<lparr>dd_bps = sd_bps d, dd_bytes = sd_bytes d, dd_packets = sd_packets d, dd_window_bps = window_avg_bps l ip dir,
      dd_limit = \<lparr>lv_threshold = unwrap_or 0 (map_option dpo_threshold_bps pol),
        lv_limit = unwrap_or 0 (map_option dpo_limit_bps pol), lv_state = state_label (is_limited l ip dir),
        lv_remaining = remaining_secs l ip dir now\<rparr>,
      dd_dropped_bytes = sd_dropped_bytes d, dd_dropped_packets = sd_dropped_packets d\<rparr>"

definition range_total_of :: "range_dir \<Rightarrow> range_total" where
  "range_total_of d = \<lparr>rt_bps = rd_bps d, rt_bytes = rd_bytes d, rt_dropped_bytes = rd_dropped_bytes d,
     rt_dropped_packets = rd_dropped_packets d\<rparr>"

definition build_range_detail :: "u64 \<Rightarrow> nat \<Rightarrow> engine \<Rightarrow> range_detail option" where
  "build_range_detail now index E =
     (case lq_snapshot (en_last E) of
        None \<Rightarrow> None
      | Some snap \<Rightarrow>
          if length snap \<le> index then None
          else let rs = snap ! index; l = ct_limiter (en_control E) in
            Some \<lparr>de_name = rg_name rs, de_range = rg_range rs, de_rx = range_total_of (rg_rx rs),
              de_tx = range_total_of (rg_tx rs),
              de_ips = map (\<lambda>(ip, stats).
                 let eff = effective_policy_of l ip
                 in \<lparr>id_ip = ip, id_rx = detail_of l now ip DIR_RX (Option.bind eff ep_rx) (is_rx stats),
                     id_tx = detail_of l now ip DIR_TX (Option.bind eff ep_tx) (is_tx stats)\<rparr>) (rg_ips rs)\<rparr>)"

definition handle_request :: "flow_key list \<Rightarrow> (map_error + limit_key) list \<Rightarrow> u64 \<Rightarrow> engine \<Rightarrow> request \<Rightarrow> response" where
  "handle_request flows swl_keys now E req =
     (case req of
        Overview \<Rightarrow> StatusReply (build_status flows swl_keys E)
      | RangeDetail index \<Rightarrow>
          (case build_range_detail now index E of
             Some detail \<Rightarrow> DetailReply detail
           | None \<Rightarrow> ErrorReply (''range index '' @ show_nat index @ '' out of bounds'')))"

subsection \<open>The push\<close>

definition range_name :: "engine \<Rightarrow> u32 \<Rightarrow> string" where
  "range_name E ip =
     (case find (\<lambda>r. range_contains (vr_inner r) ip) (vc_ranges (ct_config (en_control E))) of
        None \<Rightarrow> ''unknown'' | Some r \<Rightarrow> ir_name (vr_inner r))"

text \<open>The URL and the payload of the push that is spawned, if one is.\<close>

definition push_metrics :: "u32 list \<Rightarrow> u32 list \<Rightarrow> int \<Rightarrow> engine \<Rightarrow> (string \<times> string) option" where
  "push_metrics ips policer_ips now_ms E =
     (let cfg = ct_config (en_control E); p = en_last E in
      if \<not> vc_metrics_enabled cfg then None
      else let lines = render_prom_lines ips (lq_totals p) (range_name E) now_ms
                 @ render_prom_lines_policer policer_ips (lq_policer p) (range_name E) now_ms
                 @ render_prom_lines_ipv6 (lq_ipv6 p) now_ms
                 @ render_prom_lines_oversized (lq_oversized p) now_ms
                 @ render_prom_lines_process (tp_attach_failures_total (en_taps E)) (pc_successes (en_push E))
                     (pc_failures (en_push E)) (pc_skipped (en_push E)) now_ms
           in if lines = [] then None else Some (vc_metrics_url cfg, lines))"

subsection \<open>Start\<close>

definition next_power_of_two :: "u32 \<Rightarrow> u32" where
  "next_power_of_two n = (if n \<le> 1 then 1 else word_of_nat (2 ^ floorlog 2 (unat n - 1)))"

definition whitelist_capacity_for :: "nat \<Rightarrow> u32" where
  "whitelist_capacity_for prefixes = next_power_of_two (sat_mul (word_of_nat (max prefixes 1)) 2)"

definition show_cidr :: "cidr \<Rightarrow> string" where
  "show_cidr c = show_ipv4 (cidr_network c) @ ''/'' @ show_nat (unat (cidr_prefix_len c))"

fun insert_prefixes :: "platform \<Rightarrow> cidr list \<Rightarrow> world \<Rightarrow> (string + unit) \<times> world" where
  "insert_prefixes pf [] w = (Inr (), w)"
| "insert_prefixes pf (c # cs) w =
     (case wl_insert (engine_wl pf) c w of
        (Inl e, w) \<Rightarrow> (Inl (''inserting whitelist prefix '' @ show_cidr c @ '': '' @ e), w)
      | (Inr _, w) \<Rightarrow> insert_prefixes pf cs w)"

text \<open>What the start takes from outside: the file, the maps and programs the loader leaves (empty), the
  first scan, and the clock.\<close>

record start_inputs =
  si_path :: string
  si_file :: "string + bytes"
  si_now_unix :: u64
  si_now_secs :: u64
  si_world :: "string + world"
  si_programs :: "string + tc_world"
  si_scan :: scan_inputs
  si_overrides :: "(u32 \<rightharpoonup> policy_fields) \<Rightarrow> u32 list"

definition empty_maps :: dp_state where
  "empty_maps = \<lparr>dp_monitored = {}, dp_traffic = Map.empty, dp_traffic6 = Map.empty, dp_policies = Map.empty,
     dp_limit_state = Map.empty, dp_swl_log = Map.empty, dp_policer_stats = Map.empty, dp_oversized = Map.empty\<rparr>"

definition first_scan :: "platform \<Rightarrow> scan_inputs \<Rightarrow> string \<Rightarrow> attach_manager \<Rightarrow> tap list \<times> nat \<times> attach_manager" where
  "first_scan pf i bridge am =
     (case discover_taps (sc_read_dir i) (sc_read_file i) bridge of
        Inl _ \<Rightarrow> ([], 0, am)
      | Inr found \<Rightarrow>
          let (_, failed, am) = reconcile (pf_describe_program pf) (sc_names i (am_attached am)) (sc_now i) found am
          in (manager_taps (sc_names i (am_attached am)) am, failed, am))"

definition engine_new :: "u64 \<Rightarrow> bytes \<Rightarrow> validated_config \<Rightarrow> tap list \<times> nat \<times> attach_manager \<Rightarrow> world \<Rightarrow> engine" where
  "engine_new now_unix bytes cfg taps w =
     (let (taps, failures, am) = taps in
      \<lparr>en_control = \<lparr>ct_limiter = limiter_new (vc_refresh_interval_ms cfg div 1000), ct_collector = collector_new,
         ct_config = cfg, ct_generation = 1\<rparr>,
       en_reload = \<lparr>rd_status = \<lparr>rl_config_loaded_at = format_unix_utc now_unix, rl_last_reload_at = [],
           rl_last_reload_ok = True, rl_last_reload_error = []\<rparr>,
         rd_last_config_bytes = bytes, rd_config_watch = 1\<rparr>,
       en_watcher = \<lparr>ws_healthy = True, ws_errors_total = 0, ws_last_error = []\<rparr>,
       en_health = \<lparr>rh_degraded = False, rh_failures_total = 0\<rparr>,
       en_taps = \<lparr>tp_bridge = vc_bridge cfg, tp_manager = am, tp_taps = taps,
         tp_attach_failures_total = word_of_nat failures, tp_pending_removes = {}\<rparr>,
       en_last = \<lparr>lq_snapshot = None, lq_totals = Map.empty, lq_policer = Map.empty, lq_ipv6 = ip_stats_default,
         lq_oversized = (oversized_stats_default, oversized_stats_default)\<rparr>,
       en_whitelist_capacity = whitelist_capacity_for (length (concat (map (\<lambda>r. cidrs (vr_inner r)) (vc_ranges cfg)))),
       en_push = push_counters_new,
       en_world = w\<rparr>)"

definition start_daemon :: "platform \<Rightarrow> start_inputs \<Rightarrow> string + engine" where
  "start_daemon pf i =
     try_bind (map_err (\<lambda>e. ''cannot read config file '' @ si_path i @ '': '' @ e) (si_file i)) (\<lambda>bytes.
     try_bind (parse_config pf (si_path i) bytes) (\<lambda>cfg.
     try_bind (si_world i) (\<lambda>w.
     case insert_prefixes pf (concat (map (\<lambda>r. cidrs (vr_inner r)) (vc_ranges cfg))) w of
       (Inl e, _) \<Rightarrow> Inl e
     | (Inr _, w) \<Rightarrow>
         try_bind (si_programs i) (\<lambda>programs.
         let am = \<lparr>am_bpf = programs, am_attached = Map.empty, am_retry_backoff = Map.empty\<rparr>;
             E = engine_new (si_now_unix i) bytes cfg (first_scan pf (si_scan i) (vc_bridge cfg) am) w;
             c = en_control E
         in case plan_reload (si_overrides i) [] (ct_limiter c) cfg (si_now_secs i) of
              Inl e \<Rightarrow> Inl (pf_policy_error pf e)
            | Inr plan \<Rightarrow> Inr (E\<lparr>en_control := c\<lparr>ct_limiter := commit_reload plan (ct_limiter c)\<rparr>\<rparr>)))))"

subsection \<open>The loop\<close>

text \<open>What can happen to the engine, in any order: frames arrive, a timer fires, a reload is requested,
  the watcher reports an error, a push task makes progress. IPC requests only read. An iteration over
  a hash map or a hash set visits each entry once.\<close>

definition iterates :: "('a set \<Rightarrow> 'a list) \<Rightarrow> bool" where
  "iterates order \<longleftrightarrow> (\<forall>A. distinct (order A) \<and> (finite A \<longrightarrow> set (order A) = A))"

inductive engine_op :: "platform \<Rightarrow> engine \<Rightarrow> engine \<Rightarrow> bool" for pf where
  collect: "iterates (tk_ips i) \<Longrightarrow> engine_op pf E (collect_tick pf i E)"
| scan: "iterates (sc_pending i) \<Longrightarrow> engine_op pf E (rescan_taps pf i E)"
| reload: "enumerates (ri_flows i) (lm_states (ct_limiter (en_control E))) \<Longrightarrow> iterates (ri_prefixes i) \<Longrightarrow>
    iterates (tk_ips (ri_tick i)) \<Longrightarrow> engine_op pf E (reload pf i E)"
| watcher: "engine_op pf E (record_watcher_error e E)"
| push: "engine_op pf E (E\<lparr>en_push := c\<rparr>)"

inductive engine_step :: "platform \<Rightarrow> engine \<Rightarrow> engine \<Rightarrow> bool" for pf where
  frames: "engine_step pf E (E\<lparr>en_world := let_frames (pf_lpm pf) evs (en_world E)\<rparr>)"
| operation: "engine_op pf E E' \<Longrightarrow> engine_step pf E E'"

inductive_cases engine_stepE [elim]: "engine_step pf E E'"
inductive_cases engine_opE [elim]: "engine_op pf E E'"

lemmas engine_steps = engine_step.frames engine_op.intros [THEN engine_step.operation]

text \<open>A daemon that started on freshly loaded maps and has been running since.\<close>

definition fresh_world :: "world \<Rightarrow> bool" where
  "fresh_world w \<longleftrightarrow> wo_maps w = empty_maps \<and> wo_met w = []"

inductive engine_run :: "platform \<Rightarrow> engine \<Rightarrow> bool" for pf where
  started: "si_world i = Inr w \<Longrightarrow> fresh_world w \<Longrightarrow> start_daemon pf i = Inr E \<Longrightarrow> engine_run pf E"
| stepped: "engine_run pf E \<Longrightarrow> engine_step pf E E' \<Longrightarrow> engine_run pf E'"

end
