(* ===== verification/Reload_Safety.thy ===== *)
theory Reload_Safety
  imports Reload Tx_Safety Limiter_Agreement
begin

section \<open>Reload\_Safety: what applied actions leave in the maps\<close>

text \<open>
  The daemon's drivers over any maps that keep the contracts of the transactions. On success
  the policies in the maps are changed as the abstract \<open>apply_action\<close> changes them and the
  whitelist becomes the new one; on failure the rollback is the one of the journal, and if it
  reports no failure nothing has changed.
\<close>

subsection \<open>Actions one by one\<close>

definition action_key :: "limit_action \<Rightarrow> limit_key" where
  "action_key a = limit_key_new (fst (la_flow a)) (snd (la_flow a))"

definition action_target :: "limit_action \<Rightarrow> limit_policy option" where
  "action_target a = apply_action a Map.empty (la_flow a)"

fun run_action :: "'s limit_maps \<Rightarrow> limit_action \<Rightarrow> ('s tx, unit) effect" where
  "run_action m (Remove ipv4 direction) =
     with_context (''removing limit policy for '' @ flow_text ipv4 direction)
       (remove_limit m (limit_key_new ipv4 direction))"
| "run_action m (Install ipv4 direction rate_bps burst_bytes algorithm window_ns) =
     with_context (''installing limit policy for '' @ flow_text ipv4 direction)
       (install_limit m (limit_key_new ipv4 direction)
         \<lparr>lp_enabled = 1, lp_algorithm = algorithm, lp_rate_bps = rate_bps, lp_burst_bytes = burst_bytes,
          lp_window_ns = window_ns\<rparr>)"

fun run_all :: "'s limit_maps \<Rightarrow> limit_action list \<Rightarrow> ('s tx, unit) effect" where
  "run_all m [] = ok_of ()"
| "run_all m (a # as) = and_then (run_action m a) (\<lambda>_. run_all m as)"

definition removes_first :: "limit_action list \<Rightarrow> limit_action list" where
  "removes_first as = filter is_remove as @ filter (\<lambda>a. \<not> is_remove a) as"

lemma run_all_append: "run_all m (as @ bs) = and_then (run_all m as) (\<lambda>_. run_all m bs)"
  by (induction as) (auto simp: fun_eq_iff and_then_def ok_of_def split: prod.split sum.split)

lemma run_limit_actions_all: "run_limit_actions m as = run_all m (removes_first as)"
proof -
  have "run_removes m bs = run_all m (filter is_remove bs)" for bs
    by (induction m bs rule: run_removes.induct) (simp_all add: is_remove_def)
  moreover have "run_installs m bs = run_all m (filter (\<lambda>a. \<not> is_remove a) bs)" for bs
    by (induction m bs rule: run_installs.induct) (simp_all add: is_remove_def)
  ultimately show ?thesis
    by (simp add: run_limit_actions_def removes_first_def run_all_append)
qed

lemma distinct_flows:
  assumes "\<And>flow. length (acts_of flow as) \<le> 1"
  shows "distinct (map la_flow as)"
  using assms
proof (induction as)
  case (Cons a as)
  have "length (acts_of flow as) \<le> 1" for flow
    using Cons.prems [of flow] by (simp split: if_splits)
  moreover have "acts_of (la_flow a) as = []" using Cons.prems [of "la_flow a"] by simp
  then have "la_flow a \<notin> la_flow ` set as" by (auto simp: acts_of_def filter_empty_conv)
  ultimately show ?case using Cons.IH by simp
qed simp

lemma removes_first_props [simp]:
  "set (removes_first as) = set as"
  "distinct (map la_flow as) \<Longrightarrow> distinct (map la_flow (removes_first as))"
  by (auto simp: removes_first_def distinct_map inj_on_def)

lemma distinct_keys: "distinct (map la_flow as) \<Longrightarrow> distinct (map action_key as)"
  by (auto simp: distinct_map inj_on_def action_key_def limit_key_new_inj prod_eq_iff)

text \<open>Actions on distinct flows: each flow has the policy of its action.\<close>

lemma apply_action_target: "apply_action a m (la_flow a) = action_target a"
  by (cases a) (auto simp: apply_action_def action_target_def la_flow_def)

lemma fold_apply_distinct:
  assumes "distinct (map la_flow as)"
  shows "a \<in> set as \<Longrightarrow> fold apply_action as m (la_flow a) = action_target a"
    and "flow \<notin> la_flow ` set as \<Longrightarrow> fold apply_action as m flow = m flow"
proof -
  have other: "flow \<notin> la_flow ` set bs \<Longrightarrow> fold apply_action bs m flow = m flow" for bs m flow
    by (induction bs arbitrary: m) (auto simp: apply_other)
  show "flow \<notin> la_flow ` set as \<Longrightarrow> fold apply_action as m flow = m flow" by (rule other)
  show "a \<in> set as \<Longrightarrow> fold apply_action as m (la_flow a) = action_target a"
    using assms
  proof (induction as arbitrary: m)
    case (Cons b as)
    then show ?case by (cases "a = b") (auto simp: other apply_action_target)
  qed simp
qed

lemma fold_removes_first:
  assumes "distinct (map la_flow as)"
  shows "fold apply_action (removes_first as) m = fold apply_action as m"
proof
  fix flow
  show "fold apply_action (removes_first as) m flow = fold apply_action as m flow"
  proof (cases "flow \<in> la_flow ` set as")
    case True
    then obtain a where "a \<in> set as" "flow = la_flow a" by blast
    with assms show ?thesis by (simp add: fold_apply_distinct(1))
  next
    case False
    with assms show ?thesis by (simp add: fold_apply_distinct(2))
  qed
qed

lemma wp_with_context:
  "wp (with_context what f) Q s \<longleftrightarrow> wp f (\<lambda>r s'. case r of Inl e \<Rightarrow> Q (Inl (what @ '': '' @ e)) s' | Inr a \<Rightarrow> Q (Inr a) s') s"
  by (auto simp: wp_def with_context_def split: prod.split sum.split)

lemma wp_context_mono:
  assumes "wp f Q s" "\<And>e t. Q (Inl e) t \<Longrightarrow> Q' (Inl (what @ '': '' @ e)) t" "\<And>a t. Q (Inr a) t \<Longrightarrow> Q' (Inr a) t"
  shows "wp (with_context what f) Q' s"
  unfolding wp_with_context by (rule wp_mono [OF assms(1)]) (use assms(2,3) in \<open>auto split: sum.split\<close>)

text \<open>Every rollback among the failures of a tick reports success.\<close>

definition consistent :: "tick_action_failure list \<Rightarrow> bool" where
  "consistent fs \<longleftrightarrow> (\<forall>f \<in> set fs. rr_dataplane_consistent (tf_report f))"

subsection \<open>A transaction of actions\<close>

context limit_maps
begin

text \<open>The policies of the maps, by flow.\<close>

definition armed_in :: "'s \<Rightarrow> flow_key \<rightharpoonup> limit_policy" where
  "armed_in s flow = sl_policy (slots s (limit_key_new (fst flow) (snd flow)))"

definition all_exact :: "'s \<Rightarrow> bool" where
  "all_exact s \<longleftrightarrow> (\<forall>k. slot_exact (slots s k))"

definition acted :: "'s \<Rightarrow> 's tx \<Rightarrow> limit_action list \<Rightarrow> error + unit \<Rightarrow> 's tx \<Rightarrow> bool" where
  "acted s0 t as r t' \<longleftrightarrow>
     tx_inv s0 t' \<and> set (tx_keys (fst t')) \<subseteq> action_key ` set as \<union> set (tx_keys (fst t))
     \<and> tj_wl_added (fst t') = tj_wl_added (fst t) \<and> tj_wl_removed (fst t') = tj_wl_removed (fst t)
     \<and> (\<forall>k. k \<notin> action_key ` set as \<longrightarrow> slots (snd t') k = slots (snd t) k)
     \<and> (r = Inr () \<longrightarrow> (\<forall>a \<in> set as. sl_policy (slots (snd t') (action_key a)) = action_target a
          \<and> (slot_exact (slots s0 (action_key a)) \<longrightarrow> slot_exact (slots (snd t') (action_key a)))))"

lemma context_step:
  assumes "wp f (tx_step s0 k target t) t"
  shows "wp (with_context what f) (\<lambda>r t'. \<exists>r0. (r0 = Inr () \<longleftrightarrow> r = Inr ()) \<and> tx_step s0 k target t r0 t') t"
  unfolding wp_with_context by (rule wp_mono [OF assms]) (auto split: sum.split)

lemma run_action_acted:
  assumes "tx_inv s0 t" "action_key a \<notin> set (tx_keys (fst t))"
  shows "wp (run_action m a) (acted s0 t [a]) t"
proof -
  obtain j s where t: "t = (j, s)" by force
  have "wp (run_action m a) (\<lambda>r t'. \<exists>r0. (r0 = Inr () \<longleftrightarrow> r = Inr ()) \<and> tx_step s0 (action_key a) (action_target a) t r0 t') t"
  proof (cases a)
    case (Install ip d rate burst algorithm window_ns)
    then have k: "action_key a = limit_key_new ip d" "action_target a = Some \<lparr>lp_enabled = 1, lp_algorithm = algorithm,
        lp_rate_bps = rate, lp_burst_bytes = burst, lp_window_ns = window_ns\<rparr>"
      by (simp_all add: action_key_def action_target_def apply_action_def la_flow_def)
    show ?thesis
      unfolding k unfolding Install run_action.simps t
      by (rule context_step, rule install_limit_tx [OF assms [unfolded t fst_conv k]])
  next
    case (Remove ip d)
    then have k: "action_key a = limit_key_new ip d" "action_target a = None"
      by (simp_all add: action_key_def action_target_def apply_action_def la_flow_def)
    show ?thesis
      unfolding k unfolding Remove run_action.simps t
      by (rule context_step, rule remove_limit_tx [OF assms [unfolded t fst_conv k]])
  qed
  then show ?thesis
    by (rule wp_mono) (auto simp: acted_def tx_step_def)
qed

lemma acted_trans:
  assumes "acted s0 t [a] (Inr ()) t1" "acted s0 t1 as r t2" "action_key a \<notin> action_key ` set as"
  shows "acted s0 t (a # as) r t2"
proof -
  note one = assms(1) [unfolded acted_def] and rest = assms(2) [unfolded acted_def]
  have "slots (snd t2) (action_key a) = slots (snd t1) (action_key a)" using rest assms(3) by blast
  then have "\<forall>b \<in> set (a # as). sl_policy (slots (snd t2) (action_key b)) = action_target b
      \<and> (slot_exact (slots s0 (action_key b)) \<longrightarrow> slot_exact (slots (snd t2) (action_key b)))" if "r = Inr ()"
    using one rest that by simp
  moreover have "set (tx_keys (fst t2)) \<subseteq> action_key ` set (a # as) \<union> set (tx_keys (fst t))"
    using one rest by auto
  moreover have "slots (snd t2) k = slots (snd t) k" if "k \<notin> action_key ` set (a # as)" for k
    using one rest that by simp
  moreover have "tx_inv s0 t2" "tj_wl_added (fst t2) = tj_wl_added (fst t)"
      "tj_wl_removed (fst t2) = tj_wl_removed (fst t)"
    using one rest by simp_all
  ultimately show ?thesis unfolding acted_def by blast
qed

lemma run_all_acted:
  assumes "tx_inv s0 t" "distinct (map action_key as)" "action_key ` set as \<inter> set (tx_keys (fst t)) = {}"
  shows "wp (run_all m as) (acted s0 t as) t"
  using assms
proof (induction as arbitrary: t)
  case Nil
  then show ?case by (simp add: acted_def)
next
  case (Cons a as)
  have "wp (run_action m a) (\<lambda>r t1. case r of Inl e \<Rightarrow> acted s0 t (a # as) (Inl e) t1
      | Inr u \<Rightarrow> wp (run_all m as) (acted s0 t (a # as)) t1) t"
  proof (rule wp_mono [OF run_action_acted [OF Cons.prems(1)]])
    show "action_key a \<notin> set (tx_keys (fst t))" using Cons.prems(3) by auto
    fix r t1
    assume one: "acted s0 t [a] r t1"
    show "case r of Inl e \<Rightarrow> acted s0 t (a # as) (Inl e) t1 | Inr u \<Rightarrow> wp (run_all m as) (acted s0 t (a # as)) t1"
    proof (cases r)
      case (Inl e)
      with one show ?thesis by (auto simp: acted_def)
    next
      case (Inr u)
      have inv: "tx_inv s0 t1" "set (tx_keys (fst t1)) \<subseteq> insert (action_key a) (set (tx_keys (fst t)))"
        using one by (simp_all add: acted_def)
      have "wp (run_all m as) (acted s0 t1 as) t1"
      proof (rule Cons.IH [OF inv(1)])
        show "distinct (map action_key as)" using Cons.prems(2) by simp
        have "action_key a \<notin> action_key ` set as" "action_key ` set as \<inter> set (tx_keys (fst t)) = {}"
          using Cons.prems(2,3) by auto
        then have "action_key ` set as \<inter> insert (action_key a) (set (tx_keys (fst t))) = {}" by simp
        then show "action_key ` set as \<inter> set (tx_keys (fst t1)) = {}"
          using Int_mono [OF subset_refl inv(2)] by (rule subset_empty [THEN iffD1, OF ord_le_eq_trans, rotated])
      qed
      then have "wp (run_all m as) (acted s0 t (a # as)) t1"
      proof (rule wp_mono)
        fix r' t2
        assume rest: "acted s0 t1 as r' t2"
        have "action_key a \<notin> action_key ` set as" using Cons.prems(2) by simp
        with one rest Inr show "acted s0 t (a # as) r' t2" by (simp add: acted_trans)
      qed
      with Inr show ?thesis by simp
    qed
  qed
  then show ?case by simp
qed

lemma acted_armed:
  assumes "acted s0 t as (Inr ()) t'" "distinct (map la_flow as)" "slots (snd t) = slots s0"
  shows "armed_in (snd t') = fold apply_action as (armed_in s0)" "all_exact s0 \<Longrightarrow> all_exact (snd t')"
proof -
  show "armed_in (snd t') = fold apply_action as (armed_in s0)"
  proof
    fix flow
    show "armed_in (snd t') flow = fold apply_action as (armed_in s0) flow"
    proof (cases "flow \<in> la_flow ` set as")
      case True
      then obtain a where a: "a \<in> set as" "flow = la_flow a" by blast
      then show ?thesis
        using assms(1) fold_apply_distinct(1) [OF assms(2) a(1)] by (simp add: acted_def armed_in_def action_key_def)
    next
      case False
      then have "limit_key_new (fst flow) (snd flow) \<notin> action_key ` set as"
        by (auto simp: action_key_def limit_key_new_inj prod_eq_iff)
      then show ?thesis
        using assms(1,3) fold_apply_distinct(2) [OF assms(2) False] by (simp add: acted_def armed_in_def)
    qed
  qed
  show "all_exact (snd t')" if "all_exact s0"
    unfolding all_exact_def
  proof
    fix k
    show "slot_exact (slots (snd t') k)"
    proof (cases "k \<in> action_key ` set as")
      case True
      with assms(1) that show ?thesis by (auto simp: acted_def all_exact_def)
    next
      case False
      with assms(1,3) that show ?thesis by (simp add: acted_def all_exact_def)
    qed
  qed
qed

end

subsection \<open>Ticks\<close>

context tx_maps
begin

lemma keeps_context [simp]: "keeps f \<Longrightarrow> keeps (with_context what f)"
  by (auto simp: keeps_def with_context_def split: prod.split sum.split) (metis snd_conv)+

lemma keeps_run: "keeps (run_all m as)"
proof (induction as)
  case (Cons a as)
  have "keeps (run_action m a)" by (cases a) (simp_all add: keeps_actions)
  then show ?case using Cons by (simp add: keeps_and_then)
qed simp

lemma wl_run: "run_all m as t = (r, t') \<Longrightarrow> wl (snd t') = wl (snd t)"
  using keeps_run [of as] by (metis keeps_def snd_conv)

text \<open>A rollback keeps the safety of the slots even when the whitelist is not as the journal says.\<close>

lemma rollback_safe:
  assumes "tx_inv s0 (j, s)" "rollback_journal m w j s = (report, s')"
  shows "all_safe s'" "rr_dataplane_consistent report \<longleftrightarrow> rr_failures report = []"
proof -
  let ?rs2 = "fold (rollback_remove m) (rev (tj_removes j))
    (fold (rollback_install m) (rev (tj_installs j)) (rollback_report_default, s))"
  let ?rs3 = "fold (rollback_prefix (wl_insert w) ''re-add whitelist prefix'') (rev (tj_wl_removed j)) ?rs2"
  have 2: "all_safe (snd ?rs2)" using rollback_limits [OF assms(1), of rollback_report_default] by (simp add: restored_def)
  have 3: "all_safe (snd ?rs3)" using prefix_fold [where f = "wl_insert w" and g = insert, OF wl_insert_law 2] by blast
  then have "all_safe (snd (fold (rollback_prefix (wl_remove w) ''remove whitelist prefix'') (rev (tj_wl_added j)) ?rs3))"
    using prefix_fold [where f = "wl_remove w" and g = "\<lambda>c A. A - {c}", OF wl_remove_law 3] by blast
  then show "all_safe s'" "rr_dataplane_consistent report \<longleftrightarrow> rr_failures report = []"
    using assms(2) by (auto simp: rollback_journal_def Let_def split: prod.splits)
qed

text \<open>One action of a tick: applied, or undone and handed back to the limiter.\<close>

lemma apply_tick_action_outcome:
  assumes "all_safe s" "apply_tick_action m w a (fs, l, s) = (fs', l', s')"
  shows "all_safe s' \<and> (\<exists>new. fs' = fs @ new \<and> (consistent new \<longrightarrow> all_exact s \<longrightarrow>
    all_exact s' \<and> wl s' = wl s \<and>
    (l' = l \<and> armed_in s' = apply_action a (armed_in s) \<or> l' = revert_failed_action a l \<and> armed_in s' = armed_in s)))"
proof -
  obtain r j s1 where run: "run_all m [a] (tx_journal_default, s) = (r, (j, s1))" by (metis prod_cases3)
  have "removes_first [a] = [a]" by (simp add: removes_first_def)
  with run have run': "run_limit_actions m [a] (tx_journal_default, s) = (r, (j, s1))"
    by (simp only: run_limit_actions_all)
  have "wp (run_all m [a]) (acted s (tx_journal_default, s) [a]) (tx_journal_default, s)"
    by (rule run_all_acted [OF tx_inv_start [OF assms(1)]]) (simp_all add: tx_keys_def tx_journal_default_def)
  then have acted: "acted s (tx_journal_default, s) [a] r (j, s1)" using run by (simp add: wp_def)
  have wl1: "wl s1 = wl s" using wl_run [OF run] by simp
  show ?thesis
  proof (cases r)
    case (Inr u)
    then have "fs' = fs" "l' = l" "s' = s1" using assms(2) run' by (simp_all add: apply_tick_action_def)
    moreover have "armed_in s1 = apply_action a (armed_in s)" "all_exact s \<Longrightarrow> all_exact s1"
      using acted_armed [of s "(tx_journal_default, s)" "[a]" "(j, s1)"] acted Inr by simp_all
    moreover have "all_safe s1" using acted by (simp add: acted_def tx_inv_def)
    ultimately show ?thesis using wl1 by (intro conjI exI [of _ "[]"]) simp_all
  next
    case (Inl e)
    obtain report where rb: "rollback_journal m w j s1 = (report, s')"
      and out: "fs' = fs @ [\<lparr>tf_error = e, tf_report = report\<rparr>]" "l' = revert_failed_action a l"
      using assms(2) run' Inl by (auto simp: apply_tick_action_def split: prod.splits)
    have inv: "tx_inv s (j, s1)" using acted by (simp add: acted_def)
    have "wl_journal s (j, s1)"
      using acted wl1 by (simp add: acted_def wl_journal_def tx_journal_default_def)
    from rollback_restores [OF inv this rb] have "all_safe s'"
      "rr_dataplane_consistent report \<Longrightarrow> all_exact s \<Longrightarrow> slots s' = slots s \<and> wl s' = wl s"
      by (simp_all add: all_exact_def)
    then show ?thesis
      using out by (intro conjI exI [of _ "[\<lparr>tf_error = e, tf_report = report\<rparr>]"])
        (auto simp: consistent_def armed_in_def all_exact_def fun_eq_iff)
  qed
qed

lemma fold_tick_outcome:
  assumes "all_safe s" "distinct as" "fold (apply_tick_action m w) as (fs, l, s) = (fs', l', s')"
  shows "all_safe s' \<and> (\<exists>new. fs' = fs @ new \<and> (consistent new \<longrightarrow> all_exact s \<longrightarrow>
    all_exact s' \<and> wl s' = wl s \<and>
    (\<exists>ok. l' = fold revert_failed_action (filter (\<lambda>a. \<not> ok a) as) l
      \<and> armed_in s' = fold apply_action (filter ok as) (armed_in s))))"
  using assms
proof (induction as arbitrary: fs l s)
  case Nil
  then show ?case by (auto intro!: exI [of _ "[]"])
next
  case (Cons a as)
  obtain fs1 l1 s1 where one: "apply_tick_action m w a (fs, l, s) = (fs1, l1, s1)" by (metis prod_cases3)
  from apply_tick_action_outcome [OF Cons.prems(1) one] obtain new where o: "all_safe s1" "fs1 = fs @ new"
    "consistent new \<Longrightarrow> all_exact s \<Longrightarrow> all_exact s1 \<and> wl s1 = wl s \<and>
      (l1 = l \<and> armed_in s1 = apply_action a (armed_in s) \<or> l1 = revert_failed_action a l \<and> armed_in s1 = armed_in s)"
    by blast
  have "fold (apply_tick_action m w) as (fs1, l1, s1) = (fs', l', s')" using Cons.prems(3) one by simp
  from Cons.IH [OF o(1) _ this] Cons.prems(2) obtain new' where n: "all_safe s'" "fs' = fs1 @ new'"
    "consistent new' \<Longrightarrow> all_exact s1 \<Longrightarrow> all_exact s' \<and> wl s' = wl s1 \<and>
      (\<exists>ok. l' = fold revert_failed_action (filter (\<lambda>a. \<not> ok a) as) l1
        \<and> armed_in s' = fold apply_action (filter ok as) (armed_in s1))"
    by auto
  have "all_exact s' \<and> wl s' = wl s \<and> (\<exists>ok. l' = fold revert_failed_action (filter (\<lambda>a. \<not> ok a) (a # as)) l
      \<and> armed_in s' = fold apply_action (filter ok (a # as)) (armed_in s))"
    if c: "consistent (new @ new')" "all_exact s"
  proof -
    have c1: "consistent new" "consistent new'" using c(1) by (simp_all add: consistent_def)
    note o' = o(3) [OF c1(1) c(2)]
    from n(3) [OF c1(2)] o' obtain ok where k: "all_exact s'" "wl s' = wl s"
      "l' = fold revert_failed_action (filter (\<lambda>a. \<not> ok a) as) l1"
      "armed_in s' = fold apply_action (filter ok as) (armed_in s1)" by auto
    have a: "a \<notin> set as" using Cons.prems(2) by simp
    then have same: "filter (\<lambda>x. (if x = a then b else ok x)) as = filter ok as"
      "filter (\<lambda>x. \<not> (if x = a then b else ok x)) as = filter (\<lambda>x. \<not> ok x) as" for b
      by (auto intro!: filter_cong)
    from o' show ?thesis
    proof (elim conjE disjE)
      assume "l1 = l" "armed_in s1 = apply_action a (armed_in s)"
      with k same [of True] show ?thesis
        by (intro conjI exI [of _ "\<lambda>x. if x = a then True else ok x"]) simp_all
    next
      assume "l1 = revert_failed_action a l" "armed_in s1 = armed_in s"
      with k same [of False] show ?thesis
        by (intro conjI exI [of _ "\<lambda>x. if x = a then False else ok x"]) simp_all
    qed
  qed
  with n o(2) show ?case by (intro conjI exI [of _ "new @ new'"]) simp_all
qed

subsection \<open>Reloads\<close>

definition wl_step :: "'s \<Rightarrow> cidr set \<Rightarrow> 's tx \<Rightarrow> error + unit \<Rightarrow> 's tx \<Rightarrow> bool" where
  "wl_step s0 target t r t' \<longleftrightarrow>
     tx_inv s0 t' \<and> tx_keys (fst t') = tx_keys (fst t) \<and> slots (snd t') = slots (snd t)
     \<and> (r = Inr () \<longrightarrow> wl (snd t') = target)"

lemma tx_inv_cong:
  assumes "tx_inv s0 (j, s)" "tj_installs j' = tj_installs j" "tj_removes j' = tj_removes j"
    and "slots s' = slots s" "seen s' \<subseteq> insert (slots s') (seen s)"
  shows "tx_inv s0 (j', s')" "tx_keys j' = tx_keys j"
  using assms by (auto simp: tx_inv_def tx_keys_def all_safe_def)

lemma additions_step:
  assumes "tx_inv s0 t"
  shows "wp (apply_whitelist_additions w cs)
    (\<lambda>r t'. wl_step s0 (wl (snd t) \<union> set cs) t r t'
       \<and> (wl_journal s0 t \<longrightarrow> set cs \<inter> wl s0 = {} \<longrightarrow> wl_journal s0 t')) t"
  using assms
proof (induction cs arbitrary: t)
  case Nil
  then show ?case by (simp add: wl_step_def)
next
  case (Cons c cs)
  obtain j s where t: "t = (j, s)" by force
  obtain r s1 where i: "wl_insert w c s = (r, s1)" by force
  note law = wl_insert_law [OF i]
  have same: "slots s1 = slots s" "seen s1 \<subseteq> insert (slots s1) (seen s)" using law by blast+
  show ?case
  proof (cases r)
    case (Inl e)
    with tx_inv_cong [OF Cons.prems [unfolded t] refl refl, of s1] law i show ?thesis
      by (auto simp: t wp_def and_then_def on_maps_def wl_step_def wl_journal_def)
  next
    case (Inr u)
    let ?j = "j\<lparr>tj_wl_added := tj_wl_added j @ [c]\<rparr>"
    have inv: "tx_inv s0 (?j, s1)" "tx_keys ?j = tx_keys j"
      using tx_inv_cong [OF Cons.prems [unfolded t] _ _ same, of ?j] by simp_all
    have wl1: "wl s1 = insert c (wl s)" using law Inr by simp
    have "wl_journal s0 t \<Longrightarrow> set (c # cs) \<inter> wl s0 = {} \<Longrightarrow> wl_journal s0 (?j, s1)"
      using wl1 by (auto simp: wl_journal_def t)
    moreover have "apply_whitelist_additions w (c # cs) t = apply_whitelist_additions w cs (?j, s1)"
      using i Inr by (simp add: t and_then_def on_maps_def in_journal_def modify_def)
    ultimately show ?thesis
      using Cons.IH [OF inv(1)] inv(2) wl1 law
      by (auto simp: t wp_def wl_step_def split: prod.splits)
  qed
qed

lemma removals_step:
  assumes "tx_inv s0 t"
  shows "wp (apply_whitelist_removals w cs)
    (\<lambda>r t'. wl_step s0 (wl (snd t) - set cs) t r t'
       \<and> (wl_journal s0 t \<longrightarrow> set cs \<subseteq> wl s0 \<longrightarrow> wl_journal s0 t')) t"
  using assms
proof (induction cs arbitrary: t)
  case Nil
  then show ?case by (simp add: wl_step_def)
next
  case (Cons c cs)
  obtain j s where t: "t = (j, s)" by force
  obtain r s1 where i: "wl_remove w c s = (r, s1)" by force
  note law = wl_remove_law [OF i]
  have same: "slots s1 = slots s" "seen s1 \<subseteq> insert (slots s1) (seen s)" using law by blast+
  show ?case
  proof (cases r)
    case (Inl e)
    with tx_inv_cong [OF Cons.prems [unfolded t] refl refl, of s1] law i show ?thesis
      by (auto simp: t wp_def and_then_def on_maps_def wl_step_def wl_journal_def)
  next
    case (Inr u)
    let ?j = "j\<lparr>tj_wl_removed := tj_wl_removed j @ [c]\<rparr>"
    have inv: "tx_inv s0 (?j, s1)" "tx_keys ?j = tx_keys j"
      using tx_inv_cong [OF Cons.prems [unfolded t] _ _ same, of ?j] by simp_all
    have wl1: "wl s1 = wl s - {c}" using law Inr by simp
    have "wl_journal s0 t \<Longrightarrow> set (c # cs) \<subseteq> wl s0 \<Longrightarrow> wl_journal s0 (?j, s1)"
      using wl1 by (auto simp: wl_journal_def t)
    moreover have "apply_whitelist_removals w (c # cs) t = apply_whitelist_removals w cs (?j, s1)"
      using i Inr by (simp add: t and_then_def on_maps_def in_journal_def modify_def)
    ultimately show ?thesis
      using Cons.IH [OF inv(1)] inv(2) wl1 law
      by (auto simp: t wp_def wl_step_def split: prod.splits)
  qed
qed

text \<open>The steps of a reload, and what has become of the maps when they have all succeeded.\<close>

definition reload_post :: "'s \<Rightarrow> limit_action list \<Rightarrow> cidr set \<Rightarrow> cidr set \<Rightarrow> error + unit \<Rightarrow> 's tx \<Rightarrow> bool" where
  "reload_post s0 as old new r t \<longleftrightarrow>
     tx_inv s0 t \<and> (wl s0 = old \<longrightarrow> wl_journal s0 t)
     \<and> (r = Inr () \<longrightarrow> armed_in (snd t) = fold apply_action as (armed_in s0)
          \<and> (all_exact s0 \<longrightarrow> all_exact (snd t)) \<and> (wl s0 = old \<longrightarrow> wl (snd t) = new))"

lemma reload_post_Inl: "reload_post s0 as old new (Inl e) t \<longleftrightarrow> tx_inv s0 t \<and> (wl s0 = old \<longrightarrow> wl_journal s0 t)"
  by (simp add: reload_post_def)

lemma removals_post:
  assumes "acted s t1 (removes_first as) (Inr ()) t2" "distinct (map la_flow as)" "slots (snd t1) = slots s"
    and "wl (snd t2) = wl s \<union> (new - old)" "wl s = old \<longrightarrow> wl_journal s t2" "set (order (old - new)) = old - new"
  shows "wp (with_context what (apply_whitelist_removals w (order (old - new)))) (reload_post s as old new) t2"
proof -
  have inv: "tx_inv s t2" using assms(1) by (simp add: acted_def)
  have arm: "armed_in (snd t2) = fold apply_action as (armed_in s)" "all_exact s \<Longrightarrow> all_exact (snd t2)"
    using acted_armed [OF assms(1) _ assms(3)] assms(2) by (simp_all add: fold_removes_first)
  have post: "reload_post s as old new r t3"
    if "wl_step s (wl (snd t2) - set (order (old - new))) t2 r t3
      \<and> (wl_journal s t2 \<longrightarrow> set (order (old - new)) \<subseteq> wl s \<longrightarrow> wl_journal s t3)" for r t3
  proof -
    have st: "tx_inv s t3" "slots (snd t3) = slots (snd t2)"
      "r = Inr () \<longrightarrow> wl (snd t3) = wl s \<union> (new - old) - (old - new)" "wl s = old \<longrightarrow> wl_journal s t3"
      using that assms(4-6) by (auto simp: wl_step_def)
    have "armed_in (snd t3) = armed_in (snd t2)" "all_exact (snd t3) = all_exact (snd t2)"
      using st(2) by (simp_all add: armed_in_def all_exact_def fun_eq_iff)
    then show ?thesis using st arm unfolding reload_post_def by auto
  qed
  show ?thesis
    by (rule wp_context_mono [OF removals_step [OF inv]]) (drule post, simp add: reload_post_def)+
qed

lemma actions_post:
  assumes "tx_inv s t1" "tx_keys (fst t1) = []" "slots (snd t1) = slots s" "distinct (map la_flow as)"
    and "wl (snd t1) = wl s \<union> (new - old)" "wl s = old \<longrightarrow> wl_journal s t1" "set (order (old - new)) = old - new"
  shows "wp (and_then (run_limit_actions m as) (\<lambda>_. with_context what (apply_whitelist_removals w (order (old - new)))))
    (reload_post s as old new) t1"
proof -
  have "wp (run_all m (removes_first as)) (acted s t1 (removes_first as)) t1"
    using assms(2,4) by (intro run_all_acted [OF assms(1)]) (simp_all add: distinct_keys)
  moreover obtain r t2 where run: "run_all m (removes_first as) t1 = (r, t2)"
    by (cases "run_all m (removes_first as) t1")
  ultimately have acted: "acted s t1 (removes_first as) r t2" by (simp add: wp_def)
  have w2: "wl (snd t2) = wl (snd t1)" by (rule wl_run [OF run])
  have j2: "wl s = old \<longrightarrow> wl_journal s t2" using assms(6) w2 acted by (auto simp: wl_journal_def acted_def)
  have "case r of Inl e \<Rightarrow> reload_post s as old new (Inl e) t2
    | Inr u \<Rightarrow> wp (with_context what (apply_whitelist_removals w (order (old - new)))) (reload_post s as old new) t2"
  proof (cases r)
    case (Inl e)
    with acted j2 show ?thesis by (simp add: reload_post_def acted_def)
  next
    case (Inr u)
    then show ?thesis using removals_post [where order = order and new = new and old = old, OF _ assms(4,3) _ j2 assms(7)] acted w2 assms(5)
      by simp
  qed
  then show ?thesis by (simp add: run_limit_actions_all run wp_def [of "run_all m _"])
qed

lemma apply_reload_steps_post:
  assumes "all_safe s" "distinct (map la_flow as)"
    and "set (order (new - old)) = new - old" "set (order (old - new)) = old - new"
  shows "wp (apply_reload_steps order m w as old new) (reload_post s as old new) (tx_journal_default, s)"
proof -
  let ?t = "(tx_journal_default, s)"
  let ?rest = "and_then (run_limit_actions m as) (\<lambda>_. with_context ''dropping removed whitelist prefixes''
    (apply_whitelist_removals w (order (old - new))))"
  have start: "tx_inv s ?t" "wl_journal s ?t" "tx_keys tx_journal_default = []"
    using tx_inv_start [OF assms(1)] by (simp_all add: wl_journal_def tx_journal_default_def tx_keys_def)
  have added: "tx_inv s t1 \<and> tx_keys (fst t1) = [] \<and> slots (snd t1) = slots s
      \<and> (r = Inr () \<longrightarrow> wl (snd t1) = wl s \<union> (new - old)) \<and> (wl s = old \<longrightarrow> wl_journal s t1)"
    if "wl_step s (wl (snd ?t) \<union> set (order (new - old))) ?t r t1
      \<and> (wl_journal s ?t \<longrightarrow> set (order (new - old)) \<inter> wl s = {} \<longrightarrow> wl_journal s t1)" for r t1
    using that assms(3) start by (auto simp: wl_step_def)
  have "wp (with_context ''whitelisting new prefixes'' (apply_whitelist_additions w (order (new - old))))
      (\<lambda>r t1. case r of Inl e \<Rightarrow> reload_post s as old new (Inl e) t1 | Inr u \<Rightarrow> wp ?rest (reload_post s as old new) t1) ?t"
  proof (rule wp_context_mono [OF additions_step [OF start(1)]]; drule added)
    fix a t1
    assume "tx_inv s t1 \<and> tx_keys (fst t1) = [] \<and> slots (snd t1) = slots s
      \<and> (Inr a = Inr () \<longrightarrow> wl (snd t1) = wl s \<union> (new - old)) \<and> (wl s = old \<longrightarrow> wl_journal s t1)"
    with actions_post [where order = order and new = new and old = old and s = s, OF _ _ _ assms(2)] assms(4)
    show "case Inr a of Inl e \<Rightarrow> reload_post s as old new (Inl e) t1 | Inr u \<Rightarrow> wp ?rest (reload_post s as old new) t1"
      by (simp del: wp_simps)
  qed (simp add: reload_post_Inl)
  then show ?thesis unfolding apply_reload_steps_def by simp
qed

text \<open>The commit: everything switches over, or the journal is rolled back and nothing does.\<close>

lemma apply_and_commit_outcome:
  assumes "all_safe s" "distinct (map la_flow (rp_actions plan))"
    and "set (order (prefix_set cfg - old)) = prefix_set cfg - old" "set (order (old - prefix_set cfg)) = old - prefix_set cfg"
    and "apply_and_commit order m w old plan cfg (c, s) = (r, (c', s'))"
  shows "all_safe s'"
    and "r = Inr () \<Longrightarrow> armed_in s' = fold apply_action (rp_actions plan) (armed_in s)
      \<and> (all_exact s \<longrightarrow> all_exact s') \<and> (wl s = old \<longrightarrow> wl s' = prefix_set cfg)
      \<and> c' = c\<lparr>ct_limiter := commit_reload plan (ct_limiter c),
          ct_collector := prune_ips (config_ranges cfg) (ct_collector c), ct_config := cfg,
          ct_generation := ct_generation c + 1\<rparr>"
    and "r = Inl err \<Longrightarrow> c' = c \<and> (rr_dataplane_consistent (re_report err) \<longleftrightarrow> rr_failures (re_report err) = [])
      \<and> (rr_dataplane_consistent (re_report err) \<longrightarrow> wl s = old \<longrightarrow>
          wl s' = wl s \<and> (all_exact s \<longrightarrow> slots s' = slots s))"
proof -
  obtain r1 j s1 where st: "apply_reload_steps order m w (rp_actions plan) old (prefix_set cfg) (tx_journal_default, s)
      = (r1, (j, s1))" by (metis prod_cases3)
  then have post: "reload_post s (rp_actions plan) old (prefix_set cfg) r1 (j, s1)"
    using apply_reload_steps_post [OF assms(1-4)] by (simp add: wp_def)
  then have inv: "tx_inv s (j, s1)" by (simp add: reload_post_def)
  show "all_safe s'"
  proof (cases r1)
    case (Inl e)
    then obtain report where "rollback_journal m w j s1 = (report, s')"
      using assms(5) st by (auto simp: apply_and_commit_def split: prod.splits)
    with rollback_safe [OF inv] show ?thesis by blast
  next
    case (Inr u)
    with assms(5) st inv show ?thesis by (auto simp: apply_and_commit_def tx_inv_def)
  qed
  show "armed_in s' = fold apply_action (rp_actions plan) (armed_in s)
      \<and> (all_exact s \<longrightarrow> all_exact s') \<and> (wl s = old \<longrightarrow> wl s' = prefix_set cfg)
      \<and> c' = c\<lparr>ct_limiter := commit_reload plan (ct_limiter c),
          ct_collector := prune_ips (config_ranges cfg) (ct_collector c), ct_config := cfg,
          ct_generation := ct_generation c + 1\<rparr>" if "r = Inr ()"
    using assms(5) st post that
    by (cases r1) (auto simp: apply_and_commit_def reload_post_def split: prod.splits)
  show "c' = c \<and> (rr_dataplane_consistent (re_report err) \<longleftrightarrow> rr_failures (re_report err) = [])
      \<and> (rr_dataplane_consistent (re_report err) \<longrightarrow> wl s = old \<longrightarrow>
          wl s' = wl s \<and> (all_exact s \<longrightarrow> slots s' = slots s))" if r: "r = Inl err"
  proof -
    obtain e where Inl: "r1 = Inl e" using assms(5) st r by (cases r1) (auto simp: apply_and_commit_def)
    obtain report where rb: "rollback_journal m w j s1 = (report, s')" "err = \<lparr>re_message = e, re_report = report\<rparr>" "c' = c"
      using assms(5) st Inl r by (auto simp: apply_and_commit_def split: prod.splits)
    have "wl s = old \<longrightarrow> wl_journal s (j, s1)" using post by (simp add: reload_post_def)
    then show ?thesis
      using rb rollback_safe(2) [OF inv rb(1)] rollback_restores [OF inv _ rb(1)] by (auto simp: all_exact_def)
  qed
qed

end

end
