(* ===== verification/Engine_Laws.thy ===== *)
theory Engine_Laws
  imports Engine_Maps Reload_Safety
begin

section \<open>Engine\_Laws: the engine's maps keep the contracts\<close>

text \<open>
  The interpretation of the transaction contracts on the daemon's own maps, whatever calls the
  kernel refuses and whatever frames arrive between two calls; and what the whitelist trie
  means to the classifiers when the addresses are written in network byte order.
\<close>

subsection \<open>The slots of the maps\<close>

definition slots_of :: "dp_state \<Rightarrow> slots" where
  "slots_of s k = \<lparr>sl_policy = dp_policies s k, sl_state = (dp_limit_state s k \<noteq> None),
     sl_ring = (dp_swl_log s k \<noteq> None)\<rparr>"

definition world_slots :: "world \<Rightarrow> slots" where
  "world_slots w = slots_of (wo_maps w)"

definition world_seen :: "world \<Rightarrow> slots set" where
  "world_seen w = slots_of ` set (wo_met w)"

definition world_prefixes :: "world \<Rightarrow> cidr set" where
  "world_prefixes w = {c. trie_key c \<in> dp_monitored (wo_maps w)}"

lemma dom_None_iff: "dom m = dom m' \<Longrightarrow> (m k = None) = (m' k = None)"
  by (metis domIff)

text \<open>Frames change no slot and no prefix.\<close>

lemma slots_of_handle [simp]: "slots_of (snd (handle lpm e ctx tx s)) = slots_of s"
  using dom_None_iff [OF handle_fields(3)] dom_None_iff [OF handle_fields(4)]
  by (intro ext) (simp add: slots_of_def handle_fields(2))

lemma handle_all_kept:
  "handle_all lpm evs s = (met, s') \<Longrightarrow>
     slots_of s' = slots_of s \<and> dp_monitored s' = dp_monitored s \<and> slots_of ` set met \<subseteq> {slots_of s}"
proof (induction evs arbitrary: s s' met)
  case (Cons ev evs)
  obtain e ctx tx where ev: "ev = (e, ctx, tx)" by (metis prod_cases3)
  obtain met1 s1 where rest: "handle_all lpm evs (snd (handle lpm e ctx tx s)) = (met1, s1)" by force
  with Cons.IH [OF rest] Cons.prems show ?case by (auto simp: ev handle_fields image_subset_iff)
qed simp

lemma let_frames_kept [simp]:
  "world_slots (let_frames lpm evs w) = world_slots w"
  "world_prefixes (let_frames lpm evs w) = world_prefixes w"
  "dp_monitored (wo_maps (let_frames lpm evs w)) = dp_monitored (wo_maps w)"
  "wo_refused (let_frames lpm evs w) = wo_refused w"
  "wo_calls (let_frames lpm evs w) = wo_calls w"
  "world_seen (let_frames lpm evs w) \<subseteq> insert (world_slots w) (world_seen w)"
proof -
  obtain met s where h: "handle_all lpm evs (wo_maps w) = (met, s)" by force
  note k = handle_all_kept [OF h]
  show "world_slots (let_frames lpm evs w) = world_slots w"
    "world_prefixes (let_frames lpm evs w) = world_prefixes w"
    "dp_monitored (wo_maps (let_frames lpm evs w)) = dp_monitored (wo_maps w)"
    "wo_refused (let_frames lpm evs w) = wo_refused w"
    "wo_calls (let_frames lpm evs w) = wo_calls w"
    "world_seen (let_frames lpm evs w) \<subseteq> insert (world_slots w) (world_seen w)"
    using k by (auto simp: let_frames_def h world_slots_def world_prefixes_def world_seen_def)
qed

subsection \<open>A system call\<close>

lemma syscall_result:
  assumes "syscall lpm f w = (r, w')"
  obtains (refused) msg where "wo_refused w (wo_calls w) = Some msg" "r = Inl (SyscallError OtherKind msg)"
      "world_slots w' = world_slots w" "dp_monitored (wo_maps w') = dp_monitored (wo_maps w)"
      "world_seen w' \<subseteq> insert (world_slots w') (world_seen w)" "wo_refused w' = wo_refused w"
    | (answered) s where "wo_refused w (wo_calls w) = None" "f (wo_maps w) = (r, s)" "world_slots w' = slots_of s"
      "dp_monitored (wo_maps w') = dp_monitored s" "world_seen w' \<subseteq> insert (world_slots w') (world_seen w)"
      "wo_refused w' = wo_refused w"
proof (cases "wo_refused w (wo_calls w)")
  case (Some msg)
  let ?w = "w\<lparr>wo_calls := Suc (wo_calls w)\<rparr>"
  have "w' = let_frames lpm (wo_frames w (wo_calls w)) ?w" "r = Inl (SyscallError OtherKind msg)"
    using assms Some by (auto simp: syscall_def Let_def)
  moreover have "world_slots ?w = world_slots w" "world_seen ?w = world_seen w"
    by (simp_all add: world_slots_def world_seen_def)
  ultimately show ?thesis
    using refused [OF Some] let_frames_kept(6) [of lpm "wo_frames w (wo_calls w)" ?w] by simp
next
  case None
  obtain s where s: "f (wo_maps w) = (r, s)"
    using assms None by (auto simp: syscall_def Let_def split: prod.splits)
  let ?w = "w\<lparr>wo_maps := s, wo_calls := Suc (wo_calls w)\<rparr>"
  have "w' = let_frames lpm (wo_frames w (wo_calls w)) ?w"
    using assms None s by (auto simp: syscall_def Let_def)
  moreover have "world_slots ?w = slots_of s" "world_seen ?w = world_seen w"
    by (simp_all add: world_slots_def world_seen_def)
  ultimately show ?thesis
    using answered [OF None s] let_frames_kept(6) [of lpm "wo_frames w (wo_calls w)" ?w] by simp
qed

text \<open>How a call that works on one slot touches it, through the three ways its result is read.\<close>

definition slot_call :: "(dp_state \<Rightarrow> (map_error + 'a) \<times> dp_state) \<Rightarrow> limit_key \<Rightarrow> (slot \<Rightarrow> slot) \<Rightarrow> bool" where
  "slot_call f k g \<longleftrightarrow>
     (\<forall>s r s'. f s = (r, s') \<longrightarrow> dp_monitored s' = dp_monitored s
        \<and> (case r of Inr _ \<Rightarrow> slots_of s' = (slots_of s)(k := g (slots_of s k))
           | Inl e \<Rightarrow> slots_of s' = slots_of s \<and> key_already_absent e \<and> g (slots_of s k) = slots_of s k))"

lemma slot_call_apfst:
  assumes "slot_call f k g"
    and "\<And>a. \<exists>b. h (Inr a) = Inr b" "\<And>msg. \<exists>e. h (Inl (SyscallError OtherKind msg)) = Inl e"
  shows "touches world_slots world_seen (\<lambda>w. apfst h (syscall lpm f w)) k g"
  unfolding touches_def
proof
  fix w
  obtain r w' where c: "syscall lpm f w = (r, w')" by force
  from c show "case apfst h (syscall lpm f w) of (r, s') \<Rightarrow>
      world_slots s' = (case r of Inl _ \<Rightarrow> world_slots w | Inr _ \<Rightarrow> (world_slots w)(k := g (world_slots w k)))
      \<and> world_seen s' \<subseteq> insert (world_slots s') (world_seen w)"
  proof (cases rule: syscall_result)
    case (refused msg)
    with assms(3) [of msg] c show ?thesis by auto
  next
      case (answered s)
    note law = assms(1) [unfolded slot_call_def, rule_format, OF answered(2)]
    show ?thesis
    proof (cases r)
      case (Inr a)
      with assms(2) [of a] law answered c show ?thesis by (auto simp: world_slots_def)
    next
      case (Inl e)
      then have "slots_of s = (slots_of (wo_maps w))(k := g (slots_of (wo_maps w) k))" "slots_of s = slots_of (wo_maps w)"
        using law by (simp_all add: fun_upd_idem)
      with answered c show ?thesis by (simp add: world_slots_def split: sum.split)
    qed
  qed
qed

subsection \<open>Network byte order\<close>

text \<open>The bits of a word in the order of its bytes in little-endian memory, each byte from its most
  significant bit: the order in which the kernel compares trie keys.\<close>

definition memory_bit :: "u32 \<Rightarrow> nat \<Rightarrow> bool" where
  "memory_bit x i = bit x (8 * (i div 8) + (7 - i mod 8))"

lemma all_bits_32: "(\<forall>i < 32. P i) \<longleftrightarrow> list_all P [0 ..< 32]" for P :: "nat \<Rightarrow> bool"
  by (auto simp: list_all_iff)

lemma memory_bit_to_be: "i < 32 \<Longrightarrow> memory_bit (to_be x) i = bit x (31 - i)"
proof -
  have "\<forall>i < 32. memory_bit (to_be x) i = bit x (31 - i)"
    unfolding all_bits_32
    by (simp add: upt_conv_Cons memory_bit_def to_be_def bit_or_iff bit_and_iff bit_push_bit_iff bit_drop_bit_eq)
  then show "i < 32 \<Longrightarrow> memory_bit (to_be x) i = bit x (31 - i)" by blast
qed

lemma to_be_inj: "to_be x = to_be y \<longleftrightarrow> x = y"
proof
  assume eq: "to_be x = to_be y"
  show "x = y"
  proof (rule bit_word_eqI)
    fix n assume "n < LENGTH(32)"
    then show "bit x n = bit y n"
      using memory_bit_to_be [of "31 - n" x] memory_bit_to_be [of "31 - n" y] eq by simp
  qed
qed simp

lemma trie_key_inj: "trie_key c = trie_key c' \<longleftrightarrow> c = c'"
  by (cases c; cases c') (auto simp: trie_key_def to_be_inj intro: word_unat_eq_iff [THEN iffD2])

text \<open>What is documented of a longest-prefix lookup with all 32 bits of an address: it succeeds when
  some entry, whose prefix has at most 32 bits, agrees with the address on the bits of its prefix. The
  classifiers pass the address in network byte order.\<close>

definition lpm_law :: "(trie \<Rightarrow> u32 \<Rightarrow> bool) \<Rightarrow> bool" where
  "lpm_law lpm \<longleftrightarrow> (\<forall>t ip. lpm t ip \<longleftrightarrow>
     (\<exists>(d, n) \<in> t. n \<le> 32 \<and> (\<forall>i < n. memory_bit d i = memory_bit (to_be ip) i)))"

lemma drop_bit_eq_iff: "drop_bit k x = drop_bit k y \<longleftrightarrow> (\<forall>n. k \<le> n \<longrightarrow> n < 32 \<longrightarrow> bit x n = bit y n)" for x y :: u32
proof
  assume eq: "drop_bit k x = drop_bit k y"
  show "\<forall>n. k \<le> n \<longrightarrow> n < 32 \<longrightarrow> bit x n = bit y n"
  proof (intro allI impI)
    fix n assume "k \<le> n"
    then show "bit x n = bit y n"
      using arg_cong [OF eq, of "\<lambda>z. bit z (n - k)"] by (simp add: bit_drop_bit_eq)
  qed
next
  assume b: "\<forall>n. k \<le> n \<longrightarrow> n < 32 \<longrightarrow> bit x n = bit y n"
  show "drop_bit k x = drop_bit k y"
  proof (rule bit_word_eqI)
    fix n assume "n < LENGTH(32)"
    have "bit x (k + n) = bit y (k + n)"
    proof (cases "k + n < 32")
      case False
      then show ?thesis using bit_imp_le_length [of x "k + n"] bit_imp_le_length [of y "k + n"] by auto
    qed (use b in auto)
    then show "bit (drop_bit k x) n = bit (drop_bit k y) n" by (simp add: bit_drop_bit_eq)
  qed
qed

lemma cidr_matches_bits:
  assumes "unat (cidr_prefix_len c) \<le> 32"
  shows "cidr_matches c ip \<longleftrightarrow>
    (\<forall>i < unat (cidr_prefix_len c). memory_bit (to_be (cidr_network c)) i = memory_bit (to_be ip) i)"
proof -
  let ?n = "unat (cidr_prefix_len c)"
  have "cidr_matches c ip \<longleftrightarrow> drop_bit (32 - ?n) ip = drop_bit (32 - ?n) (cidr_network c)"
    by (simp add: cidr_matches_def block_size_def word_unat_eq_iff [of "drop_bit _ _"] unat_drop_bit_eq
        drop_bit_eq_div [where 'a = nat])
  also have "\<dots> \<longleftrightarrow> (\<forall>m. 32 - ?n \<le> m \<longrightarrow> m < 32 \<longrightarrow> bit ip m = bit (cidr_network c) m)"
    by (simp only: drop_bit_eq_iff)
  also have "\<dots> \<longleftrightarrow> (\<forall>i < ?n. bit (cidr_network c) (31 - i) = bit ip (31 - i))"
  proof (rule iffI; (intro allI impI)?)
    fix i assume "\<forall>m. 32 - ?n \<le> m \<longrightarrow> m < 32 \<longrightarrow> bit ip m = bit (cidr_network c) m" "i < ?n"
    moreover from this(2) assms have "32 - ?n \<le> 31 - i" "31 - i < 32" by linarith+
    ultimately show "bit (cidr_network c) (31 - i) = bit ip (31 - i)" by blast
  next
    fix m assume r: "\<forall>i < ?n. bit (cidr_network c) (31 - i) = bit ip (31 - i)" and m: "32 - ?n \<le> m" "m < 32"
    have "31 - m < ?n" using m assms by linarith
    with r have "bit (cidr_network c) (31 - (31 - m)) = bit ip (31 - (31 - m))" by blast
    with m show "bit ip m = bit (cidr_network c) m" by simp
  qed
  also have "\<dots> \<longleftrightarrow> (\<forall>i < ?n. memory_bit (to_be (cidr_network c)) i = memory_bit (to_be ip) i)"
    using assms by (simp add: memory_bit_to_be)
  finally show ?thesis .
qed

subsection \<open>The contracts hold\<close>

lemma map_gone_kinds:
  "\<exists>b. map_gone describe (Inr a) = Inr b" "\<exists>e. map_gone describe (Inl (SyscallError OtherKind msg)) = Inl e"
  "\<exists>b. into_error describe (Inr a') = Inr b" "\<exists>e. into_error describe (Inl (SyscallError OtherKind msg)) = Inl e"
  by (simp_all add: map_gone_def into_error_def)

lemmas slot_ops = slot_call_def slots_of_def map_get_def map_remove_def put_artifact_def key_already_absent_def

lemmas gone_touches = slot_call_apfst [OF _ map_gone_kinds(1,2)]
lemmas into_touches = slot_call_apfst [OF _ map_gone_kinds(3,4)]

interpretation engine_limits: limit_maps "engine_maps lpm describe" world_slots world_seen
proof
  show "touches world_slots world_seen (get_policy (engine_maps lpm describe) k) k id" for k
    by (auto simp: engine_maps_def slot_ops fun_eq_iff intro!: slot_call_apfst split: option.splits)
  show "touches world_slots world_seen (arm_policy (engine_maps lpm describe) k p) k (\<lambda>sl. sl\<lparr>sl_policy := Some p\<rparr>)" for k p
    by (auto simp: engine_maps_def slot_ops fun_eq_iff intro!: into_touches)
  show "touches world_slots world_seen (disarm_policy (engine_maps lpm describe) k) k (\<lambda>sl. sl\<lparr>sl_policy := None\<rparr>)" for k
    by (auto simp: engine_maps_def slot_ops fun_eq_iff intro!: gone_touches split: option.splits)
  show "touches world_slots world_seen (write_fresh_state (engine_maps lpm describe) k a) k (put_artifact True a)" for k a
    by (cases "a = ALGO_SLIDING_WINDOW_LOG")
      (auto simp: engine_maps_def slot_ops fun_eq_iff intro!: into_touches split: option.splits)
  show "touches world_slots world_seen (clear_state (engine_maps lpm describe) k a) k (put_artifact False a)" for k a
    by (cases "a = ALGO_SLIDING_WINDOW_LOG")
      (auto simp: engine_maps_def slot_ops fun_eq_iff intro!: gone_touches split: option.splits)
  show "touches world_slots world_seen (clear_policer (engine_maps lpm describe) k) k id" for k
    by (auto simp: engine_maps_def slot_ops fun_eq_iff intro!: gone_touches split: option.splits)
  show "old = sl_policy (world_slots w k)" if "get_policy (engine_maps lpm describe) k w = (Inr old, w')" for k w old w'
    using that
    by (auto simp: engine_maps_def syscall_def Let_def map_get_def world_slots_def slots_of_def
        split: prod.splits option.splits map_error.splits sum.splits)
qed

text \<open>And the whitelist: a call of the limit maps leaves the trie alone, one of the whitelist the slots.\<close>

lemma trie_call:
  assumes "apfst h (syscall lpm f w) = (r, w')"
    and "\<And>s r s'. f s = (r, s') \<Longrightarrow> slots_of s' = slots_of s"
    and "\<And>s r s' b. f s = (r, s') \<Longrightarrow> h r = Inr b \<Longrightarrow> {c. trie_key c \<in> dp_monitored s'} = g {c. trie_key c \<in> dp_monitored s}"
    and "\<And>s r s' e. f s = (r, s') \<Longrightarrow> h r = Inl e \<Longrightarrow> dp_monitored s' = dp_monitored s"
    and "\<And>msg. \<exists>e. h (Inl (SyscallError OtherKind msg)) = Inl e"
  shows "world_prefixes w' = (case r of Inl _ \<Rightarrow> world_prefixes w | Inr _ \<Rightarrow> g (world_prefixes w))
    \<and> world_slots w' = world_slots w \<and> world_seen w' \<subseteq> insert (world_slots w') (world_seen w)"
proof -
  obtain r0 where c: "syscall lpm f w = (r0, w')" "r = h r0" using assms(1) by (cases "syscall lpm f w") auto
  from c(1) show ?thesis
  proof (cases rule: syscall_result)
    case (refused msg)
    with assms(5) [of msg] c(2) show ?thesis by (auto simp: world_prefixes_def)
  next
    case (answered s)
    have "world_prefixes w' = (case r of Inl _ \<Rightarrow> world_prefixes w | Inr _ \<Rightarrow> g (world_prefixes w))"
    proof (cases "h r0")
      case (Inl e)
      with assms(4) [OF answered(2) Inl] answered c(2) show ?thesis by (simp add: world_prefixes_def)
    next
      case (Inr b)
      with assms(3) [OF answered(2) Inr] answered c(2) show ?thesis by (simp add: world_prefixes_def)
    qed
    with assms(2) [OF answered(2)] answered show ?thesis by (simp add: world_slots_def)
  qed
qed

lemma limit_call_keeps:
  assumes "\<And>s. dp_monitored (snd (f s)) = dp_monitored s"
  shows "world_prefixes (snd (syscall lpm f w)) = world_prefixes w"
proof -
  obtain r0 w' where c: "syscall lpm f w = (r0, w')" by force
  then show ?thesis
  proof (cases rule: syscall_result)
    case (answered s)
    with assms [of "wo_maps w"] c show ?thesis by (simp add: world_prefixes_def)
  qed (simp add: c world_prefixes_def)
qed

interpretation engine_tx: tx_maps "engine_maps lpm describe" world_slots world_seen
  "engine_whitelist lpm describe" world_prefixes
proof
  fix c k a p r and w w' :: world
  show "world_prefixes w' = (case r of Inl _ \<Rightarrow> world_prefixes w | Inr _ \<Rightarrow> insert c (world_prefixes w))
      \<and> world_slots w' = world_slots w \<and> world_seen w' \<subseteq> insert (world_slots w') (world_seen w)"
    if "wl_insert (engine_whitelist lpm describe) c w = (r, w')"
    using that unfolding engine_whitelist_def whitelist_ops.simps
    by (rule trie_call) (auto simp: slots_of_def trie_key_inj into_error_def)
  show "world_prefixes w' = (case r of Inl _ \<Rightarrow> world_prefixes w | Inr _ \<Rightarrow> world_prefixes w - {c})
      \<and> world_slots w' = world_slots w \<and> world_seen w' \<subseteq> insert (world_slots w') (world_seen w)"
    if "wl_remove (engine_whitelist lpm describe) c w = (r, w')"
    using that unfolding engine_whitelist_def whitelist_ops.simps
    by (rule trie_call) (auto simp: slots_of_def trie_key_inj map_gone_def split: if_splits)
  show "world_prefixes (snd (get_policy (engine_maps lpm describe) k w)) = world_prefixes w"
    "world_prefixes (snd (arm_policy (engine_maps lpm describe) k p w)) = world_prefixes w"
    "world_prefixes (snd (disarm_policy (engine_maps lpm describe) k w)) = world_prefixes w"
    "world_prefixes (snd (write_fresh_state (engine_maps lpm describe) k a w)) = world_prefixes w"
    "world_prefixes (snd (clear_state (engine_maps lpm describe) k a w)) = world_prefixes w"
    "world_prefixes (snd (clear_policer (engine_maps lpm describe) k w)) = world_prefixes w"
    unfolding engine_maps_def limit_maps.simps
    by (simp_all add: map_remove_def limit_call_keeps split: option.split)
qed

end
