(* ===== verification/Engine_Safety.thy ===== *)
theory Engine_Safety
  imports Engine Engine_Laws Reload_Safety
begin

section \<open>Engine\_Safety: a running daemon and its maps\<close>

text \<open>
  The invariant of the engine over every run: frames never meet an armed policy without its state;
  and unless the engine says it is degraded, the policies, the state entries and the prefixes in the
  maps are those of the limiter and of the configuration. It is kept by each operation, whatever calls
  the kernel refuses, because the contracts of the transactions hold for the engine's maps
  (the interpretations of Engine\_Laws).
\<close>

subsection \<open>Calls that change no slot and no prefix\<close>

definition quiet :: "world \<Rightarrow> world \<Rightarrow> bool" where
  "quiet w w' \<longleftrightarrow> world_slots w' = world_slots w \<and> world_prefixes w' = world_prefixes w
     \<and> world_seen w' \<subseteq> insert (world_slots w) (world_seen w)"

lemma quiet_refl [simp]: "quiet w w"
  by (auto simp: quiet_def)

lemma quiet_trans [trans]: "quiet w w' \<Longrightarrow> quiet w' w'' \<Longrightarrow> quiet w w''"
  by (auto simp: quiet_def)

lemma quiet_frames [simp]: "quiet w (let_frames lpm evs w)"
  by (simp add: quiet_def)

lemma quiet_syscall:
  assumes "\<And>s. slots_of (snd (f s)) = slots_of s" "\<And>s. dp_monitored (snd (f s)) = dp_monitored s"
  shows "quiet w (snd (syscall lpm f w))"
proof -
  obtain r w' where c: "syscall lpm f w = (r, w')" by force
  then show ?thesis
  proof (cases rule: syscall_result)
    case (refused msg)
    then show ?thesis by (simp add: c quiet_def world_prefixes_def)
  next
    case (answered s)
    with assms [of "wo_maps w"] show ?thesis by (simp add: c quiet_def world_prefixes_def world_slots_def)
  qed
qed

lemma quiet_removals [simp]:
  "quiet w (snd (remove_traffic lpm key w))" "quiet w (snd (remove_traffic6 lpm key6 w))"
  unfolding remove_traffic_def remove_traffic6_def
  by (auto intro!: quiet_syscall simp: map_remove_def slots_of_def split: option.splits)

lemma remove_counter_key_state: "snd (remove_counter_key remove key st) = snd (remove key (snd st))"
  by (auto simp: remove_counter_key_def Let_def split: prod.splits sum.splits)

lemma quiet_remove_keys:
  assumes "\<And>key w. quiet w (snd (remove key w))"
  shows "quiet w (snd (remove_counter_keys remove keys w))"
proof -
  have "quiet (snd st) (snd (fold (remove_counter_key remove) keys st))" for st
  proof (induction keys arbitrary: st)
    case (Cons key keys)
    have "quiet (snd st) (snd (remove_counter_key remove key st))" using assms by (simp add: remove_counter_key_state)
    also have "quiet \<dots> (snd (fold (remove_counter_key remove) keys (remove_counter_key remove key st)))" by (rule Cons.IH)
    finally show ?case by simp
  qed simp
  from this [of "(_, w)"] show ?thesis by (simp add: remove_counter_keys_def)
qed

lemma quiet_retry:
  assumes "\<And>key w. quiet w (snd (remove key w))"
  shows "quiet (snd st) (snd (snd (retry_traffic order live remove st)))"
proof -
  have "quiet w (snd (snd (fold (retry_key live remove) keys (stats, pending, w))))" for keys stats pending w
  proof (induction keys arbitrary: stats pending w)
    case (Cons key keys)
    obtain stats' pending' w' where k: "retry_key live remove key (stats, pending, w) = (stats', pending', w')"
      by (metis prod_cases3)
    then have "w' = w \<or> w' = snd (remove key w)"
      by (auto simp: retry_key_def split: if_splits prod.splits sum.splits)
    with assms have "quiet w w'" by auto
    with Cons.IH [of w'] k show ?case by (auto intro: quiet_trans)
  qed simp
  then show ?thesis by (simp add: retry_traffic_def)
qed

lemma quiet_prune: "quiet w (snd (prune_stale pf i live (pending, w)))"
  using quiet_remove_keys [where remove = "remove_traffic (pf_lpm pf)"]
  by (simp add: prune_stale_def case_prod_beta Let_def)

subsection \<open>The invariant\<close>

definition agrees :: "limiter \<Rightarrow> validated_config \<Rightarrow> world \<Rightarrow> bool" where
  "agrees l cfg w \<longleftrightarrow> engine_limits.all_exact w \<and> engine_limits.armed_in w = armed_policies l
     \<and> world_prefixes w = prefix_set cfg"

definition engine_ok :: "engine \<Rightarrow> bool" where
  "engine_ok E \<longleftrightarrow> engine_limits.all_safe (en_world E) \<and> limiter_wf (ct_limiter (en_control E))
     \<and> (\<not> rh_degraded (en_health E) \<longrightarrow> agrees (ct_limiter (en_control E)) (ct_config (en_control E)) (en_world E))"

lemma all_safe_quiet: "quiet w w' \<Longrightarrow> engine_limits.all_safe w \<Longrightarrow> engine_limits.all_safe w'"
  by (auto simp: quiet_def engine_limits.all_safe_def)

lemma agrees_quiet: "quiet w w' \<Longrightarrow> agrees l cfg w \<Longrightarrow> agrees l cfg w'"
  by (simp add: quiet_def agrees_def engine_limits.all_exact_def engine_limits.armed_in_def fun_eq_iff)

text \<open>Operations that leave control and health alone and the slots and prefixes as they are.\<close>

lemma engine_ok_quiet:
  assumes "engine_ok E" "quiet (en_world E) (en_world E')" "en_control E' = en_control E" "en_health E' = en_health E"
  shows "engine_ok E'"
  using assms all_safe_quiet agrees_quiet unfolding engine_ok_def by metis

subsection \<open>The limiter's tick and its actions\<close>

text \<open>Whatever happens to the maps, the limiter ends with the failed actions handed back.\<close>

lemma fold_tick_limiter:
  assumes "distinct as" "fold (apply_tick_action m w) as (fs, l, s) = (fs', l', s')"
  shows "\<exists>ok. l' = fold revert_failed_action (filter (\<lambda>a. \<not> ok a) as) l"
  using assms
proof (induction as arbitrary: fs l s)
  case (Cons a as)
  obtain fs1 l1 s1 where one: "apply_tick_action m w a (fs, l, s) = (fs1, l1, s1)" by (metis prod_cases3)
  then have l1: "l1 = l \<or> l1 = revert_failed_action a l"
    by (auto simp: apply_tick_action_def split: prod.splits sum.splits)
  have "fold (apply_tick_action m w) as (fs1, l1, s1) = (fs', l', s')" using Cons.prems(2) one by simp
  with Cons.IH [of fs1 l1 s1] Cons.prems(1)
  obtain ok where ok: "l' = fold revert_failed_action (filter (\<lambda>a. \<not> ok a) as) l1" by auto
  have "filter (\<lambda>x. \<not> (if x = a then b else ok x)) as = filter (\<lambda>x. \<not> ok x) as" for b
    using Cons.prems(1) by (auto intro!: filter_cong)
  with l1 ok show ?case
    by (intro exI [of _ "\<lambda>x. if x = a then l1 = l else ok x"]) auto
qed simp

text \<open>A tick has at most one action for a flow, and so has a reload plan.\<close>

lemma tick_acts_le:
  assumes "distinct ips" "tick ips now totals l = (l', as)"
  shows "length (acts_of flow as) \<le> 1"
proof -
  obtain w st acts e where ft: "flow_ticked now totals l flow = (w, st, acts, e)" by (metis prod_cases4)
  then have "length acts \<le> 1"
    by (auto simp: flow_ticked_def flow_eval_def Let_def split: option.splits phase.splits if_splits)
  then show ?thesis
    using tick_view(1) [OF assms(1), of flow now totals l] ft
    by (auto simp: assms(2) flow_view_def split: if_splits)
qed

lemma plan_acts_le:
  assumes "limiter_wf l" "distinct flows" "\<forall>flow. is_limited_state (lm_states l flow) \<longrightarrow> flow \<in> set flows"
    and "plan_reload keys flows l cfg now = Inr plan"
  shows "length (acts_of flow (rp_actions plan)) \<le> 1"
  using plan_reload_view [OF assms, of flow]
  by (auto simp: plan_view_def rp_actions_def flow_planned_def Let_def split: option.splits if_splits)

lemma acts_of_le_removes_first: "length (acts_of flow as) \<le> 1 \<Longrightarrow> acts_of flow (removes_first as) = acts_of flow as"
  by (cases "acts_of flow as")
    (auto simp: removes_first_def acts_of_filter [where P = is_remove] acts_of_filter [where P = "\<lambda>a. \<not> is_remove a"])

text \<open>The order in which failed actions are handed back does not matter.\<close>

lemma limiter_eqI:
  "lm_tick_secs l = lm_tick_secs l' \<Longrightarrow> lm_ranges l = lm_ranges l' \<Longrightarrow> lm_overrides l = lm_overrides l' \<Longrightarrow>
   lm_windows l = lm_windows l' \<Longrightarrow> lm_states l = lm_states l' \<Longrightarrow> lm_prev_totals l = lm_prev_totals l' \<Longrightarrow>
   lm_expired l = lm_expired l' \<Longrightarrow> l = l'" for l l' :: limiter
  by (rule limiter.equality) simp_all

lemma revert_removes_first:
  assumes "\<And>flow. length (acts_of flow as) \<le> 1"
  shows "fold revert_failed_action (filter P (removes_first as)) l = fold revert_failed_action (filter P as) l"
proof -
  have at: "acts_of flow (filter P (removes_first as)) = acts_of flow (filter P as)" for flow
    using acts_of_le_removes_first [OF assms, of flow] by (simp add: acts_of_filter)
  show ?thesis
    using fold_revert_at [of "filter P (removes_first as)" l] fold_revert_at [of "filter P as" l]
    by (intro limiter_eqI ext) (simp_all add: at)
qed

lemma limiter_tick_outcome:
  assumes "engine_limits.all_safe w" "limiter_wf l" "iterates (tk_ips i)"
    and "limiter_tick pf i totals (l, w) = (fs, l', w')"
  shows "engine_limits.all_safe w' \<and> limiter_wf l' \<and> (consistent fs \<longrightarrow> agrees l cfg w \<longrightarrow> agrees l' cfg w')"
proof -
  obtain l1 as where t: "tick (tk_ips i (tick_ips l totals)) (tk_now_secs i) totals l = (l1, as)" by force
  have ips: "distinct (tk_ips i (tick_ips l totals))" using assms(3) by (simp add: iterates_def)
  note acts = tick_acts_le [OF ips t]
  note agree = tick_agreement [where r = "fold revert_failed_action (filter (\<lambda>a. \<not> ok a) as) l1" and ok = ok for ok,
      OF assms(2) ips t refl]
  have run: "fold (apply_tick_action (engine_limit_maps pf) (engine_wl pf)) (removes_first as) ([], l1, w) = (fs, l', w')"
    using assms(4) t by (auto simp: limiter_tick_def apply_tick_actions_def removes_first_def split: if_splits)
  have flows: "distinct (map la_flow as)" by (rule distinct_flows [OF acts])
  then have dist: "distinct (removes_first as)" by (auto simp: removes_first_def distinct_map)
  obtain ok where "l' = fold revert_failed_action (filter (\<lambda>a. \<not> ok a) (removes_first as)) l1"
    using fold_tick_limiter [OF dist run] by blast
  then have "limiter_wf l'" using agree(2) [of ok] revert_removes_first [OF acts] by simp
  moreover note out = engine_tx.fold_tick_outcome [OF assms(1) dist run]
  moreover have "agrees l' cfg w'" if c: "consistent fs" "agrees l cfg w"
  proof -
    obtain ok where k: "engine_limits.all_exact w'" "world_prefixes w' = world_prefixes w"
      "l' = fold revert_failed_action (filter (\<lambda>a. \<not> ok a) (removes_first as)) l1"
      "engine_limits.armed_in w' = fold apply_action (filter ok (removes_first as)) (engine_limits.armed_in w)"
      using out c by (auto simp: agrees_def)
    have "distinct (map la_flow (filter ok as))" using flows by (rule distinct_map_filter)
    then have "fold apply_action (filter ok (removes_first as)) m = fold apply_action (filter ok as) m" for m
      using fold_removes_first [of "filter ok as" m]
      by (simp add: removes_first_def conj_commute filter_filter)
    then show ?thesis
      using k c(2) agree(1) [of ok] revert_removes_first [OF acts, of "\<lambda>a. \<not> ok a" l1] by (simp add: agrees_def)
  qed
  ultimately show ?thesis by blast
qed

text \<open>The reports of a tick reach the health of the engine and nothing else.\<close>

lemma surface_reports:
  "en_control (fold (\<lambda>f. surface_rollback_report (tf_report f)) fs E) = en_control E"
  "en_world (fold (\<lambda>f. surface_rollback_report (tf_report f)) fs E) = en_world E"
  "en_reload (fold (\<lambda>f. surface_rollback_report (tf_report f)) fs E) = en_reload E"
  "rh_degraded (en_health (fold (\<lambda>f. surface_rollback_report (tf_report f)) fs E))
    \<longleftrightarrow> rh_degraded (en_health E) \<or> \<not> consistent fs"
  by (induction fs arbitrary: E) (auto simp: surface_rollback_report_def record_report_def consistent_def)

lemma engine_ok_cong:
  assumes "engine_ok E" "en_control E' = en_control E" "en_world E' = en_world E" "en_health E' = en_health E"
  shows "engine_ok E'"
  by (rule engine_ok_quiet [OF assms(1)]) (simp_all add: assms)

lemma quiet_collect:
  "quiet w (snd (remove_counter_keys (remove_traffic lpm) keys w))"
  "quiet w (snd (remove_counter_keys (remove_traffic6 lpm) keys6 w))"
  by (rule quiet_remove_keys, simp)+

lemma collect_tick_ok:
  assumes "engine_ok E" "iterates (tk_ips i)"
  shows "engine_ok (collect_tick pf i E)"
proof -
  let ?c = "en_control E"
  obtain res co where poll: "poll (tk_orders i) (tk_now i) (tk_traffic i) (tk_traffic6 i) (tk_policer i)
      (config_ranges (ct_config ?c)) (vc_show_idle_ips (ct_config ?c)) (ct_collector ?c) = (res, co)" by force
  obtain rs1 w1 where 1: "remove_counter_keys (remove_traffic (pf_lpm pf)) (pr_stale_traffic res) (en_world E) = (rs1, w1)"
    by force
  obtain rs2 w2 where 2: "remove_counter_keys (remove_traffic6 (pf_lpm pf)) (pr_stale_traffic6 res) w1 = (rs2, w2)"
    by force
  obtain fs l w where lt: "limiter_tick pf i (pr_totals res) (ct_limiter ?c, w2) = (fs, l, w)" by (metis prod_cases3)
  let ?E1 = "E\<lparr>en_control := ?c\<lparr>ct_limiter := l, ct_collector := co\<rparr>, en_world := w\<rparr>"
  let ?E2 = "fold (\<lambda>f. surface_rollback_report (tf_report f)) fs ?E1"
  have ct: "en_control (collect_tick pf i E) = en_control ?E2" "en_world (collect_tick pf i E) = en_world ?E2"
    "en_health (collect_tick pf i E) = en_health ?E2"
    by (simp_all add: collect_tick_def Let_def poll 1 2 lt)
  have "quiet (en_world E) w2" using quiet_collect(1) [of "en_world E"] quiet_collect(2) [of w1] 1 2
    by (metis quiet_trans snd_conv)
  moreover have ok: "engine_limits.all_safe (en_world E)" "limiter_wf (ct_limiter ?c)"
    "\<not> rh_degraded (en_health E) \<Longrightarrow> agrees (ct_limiter ?c) (ct_config ?c) (en_world E)"
    using assms(1) by (simp_all add: engine_ok_def)
  ultimately have "engine_limits.all_safe w2" "\<not> rh_degraded (en_health E) \<Longrightarrow> agrees (ct_limiter ?c) (ct_config ?c) w2"
    using all_safe_quiet agrees_quiet by blast+
  with limiter_tick_outcome [OF this(1) ok(2) assms(2) lt] have "engine_ok ?E2"
    by (simp add: engine_ok_def surface_reports)
  then show ?thesis using ct by (rule engine_ok_cong)
qed

subsection \<open>Scans\<close>

lemma rescan_quiet:
  "quiet (en_world E) (en_world (rescan_taps pf i E)) \<and> en_control (rescan_taps pf i E) = en_control E
   \<and> en_health (rescan_taps pf i E) = en_health E"
proof (cases "discover_taps (sc_read_dir i) (sc_read_file i) (tp_bridge (en_taps E))")
  case (Inl e)
  then show ?thesis by (simp add: rescan_taps_def Let_def)
next
  case (Inr found)
  obtain ok failed am where rc: "reconcile (pf_describe_program pf) (sc_names i (am_attached (tp_manager (en_taps E))))
      (sc_now i) found (tp_manager (en_taps E)) = (ok, failed, am)" by (metis prod_cases3)
  let ?ifs = "set (map tap_ifindex (manager_taps (sc_names i (am_attached am)) am))"
  obtain st pending w where rt: "retry_traffic (sc_pending i) ?ifs (remove_traffic (pf_lpm pf))
      (tp_pending_removes (en_taps E), en_world E) = (st, pending, w)" by (metis prod_cases3)
  have "quiet (en_world E) w"
    using quiet_retry [where remove = "remove_traffic (pf_lpm pf)" and live = ?ifs and order = "sc_pending i"
        and st = "(tp_pending_removes (en_taps E), en_world E)"] by (simp add: rt del: set_map)
  moreover have "quiet w (snd (prune_stale pf i ?ifs (pending, w)))" by (rule quiet_prune)
  ultimately show ?thesis
    by (auto simp: rescan_taps_def Let_def Inr rc rt simp del: set_map split: prod.splits if_splits intro: quiet_trans)
qed

subsection \<open>Reloads\<close>

lemma iterates_finite: "iterates order \<Longrightarrow> finite A \<Longrightarrow> set (order A) = A"
  by (simp add: iterates_def)

lemma prefix_set_finite [simp]: "finite (prefix_set cfg)"
  by (simp add: prefix_set_def)

definition reload_kept :: "engine \<Rightarrow> engine \<Rightarrow> bool" where
  "reload_kept E E' \<longleftrightarrow> en_control E' = en_control E
     \<and> (\<not> rh_degraded (en_health E') \<longrightarrow> world_slots (en_world E') = world_slots (en_world E)
          \<and> world_prefixes (en_world E') = world_prefixes (en_world E))"

lemma reload_kept_refl [simp]: "reload_kept E E"
  by (simp add: reload_kept_def)

text \<open>A refused configuration changes nothing, unless its rollback failed.\<close>

lemma apply_config_outcome:
  assumes "engine_ok E" "enumerates (ri_flows i) (lm_states (ct_limiter (en_control E)))" "iterates (ri_prefixes i)"
    and "apply_config pf i cfg E = (r, E')"
  shows "engine_ok E' \<and> (\<forall>e. r = Inl e \<longrightarrow> reload_kept E E')"
proof (cases "reload_guards E cfg")
  case (Some e)
  with assms show ?thesis by (auto simp: apply_config_def)
next
  case None
  let ?c = "en_control E"
  let ?old = "prefix_set (ct_config ?c)"
  have ok: "engine_limits.all_safe (en_world E)" "limiter_wf (ct_limiter ?c)"
    "\<not> rh_degraded (en_health E) \<Longrightarrow> agrees (ct_limiter ?c) (ct_config ?c) (en_world E)"
    using assms(1) by (simp_all add: engine_ok_def)
  show ?thesis
  proof (cases "plan_reload (ri_overrides i) (ri_flows i) (ct_limiter ?c) cfg (ri_now_secs i)")
    case (Inl e)
    with None assms show ?thesis by (auto simp: apply_config_def Let_def)
  next
    case (Inr plan)
    obtain r1 c w where run: "apply_and_commit (ri_prefixes i) (engine_limit_maps pf) (engine_wl pf) ?old plan cfg
        (?c, en_world E) = (r1, (c, w))" by (metis prod_cases3)
    have flows: "distinct (ri_flows i)" "\<forall>flow. is_limited_state (lm_states (ct_limiter ?c) flow) \<longrightarrow> flow \<in> set (ri_flows i)"
      using assms(2) by (auto simp: enumerates_def is_limited_state_def split: option.splits)
    note agree = reload_agreement [OF ok(2) flows Inr]
    have dist: "distinct (map la_flow (rp_actions plan))"
      by (rule distinct_flows [OF plan_acts_le [OF ok(2) flows Inr]])
    have order: "set (ri_prefixes i (prefix_set cfg - ?old)) = prefix_set cfg - ?old"
      "set (ri_prefixes i (?old - prefix_set cfg)) = ?old - prefix_set cfg"
      using assms(3) by (simp_all add: iterates_finite)
    note out = engine_tx.apply_and_commit_outcome [OF ok(1) dist order run]
    show ?thesis
    proof (cases r1)
      case (Inr u)
      then have r: "r = Inr ()" "E' = E\<lparr>en_control := c, en_world := w\<rparr>"
        using assms(4) None \<open>plan_reload _ _ _ _ _ = _\<close> run by (simp_all add: apply_config_def Let_def)
      with Inr out(1) out(2) agree ok(3) show ?thesis by (auto simp: engine_ok_def agrees_def)
    next
      case (Inl rb)
      then have r: "E' = surface_rollback_report (re_report rb) (E\<lparr>en_control := c, en_world := w\<rparr>)"
        using assms(4) None \<open>plan_reload _ _ _ _ _ = _\<close> run by (simp_all add: apply_config_def Let_def)
      note o3 = out(3) [OF Inl]
      have deg: "rh_degraded (en_health E') \<longleftrightarrow> rh_degraded (en_health E) \<or> \<not> rr_dataplane_consistent (re_report rb)"
        by (simp add: r surface_rollback_report_def record_report_def)
      have same: "en_control E' = ?c" "en_world E' = w" using o3 by (simp_all add: r surface_rollback_report_def)
      have keep: "world_slots w = world_slots (en_world E) \<and> world_prefixes w = world_prefixes (en_world E)"
        if "\<not> rh_degraded (en_health E')"
        using that o3 ok(3) by (simp add: deg agrees_def)
      then have "engine_ok E'"
        using out(1) ok deg same by (auto simp: engine_ok_def agrees_def engine_limits.all_exact_def
            engine_limits.armed_in_def fun_eq_iff)
      with keep same show ?thesis by (simp add: reload_kept_def)
    qed
  qed
qed

lemma reload_failed_kept [simp]:
  "engine_ok (reload_failed stamp e E) = engine_ok E"
  "reload_kept E (reload_failed stamp e E') = reload_kept E E'"
  by (simp_all add: reload_failed_def engine_ok_def reload_kept_def)

lemma collect_tick_reload [simp]: "en_reload (collect_tick pf i E) = en_reload E"
  by (simp add: collect_tick_def Let_def surface_reports split: prod.split)

lemma reload_outcome:
  assumes "engine_ok E" "enumerates (ri_flows i) (lm_states (ct_limiter (en_control E)))" "iterates (ri_prefixes i)"
    and "iterates (tk_ips (ri_tick i))"
  shows "engine_ok (reload pf i E)
    \<and> (\<not> rl_last_reload_ok (rd_status (en_reload (reload pf i E))) \<longrightarrow> reload_kept E (reload pf i E))"
proof (cases "\<exists>bytes cfg. ri_file i = Inr bytes \<and> bytes \<noteq> rd_last_config_bytes (en_reload E)
    \<and> parse_config pf (ri_path i) bytes = Inr cfg")
  case True
  then obtain bytes cfg where p: "ri_file i = Inr bytes" "bytes \<noteq> rd_last_config_bytes (en_reload E)"
    "parse_config pf (ri_path i) bytes = Inr cfg" by blast
  obtain r E1 where a: "apply_config pf i cfg E = (r, E1)" by force
  note out = apply_config_outcome [OF assms(1-3) a]
  show ?thesis
  proof (cases r)
    case (Inl e)
    with out p a show ?thesis by (simp add: reload_def)
  next
    case (Inr u)
    let ?E2 = "E1\<lparr>en_reload := \<lparr>rd_status = \<lparr>rl_config_loaded_at = format_unix_utc (ri_now_unix i),
        rl_last_reload_at = format_unix_utc (ri_now_unix i), rl_last_reload_ok = True, rl_last_reload_error = []\<rparr>,
        rd_last_config_bytes = bytes, rd_config_watch = ct_generation (en_control E1)\<rparr>\<rparr>"
    have "engine_ok ?E2" by (rule engine_ok_cong [of E1]) (simp_all add: out)
    then have "engine_ok (collect_tick pf (ri_tick i) ?E2)" using assms(4) by (rule collect_tick_ok)
    moreover have "reload pf i E = collect_tick pf (ri_tick i) ?E2" using p a Inr by (simp add: reload_def Let_def)
    ultimately show ?thesis by simp
  qed
next
  case False
  then have "(\<exists>st e. reload pf i E = reload_failed st e E)
      \<or> (\<exists>rl. reload pf i E = E\<lparr>en_reload := rl\<rparr> \<and> rl_last_reload_ok (rd_status rl))"
    by (auto simp: reload_def Let_def split: sum.splits)
  moreover have "engine_ok (E\<lparr>en_reload := rl\<rparr>)" "reload_kept E (E\<lparr>en_reload := rl\<rparr>)" for rl
    by (rule engine_ok_cong [OF assms(1)]) (simp_all add: reload_kept_def)
  ultimately show ?thesis using assms(1) by auto
qed

subsection \<open>The start\<close>

lemma insert_prefixes_outcome:
  "insert_prefixes pf cs w = (Inr u, w') \<Longrightarrow>
     world_slots w' = world_slots w \<and> world_seen w' \<subseteq> insert (world_slots w) (world_seen w)
     \<and> world_prefixes w' = world_prefixes w \<union> set cs"
proof (induction cs arbitrary: w)
  case (Cons c cs)
  obtain r w1 where i: "wl_insert (engine_wl pf) c w = (r, w1)" by force
  with Cons.prems obtain v where r: "r = Inr v" by (cases r) simp_all
  note law = engine_tx.wl_insert_law [OF i]
  have "insert_prefixes pf cs w1 = (Inr u, w')" using Cons.prems i r by simp
  from Cons.IH [OF this] law r show ?case by auto
qed auto

lemma limiter_new_wf: "limiter_wf (limiter_new n)"
  by (simp add: limiter_wf_def limiter_new_def max_def word_less_nat_alt word_le_nat_alt)

lemma engine_new_fields:
  "en_control (engine_new t bytes cfg taps w) = \<lparr>ct_limiter = limiter_new (vc_refresh_interval_ms cfg div 1000),
     ct_collector = collector_new, ct_config = cfg, ct_generation = 1\<rparr>"
  "en_world (engine_new t bytes cfg taps w) = w" "\<not> rh_degraded (en_health (engine_new t bytes cfg taps w))"
  by (simp_all add: engine_new_def split: prod.split)

lemma start_cases:
  assumes "start_daemon pf i = Inr E"
  obtains bytes cfg w w1 taps plan where "si_world i = Inr w" "parse_config pf (si_path i) bytes = Inr cfg"
    "insert_prefixes pf (concat (map (\<lambda>r. cidrs (vr_inner r)) (vc_ranges cfg))) w = (Inr (), w1)"
    "plan_reload (si_overrides i) [] (limiter_new (vc_refresh_interval_ms cfg div 1000)) cfg (si_now_secs i) = Inr plan"
    "E = (engine_new (si_now_unix i) bytes cfg taps w1)\<lparr>en_control :=
       \<lparr>ct_limiter = commit_reload plan (limiter_new (vc_refresh_interval_ms cfg div 1000)),
        ct_collector = collector_new, ct_config = cfg, ct_generation = 1\<rparr>\<rparr>"
proof -
  obtain bytes where b: "si_file i = Inr bytes"
    using assms by (cases "si_file i") (simp_all add: start_daemon_def)
  obtain cfg where c: "parse_config pf (si_path i) bytes = Inr cfg"
    using assms b by (cases "parse_config pf (si_path i) bytes") (simp_all add: start_daemon_def)
  obtain w where w: "si_world i = Inr w"
    using assms b c by (cases "si_world i") (simp_all add: start_daemon_def)
  let ?ins = "insert_prefixes pf (concat (map (\<lambda>r. cidrs (vr_inner r)) (vc_ranges cfg))) w"
  obtain r w1 where ins: "?ins = (r, w1)" by force
  then have r: "r = Inr ()" using assms b c w by (cases r) (simp_all add: start_daemon_def)
  obtain programs where p: "si_programs i = Inr programs"
    using assms b c w ins r by (cases "si_programs i") (simp_all add: start_daemon_def)
  let ?l = "limiter_new (vc_refresh_interval_ms cfg div 1000)"
  obtain plan where pl: "plan_reload (si_overrides i) [] ?l cfg (si_now_secs i) = Inr plan"
    using assms b c w ins r p
    by (cases "plan_reload (si_overrides i) [] ?l cfg (si_now_secs i)")
      (simp_all add: start_daemon_def Let_def engine_new_fields)
  let ?E = "engine_new (si_now_unix i) bytes cfg (first_scan pf (si_scan i) (vc_bridge cfg)
      \<lparr>am_bpf = programs, am_attached = Map.empty, am_retry_backoff = Map.empty\<rparr>) w1"
  have "?E\<lparr>en_control := \<lparr>ct_limiter = commit_reload plan ?l, ct_collector = collector_new, ct_config = cfg,
      ct_generation = 1\<rparr>\<rparr> = E"
    using assms b c w ins r p pl by (simp add: start_daemon_def Let_def engine_new_fields)
  from this [symmetric] show ?thesis by (rule that [OF w c ins [unfolded r] pl])
qed

text \<open>Before the first tick there is nothing to enforce, whatever the first plan says.\<close>

lemma start_idle:
  assumes "plan_reload keys [] (limiter_new n) cfg now = Inr plan"
  shows "limiter_wf (commit_reload plan (limiter_new n))" "armed_policies (commit_reload plan (limiter_new n)) = Map.empty"
    "lm_states (commit_reload plan (limiter_new n)) = Map.empty"
proof -
  have none: "lm_states (limiter_new n) = Map.empty" by (simp add: limiter_new_def)
  then have "\<forall>flow. is_limited_state (lm_states (limiter_new n) flow) \<longrightarrow> flow \<in> set []" by (simp add: is_limited_state_def)
  note agree = reload_agreement [OF limiter_new_wf _ this assms]
  show "limiter_wf (commit_reload plan (limiter_new n))" by (rule agree(2)) simp
  have "rp_actions plan = []" using assms by (auto simp: plan_reload_def try_bind_def rp_actions_def split: sum.splits)
  moreover have "armed_policies (limiter_new n) = Map.empty"
    by (rule ext) (simp add: armed_policies_def none armed_policy_def)
  ultimately show "armed_policies (commit_reload plan (limiter_new n)) = Map.empty" using agree(1) by simp
  show "lm_states (commit_reload plan (limiter_new n)) = Map.empty"
    by (rule ext) (simp add: commit_at(1) [OF refl refl] none is_limited_state_def)
qed

lemma start_ok:
  assumes "si_world i = Inr w" "fresh_world w" "start_daemon pf i = Inr E"
  shows "engine_ok E"
  using assms(3)
proof (cases rule: start_cases)
  case (1 bytes cfg w' w1 taps plan)
  have [simp]: "w' = w" using 1(1) assms(1) by simp
  have w: "world_slots w = (\<lambda>_. \<lparr>sl_policy = None, sl_state = False, sl_ring = False\<rparr>)" "world_seen w = {}"
    "world_prefixes w = {}"
    using assms(2) by (auto simp: fresh_world_def empty_maps_def world_slots_def slots_of_def world_seen_def
        world_prefixes_def)
  note ins = insert_prefixes_outcome [OF 1(3)]
  have "engine_limits.all_safe w1"
    using ins w by (auto simp: engine_limits.all_safe_def slots_safe_def slot_safe_def)
  moreover have "agrees (commit_reload plan (limiter_new (vc_refresh_interval_ms cfg div 1000))) cfg w1"
    using ins w start_idle(2) [OF 1(4)]
    by (simp add: agrees_def engine_limits.all_exact_def engine_limits.armed_in_def slot_exact_def prefix_set_def
        fun_eq_iff)
  ultimately show ?thesis
    using start_idle(1) [OF 1(4)] by (simp add: 1(5) engine_ok_def engine_new_fields)
qed

subsection \<open>Every run\<close>

lemma operation_ok: "engine_op pf E E' \<Longrightarrow> engine_ok E \<Longrightarrow> engine_ok E'"
proof (induction rule: engine_op.induct)
  case (collect i E)
  then show ?case by (simp add: collect_tick_ok)
next
  case (scan i E)
  show ?case by (rule engine_ok_quiet [OF scan(2)]) (simp_all add: rescan_quiet)
next
  case (reload i E)
  with reload_outcome [OF reload(4) reload(1-3)] show ?case by blast
next
  case (watcher E e)
  show ?case by (rule engine_ok_cong [OF watcher]) (simp_all add: record_watcher_error_def)
next
  case (push E c)
  show ?case by (rule engine_ok_cong [OF push]) simp_all
qed

lemma step_ok: "engine_step pf E E' \<Longrightarrow> engine_ok E \<Longrightarrow> engine_ok E'"
  by (erule engine_stepE) (auto intro: operation_ok engine_ok_quiet)

lemma run_ok: "engine_run pf E \<Longrightarrow> engine_ok E"
  by (induction rule: engine_run.induct) (auto intro: start_ok step_ok)

subsection \<open>What a run means for the frames\<close>

text \<open>C6: No frame ever meets an armed policy without the policer state its algorithm needs: at every
  state that a frame met in a run of the daemon, also between two system calls of a tick or of a
  reload that is being rolled back, and whatever calls the kernel refused, a policy in the maps
  has its ring (sliding window log) or its bucket entry (every other algorithm) beside it. So
  enforcement is never silently off, and never on with the state of another algorithm only.\<close>

theorem armed_policies_have_state:
  assumes "engine_run pf E" "s \<in> insert (wo_maps (en_world E)) (set (wo_met (en_world E)))"
  shows "case dp_policies s k of
      None \<Rightarrow> True
    | Some p \<Rightarrow> if lp_algorithm p = ALGO_SLIDING_WINDOW_LOG then dp_swl_log s k \<noteq> None else dp_limit_state s k \<noteq> None"
proof -
  have "engine_limits.all_safe (en_world E)" using run_ok [OF assms(1)] by (simp add: engine_ok_def)
  then have "slots_safe (slots_of s)"
    using assms(2) by (auto simp: engine_limits.all_safe_def world_slots_def world_seen_def)
  then have "slot_safe (slots_of s k)" by (simp add: slots_safe_def)
  then show ?thesis by (auto simp: slot_safe_def slots_of_def has_artifact_def split: option.splits if_splits)
qed

text \<open>C4: Unless the engine reports itself degraded, after every step of a run the BPF maps are those the
  daemon believes in: each flow's policy in the maps is the one its LIMITED state says is
  applied, and flows that are not LIMITED have none; a policy has exactly the state entry of its
  algorithm and a flow without a policy has none left over; and the whitelist holds the prefixes
  of the configuration in force. Refused calls, rollbacks and failed reloads do not break this.\<close>

theorem engine_agrees_with_maps:
  assumes "engine_run pf E" "\<not> rh_degraded (en_health E)"
  defines "s \<equiv> wo_maps (en_world E)"
  shows "dp_policies s (limit_key_new ip dir) = armed_policies (ct_limiter (en_control E)) (ip, dir)
    \<and> (dp_swl_log s k \<noteq> None \<longleftrightarrow> (\<exists>p. dp_policies s k = Some p \<and> lp_algorithm p = ALGO_SLIDING_WINDOW_LOG))
    \<and> (dp_limit_state s k \<noteq> None \<longleftrightarrow> (\<exists>p. dp_policies s k = Some p \<and> lp_algorithm p \<noteq> ALGO_SLIDING_WINDOW_LOG))
    \<and> {c. trie_key c \<in> dp_monitored s} = prefix_set (ct_config (en_control E))"
proof -
  have a: "engine_limits.all_exact (en_world E)"
    "engine_limits.armed_in (en_world E) = armed_policies (ct_limiter (en_control E))"
    "world_prefixes (en_world E) = prefix_set (ct_config (en_control E))"
    using run_ok [OF assms(1)] assms(2) by (simp_all add: engine_ok_def agrees_def)
  from fun_cong [OF a(2), of "(ip, dir)"]
  have "dp_policies s (limit_key_new ip dir) = armed_policies (ct_limiter (en_control E)) (ip, dir)"
    by (simp add: engine_limits.armed_in_def world_slots_def slots_of_def s_def)
  moreover have "slot_exact (slots_of s k)" using a(1) by (simp add: engine_limits.all_exact_def world_slots_def s_def)
  ultimately show ?thesis
    using a(3) by (auto simp: slot_exact_def slots_of_def world_prefixes_def s_def split: option.splits)
qed

text \<open>C7: A reload that is reported as failed, for whatever reason (an unreadable file, bad UTF-8, a
  configuration that is rejected, a setting that cannot change, a whitelist that is too small, a
  map call that is refused), leaves the old configuration in force: the limiter, the collector, the
  configuration and its generation are as before. Unless the rollback itself failed, in which case
  the engine is marked degraded, so are every policy in the maps, which flows have policer state
  and which a log ring, and the whitelist. The contents of policer state are not claimed: a flow whose
  policy was taken out and put back starts with fresh state, and its statistics may be gone.\<close>

theorem failed_reload_changes_nothing:
  assumes "engine_run pf E" "enumerates (ri_flows i) (lm_states (ct_limiter (en_control E)))"
    and "iterates (ri_prefixes i)" "iterates (tk_ips (ri_tick i))"
    and "\<not> rl_last_reload_ok (rd_status (en_reload (reload pf i E)))"
  shows "en_control (reload pf i E) = en_control E
    \<and> (\<not> rh_degraded (en_health (reload pf i E)) \<longrightarrow>
         dp_policies (wo_maps (en_world (reload pf i E))) = dp_policies (wo_maps (en_world E))
       \<and> dom (dp_limit_state (wo_maps (en_world (reload pf i E)))) = dom (dp_limit_state (wo_maps (en_world E)))
       \<and> dom (dp_swl_log (wo_maps (en_world (reload pf i E)))) = dom (dp_swl_log (wo_maps (en_world E)))
       \<and> {c. trie_key c \<in> dp_monitored (wo_maps (en_world (reload pf i E)))}
         = {c. trie_key c \<in> dp_monitored (wo_maps (en_world E))})"
proof -
  have shape: "dp_policies s = (\<lambda>k. sl_policy (slots_of s k))" "dom (dp_limit_state s) = {k. sl_state (slots_of s k)}"
    "dom (dp_swl_log s) = {k. sl_ring (slots_of s k)}" for s
    by (auto simp: slots_of_def)
  have "reload_kept E (reload pf i E)" using reload_outcome [OF run_ok [OF assms(1)] assms(2-4)] assms(5) by blast
  then show ?thesis
    unfolding shape reload_kept_def world_slots_def world_prefixes_def by simp
qed

text \<open>The longest-prefix lookup on the whitelist is membership in a configured range.\<close>

lemma trie_key_of:
  assumes "n \<le> 32"
  obtains c where "trie_key c = (d, n)" "unat (cidr_prefix_len c) = n"
proof -
  have "inj to_be" by (rule injI) (simp add: to_be_inj)
  then have "surj to_be" by (rule finite_UNIV_inj_surj [OF finite])
  then obtain y where y: "d = to_be y" by (rule surjE)
  have "unat (word_of_nat n :: u8) = n" using assms by (simp add: unsigned_of_nat take_bit_nat_eq_self)
  then show ?thesis
    using that [of "\<lparr>cidr_prefix_len = word_of_nat n, cidr_network = y\<rparr>"] by (simp add: trie_key_def y)
qed

lemma monitored_iff_configured:
  assumes "lpm_law lpm" "world_prefixes w = prefix_set cfg"
  shows "lpm (dp_monitored (wo_maps w)) ip \<longleftrightarrow> (\<exists>vr \<in> set (vc_ranges cfg). range_contains (vr_inner vr) ip)"
proof -
  have "lpm (dp_monitored (wo_maps w)) ip \<longleftrightarrow> (\<exists>(d, n) \<in> dp_monitored (wo_maps w). n \<le> 32 \<and>
      (\<forall>i < n. memory_bit d i = memory_bit (to_be ip) i))"
    using assms(1) by (simp add: lpm_law_def)
  also have "\<dots> \<longleftrightarrow> (\<exists>c \<in> world_prefixes w. unat (cidr_prefix_len c) \<le> 32 \<and> cidr_matches c ip)"
  proof
    assume "\<exists>(d, n) \<in> dp_monitored (wo_maps w). n \<le> 32 \<and> (\<forall>i < n. memory_bit d i = memory_bit (to_be ip) i)"
    then obtain d n where dn: "(d, n) \<in> dp_monitored (wo_maps w)" "n \<le> 32"
      "\<forall>i < n. memory_bit d i = memory_bit (to_be ip) i" by blast
    obtain c where c: "trie_key c = (d, n)" "unat (cidr_prefix_len c) = n" using trie_key_of [OF dn(2)] .
    then have "cidr_matches c ip" using dn(2,3) by (simp add: cidr_matches_bits) (simp add: trie_key_def)
    with c dn show "\<exists>c \<in> world_prefixes w. unat (cidr_prefix_len c) \<le> 32 \<and> cidr_matches c ip"
      by (intro bexI [of _ c]) (simp_all add: world_prefixes_def)
  next
    assume "\<exists>c \<in> world_prefixes w. unat (cidr_prefix_len c) \<le> 32 \<and> cidr_matches c ip"
    then obtain c where "trie_key c \<in> dp_monitored (wo_maps w)" "unat (cidr_prefix_len c) \<le> 32"
      "\<forall>i < unat (cidr_prefix_len c). memory_bit (fst (trie_key c)) i = memory_bit (to_be ip) i"
      by (auto simp: world_prefixes_def cidr_matches_bits trie_key_def)
    then show "\<exists>(d, n) \<in> dp_monitored (wo_maps w). n \<le> 32 \<and> (\<forall>i < n. memory_bit d i = memory_bit (to_be ip) i)"
      by (intro bexI [of _ "trie_key c"]) (simp_all add: trie_key_def)
  qed
  also have "\<dots> \<longleftrightarrow> (\<exists>vr \<in> set (vc_ranges cfg). \<exists>c \<in> set (cidrs (vr_inner vr)). cidr_matches c ip)"
    using cidrs_prefix_len by (auto simp: assms(2) prefix_set_def)
  finally show ?thesis by (simp add: cidrs_match)
qed

text \<open>C5: From the configuration to the wire: unless the engine reports itself degraded, a frame is
  dropped if and only if it is an IPv4 frame of a VM address that a configured range contains,
  the limiter holds its flow LIMITED with an applied policy of non-zero rate, its length can be
  policed, and the policer of that policy refuses it. In particular a flow that is not LIMITED,
  or an address that is not configured, loses no frame.\<close>

theorem engine_drops_iff:
  assumes "engine_run pf E" "\<not> rh_degraded (en_health E)" "lpm_law (pf_lpm pf)"
  shows "fst (handle (pf_lpm pf) e ctx tx (wo_maps (en_world E))) = TC_ACT_SHOT \<longleftrightarrow>
    (\<exists>ip st np. vm_address ctx tx ip
       \<and> (\<exists>vr \<in> set (vc_ranges (ct_config (en_control E))). range_contains (vr_inner vr) ip)
       \<and> lm_states (ct_limiter (en_control E)) (ip, flow_direction tx) = Some st \<and> ds_phase st = Limited
       \<and> ds_applied st = Some np \<and> dpo_limit_bps np \<noteq> 0 \<and> policeable (ucast (skb_len ctx))
       \<and> policer_verdict e (limit_key_new ip (flow_direction tx)) (installed_policy np) (ucast (skb_len ctx))
           (wo_maps (en_world E)) = Some False)"
proof -
  let ?s = "wo_maps (en_world E)" and ?l = "ct_limiter (en_control E)"
  have a: "engine_limits.armed_in (en_world E) = armed_policies ?l"
    "world_prefixes (en_world E) = prefix_set (ct_config (en_control E))"
    using run_ok [OF assms(1)] assms(2) by (simp_all add: engine_ok_def agrees_def)
  have pol: "dp_policies ?s (limit_key_new ip dir) = armed_policy (lm_states ?l (ip, dir))" for ip dir
    using fun_cong [OF a(1), of "(ip, dir)"]
    by (simp add: engine_limits.armed_in_def world_slots_def slots_of_def armed_policies_def)
  have arm: "(armed_policy st = Some p \<and> armed p \<and> Q) \<longleftrightarrow> (\<exists>s np. st = Some s \<and> ds_phase s = Limited
      \<and> ds_applied s = Some np \<and> dpo_limit_bps np \<noteq> 0 \<and> p = installed_policy np \<and> Q)" for st p Q
    by (auto simp: armed_policy_def armed_def installed_policy_def split: option.splits if_splits)
  show ?thesis
    unfolding handle_shot_iff monitored_iff_configured [OF assms(3) a(2)] pol arm
    by blast
qed

subsection \<open>A daemon on one host\<close>

definition sample_lpm :: "trie \<Rightarrow> u32 \<Rightarrow> bool" where
  "sample_lpm t ip \<longleftrightarrow> (\<exists>(d, n) \<in> t. n \<le> 32 \<and> (\<forall>i < n. memory_bit d i = memory_bit (to_be ip) i))"

definition sample_platform :: platform where
  "sample_platform = \<lparr>pf_lpm = sample_lpm, pf_describe = (\<lambda>_. []), pf_describe_program = (\<lambda>_. []),
     pf_from_toml = (\<lambda>_. Inr sample_config), pf_url_parse = (\<lambda>_. Inl []), pf_config_error = (\<lambda>_. []),
     pf_policy_error = (\<lambda>_. []), pf_utf8_error = (\<lambda>_. [])\<rparr>"

definition sample_world :: world where
  "sample_world = \<lparr>wo_maps = empty_maps, wo_calls = 0, wo_refused = (\<lambda>_. None), wo_frames = (\<lambda>_. []), wo_met = []\<rparr>"

definition sample_start :: start_inputs where
  "sample_start = \<lparr>si_path = [], si_file = Inr [], si_now_unix = 0, si_now_secs = 0, si_world = Inr sample_world,
     si_programs = Inr \<lparr>tw_links = {}, tw_next = 0, tw_calls = 0, tw_programs = (\<lambda>_. True),
       tw_attach_refused = (\<lambda>_. None), tw_detach_refused = (\<lambda>_. False), tw_qdisc_refused = (\<lambda>_. None), tw_leaked = {}\<rparr>,
     si_scan = \<lparr>sc_read_dir = (\<lambda>_. Inl []), sc_read_file = (\<lambda>_. None), sc_names = (\<lambda>_. []), sc_now = 0,
       sc_keys = [], sc_pending = (\<lambda>_. [])\<rparr>,
     si_overrides = (\<lambda>_. [])\<rparr>"

lemma insert_prefixes_answered:
  "wo_refused w = (\<lambda>_. None) \<Longrightarrow> \<exists>w'. insert_prefixes pf cs w = (Inr (), w')"
proof (induction cs arbitrary: w)
  case (Cons c cs)
  obtain r w1 where c: "syscall (pf_lpm pf) (\<lambda>s. (Inr (), s\<lparr>dp_monitored := insert (trie_key c) (dp_monitored s)\<rparr>)) w
      = (r, w1)" by force
  from c show ?case
  proof (cases rule: syscall_result)
    case (refused msg)
    with Cons.prems show ?thesis by simp
  next
    case (answered s)
    with Cons.IH [of w1] Cons.prems c show ?thesis
      by (auto simp: engine_whitelist_def into_error_def)
  qed
qed simp

text \<open>The daemon starts on the sample document; nothing is limited yet.\<close>

lemma sample_started:
  obtains E where "start_daemon sample_platform sample_start = Inr E" "engine_run sample_platform E"
    "\<not> rh_degraded (en_health E)" "armed_policies (ct_limiter (en_control E)) = Map.empty"
    "config_ranges (ct_config (en_control E)) = [sample_range]" "lpm_law (pf_lpm sample_platform)"
    "lm_states (ct_limiter (en_control E)) = Map.empty"
proof -
  obtain vc where vc: "parse (\<lambda>_. Inr sample_config) (\<lambda>_. Inl []) [] = Inr vc"
    "vc_ranges vc = [\<lparr>vr_inner = sample_range, vr_policy = sample_fields_parsed, vr_overrides = Map.empty\<rparr>]"
    using sample_parsed by blast
  obtain w1 where ins: "insert_prefixes sample_platform (concat (map (\<lambda>r. cidrs (vr_inner r)) (vc_ranges vc))) sample_world
      = (Inr (), w1)"
    using insert_prefixes_answered [of sample_world] by (auto simp: sample_world_def)
  let ?l = "limiter_new (vc_refresh_interval_ms vc div 1000)"
  obtain plan where plan: "plan_reload (\<lambda>_. []) [] ?l vc 0 = Inr plan" "rp_actions plan = []"
    using sample_eff by (auto simp: plan_reload_def build_index_def vc(2) index_range_def rp_actions_def Let_def)
  have parsed: "parse_config sample_platform [] [] = Inr vc"
    by (simp add: parse_config_def sample_platform_def vc(1))
  let ?E = "\<lambda>taps. (engine_new 0 [] vc taps w1)\<lparr>en_control :=
       \<lparr>ct_limiter = commit_reload plan ?l, ct_collector = collector_new, ct_config = vc, ct_generation = 1\<rparr>\<rparr>"
  obtain taps where started: "start_daemon sample_platform sample_start = Inr (?E taps)"
    using parsed ins plan(1) by (auto simp: start_daemon_def sample_start_def Let_def engine_new_fields)
  have "engine_run sample_platform (?E taps)"
    by (rule engine_run.started [where w = sample_world, OF _ _ started])
      (simp_all add: sample_start_def fresh_world_def sample_world_def)
  then show ?thesis
    by (rule that [OF started])
      (simp_all add: engine_new_fields start_idle(2,3) [OF plan(1)] config_ranges_def vc(2) lpm_law_def
        sample_platform_def sample_lpm_def)
qed

definition some_order :: "'a set \<Rightarrow> 'a list" where
  "some_order A = (if finite A then SOME xs. distinct xs \<and> set xs = A else [])"

lemma some_order: "iterates some_order"
proof -
  have "distinct (some_order A) \<and> set (some_order A) = A" if f: "finite A" for A :: "'a set"
  proof -
    obtain xs where "distinct xs \<and> set xs = A" using finite_distinct_list [OF f] by blast
    then show ?thesis using someI [of "\<lambda>xs. distinct xs \<and> set xs = A" xs] f by (simp add: some_order_def)
  qed
  then show ?thesis by (simp add: iterates_def) (simp add: some_order_def)
qed

text \<open>A reload while the file cannot be read.\<close>

definition sample_tick :: tick_inputs where
  "sample_tick = \<lparr>tk_now_secs = 0, tk_now = 0,
     tk_orders = \<lparr>or_cur = [], or_cur6 = [], or_policer = [], or_totals = (\<lambda>_. [])\<rparr>,
     tk_traffic = [], tk_traffic6 = [], tk_policer = [], tk_oversized = [],
     tk_ips = some_order\<rparr>"

definition sample_reload :: "flow_key list \<Rightarrow> reload_inputs" where
  "sample_reload flows = \<lparr>ri_path = ''a.toml'', ri_file = Inl ''gone'', ri_now_unix = 0, ri_now_secs = 0,
     ri_overrides = (\<lambda>_. []), ri_flows = flows, ri_prefixes = some_order, ri_tick = sample_tick\<rparr>"

lemma failed_reload_changes_nothing_witness:
  "\<exists>E E'. start_daemon sample_platform sample_start = Inr E
     \<and> reload sample_platform (sample_reload []) E = E' \<and> \<not> rl_last_reload_ok (rd_status (en_reload E'))
     \<and> en_control E' = en_control E
     \<and> dp_policies (wo_maps (en_world E')) = dp_policies (wo_maps (en_world E))"
proof -
  obtain E where E: "start_daemon sample_platform sample_start = Inr E" "engine_run sample_platform E"
    "lm_states (ct_limiter (en_control E)) = Map.empty" "\<not> rh_degraded (en_health E)" by (rule sample_started)
  have i: "ri_flows (sample_reload []) = []" "iterates (ri_prefixes (sample_reload []))"
    "iterates (tk_ips (ri_tick (sample_reload [])))"
    by (simp_all add: sample_reload_def sample_tick_def some_order)
  have "\<not> rl_last_reload_ok (rd_status (en_reload (reload sample_platform (sample_reload []) E)))"
    "en_health (reload sample_platform (sample_reload []) E) = en_health E"
    by (simp_all add: reload_def reload_failed_def sample_reload_def Let_def)
  with failed_reload_changes_nothing [OF E(2) _ i(2,3) this(1)] E show ?thesis
    by (simp add: i(1) enumerates_def)
qed

end
