(* ===== verification/Arming.thy ===== *)
theory Arming
  imports Reload_Safety
begin

section \<open>Arming: no policy is armed over a used state\<close>

text \<open>
  A second contract of the limit maps, about what a policy is armed with. \<open>idle\<close> says that a flow has no
  policy, \<open>fresh\<close> that it has none and that the state its algorithm will use has just been written;
  \<open>fine\<close> is whatever holds of the maps as long as policies are armed only over fresh state, and only
  policies that are \<open>allowed\<close>. The transactions of \<open>txmaps.rs\<close> keep \<open>fine\<close>, applied or rolled back,
  with failures at any point: every path that arms a policy, also the one that restores an old
  policy, has disarmed the flow and written its state before.
\<close>

subsection \<open>The contract\<close>

definition kept :: "('s \<Rightarrow> bool) \<Rightarrow> (limit_key \<Rightarrow> 's \<Rightarrow> bool) \<Rightarrow> limit_key set \<Rightarrow> 's \<Rightarrow> 's \<Rightarrow> bool" where
  "kept fine idle K s s' \<longleftrightarrow> fine s' \<and> (\<forall>k. k \<notin> K \<longrightarrow> idle k s \<longrightarrow> idle k s')"

locale guarded_maps =
  fixes m :: "'s limit_maps"
    and w :: "'s whitelist_ops"
    and fine :: "'s \<Rightarrow> bool"
    and idle :: "limit_key \<Rightarrow> 's \<Rightarrow> bool"
    and fresh :: "limit_key \<Rightarrow> u32 \<Rightarrow> 's \<Rightarrow> bool"
    and allowed :: "limit_policy \<Rightarrow> bool"
  assumes get_law: "fine s \<Longrightarrow> get_policy m k s = (old, s') \<Longrightarrow> kept fine idle {} s s'
      \<and> (old = Inr None \<longrightarrow> idle k s') \<and> (\<forall>p. old = Inr (Some p) \<longrightarrow> allowed p)"
    and disarm_law: "fine s \<Longrightarrow> disarm_policy m k s = (r, s') \<Longrightarrow> kept fine idle {} s s' \<and> (r = Inr () \<longrightarrow> idle k s')"
    and fresh_law: "fine s \<Longrightarrow> write_fresh_state m k a s = (r, s') \<Longrightarrow>
      kept fine idle {} s s' \<and> (idle k s \<and> r = Inr () \<longrightarrow> fresh k a s')"
    and arm_law: "fine s \<Longrightarrow> allowed p \<Longrightarrow> fresh k (lp_algorithm p) s \<Longrightarrow> arm_policy m k p s = (r, s') \<Longrightarrow>
      kept fine idle (if r = Inr () then {k} else {}) s s'"
    and clear_law: "fine s \<Longrightarrow> clear_state m k a s = (r, s') \<Longrightarrow> kept fine idle {} s s'"
    and policer_law: "fine s \<Longrightarrow> clear_policer m k s = (r, s') \<Longrightarrow> kept fine idle {} s s'"
    and wl_insert_law: "fine s \<Longrightarrow> wl_insert w c s = (r, s') \<Longrightarrow> kept fine idle {} s s'"
    and wl_remove_law: "fine s \<Longrightarrow> wl_remove w c s = (r, s') \<Longrightarrow> kept fine idle {} s s'"
begin

text \<open>What the journal knows: which flows are idle, and that the policies to restore are allowed.\<close>

definition install_tracked :: "'s \<Rightarrow> install_record \<Rightarrow> bool" where
  "install_tracked s rec \<longleftrightarrow> (\<forall>old. ins_old rec = Some old \<longrightarrow> allowed old)
     \<and> (ins_old_disarmed rec \<and> \<not> ins_armed rec \<longrightarrow> idle (ins_key rec) s)"

definition remove_tracked :: "'s \<Rightarrow> remove_record \<Rightarrow> bool" where
  "remove_tracked s rec \<longleftrightarrow> allowed (rem_old rec) \<and> (rem_disarmed rec \<longrightarrow> idle (rem_key rec) s)"

definition journal_keys :: "tx_journal \<Rightarrow> limit_key list" where
  "journal_keys j = map ins_key (tj_installs j) @ map rem_key (tj_removes j)"

definition tracked :: "tx_journal \<Rightarrow> 's \<Rightarrow> bool" where
  "tracked j s \<longleftrightarrow> fine s \<and> distinct (journal_keys j)
     \<and> list_all (install_tracked s) (tj_installs j) \<and> list_all (remove_tracked s) (tj_removes j)"

definition tx_fine :: "limit_key set \<Rightarrow> 's tx \<Rightarrow> bool" where
  "tx_fine K t \<longleftrightarrow> tracked (fst t) (snd t) \<and> set (journal_keys (fst t)) \<subseteq> K"

lemma tracked_kept:
  assumes "tracked j s" "kept fine idle K s s'" "K \<inter> set (journal_keys j) = {}"
  shows "tracked j s'"
proof -
  have "install_tracked s' rec" if "rec \<in> set (tj_installs j)" for rec
  proof -
    have "ins_key rec \<in> set (journal_keys j)" "install_tracked s rec"
      using that assms(1) by (auto simp: journal_keys_def tracked_def list_all_iff)
    then show ?thesis using assms(2,3) by (auto simp: install_tracked_def kept_def)
  qed
  moreover have "remove_tracked s' rec" if "rec \<in> set (tj_removes j)" for rec
  proof -
    have "rem_key rec \<in> set (journal_keys j)" "remove_tracked s rec"
      using that assms(1) by (auto simp: journal_keys_def tracked_def list_all_iff)
    then show ?thesis using assms(2,3) by (auto simp: remove_tracked_def kept_def)
  qed
  ultimately show ?thesis using assms(1,2) by (simp add: tracked_def list_all_iff kept_def)
qed

lemma tracked_fine: "tracked j s \<Longrightarrow> fine s"
  by (simp add: tracked_def)

lemma kept_idle: "kept fine idle {} s s' \<Longrightarrow> idle k s \<Longrightarrow> idle k s'"
  by (simp add: kept_def)

lemma kept_empty: "kept fine idle {} s s' \<Longrightarrow> tracked j s \<Longrightarrow> tracked j s'"
  using tracked_kept by blast

lemma kept_trans: "kept fine idle K s s' \<Longrightarrow> kept fine idle L s' s'' \<Longrightarrow> kept fine idle (K \<union> L) s s''"
  by (simp add: kept_def)

lemma tracked_install:
  "tracked (j\<lparr>tj_installs := tj_installs j @ [rec]\<rparr>) s \<longleftrightarrow>
     tracked j s \<and> ins_key rec \<notin> set (journal_keys j) \<and> install_tracked s rec"
  "tracked (j\<lparr>tj_removes := tj_removes j @ [rec']\<rparr>) s \<longleftrightarrow>
     tracked j s \<and> rem_key rec' \<notin> set (journal_keys j) \<and> remove_tracked s rec'"
  by (auto simp: tracked_def journal_keys_def)

lemma journal_keys_install [simp]:
  "set (journal_keys (j\<lparr>tj_installs := tj_installs j @ [rec]\<rparr>)) = insert (ins_key rec) (set (journal_keys j))"
  "set (journal_keys (j\<lparr>tj_removes := tj_removes j @ [rec']\<rparr>)) = insert (rem_key rec') (set (journal_keys j))"
  "journal_keys (j\<lparr>tj_wl_added := cs\<rparr>) = journal_keys j" "journal_keys (j\<lparr>tj_wl_removed := cs\<rparr>) = journal_keys j"
  by (auto simp: journal_keys_def)

subsection \<open>Installing and removing\<close>

text \<open>What an operation on the flow \<open>k\<close> leaves, whatever failed.\<close>

definition ended :: "limit_key set \<Rightarrow> tx_journal \<Rightarrow> 's tx \<Rightarrow> bool" where
  "ended K j t \<longleftrightarrow> tracked (fst t) (snd t) \<and> set (journal_keys (fst t)) \<subseteq> K \<union> set (journal_keys j)"

lemma ended_install:
  "tracked j s \<Longrightarrow> k \<notin> set (journal_keys j) \<Longrightarrow> install_tracked s rec \<Longrightarrow> ins_key rec = k \<Longrightarrow>
     ended {k} j (j\<lparr>tj_installs := tj_installs j @ [rec]\<rparr>, s)"
  "tracked j s \<Longrightarrow> k \<notin> set (journal_keys j) \<Longrightarrow> remove_tracked s rec' \<Longrightarrow> rem_key rec' = k \<Longrightarrow>
     ended {k} j (j\<lparr>tj_removes := tj_removes j @ [rec']\<rparr>, s)"
  by (auto simp: ended_def tracked_install)

lemma ended_refl: "tracked j s \<Longrightarrow> ended K j (j, s)"
  by (simp add: ended_def)

lemma arm_tracked:
  assumes "tracked j s" "k \<notin> set (journal_keys j)" "idle k s" "allowed p" "ins_key rec = k" "\<not> ins_armed rec"
    and "\<forall>old. ins_old rec = Some old \<longrightarrow> allowed old"
  shows "wp (and_then (on_maps (write_fresh_state m k (lp_algorithm p))) (\<lambda>_.
     and_then (last_install (\<lambda>rec. rec\<lparr>ins_new_algorithm := Some (lp_algorithm p)\<rparr>)) (\<lambda>_.
     and_then (on_maps (arm_policy m k p)) (\<lambda>_.
     last_install (\<lambda>rec. rec\<lparr>ins_armed := True\<rparr>))))) (\<lambda>_. ended {k} j)
     (j\<lparr>tj_installs := tj_installs j @ [rec]\<rparr>, s)"
proof -
  obtain r1 s1 where 1: "write_fresh_state m k (lp_algorithm p) s = (r1, s1)" by force
  note f = fresh_law [OF tracked_fine [OF assms(1)] 1]
  have t1: "tracked j s1" "idle k s1" "r1 = Inr () \<Longrightarrow> fresh k (lp_algorithm p) s1"
    using f assms(1,3) kept_empty kept_idle by blast+
  obtain r2 s2 where 2: "arm_policy m k p s1 = (r2, s2)" by force
  have t2: "tracked j s2" "r2 \<noteq> Inr () \<longrightarrow> idle k s2" if "r1 = Inr ()"
    using arm_law [OF tracked_fine [OF t1(1)] assms(4) t1(3) [OF that] 2] t1(1,2) assms(2)
      tracked_kept [OF t1(1), of "if r2 = Inr () then {k} else {}" s2] kept_idle
    by (auto split: if_splits)
  show ?thesis
    using 1 2 t1 t2 assms
    by (cases r1; cases r2) (auto simp: wp_def [of "write_fresh_state m k _"] wp_def [of "arm_policy m k _"]
        install_tracked_def intro!: ended_install)
qed

lemma install_tracks:
  assumes "tracked j s" "k \<notin> set (journal_keys j)" "allowed p"
  shows "wp (install_limit m k p) (\<lambda>_. ended {k} j) (j, s)"
proof -
  let ?tail = "and_then (on_maps (write_fresh_state m k (lp_algorithm p))) (\<lambda>_.
     and_then (last_install (\<lambda>rec. rec\<lparr>ins_new_algorithm := Some (lp_algorithm p)\<rparr>)) (\<lambda>_.
     and_then (on_maps (arm_policy m k p)) (\<lambda>_.
     last_install (\<lambda>rec. rec\<lparr>ins_armed := True\<rparr>))))"
  let ?rec = "\<lambda>old. \<lparr>ins_key = k, ins_old = old, ins_old_disarmed = False, ins_new_algorithm = None,
    ins_armed = False\<rparr>"
  let ?j = "\<lambda>rec. j\<lparr>tj_installs := tj_installs j @ [rec]\<rparr>"
  obtain r1 s1 where 1: "get_policy m k s = (r1, s1)" by force
  note g = get_law [OF tracked_fine [OF assms(1)] 1]
  have t1: "tracked j s1" using g assms(1) kept_empty by blast
  show ?thesis
  proof (cases r1)
    case (Inl e)
    with 1 t1 show ?thesis by (simp add: install_limit_def wp_def [of "get_policy m k"] ended_refl)
  next
    case (Inr old)
    show ?thesis
    proof (cases old)
      case None
      with g Inr have "wp ?tail (\<lambda>_. ended {k} j) (?j (?rec None), s1)"
        by (intro arm_tracked [OF t1 assms(2) _ assms(3)]) auto
      with None Inr 1 show ?thesis
        by (simp only: install_limit_def wp_simps wp_def [of "get_policy m k"] wp_steps option.case sum.case prod.case fst_conv snd_conv)
    next
      case (Some q)
      have q: "allowed q" using g Inr Some by simp
      obtain r2 s2 where 2: "disarm_policy m k s1 = (r2, s2)" by force
      note d = disarm_law [OF tracked_fine [OF t1] 2]
      have t2: "tracked j s2" using d t1 kept_empty by blast
      let ?rec' = "(?rec (Some q))\<lparr>ins_old_disarmed := True\<rparr>"
      have tail: "wp ?tail (\<lambda>_. ended {k} j) (?j ?rec', s')" if "tracked j s'" "idle k s'" for s'
        by (rule arm_tracked [OF that(1) assms(2) that(2) assms(3)]) (simp_all add: q)
      obtain r3 s3 where 3: "clear_state m k (lp_algorithm q) s2 = (r3, s3)" by force
      note c = clear_law [OF tracked_fine [OF t2] 3]
      have t3: "tracked j s3" "idle k s2 \<Longrightarrow> idle k s3" using c t2 kept_empty kept_idle by blast+
      have fail: "ended {k} j (?j ?rec', s')" if "tracked j s'" "idle k s'" for s'
        by (rule ended_install [OF that(1) assms(2)]) (simp_all add: install_tracked_def q that)
      have fail2: "ended {k} j (?j (?rec (Some q)), s2)"
        by (rule ended_install [OF t2 assms(2)]) (simp_all add: install_tracked_def q)
      show ?thesis
      proof (cases r2)
        case (Inl e)
        with Some Inr 1 2 fail2 show ?thesis
          by (simp add: install_limit_def wp_def [of "get_policy m k"] wp_def [of "disarm_policy m k"])
      next
        case ok: (Inr u)
        then have idle: "idle k s2" using d by simp
        show ?thesis
        proof (cases "lp_algorithm q = lp_algorithm p")
          case True
          with Some Inr ok 1 2 tail [OF t2 idle] show ?thesis
            by (simp add: install_limit_def wp_def [of "get_policy m k"] wp_def [of "disarm_policy m k"]
                cong: sum.case_cong)
        next
          case False
          with Some Inr ok 1 2 3 tail [OF t3(1) t3(2) [OF idle]] fail [OF t3(1) t3(2) [OF idle]] show ?thesis
            by (cases r3) (simp_all add: install_limit_def wp_def [of "get_policy m k"] wp_def [of "disarm_policy m k"]
                wp_def [of "clear_state m k _"] cong: sum.case_cong)
        qed
      qed
    qed
  qed
qed

lemma remove_tracks:
  assumes "tracked j s" "k \<notin> set (journal_keys j)"
  shows "wp (remove_limit m k) (\<lambda>_. ended {k} j) (j, s)"
proof -
  let ?rec = "\<lambda>q d. \<lparr>rem_key = k, rem_old = q, rem_disarmed = d\<rparr>"
  obtain r1 s1 where 1: "get_policy m k s = (r1, s1)" by force
  note g = get_law [OF tracked_fine [OF assms(1)] 1]
  have t1: "tracked j s1" using g assms(1) kept_empty by blast
  consider (fails) e where "r1 = Inl e" | (none) "r1 = Inr None" | (some) q where "r1 = Inr (Some q)"
    by (cases r1) (auto intro: option.exhaust)
  then show ?thesis
  proof cases
    case (some q)
    have q: "allowed q" using g some by simp
    obtain r2 s2 where 2: "disarm_policy m k s1 = (r2, s2)" by force
    note d = disarm_law [OF tracked_fine [OF t1] 2]
    have t2: "tracked j s2" using d t1 kept_empty by blast
    obtain r3 s3 where 3: "clear_state m k (lp_algorithm q) s2 = (r3, s3)" by force
    have t3: "tracked j s3" "idle k s2 \<Longrightarrow> idle k s3"
      using clear_law [OF tracked_fine [OF t2] 3] t2 kept_empty kept_idle by blast+
    obtain r4 s4 where 4: "clear_policer m k s3 = (r4, s4)" by force
    have t4: "tracked j s4" "idle k s3 \<Longrightarrow> idle k s4"
      using policer_law [OF tracked_fine [OF t3(1)] 4] t3(1) kept_empty kept_idle by blast+
    have end_: "ended {k} j (j\<lparr>tj_removes := tj_removes j @ [?rec q b]\<rparr>, s')" if "tracked j s'" "b \<longrightarrow> idle k s'" for s' b
      by (rule ended_install [OF that(1) assms(2)]) (simp_all add: remove_tracked_def q that)
    show ?thesis
      using some 1 2 3 4 d t3 t4 end_ [OF t2, of False] end_ [OF t3(1), of True] end_ [OF t4(1), of True]
      by (cases r2; cases r3) (simp_all add: remove_limit_def wp_def [of "get_policy m k"] wp_def [of "disarm_policy m k"]
          wp_def [of "clear_state m k _"] wp_def [of "clear_policer m k"])
  qed (use 1 t1 in \<open>simp_all add: remove_limit_def wp_def [of "get_policy m k"] ended_refl\<close>)
qed

subsection \<open>Sequences\<close>

definition target_allowed :: "limit_action \<Rightarrow> bool" where
  "target_allowed a \<longleftrightarrow> (\<forall>p. action_target a = Some p \<longrightarrow> allowed p)"

lemma run_action_tracks:
  assumes "tracked j s" "action_key a \<notin> set (journal_keys j)" "target_allowed a"
  shows "wp (run_action m a) (\<lambda>_. ended {action_key a} j) (j, s)"
proof (cases a)
  case (Install ip d rate burst algorithm window_ns)
  then have k: "action_key a = limit_key_new ip d" "action_target a = Some \<lparr>lp_enabled = 1, lp_algorithm = algorithm,
      lp_rate_bps = rate, lp_burst_bytes = burst, lp_window_ns = window_ns\<rparr>"
    by (simp_all add: action_key_def action_target_def apply_action_def la_flow_def)
  show ?thesis
    unfolding k unfolding Install run_action.simps
    by (rule wp_context_mono [OF install_tracks]) (use assms k in \<open>simp_all add: target_allowed_def\<close>)
next
  case (Remove ip d)
  then have k: "action_key a = limit_key_new ip d" by (simp add: action_key_def la_flow_def)
  show ?thesis
    unfolding k unfolding Remove run_action.simps
    by (rule wp_context_mono [OF remove_tracks]) (use assms k in simp_all)
qed

lemma ended_then:
  assumes "wp f (\<lambda>_. ended K j) (j, s)"
    and "\<And>j' s'. ended K j (j', s') \<Longrightarrow> wp (g ()) (\<lambda>_. ended L j') (j', s')"
  shows "wp (and_then f g) (\<lambda>_. ended (K \<union> L) j) (j, s)"
proof -
  have "case r of Inl e \<Rightarrow> ended (K \<union> L) j t | Inr a \<Rightarrow> wp (g a) (\<lambda>_. ended (K \<union> L) j) t"
    if "ended K j t" for r :: "error + unit" and t
  proof (cases r)
    case (Inl e)
    with that show ?thesis by (auto simp: ended_def)
  next
    case (Inr u)
    have "wp (g ()) (\<lambda>_. ended L (fst t)) t" using assms(2) [of "fst t" "snd t"] that by simp
    then have "wp (g ()) (\<lambda>_. ended (K \<union> L) j) t"
      by (rule wp_mono) (use that in \<open>auto simp: ended_def\<close>)
    with Inr show ?thesis by simp
  qed
  then show ?thesis by (simp add: wp_mono [OF assms(1)])
qed

lemma disjoint_grow: "J' \<subseteq> insert k J \<Longrightarrow> k \<notin> A \<Longrightarrow> A \<inter> J = {} \<Longrightarrow> A \<inter> J' = {}"
  by blast

lemma run_all_tracks:
  assumes "tracked j s" "distinct (map action_key as)" "action_key ` set as \<inter> set (journal_keys j) = {}"
    and "\<forall>a \<in> set as. target_allowed a"
  shows "wp (run_all m as) (\<lambda>_. ended (action_key ` set as) j) (j, s)"
  using assms
proof (induction as arbitrary: j s)
  case (Cons a as)
  have "wp (run_action m a) (\<lambda>_. ended {action_key a} j) (j, s)"
    using Cons.prems by (intro run_action_tracks) auto
  moreover have "wp (run_all m as) (\<lambda>_. ended (action_key ` set as) j') (j', s')" if "ended {action_key a} j (j', s')" for j' s'
  proof (rule Cons.IH)
    have "set (journal_keys j') \<subseteq> insert (action_key a) (set (journal_keys j))" "action_key a \<notin> action_key ` set as"
      "action_key ` set as \<inter> set (journal_keys j) = {}"
      using that Cons.prems(2,3) by (simp_all add: ended_def)
    then show "action_key ` set as \<inter> set (journal_keys j') = {}" by (rule disjoint_grow)
    show "tracked j' s'" using that by (simp add: ended_def)
  qed (use Cons.prems(2,4) in simp_all)
  ultimately have "wp (and_then (run_action m a) (\<lambda>_. run_all m as)) (\<lambda>_. ended ({action_key a} \<union> action_key ` set as) j) (j, s)"
    by (rule ended_then)
  then show ?case by simp
qed (simp add: ended_refl)

lemma actions_tracked:
  assumes "tracked j s" "distinct (map la_flow as)" "journal_keys j = []" "\<forall>a \<in> set as. target_allowed a"
  shows "wp (run_limit_actions m as) (\<lambda>_ t. tracked (fst t) (snd t)) (j, s)"
proof -
  have "wp (run_all m (removes_first as)) (\<lambda>_. ended (action_key ` set (removes_first as)) j) (j, s)"
    using assms by (intro run_all_tracks) (simp_all add: distinct_keys)
  then show ?thesis
    unfolding run_limit_actions_all by (rule wp_mono) (simp add: ended_def)
qed

lemma prefix_tracks:
  assumes "tracked j s"
  shows "wp (apply_whitelist_additions w cs) (\<lambda>_. ended {} j) (j, s)"
    and "wp (apply_whitelist_removals w cs) (\<lambda>_. ended {} j) (j, s)"
proof -
  have same: "tracked (j\<lparr>tj_wl_added := ds\<rparr>) s \<longleftrightarrow> tracked j s" "tracked (j\<lparr>tj_wl_removed := ds\<rparr>) s \<longleftrightarrow> tracked j s"
    for j ds s by (simp_all add: tracked_def)
  show "wp (apply_whitelist_additions w cs) (\<lambda>_. ended {} j) (j, s)"
    using assms
  proof (induction cs arbitrary: j s)
    case (Cons c cs)
    obtain r1 s1 where 1: "wl_insert w c s = (r1, s1)" by force
    have t1: "tracked j s1" using wl_insert_law [OF tracked_fine [OF Cons.prems] 1] Cons.prems kept_empty by blast
    let ?j = "j\<lparr>tj_wl_added := tj_wl_added j @ [c]\<rparr>"
    have "ended {} ?j = ended {} j" by (simp add: ended_def fun_eq_iff)
    moreover have "wp (apply_whitelist_additions w cs) (\<lambda>_. ended {} ?j) (?j, s1)"
      by (rule Cons.IH) (simp add: same t1)
    ultimately show ?case
      using t1 1 by (cases r1) (simp_all add: wp_def [of "wl_insert w c"] ended_refl)
  qed (simp add: ended_refl)
  show "wp (apply_whitelist_removals w cs) (\<lambda>_. ended {} j) (j, s)"
    using assms
  proof (induction cs arbitrary: j s)
    case (Cons c cs)
    obtain r1 s1 where 1: "wl_remove w c s = (r1, s1)" by force
    have t1: "tracked j s1" using wl_remove_law [OF tracked_fine [OF Cons.prems] 1] Cons.prems kept_empty by blast
    let ?j = "j\<lparr>tj_wl_removed := tj_wl_removed j @ [c]\<rparr>"
    have "ended {} ?j = ended {} j" by (simp add: ended_def fun_eq_iff)
    moreover have "wp (apply_whitelist_removals w cs) (\<lambda>_. ended {} ?j) (?j, s1)"
      by (rule Cons.IH) (simp add: same t1)
    ultimately show ?case
      using t1 1 by (cases r1) (simp_all add: wp_def [of "wl_remove w c"] ended_refl)
  qed (simp add: ended_refl)
qed

subsection \<open>Rolling back\<close>

lemma restore_kept:
  assumes "fine s" "idle k s" "allowed old" "restore_policy m k old what (report, s) = (ok, report', s')"
  shows "kept fine idle {k} s s'"
proof -
  obtain r1 s1 where 1: "write_fresh_state m k (lp_algorithm old) s = (r1, s1)" by force
  note f = fresh_law [OF assms(1) 1]
  show ?thesis
  proof (cases r1)
    case (Inl e)
    with assms(4) 1 f show ?thesis by (auto simp: restore_policy_def kept_def)
  next
    case (Inr u)
    obtain r2 s2 where 2: "arm_policy m k old s1 = (r2, s2)" by force
    have "fine s1" "fresh k (lp_algorithm old) s1" using f assms(2) Inr by (simp_all add: kept_def)
    note a = arm_law [OF this(1) assms(3) this(2) 2]
    have "s' = s2" using assms(4) 1 2 Inr by (auto simp: restore_policy_def split: sum.splits)
    with a f show ?thesis by (auto simp: kept_def split: if_splits)
  qed
qed

lemma rollback_install_kept:
  assumes "fine s" "install_tracked s rec"
  shows "kept fine idle {ins_key rec} s (snd (rollback_install m rec (report, s)))"
proof -
  let ?k = "ins_key rec"
  obtain r1 s1 where 1: "(if ins_armed rec then disarm_policy m ?k s else (Inr (), s)) = (r1, s1)" by force
  have k1: "kept fine idle {} s s1" "r1 = Inr () \<Longrightarrow> ins_old_disarmed rec \<Longrightarrow> idle ?k s1"
    using 1 disarm_law [OF assms(1), of ?k] assms by (auto simp: kept_def install_tracked_def split: if_splits)
  obtain r2 s2 where 2: "(case ins_new_algorithm rec of None \<Rightarrow> (Inr (), s1) | Some algo \<Rightarrow> clear_state m ?k algo s1) = (r2, s2)"
    by force
  have "kept fine idle {} s1 s2"
    using 2 clear_law [of s1 ?k] k1(1) by (auto simp: kept_def split: option.splits)
  then have k2: "kept fine idle {} s s2" "fine s2" "r1 = Inr () \<Longrightarrow> ins_old_disarmed rec \<Longrightarrow> idle ?k s2"
    using k1 by (auto simp: kept_def)
  have "kept fine idle {?k} s s'" if "restore_policy m ?k old what (rep, s2) = (ok, rep', s')" "r1 = Inr ()"
    "ins_old_disarmed rec" "ins_old rec = Some old" for old what rep ok rep' s'
  proof -
    have "allowed old" using assms(2) that(4) by (simp add: install_tracked_def)
    from restore_kept [OF k2(2) k2(3) [OF that(2,3)] this that(1)] k2(1) show ?thesis by (auto simp: kept_def)
  qed
  moreover have "kept fine idle {?k} s s1" "kept fine idle {?k} s s2" using k1 k2 by (auto simp: kept_def)
  ultimately show ?thesis
    unfolding rollback_install_def Let_def fst_conv snd_conv 1 prod.case
    by (cases r1) (auto simp: 2 split: prod.splits option.splits sum.splits)
qed

lemma rollback_remove_kept:
  assumes "fine s" "remove_tracked s rec"
  shows "kept fine idle {rem_key rec} s (snd (rollback_remove m rec (report, s)))"
  using assms restore_kept [of s "rem_key rec" "rem_old rec" "''re-arm removed policy''" "attempt report"]
  by (auto simp: rollback_remove_def remove_tracked_def Let_def kept_def split: prod.splits)

lemma kept_fold:
  assumes "\<And>x report s. fine s \<Longrightarrow> T s x \<Longrightarrow> kept fine idle {key x} s (snd (f x (report, s)))"
    and "\<And>x K s s'. T s x \<Longrightarrow> kept fine idle K s s' \<Longrightarrow> key x \<notin> K \<Longrightarrow> T s' x"
  shows "distinct (map key xs) \<Longrightarrow> fine s \<Longrightarrow> \<forall>x \<in> set xs. T s x \<Longrightarrow>
    kept fine idle (key ` set xs) s (snd (fold f xs (report, s)))"
proof (induction xs arbitrary: report s)
  case (Cons x xs)
  obtain report1 s1 where 1: "f x (report, s) = (report1, s1)" by force
  have k1: "kept fine idle {key x} s s1" using assms(1) [of s x report] Cons.prems 1 by simp
  have "key y \<noteq> key x" if "y \<in> set xs" for y
    using that Cons.prems(1) imageI [of y "set xs" key] by (metis distinct.simps(2) list.simps(9) set_map)
  then have "\<forall>y \<in> set xs. T s1 y" using assms(2) [OF _ k1] Cons.prems(3) by simp
  with Cons.IH [of s1 report1] Cons.prems k1 have "kept fine idle (key ` set xs) s1 (snd (fold f xs (report1, s1)))"
    by (simp add: kept_def)
  with kept_trans [OF k1 this] show ?case by (simp add: 1)
qed (simp add: kept_def)

lemma install_tracked_kept: "install_tracked s rec \<Longrightarrow> kept fine idle K s s' \<Longrightarrow> ins_key rec \<notin> K \<Longrightarrow> install_tracked s' rec"
  by (auto simp: install_tracked_def kept_def)

lemma remove_tracked_kept: "remove_tracked s rec \<Longrightarrow> kept fine idle K s s' \<Longrightarrow> rem_key rec \<notin> K \<Longrightarrow> remove_tracked s' rec"
  by (auto simp: remove_tracked_def kept_def)

lemma installs_kept:
  "distinct (map ins_key recs) \<Longrightarrow> fine s \<Longrightarrow> \<forall>rec \<in> set recs. install_tracked s rec \<Longrightarrow>
   kept fine idle (ins_key ` set recs) s (snd (fold (rollback_install m) recs (report, s)))"
  by (rule kept_fold [where T = install_tracked]) (auto intro: rollback_install_kept install_tracked_kept)

lemma removes_kept:
  "distinct (map rem_key recs) \<Longrightarrow> fine s \<Longrightarrow> \<forall>rec \<in> set recs. remove_tracked s rec \<Longrightarrow>
   kept fine idle (rem_key ` set recs) s (snd (fold (rollback_remove m) recs (report, s)))"
  by (rule kept_fold [where T = remove_tracked]) (auto intro: rollback_remove_kept remove_tracked_kept)

lemma prefixes_kept:
  assumes "\<And>c s r s'. fine s \<Longrightarrow> f c s = (r, s') \<Longrightarrow> kept fine idle {} s s'"
  shows "fine s \<Longrightarrow> fine (snd (fold (rollback_prefix f what) cs (report, s)))"
proof (induction cs arbitrary: report s)
  case (Cons c cs)
  obtain r s1 where 1: "f c s = (r, s1)" by force
  have "fine s1" using assms [OF Cons.prems 1] by (simp add: kept_def)
  moreover obtain report1 where "rollback_prefix f what c (report, s) = (report1, s1)"
    by (cases r) (simp_all add: rollback_prefix_def Let_def 1)
  ultimately show ?case using Cons.IH by simp
qed simp

lemma rollback_fine:
  assumes "tracked j s" "rollback_journal m w j s = (report, s')"
  shows "fine s'"
proof -
  have t: "fine s" "distinct (map ins_key (tj_installs j))" "distinct (map rem_key (tj_removes j))"
    "ins_key ` set (tj_installs j) \<inter> rem_key ` set (tj_removes j) = {}"
    "\<forall>rec \<in> set (tj_installs j). install_tracked s rec" "\<forall>rec \<in> set (tj_removes j). remove_tracked s rec"
    using assms(1) by (auto simp: tracked_def journal_keys_def list_all_iff)
  let ?rs1 = "fold (rollback_install m) (rev (tj_installs j)) (rollback_report_default, s)"
  have k1: "kept fine idle (ins_key ` set (tj_installs j)) s (snd ?rs1)"
    using installs_kept [of "rev (tj_installs j)" s rollback_report_default] t(1,2,5) by (simp add: rev_map [symmetric])
  have "\<forall>rec \<in> set (tj_removes j). remove_tracked (snd ?rs1) rec"
    using remove_tracked_kept [OF _ k1] t(4,6) by blast
  then have k2: "fine (snd (fold (rollback_remove m) (rev (tj_removes j)) ?rs1))"
    using removes_kept [of "rev (tj_removes j)" "snd ?rs1" "fst ?rs1"] t(3) k1 by (simp add: rev_map [symmetric] kept_def)
  let ?rs2 = "fold (rollback_remove m) (rev (tj_removes j)) ?rs1"
  let ?rs3 = "fold (rollback_prefix (wl_insert w) ''re-add whitelist prefix'') (rev (tj_wl_removed j)) ?rs2"
  have k3: "fine (snd ?rs3)"
    using prefixes_kept [where f = "wl_insert w" and report = "fst ?rs2", OF wl_insert_law k2] by simp
  have "fine (snd (fold (rollback_prefix (wl_remove w) ''remove whitelist prefix'') (rev (tj_wl_added j)) ?rs3))"
    using prefixes_kept [where f = "wl_remove w" and report = "fst ?rs3", OF wl_remove_law k3] by simp
  then show ?thesis using assms(2) by (simp add: rollback_journal_def Let_def split: prod.splits)
qed

subsection \<open>Ticks and reloads\<close>

lemma tracked_start: "fine s \<Longrightarrow> tracked tx_journal_default s \<and> journal_keys tx_journal_default = []"
  by (simp add: tracked_def journal_keys_def tx_journal_default_def)

lemma tick_action_fine:
  assumes "fine s" "target_allowed a" "apply_tick_action m w a (fs, l, s) = (fs', l', s')"
  shows "fine s'"
proof -
  obtain r j s1 where 1: "run_limit_actions m [a] (tx_journal_default, s) = (r, (j, s1))" by (metis prod_cases3)
  have "tracked j s1"
    using actions_tracked [of tx_journal_default s "[a]"] tracked_start [OF assms(1)] assms(2) 1 by (simp add: wp_def)
  then show ?thesis
    using assms(3) 1 rollback_fine tracked_fine
    by (auto simp: apply_tick_action_def split: sum.splits prod.splits)
qed

lemma tick_actions_fine:
  assumes "fine s" "\<forall>a \<in> set as. target_allowed a" "fold (apply_tick_action m w) as (fs, l, s) = (fs', l', s')"
  shows "fine s'"
  using assms
proof (induction as arbitrary: fs l s)
  case (Cons a as)
  obtain fs1 l1 s1 where 1: "apply_tick_action m w a (fs, l, s) = (fs1, l1, s1)" by (metis prod_cases3)
  have "fine s1" using tick_action_fine [OF Cons.prems(1) _ 1] Cons.prems(2) by simp
  with Cons.IH [of s1 fs1 l1] Cons.prems(2,3) 1 show ?case by simp
qed simp

lemma commit_fine:
  assumes "fine s" "distinct (map la_flow (rp_actions plan))" "\<forall>a \<in> set (rp_actions plan). target_allowed a"
    and "apply_and_commit order m w old plan cfg (c, s) = (r, (c', s'))"
  shows "fine s'"
proof -
  obtain r1 j s1 where 1: "apply_reload_steps order m w (rp_actions plan) old (prefix_set cfg) (tx_journal_default, s)
      = (r1, (j, s1))" by (metis prod_cases3)
  let ?rm = "with_context ''dropping removed whitelist prefixes''
    (apply_whitelist_removals w (order (old - prefix_set cfg)))"
  have rm: "wp ?rm (\<lambda>_ t'. tracked (fst t') (snd t')) t" if "tracked (fst t) (snd t)" for t
    using wp_context_mono [where f = "apply_whitelist_removals w (order (old - prefix_set cfg))" and s = t,
        OF prefix_tracks(2) [OF that, unfolded prod.collapse]] by (simp add: ended_def)
  have acts: "wp (and_then (run_limit_actions m (rp_actions plan)) (\<lambda>_. ?rm)) (\<lambda>_ t'. tracked (fst t') (snd t')) t"
    if "tracked (fst t) (snd t)" "journal_keys (fst t) = []" for t
    unfolding wp_simps
    by (rule wp_mono [OF actions_tracked [OF that(1) assms(2) that(2) assms(3), unfolded prod.collapse]])
      (simp add: rm split: sum.split)
  have "wp (apply_reload_steps order m w (rp_actions plan) old (prefix_set cfg)) (\<lambda>_ t'. tracked (fst t') (snd t'))
      (tx_journal_default, s)"
    unfolding apply_reload_steps_def wp_simps(1) [of "with_context _ _"]
    by (rule wp_context_mono [OF prefix_tracks(1)])
      (use tracked_start [OF assms(1)] acts in \<open>simp_all add: ended_def del: wp_simps\<close>)
  then have "tracked j s1" by (simp add: wp_def 1)
  then show ?thesis
    using assms(4) 1 rollback_fine tracked_fine by (auto simp: apply_and_commit_def split: sum.splits prod.splits)
qed

end

end
