(* ===== verification/Enforcement.thy ===== *)
theory Enforcement
  imports Engine_Safety Arming
begin

section \<open>Enforcement: the ceilings hold on a running daemon\<close>

text \<open>
  The state that a policy meets in the maps is always one its algorithm can rely on: fresh when the
  policy is armed, and from then on only changed by its own policer. The contract \<open>guarded_maps\<close>
  holds of the engine's maps (the interpretation below), every policy the limiter installs comes
  from an accepted document, and so at every moment of a run of the daemon the rate bounds of the
  policers hold on the wire, degraded or not.
\<close>

subsection \<open>Policies and their state\<close>

text \<open>The policies an accepted document can put into the maps.\<close>

definition enforceable :: "limit_policy \<Rightarrow> bool" where
  "enforceable p \<longleftrightarrow> (\<exists>swl np. p = installed_policy np \<and> dir_ok swl np)"

definition policer_wf :: "limit_policy \<Rightarrow> limit_state \<Rightarrow> bool" where
  "policer_wf p st \<longleftrightarrow>
     (lp_algorithm p \<in> {ALGO_TOKEN_BUCKET, ALGO_LEAKY_BUCKET} \<longrightarrow> bucket_wf p st)
     \<and> (lp_algorithm p = ALGO_GCRA \<longrightarrow> gcra_wf p st)
     \<and> (lp_algorithm p = ALGO_FIXED_WINDOW \<longrightarrow> fixed_window_wf p st)
     \<and> (lp_algorithm p = ALGO_SLIDING_WINDOW_COUNTER \<longrightarrow> swc_wf p st)"

text \<open>What the \<open>n\<close> frames of a flow that pass between two readings may carry.\<close>

definition within_ceiling :: "limit_policy \<Rightarrow> nat \<Rightarrow> nat \<Rightarrow> nat \<Rightarrow> nat \<Rightarrow> bool" where
  "within_ceiling p t0 t1 n bytes \<longleftrightarrow>
     (if lp_algorithm p \<in> {ALGO_TOKEN_BUCKET, ALGO_LEAKY_BUCKET}
      then 1000000000 * bytes \<le> capacity p + (t1 - t0) * byte_rate p + n * bucket_slack p
      else if lp_algorithm p = ALGO_GCRA
      then 8000000000 * bytes \<le> unat (lp_rate_bps p) * (t1 + gcra_tolerance p - t0 + n)
      else window_size p * bytes \<le> 2 * (window_size p * allowance p) + (t1 - t0) * allowance p)"

lemma enforceable_policy:
  assumes "enforceable p"
  shows "bounded_policy p" "armed p"
    "lp_algorithm p \<in> {ALGO_TOKEN_BUCKET, ALGO_LEAKY_BUCKET, ALGO_GCRA}
     \<or> lp_algorithm p \<in> {ALGO_FIXED_WINDOW, ALGO_SLIDING_WINDOW_COUNTER, ALGO_SLIDING_WINDOW_LOG} \<and> lp_window_ns p \<noteq> 0"
proof -
  obtain swl np where np: "p = installed_policy np" "dir_ok swl np" using assms by (auto simp: enforceable_def)
  then show b: "bounded_policy p" by (simp add: dir_ok_def)
  then show "armed p" by (auto simp: armed_def bounded_policy_def np(1) installed_policy_def)
  have "lp_window_ns p \<noteq> 0" if "0 < unat (dpo_limit_window_secs np)"
  proof -
    have "unat (lp_window_ns p) \<noteq> 0" using that by (simp add: np(1) installed_policy_def unat_ops min_def)
    then show ?thesis by auto
  qed
  then show "lp_algorithm p \<in> {ALGO_TOKEN_BUCKET, ALGO_LEAKY_BUCKET, ALGO_GCRA}
     \<or> lp_algorithm p \<in> {ALGO_FIXED_WINDOW, ALGO_SLIDING_WINDOW_COUNTER, ALGO_SLIDING_WINDOW_LOG} \<and> lp_window_ns p \<noteq> 0"
    using np(2) by (auto simp: dir_ok_def is_bucket_algo_def is_window_algo_def np(1) installed_policy_def)
qed

lemma policer_wf_fresh: "enforceable p \<Longrightarrow> policer_wf p limit_state_default"
  using enforceable_policy [of p]
  by (auto simp: policer_wf_def bucket_wf_def gcra_wf_def fixed_window_wf_def swc_wf_def limit_state_default_def algo_defs)

lemma policer_wf_step:
  assumes "enforceable p" "lp_algorithm p \<noteq> ALGO_SLIDING_WINDOW_LOG" "policer_wf p st" "frame_ok now len"
  shows "policer_wf p (snd (run_policer p st now len))"
proof -
  have wf: "bucket_wf p st \<Longrightarrow> bucket_wf p (snd (token_bucket p st now len))"
    "bucket_wf p st \<Longrightarrow> bucket_wf p (snd (leaky_bucket p st now len))"
    "gcra_wf p st \<Longrightarrow> gcra_wf p (snd (gcra p st now len))"
    "fixed_window_wf p st \<Longrightarrow> fixed_window_wf p (snd (fixed_window p st now len))"
    "swc_wf p st \<Longrightarrow> swc_wf p (snd (sliding_window_counter p st now len))"
    using tb.wf_step lb.wf_step gc.wf_step fw.wf_step sc.wf_step assms(4) by blast+
  show ?thesis
    using enforceable_policy(3) [OF assms(1)] assms(2,3) wf
    by (auto simp: policer_wf_def run_policer_algorithms algo_defs)
qed

lemma enforceable_ceiling:
  assumes "enforceable p" "lp_algorithm p \<noteq> ALGO_SLIDING_WINDOW_LOG" "policer_wf p st" "frames_in t0 t1 fs"
  shows "within_ceiling p t0 t1 (length (admitted (run_policer p) fs st)) (admitted_bytes (run_policer p) fs st)"
proof -
  consider (tb) "lp_algorithm p = ALGO_TOKEN_BUCKET" | (lb) "lp_algorithm p = ALGO_LEAKY_BUCKET"
    | (gc) "lp_algorithm p = ALGO_GCRA" | (fw) "lp_algorithm p = ALGO_FIXED_WINDOW"
    | (sc) "lp_algorithm p = ALGO_SLIDING_WINDOW_COUNTER"
    using enforceable_policy(3) [OF assms(1)] assms(2) by auto
  then show ?thesis
  proof cases
    case tb
    then have "bucket_wf p st" using assms(3) by (simp add: policer_wf_def)
    from tb.rate_bound [OF this assms(4)] tb show ?thesis
      by (simp add: within_ceiling_def run_policer_algorithms scaled_admitted_bytes)
  next
    case lb
    then have "bucket_wf p st" using assms(3) by (simp add: policer_wf_def)
    from lb.rate_bound [OF this assms(4)] lb show ?thesis
      by (simp add: within_ceiling_def run_policer_algorithms scaled_admitted_bytes)
  next
    case gc
    then have "gcra_wf p st" using assms(3) by (simp add: policer_wf_def)
    from gcra_admitted_bound [OF this assms(4)] gc show ?thesis
      by (simp add: within_ceiling_def run_policer_algorithms algo_defs)
  next
    case fw
    then have "fixed_window_wf p st" using assms(3) by (simp add: policer_wf_def)
    from fw.rate_bound [OF this assms(4)] fw show ?thesis
      by (simp add: within_ceiling_def run_policer_algorithms scaled_admitted_bytes algo_defs)
  next
    case sc
    then have "swc_wf p st" using assms(3) by (simp add: policer_wf_def)
    from sc.rate_bound [OF this assms(4)] sc show ?thesis
      by (simp add: within_ceiling_def run_policer_algorithms scaled_admitted_bytes algo_defs)
  qed
qed

subsection \<open>Frames\<close>

definition maps_fine :: "dp_state \<Rightarrow> bool" where
  "maps_fine s \<longleftrightarrow> (\<forall>k p. dp_policies s k = Some p \<longrightarrow>
     enforceable p \<and> (\<forall>st. dp_limit_state s k = Some st \<longrightarrow> policer_wf p st))"

text \<open>The clock readings of the frames: \<open>bpf_ktime_get_ns\<close> is not zero and far from \<open>2^63\<close>.\<close>

definition clocks_ok :: "event list \<Rightarrow> bool" where
  "clocks_ok evs \<longleftrightarrow> list_all (\<lambda>(e, ctx, tx). 0 < unat (e_now e) \<and> unat (e_now e) \<le> 2 ^ 63) evs"

text \<open>A classifier leaves the state of a flow alone, or runs the flow's own policer on it.\<close>

lemma swl_police_state [simp]: "dp_limit_state (snd (swl_police e key p len s)) = dp_limit_state s"
  by (simp add: swl_police_def Let_def split: option.split prod.split)

lemma handle_state:
  "dp_limit_state (snd (handle lpm e ctx tx s)) k = dp_limit_state s k
   \<or> (\<exists>p st. dp_policies s k = Some p \<and> lp_algorithm p \<noteq> ALGO_SLIDING_WINDOW_LOG
        \<and> policeable (ucast (skb_len ctx)) \<and> dp_limit_state s k = Some st
        \<and> dp_limit_state (snd (handle lpm e ctx tx s)) k = Some (snd (run_policer p st (e_now e) (ucast (skb_len ctx)))))"
proof (cases "\<exists>ip. monitored_frame lpm ctx tx ip s")
  case False
  then show ?thesis by (simp add: handle_unmonitored_fields)
next
  case True
  then obtain ip where ip: "monitored_frame lpm ctx tx ip s" by blast
  let ?key = "limit_key_new ip (flow_direction tx)" and ?len = "ucast (skb_len ctx) :: u64"
  let ?s = "Datapath.count e ctx ip (skb_ifindex ctx) tx s"
  have h: "dp_limit_state (snd (handle lpm e ctx tx s)) k = dp_limit_state (snd (police e ip (flow_direction tx) ?len ?s)) k"
    by (simp add: handle_monitored [OF ip] Let_def)
  consider (other) "k \<noteq> ?key" | (off) "k = ?key" "\<And>p. dp_policies s ?key = Some p \<Longrightarrow> \<not> armed p"
    | (on) p where "k = ?key" "dp_policies s ?key = Some p" "armed p" by blast
  then show ?thesis
  proof cases
    case other
    then show ?thesis by (simp add: h police_other_flow)
  next
    case off
    then have "police e ip (flow_direction tx) ?len ?s = (False, ?s)" by (intro police_unarmed) simp
    then show ?thesis by (simp add: h)
  next
    case on
    then have p: "dp_policies ?s ?key = Some p" "armed p" by simp_all
    consider "\<not> policeable ?len" | "policeable ?len" "lp_algorithm p = ALGO_SLIDING_WINDOW_LOG"
      | (run) "policeable ?len" "lp_algorithm p \<noteq> ALGO_SLIDING_WINDOW_LOG" by blast
    then show ?thesis
    proof cases
      case run
      show ?thesis
        unfolding h unfolding on(1) using on(2) run by (simp add: police_state [OF p run] Let_def split: option.split)
    qed (simp_all add: h police_unpoliceable [OF p] police_log [OF p])
  qed
qed

lemma handle_fine:
  assumes "maps_fine s" "0 < unat (e_now e)" "unat (e_now e) \<le> 2 ^ 63"
  shows "maps_fine (snd (handle lpm e ctx tx s))"
  unfolding maps_fine_def handle_fields(2)
proof (intro allI impI conjI)
  fix k p
  assume p: "dp_policies s k = Some p"
  show ok: "enforceable p" using assms(1) p by (simp add: maps_fine_def)
  fix st
  assume st: "dp_limit_state (snd (handle lpm e ctx tx s)) k = Some st"
  have wf: "dp_limit_state s k = Some st' \<Longrightarrow> policer_wf p st'" for st' using assms(1) p by (simp add: maps_fine_def)
  from handle_state [of lpm e ctx tx s k] show "policer_wf p st"
  proof
    assume "dp_limit_state (snd (handle lpm e ctx tx s)) k = dp_limit_state s k"
    with st wf show ?thesis by simp
  next
    assume "\<exists>p st. dp_policies s k = Some p \<and> lp_algorithm p \<noteq> ALGO_SLIDING_WINDOW_LOG
        \<and> policeable (ucast (skb_len ctx)) \<and> dp_limit_state s k = Some st
        \<and> dp_limit_state (snd (handle lpm e ctx tx s)) k = Some (snd (run_policer p st (e_now e) (ucast (skb_len ctx))))"
    then obtain st0 where r: "lp_algorithm p \<noteq> ALGO_SLIDING_WINDOW_LOG" "policeable (ucast (skb_len ctx))"
      "dp_limit_state s k = Some st0" "st = snd (run_policer p st0 (e_now e) (ucast (skb_len ctx)))"
      using p st by auto
    have "frame_ok (e_now e) (ucast (skb_len ctx))" using assms(2,3) r(2) by (simp add: frame_ok_def policeable_def)
    from policer_wf_step [OF ok r(1) wf [OF r(3)] this] show ?thesis by (simp add: r(4))
  qed
qed

text \<open>What frames leave of the maps for the daemon.\<close>

definition framed :: "dp_state \<Rightarrow> dp_state \<Rightarrow> bool" where
  "framed s s' \<longleftrightarrow> dp_policies s' = dp_policies s
     \<and> (\<forall>k. dp_policies s k = None \<longrightarrow> dp_limit_state s' k = dp_limit_state s k)
     \<and> (maps_fine s \<longrightarrow> maps_fine s')"

lemma framed_handle_all:
  "clocks_ok evs \<Longrightarrow> framed s (snd (handle_all lpm evs s))"
proof (induction evs arbitrary: s)
  case (Cons ev evs)
  obtain e ctx tx where ev: "ev = (e, ctx, tx)" by (metis prod_cases3)
  let ?s = "snd (handle lpm e ctx tx s)"
  have "framed ?s (snd (handle_all lpm evs ?s))" using Cons by (simp add: clocks_ok_def)
  moreover have "maps_fine s \<longrightarrow> maps_fine ?s" using Cons.prems handle_fine by (simp add: clocks_ok_def ev)
  moreover have "dp_policies s k = None \<longrightarrow> dp_limit_state ?s k = dp_limit_state s k" for k
    using handle_state [of lpm e ctx tx s k] by auto
  ultimately show ?case by (simp add: ev framed_def handle_fields Let_def case_prod_beta)
qed (simp add: framed_def)

subsection \<open>The engine's maps keep the contract\<close>

definition world_fine :: "world \<Rightarrow> bool" where
  "world_fine w \<longleftrightarrow> maps_fine (wo_maps w) \<and> (\<forall>n. clocks_ok (wo_frames w n))"

definition unarmed :: "limit_key \<Rightarrow> world \<Rightarrow> bool" where
  "unarmed k w \<longleftrightarrow> dp_policies (wo_maps w) k = None"

definition fresh_state :: "limit_key \<Rightarrow> u32 \<Rightarrow> world \<Rightarrow> bool" where
  "fresh_state k a w \<longleftrightarrow> unarmed k w
     \<and> (a \<noteq> ALGO_SLIDING_WINDOW_LOG \<longrightarrow> dp_limit_state (wo_maps w) k = Some limit_state_default)"

lemma let_frames_maps [simp]:
  "wo_maps (let_frames lpm evs w) = snd (handle_all lpm evs (wo_maps w))"
  "wo_frames (let_frames lpm evs w) = wo_frames w"
  by (simp_all add: let_frames_def case_prod_beta)

lemma let_frames_fine: "world_fine w \<Longrightarrow> clocks_ok evs \<Longrightarrow> world_fine (let_frames lpm evs w)"
  using framed_handle_all [of evs "wo_maps w" lpm] by (simp add: world_fine_def framed_def)

lemma call_framed:
  assumes "syscall lpm f w = (r, w')" "world_fine w"
  obtains (refused) msg where "r = Inl (SyscallError OtherKind msg)" "framed (wo_maps w) (wo_maps w')" "wo_frames w' = wo_frames w"
    | (answered) s where "f (wo_maps w) = (r, s)" "framed s (wo_maps w')" "wo_frames w' = wo_frames w"
proof -
  let ?n = "wo_calls w"
  have clocks: "clocks_ok (wo_frames w ?n)" using assms(2) by (simp add: world_fine_def)
  show ?thesis
  proof (cases "wo_refused w ?n")
    case (Some msg)
    with assms(1) have "r = Inl (SyscallError OtherKind msg)"
      "w' = let_frames lpm (wo_frames w ?n) (w\<lparr>wo_calls := Suc ?n\<rparr>)" by (auto simp: syscall_def Let_def)
    with framed_handle_all [OF clocks] show ?thesis by (intro refused [of msg]) simp_all
  next
    case None
    obtain s where s: "f (wo_maps w) = (r, s)"
      using assms(1) None by (auto simp: syscall_def Let_def split: prod.splits)
    then have "w' = let_frames lpm (wo_frames w ?n) (w\<lparr>wo_maps := s, wo_calls := Suc ?n\<rparr>)"
      using assms(1) None by (auto simp: syscall_def Let_def)
    with framed_handle_all [OF clocks] show ?thesis by (intro answered [OF s]) simp_all
  qed
qed

lemma framed_fine:
  assumes "framed s (wo_maps w')" "maps_fine s" "wo_frames w' = wo_frames w" "world_fine w"
  shows "world_fine w'" "unarmed k w' \<longleftrightarrow> dp_policies s k = None"
    "dp_policies s k = None \<Longrightarrow> dp_limit_state (wo_maps w') k = dp_limit_state s k"
  using assms by (auto simp: framed_def world_fine_def unarmed_def)

text \<open>A call that keeps the maps fine and arms at most the flows of \<open>K\<close>.\<close>

lemma call_kept:
  assumes "syscall lpm f w = (r, w')" "world_fine w"
    and "\<And>s r s'. maps_fine s \<Longrightarrow> f s = (r, s') \<Longrightarrow>
      maps_fine s' \<and> (\<forall>k. k \<notin> (case r of Inr _ \<Rightarrow> K | Inl _ \<Rightarrow> {}) \<longrightarrow> dp_policies s k = None \<longrightarrow> dp_policies s' k = None)"
  shows "kept world_fine unarmed (case r of Inr _ \<Rightarrow> K | Inl _ \<Rightarrow> {}) w w'"
  using assms(1,2)
proof (cases rule: call_framed)
  case (refused msg)
  with framed_fine [OF refused(2) _ refused(3) assms(2)] assms(2) show ?thesis
    by (simp add: kept_def world_fine_def unarmed_def)
next
  case (answered s)
  from assms(3) [OF _ answered(1)] assms(2) framed_fine [OF answered(2) _ answered(3) assms(2)] show ?thesis
    by (simp add: kept_def world_fine_def unarmed_def)
qed

lemma fine_updates:
  "maps_fine s \<Longrightarrow> enforceable p \<Longrightarrow> (\<forall>st. dp_limit_state s k = Some st \<longrightarrow> policer_wf p st) \<Longrightarrow>
     maps_fine (s\<lparr>dp_policies := (dp_policies s)(k \<mapsto> p)\<rparr>)"
  "maps_fine s \<Longrightarrow> maps_fine (s\<lparr>dp_policies := (dp_policies s)(k := None)\<rparr>)"
  "maps_fine s \<Longrightarrow> maps_fine (s\<lparr>dp_limit_state := (dp_limit_state s)(k \<mapsto> limit_state_default)\<rparr>)"
  "maps_fine s \<Longrightarrow> maps_fine (s\<lparr>dp_limit_state := (dp_limit_state s)(k := None)\<rparr>)"
  by (auto simp: maps_fine_def policer_wf_fresh)

lemma fine_others [simp]:
  "maps_fine (s\<lparr>dp_swl_log := a\<rparr>) = maps_fine s" "maps_fine (s\<lparr>dp_policer_stats := b\<rparr>) = maps_fine s"
  "maps_fine (s\<lparr>dp_monitored := c\<rparr>) = maps_fine s" "maps_fine (s\<lparr>dp_traffic := d\<rparr>) = maps_fine s"
  "maps_fine (s\<lparr>dp_traffic6 := e\<rparr>) = maps_fine s"
  by (simp_all add: maps_fine_def)

lemma map_remove_gone: "map_remove m k = (r, m') \<Longrightarrow> m' = m(k := None)"
  by (auto simp: map_remove_def split: option.splits)

lemma kept_none:
  "kept fine idle (case r of Inr _ \<Rightarrow> {} | Inl _ \<Rightarrow> {}) s s' \<longleftrightarrow> kept fine idle {} s s'"
  by (cases r) simp_all

lemmas quiet_call = call_kept [where K = "{}", unfolded kept_none]

lemma apfst_result: "apfst h x = (r, s) \<Longrightarrow> \<exists>r0. x = (r0, s) \<and> r = h r0"
  by (cases x) auto

lemma engine_get:
  assumes "world_fine w" "get_policy (engine_maps lpm describe) k w = (old, w')"
  shows "kept world_fine unarmed {} w w' \<and> (old = Inr None \<longrightarrow> unarmed k w')
    \<and> (\<forall>p. old = Inr (Some p) \<longrightarrow> enforceable p)"
proof -
  let ?f = "\<lambda>s. (map_get (dp_policies s) k, s)"
  obtain r where r: "syscall lpm ?f w = (r, w')"
    "old = (case r of Inr p \<Rightarrow> Inr (Some p) | Inl KeyNotFound \<Rightarrow> Inr None | Inl e \<Rightarrow> Inl (describe e))"
    using apfst_result [of _ "syscall lpm ?f w" old w'] assms(2) by (auto simp: engine_maps_def)
  have "kept world_fine unarmed {} w w'" by (rule quiet_call [OF r(1) assms(1)]) auto
  moreover from r(1) assms(1) have "(old = Inr None \<longrightarrow> unarmed k w') \<and> (\<forall>p. old = Inr (Some p) \<longrightarrow> enforceable p)"
  proof (cases rule: call_framed)
    case (refused msg)
    then show ?thesis by (simp add: r(2))
  next
    case (answered s)
    have same: "dp_policies (wo_maps w') = dp_policies (wo_maps w)" and fine: "maps_fine (wo_maps w)"
      using answered assms(1) by (simp_all add: framed_def world_fine_def)
    show ?thesis
    proof (cases "dp_policies (wo_maps w) k")
      case None
      with answered(1) have "r = Inl KeyNotFound" by (auto simp: map_get_def)
      with None same show ?thesis by (simp add: r(2) unarmed_def)
    next
      case (Some p)
      with answered(1) have "old = Inr (Some p)" by (auto simp: r(2) map_get_def)
      with fine Some show ?thesis by (simp add: maps_fine_def)
    qed
  qed
  ultimately show ?thesis by blast
qed

lemma engine_disarm:
  assumes "world_fine w" "disarm_policy (engine_maps lpm describe) k w = (r, w')"
  shows "kept world_fine unarmed {} w w' \<and> (r = Inr () \<longrightarrow> unarmed k w')"
proof -
  let ?f = "\<lambda>s. apsnd (\<lambda>m. s\<lparr>dp_policies := m\<rparr>) (map_remove (dp_policies s) k)"
  obtain r0 where r: "syscall lpm ?f w = (r0, w')" "r = map_gone describe r0"
    using apfst_result [of _ "syscall lpm ?f w" r w'] assms(2) by (auto simp: engine_maps_def)
  have f: "s' = s\<lparr>dp_policies := (dp_policies s)(k := None)\<rparr>" if "?f s = (r, s')" for s r s'
    using that map_remove_gone [of "dp_policies s" k] by (cases "map_remove (dp_policies s) k") auto
  have "kept world_fine unarmed {} w w'"
    by (rule quiet_call [OF r(1) assms(1)], drule f) (simp add: fine_updates)
  moreover from r(1) assms(1) have "r = Inr () \<longrightarrow> unarmed k w'"
  proof (cases rule: call_framed)
    case (refused msg)
    then show ?thesis by (simp add: r(2) map_gone_def)
  next
    case (answered s)
    with f [OF answered(1)] show ?thesis by (simp add: framed_def unarmed_def)
  qed
  ultimately show ?thesis by blast
qed

lemma engine_fresh:
  assumes "world_fine w" "write_fresh_state (engine_maps lpm describe) k a w = (r, w')"
  shows "kept world_fine unarmed {} w w' \<and> (unarmed k w \<and> r = Inr () \<longrightarrow> fresh_state k a w')"
proof (cases "a = ALGO_SLIDING_WINDOW_LOG")
  case True
  let ?f = "\<lambda>s. (Inr (), s\<lparr>dp_swl_log := (dp_swl_log s)(k \<mapsto> swl_ring_default)\<rparr>)"
  obtain r0 where r: "syscall lpm ?f w = (r0, w')"
    using apfst_result [of _ "syscall lpm ?f w" r w'] assms(2) True by (auto simp: engine_maps_def)
  have "kept world_fine unarmed {} w w'" by (rule quiet_call [OF r assms(1)]) auto
  with True show ?thesis by (auto simp: fresh_state_def kept_def)
next
  case False
  let ?f = "\<lambda>s. (Inr (), s\<lparr>dp_limit_state := (dp_limit_state s)(k \<mapsto> limit_state_default)\<rparr>)"
  obtain r0 where r: "syscall lpm ?f w = (r0, w')" "r = into_error describe r0"
    using apfst_result [of _ "syscall lpm ?f w" r w'] assms(2) False by (auto simp: engine_maps_def)
  have "kept world_fine unarmed {} w w'" by (rule quiet_call [OF r(1) assms(1)]) (auto intro: fine_updates)
  moreover from r(1) assms(1) have "unarmed k w \<and> r = Inr () \<longrightarrow> fresh_state k a w'"
  proof (cases rule: call_framed)
    case (refused msg)
    then show ?thesis by (simp add: r(2) into_error_def)
  next
    case (answered s)
    then show ?thesis by (auto simp: framed_def unarmed_def fresh_state_def)
  qed
  ultimately show ?thesis by blast
qed

lemma engine_arm:
  assumes "world_fine w" "enforceable p" "fresh_state k (lp_algorithm p) w" "arm_policy (engine_maps lpm describe) k p w = (r, w')"
  shows "kept world_fine unarmed (if r = Inr () then {k} else {}) w w'"
proof -
  let ?f = "\<lambda>s. (Inr (), s\<lparr>dp_policies := (dp_policies s)(k \<mapsto> p)\<rparr>)"
  obtain r0 where r: "syscall lpm ?f w = (r0, w')" "r = into_error describe r0"
    using apfst_result [of _ "syscall lpm ?f w" r w'] assms(4) by (auto simp: engine_maps_def)
  have wf: "\<forall>st. dp_limit_state (wo_maps w) k = Some st \<longrightarrow> policer_wf p st"
    using assms(2,3) policer_wf_fresh by (auto simp: fresh_state_def policer_wf_def algo_defs)
  from r(1) assms(1) show ?thesis
  proof (cases rule: call_framed)
    case (refused msg)
    with framed_fine [OF refused(2) _ refused(3) assms(1)] assms(1) show ?thesis
      by (simp add: kept_def r(2) into_error_def world_fine_def unarmed_def)
  next
    case (answered s)
    then have s: "s = (wo_maps w)\<lparr>dp_policies := (dp_policies (wo_maps w))(k \<mapsto> p)\<rparr>" "r = Inr ()"
      by (auto simp: r(2) into_error_def)
    have "maps_fine s" using assms(1,2) wf by (simp add: s(1) fine_updates(1) world_fine_def)
    from framed_fine [OF answered(2) this answered(3) assms(1)] show ?thesis
      by (simp add: kept_def s unarmed_def)
  qed
qed

lemma engine_clears:
  assumes "world_fine w"
  shows "clear_state (engine_maps lpm describe) k a w = (r, w') \<Longrightarrow> kept world_fine unarmed {} w w'"
    and "clear_policer (engine_maps lpm describe) k w = (r, w') \<Longrightarrow> kept world_fine unarmed {} w w'"
    and "wl_insert (engine_whitelist lpm describe) c w = (r, w') \<Longrightarrow> kept world_fine unarmed {} w w'"
    and "wl_remove (engine_whitelist lpm describe) c w = (r, w') \<Longrightarrow> kept world_fine unarmed {} w w'"
proof -
  have call: "kept world_fine unarmed {} w w'"
    if "apfst h (syscall lpm f w) = (r, w')"
      "\<And>s r s'. maps_fine s \<Longrightarrow> f s = (r, s') \<Longrightarrow> maps_fine s' \<and> dp_policies s' = dp_policies s"
    for h :: "map_error + unit \<Rightarrow> error + unit" and f
  proof -
    have "syscall lpm f w = (fst (syscall lpm f w), w')" using that(1) by (cases "syscall lpm f w") auto
    then show ?thesis by (rule quiet_call [OF _ assms]) (drule (1) that(2), simp)
  qed
  have removed: "apsnd g (map_remove m k) = (r, s') \<Longrightarrow> s' = g (m(k := None))"
    for g :: "(limit_key \<rightharpoonup> 'v) \<Rightarrow> dp_state" and m r s'
    using map_remove_gone [of m k] by (cases "map_remove m k") auto
  show "kept world_fine unarmed {} w w'" if "clear_state (engine_maps lpm describe) k a w = (r, w')"
    using that by (cases "a = ALGO_SLIDING_WINDOW_LOG")
      (auto simp: engine_maps_def intro!: fine_updates elim!: call dest!: removed)
  show "kept world_fine unarmed {} w w'" if "clear_policer (engine_maps lpm describe) k w = (r, w')"
    using that by (auto simp: engine_maps_def elim!: call dest!: removed)
  show "kept world_fine unarmed {} w w'" if "wl_insert (engine_whitelist lpm describe) c w = (r, w')"
    using that by (auto simp: engine_whitelist_def elim!: call)
  show "kept world_fine unarmed {} w w'" if "wl_remove (engine_whitelist lpm describe) c w = (r, w')"
    using that by (auto simp: engine_whitelist_def elim!: call split: if_splits)
qed

interpretation engine_arming: guarded_maps "engine_maps lpm describe" "engine_whitelist lpm describe"
  world_fine unarmed fresh_state enforceable for lpm describe
  by unfold_locales (rule engine_get engine_disarm engine_fresh engine_arm engine_clears; assumption)+

subsection \<open>The limiter installs only enforceable policies\<close>

definition index_ok :: "policy_range list \<Rightarrow> (u32 \<rightharpoonup> effective_policy) \<Rightarrow> bool" where
  "index_ok rs ov \<longleftrightarrow> (\<forall>flow np. flow_policy rs ov flow = Some np \<longrightarrow> enforceable (installed_policy np))"

definition policies_ok :: "effective_policy \<Rightarrow> bool" where
  "policies_ok eff \<longleftrightarrow> (\<forall>d np. dir_of d eff = Some np \<longrightarrow> enforceable (installed_policy np))"

lemma policies_ok_resolve:
  assumes "policy_ok swl f ov" "resolve f ov = Inr eff"
  shows "policies_ok eff"
  using assms by (auto simp: policy_ok_def policies_ok_def dir_of_def enforceable_def split: if_splits)

lemma index_okI:
  assumes "\<forall>r \<in> set rs. policies_ok (pr_policy r)" "\<forall>ip eff. ov ip = Some eff \<longrightarrow> policies_ok eff"
  shows "index_ok rs ov"
  unfolding index_ok_def
proof (intro allI impI)
  fix flow np
  assume "flow_policy rs ov flow = Some np"
  then obtain eff where eff: "lookup rs ov (fst flow) = Some eff" "dir_of (snd flow) eff = Some np"
    by (auto simp: flow_policy_def bind_eq_Some_conv)
  then have "policies_ok eff"
    using assms by (auto simp: lookup_def find_Some_iff split: option.splits if_splits)
  with eff(2) show "enforceable (installed_policy np)" by (auto simp: policies_ok_def)
qed

text \<open>The index of an accepted document, for any iteration of the overrides.\<close>

definition overrides_fine :: "(u32 \<rightharpoonup> effective_policy) \<Rightarrow> bool" where
  "overrides_fine ov \<longleftrightarrow> (\<forall>ip eff. ov ip = Some eff \<longrightarrow> policies_ok eff)"

definition ranges_fine :: "policy_range list \<times> (u32 \<rightharpoonup> effective_policy) \<Rightarrow> bool" where
  "ranges_fine acc \<longleftrightarrow> (\<forall>r \<in> set (fst acc). policies_ok (pr_policy r)) \<and> overrides_fine (snd acc)"

lemma index_override_ok:
  assumes "range_ok swl vr" "overrides_fine ov" "index_override vr ip ov = Inr ov'"
  shows "overrides_fine ov'"
proof -
  obtain eff where eff: "resolve (vr_policy vr) (vr_overrides vr ip) = Inr eff" "ov' = ov(ip \<mapsto> eff)"
    using assms(3) by (auto simp: index_override_def try_bind_Inr_iff)
  have "policy_ok swl (vr_policy vr) (vr_overrides vr ip)"
    using range_ok_override [OF assms(1)] assms(1) by (cases "vr_overrides vr ip") (simp_all add: range_ok_def)
  from policies_ok_resolve [OF this eff(1)] assms(2) show ?thesis by (simp add: overrides_fine_def eff(2))
qed

lemma index_range_ok:
  assumes "range_ok swl vr" "ranges_fine acc" "index_range keys vr acc = Inr acc'"
  shows "ranges_fine acc'"
proof -
  obtain base over where one: "resolve (vr_policy vr) None = Inr base"
    "try_fold (index_override vr) (keys (vr_overrides vr)) (snd acc) = Inr over"
    "acc' = (fst acc @ [\<lparr>pr_start = ir_start (vr_inner vr), pr_end = ir_end (vr_inner vr), pr_policy = base\<rparr>], over)"
    using assms(3) by (auto simp: index_range_def try_bind_Inr_iff)
  have "overrides_fine over"
    by (rule try_fold_invariant [OF one(2)]) (use assms(2) index_override_ok [OF assms(1)] in \<open>auto simp: ranges_fine_def\<close>)
  moreover have "policies_ok base" using assms(1) policies_ok_resolve [OF _ one(1), of swl] by (simp add: range_ok_def)
  ultimately show ?thesis using assms(2) by (auto simp: ranges_fine_def one(3))
qed

lemma build_index_ok:
  assumes "list_all (range_ok swl) (vc_ranges cfg)" "build_index keys cfg = Inr (rs, ov)"
  shows "index_ok rs ov"
proof -
  obtain rs0 where rs: "try_fold (index_range keys) (vc_ranges cfg) ([], Map.empty) = Inr (rs0, ov)" "rs = sort_key pr_start rs0"
    using assms(2) by (auto simp: build_index_def try_bind_Inr_iff)
  have "ranges_fine (rs0, ov)"
  proof (rule try_fold_invariant [OF rs(1)])
    show "ranges_fine ([], Map.empty)" by (simp add: ranges_fine_def overrides_fine_def)
    show "ranges_fine acc'" if "vr \<in> set (vc_ranges cfg)" "ranges_fine acc" "index_range keys vr acc = Inr acc'" for vr acc acc'
      using index_range_ok [OF _ that(2,3), of swl] assms(1) that(1) by (simp add: list_all_iff)
  qed
  then show ?thesis by (intro index_okI) (simp_all add: rs(2) ranges_fine_def overrides_fine_def)
qed

lemma parsed_ranges:
  assumes "parse_config pf path bytes = Inr cfg"
  obtains swl where "list_all (range_ok swl) (vc_ranges cfg)"
proof -
  obtain doc where p: "parse (pf_from_toml pf) (pf_url_parse pf) doc = Inr cfg"
    using assms by (auto simp: parse_config_def map_err_def split: if_splits sum.splits)
  then obtain c where "pf_from_toml pf doc = Inr c" by (cases "pf_from_toml pf doc") (simp_all add: parse_def)
  from parse_ranges(4) [OF p this] show ?thesis by (rule that)
qed

abbreviation limiter_index_ok :: "limiter \<Rightarrow> bool" where
  "limiter_index_ok l \<equiv> index_ok (lm_ranges l) (lm_overrides l)"

lemma installs_allowed:
  "a = install_of flow np \<Longrightarrow> enforceable (installed_policy np) \<Longrightarrow> engine_arming.target_allowed a"
  "a = remove_of flow \<Longrightarrow> engine_arming.target_allowed a"
  by (simp_all add: engine_arming.target_allowed_def action_target_def)

lemma acts_of_member: "a \<in> set as \<Longrightarrow> a \<in> set (acts_of (la_flow a) as)"
  by (simp add: acts_of_def)

lemma tick_allowed:
  assumes "distinct ips" "tick ips now totals l = (l', as)" "limiter_index_ok l"
  shows "\<forall>a \<in> set as. engine_arming.target_allowed a" "limiter_index_ok l'"
proof -
  show "limiter_index_ok l'" using tick_view(2) [OF assms(1), of l now totals] assms(2,3) by (simp add: same_index_def)
  show "\<forall>a \<in> set as. engine_arming.target_allowed a"
  proof
    fix a
    assume a: "a \<in> set as"
    obtain w st acts e where ft: "flow_ticked now totals l (la_flow a) = (w, st, acts, e)" by (metis prod_cases4)
    have "a \<in> set acts"
      using acts_of_member [OF a] tick_view(1) [OF assms(1), of "la_flow a" now totals l] ft
      by (auto simp: assms(2) flow_view_def split: if_splits)
    then have "a = remove_of (la_flow a) \<or> (\<exists>np. a = install_of (la_flow a) np
        \<and> flow_policy (lm_ranges l) (lm_overrides l) (la_flow a) = Some np)"
      using ft by (auto simp: flow_ticked_def flow_eval_def Let_def split: option.splits phase.splits if_splits)
    then show "engine_arming.target_allowed a"
      using assms(3) installs_allowed unfolding index_ok_def by blast
  qed
qed

lemma plan_allowed:
  assumes "limiter_wf l" "distinct flows" "\<forall>flow. is_limited_state (lm_states l flow) \<longrightarrow> flow \<in> set flows"
    and "plan_reload keys flows l cfg now = Inr plan" "index_ok (rp_new_ranges plan) (rp_new_overrides plan)"
  shows "\<forall>a \<in> set (rp_actions plan). engine_arming.target_allowed a"
proof
  fix a
  assume "a \<in> set (rp_actions plan)"
  then have "a \<in> set (acts_of (la_flow a) (rp_removes plan)) \<or> a \<in> set (acts_of (la_flow a) (rp_installs plan))"
    by (auto simp: rp_actions_def acts_of_def)
  moreover note plan_reload_view [OF assms(1-4), of "la_flow a"]
  ultimately have "a = remove_of (la_flow a) \<or> (\<exists>np. a = install_of (la_flow a) np
      \<and> flow_policy (rp_new_ranges plan) (rp_new_overrides plan) (la_flow a) = Some np)"
    by (auto simp: plan_view_def flow_planned_def Let_def split: option.splits if_splits)
  then show "engine_arming.target_allowed a"
    using assms(5) installs_allowed unfolding index_ok_def by blast
qed

lemma plan_index:
  assumes "plan_reload keys flows l cfg now = Inr plan"
  shows "build_index keys cfg = Inr (rp_new_ranges plan, rp_new_overrides plan)"
proof -
  have "rp_new_ranges (fold (plan_flow l now) fs p) = rp_new_ranges p"
    "rp_new_overrides (fold (plan_flow l now) fs p) = rp_new_overrides p" for fs p
    by (induction fs arbitrary: p) simp_all
  with assms show ?thesis by (auto simp: plan_reload_def try_bind_Inr_iff)
qed

lemma commit_index:
  "lm_ranges (commit_reload plan l) = rp_new_ranges plan" "lm_overrides (commit_reload plan l) = rp_new_overrides plan"
proof -
  have "lm_ranges (fold reset_flow fs l) = lm_ranges l \<and> lm_overrides (fold reset_flow fs l) = lm_overrides l" for fs l
    by (induction fs arbitrary: l) (simp_all add: reset_flow_def Let_def split: option.split)
  moreover have "lm_ranges (fold update_flow us l) = lm_ranges l \<and> lm_overrides (fold update_flow us l) = lm_overrides l" for us l
    by (induction us arbitrary: l) (simp_all add: update_flow_def split: prod.split option.split)
  ultimately show "lm_ranges (commit_reload plan l) = rp_new_ranges plan" "lm_overrides (commit_reload plan l) = rp_new_overrides plan"
    by (simp_all add: commit_reload_def Let_def)
qed

subsection \<open>The engine\<close>

definition engine_fine :: "engine \<Rightarrow> bool" where
  "engine_fine E \<longleftrightarrow> world_fine (en_world E) \<and> limiter_index_ok (ct_limiter (en_control E))"

definition fine_removal :: "('k \<Rightarrow> world \<Rightarrow> (map_error + unit) \<times> world) \<Rightarrow> bool" where
  "fine_removal remove \<longleftrightarrow> (\<forall>key w. world_fine w \<longrightarrow> world_fine (snd (remove key w)))"

lemma fine_removals [simp]: "fine_removal (remove_traffic lpm)" "fine_removal (remove_traffic6 lpm)"
proof -
  have call: "world_fine (snd (syscall lpm f w))"
    if "world_fine w" "\<And>s. maps_fine s \<Longrightarrow> maps_fine (snd (f s)) \<and> dp_policies (snd (f s)) = dp_policies s"
    for f :: "dp_state \<Rightarrow> (map_error + unit) \<times> dp_state" and w
  proof -
    obtain r w' where c: "syscall lpm f w = (r, w')" by force
    have "kept world_fine unarmed {} w w'"
    proof (rule quiet_call [OF c that(1)])
      fix s r s'
      assume "maps_fine s" "f s = (r, s')"
      with that(2) [of s] show "maps_fine s' \<and> (\<forall>k. k \<notin> (case r of Inl _ \<Rightarrow> {} | Inr _ \<Rightarrow> {}) \<longrightarrow>
          dp_policies s k = None \<longrightarrow> dp_policies s' k = None)" by simp
    qed
    then show ?thesis by (simp add: c kept_def)
  qed
  show "fine_removal (remove_traffic lpm)" "fine_removal (remove_traffic6 lpm)"
    by (auto simp: fine_removal_def remove_traffic_def remove_traffic6_def map_remove_def intro!: call split: option.splits)
qed

lemma fine_remove_keys:
  assumes "fine_removal remove" "world_fine w"
  shows "world_fine (snd (remove_counter_keys remove keys w))"
proof -
  have "world_fine (snd st) \<Longrightarrow> world_fine (snd (fold (remove_counter_key remove) keys st))" for st
    by (induction keys arbitrary: st) (use assms(1) in \<open>simp_all add: remove_counter_key_state fine_removal_def\<close>)
  then show ?thesis using assms(2) by (simp add: remove_counter_keys_def)
qed

lemma fine_retry:
  assumes "fine_removal remove" "world_fine (snd st)"
  shows "world_fine (snd (snd (retry_traffic order live remove st)))"
proof -
  have "world_fine w \<Longrightarrow> world_fine (snd (snd (fold (retry_key live remove) keys (stats, pending, w))))" for keys stats pending w
  proof (induction keys arbitrary: stats pending w)
    case (Cons key keys)
    obtain stats' pending' w' where k: "retry_key live remove key (stats, pending, w) = (stats', pending', w')"
      by (metis prod_cases3)
    then have "w' = w \<or> w' = snd (remove key w)"
      by (auto simp: retry_key_def split: if_splits prod.splits sum.splits)
    with assms(1) Cons.prems have "world_fine w'" by (auto simp: fine_removal_def)
    with Cons.IH k show ?case by simp
  qed simp
  then show ?thesis using assms(2) by (simp add: retry_traffic_def)
qed

lemma reverted_limiter_index [simp]: "limiter_index_ok (revert_failed_action a l) = limiter_index_ok l"
  by (simp add: revert_failed_action_def split: limit_action.split option.split)

lemma fold_tick_index:
  "fold (apply_tick_action m w) as (fs, l, s) = (fs', l', s') \<Longrightarrow> limiter_index_ok l' = limiter_index_ok l"
proof (induction as arbitrary: fs l s)
  case (Cons a as)
  obtain fs1 l1 s1 where one: "apply_tick_action m w a (fs, l, s) = (fs1, l1, s1)" by (metis prod_cases3)
  then have "limiter_index_ok l1 = limiter_index_ok l"
    by (auto simp: apply_tick_action_def split: prod.splits sum.splits)
  with Cons one show ?case by simp
qed simp

lemma limiter_tick_fine:
  assumes "world_fine w" "limiter_index_ok l" "iterates (tk_ips i)" "limiter_tick pf i totals (l, w) = (fs, l', w')"
  shows "world_fine w'" "limiter_index_ok l'"
proof -
  obtain l1 as where t: "tick (tk_ips i (tick_ips l totals)) (tk_now_secs i) totals l = (l1, as)" by force
  have ips: "distinct (tk_ips i (tick_ips l totals))" using assms(3) by (simp add: iterates_def)
  note a = tick_allowed [OF ips t assms(2)]
  have run: "fold (apply_tick_action (engine_limit_maps pf) (engine_wl pf)) (removes_first as) ([], l1, w) = (fs, l', w')"
    using assms(4) t by (auto simp: limiter_tick_def apply_tick_actions_def removes_first_def split: if_splits)
  show "world_fine w'" by (rule engine_arming.tick_actions_fine [OF assms(1) _ run]) (use a(1) in simp)
  show "limiter_index_ok l'" using fold_tick_index [OF run] a(2) by simp
qed

lemma collect_tick_fine:
  assumes "engine_fine E" "iterates (tk_ips i)"
  shows "engine_fine (collect_tick pf i E)"
proof -
  let ?c = "en_control E"
  obtain res co where poll: "poll (tk_orders i) (tk_now i) (tk_traffic i) (tk_traffic6 i) (tk_policer i)
      (config_ranges (ct_config ?c)) (vc_show_idle_ips (ct_config ?c)) (ct_collector ?c) = (res, co)" by force
  obtain rs1 w1 where 1: "remove_counter_keys (remove_traffic (pf_lpm pf)) (pr_stale_traffic res) (en_world E) = (rs1, w1)"
    by force
  obtain rs2 w2 where 2: "remove_counter_keys (remove_traffic6 (pf_lpm pf)) (pr_stale_traffic6 res) w1 = (rs2, w2)"
    by force
  obtain fs l w where lt: "limiter_tick pf i (pr_totals res) (ct_limiter ?c, w2) = (fs, l, w)" by (metis prod_cases3)
  have w2: "world_fine w2"
    using fine_remove_keys [OF fine_removals(1), of "en_world E"] fine_remove_keys [OF fine_removals(2), of w1] 1 2 assms(1)
    by (metis engine_fine_def snd_conv)
  have "limiter_index_ok (ct_limiter ?c)" using assms(1) by (simp add: engine_fine_def)
  from limiter_tick_fine [OF w2 this assms(2) lt] show ?thesis
    by (simp add: engine_fine_def collect_tick_def Let_def poll 1 2 lt surface_reports)
qed

lemma rescan_fine:
  assumes "engine_fine E"
  shows "engine_fine (rescan_taps pf i E)"
proof (cases "discover_taps (sc_read_dir i) (sc_read_file i) (tp_bridge (en_taps E))")
  case (Inl e)
  then show ?thesis using assms by (simp add: rescan_taps_def Let_def)
next
  case (Inr found)
  obtain ok failed am where rc: "reconcile (pf_describe_program pf) (sc_names i (am_attached (tp_manager (en_taps E))))
      (sc_now i) found (tp_manager (en_taps E)) = (ok, failed, am)" by (metis prod_cases3)
  let ?ifs = "set (map tap_ifindex (manager_taps (sc_names i (am_attached am)) am))"
  obtain st pending w where rt: "retry_traffic (sc_pending i) ?ifs (remove_traffic (pf_lpm pf))
      (tp_pending_removes (en_taps E), en_world E) = (st, pending, w)" by (metis prod_cases3)
  have w: "world_fine w"
    using fine_retry [OF fine_removals(1), of "(tp_pending_removes (en_taps E), en_world E)"] rt assms
    by (metis engine_fine_def snd_conv)
  have "world_fine (snd (prune_stale pf i ?ifs (pending, w)))"
    using fine_remove_keys [OF fine_removals(1) w] by (simp add: prune_stale_def case_prod_beta Let_def)
  with w assms show ?thesis
    by (auto simp: rescan_taps_def Let_def Inr rc rt engine_fine_def simp del: set_map split: prod.splits if_splits)
qed

lemma apply_config_fine:
  assumes "engine_ok E" "engine_fine E" "parse_config pf path bytes = Inr cfg"
    and "enumerates (ri_flows i) (lm_states (ct_limiter (en_control E)))"
    and "apply_config pf i cfg E = (r, E')"
  shows "engine_fine E'"
proof (cases "reload_guards E cfg")
  case (Some e)
  with assms show ?thesis by (auto simp: apply_config_def)
next
  case None
  let ?c = "en_control E"
  have ok: "limiter_wf (ct_limiter ?c)" "world_fine (en_world E)" "limiter_index_ok (ct_limiter ?c)"
    using assms(1,2) by (simp_all add: engine_ok_def engine_fine_def)
  show ?thesis
  proof (cases "plan_reload (ri_overrides i) (ri_flows i) (ct_limiter ?c) cfg (ri_now_secs i)")
    case (Inl e)
    with None assms show ?thesis by (auto simp: apply_config_def Let_def)
  next
    case (Inr plan)
    obtain r1 c w where run: "apply_and_commit (ri_prefixes i) (engine_limit_maps pf) (engine_wl pf)
        (prefix_set (ct_config ?c)) plan cfg (?c, en_world E) = (r1, (c, w))" by (metis prod_cases3)
    have flows: "distinct (ri_flows i)" "\<forall>flow. is_limited_state (lm_states (ct_limiter ?c) flow) \<longrightarrow> flow \<in> set (ri_flows i)"
      using assms(4) by (auto simp: enumerates_def is_limited_state_def split: option.splits)
    obtain swl where "list_all (range_ok swl) (vc_ranges cfg)" using assms(3) by (rule parsed_ranges)
    from build_index_ok [OF this plan_index [OF Inr]]
    have index: "index_ok (rp_new_ranges plan) (rp_new_overrides plan)" .
    have dist: "distinct (map la_flow (rp_actions plan))"
      by (rule distinct_flows [OF plan_acts_le [OF ok(1) flows Inr]])
    have "world_fine w"
      by (rule engine_arming.commit_fine [OF ok(2) dist plan_allowed [OF ok(1) flows Inr index] run])
    moreover have "c = ?c \<or> limiter_index_ok (ct_limiter c)"
      using run index by (auto simp: apply_and_commit_def commit_index split: prod.splits sum.splits)
    then have "limiter_index_ok (ct_limiter c)" using ok(3) by auto
    moreover have "en_control E' = c" "en_world E' = w"
      using assms(5) None Inr run by (auto simp: apply_config_def Let_def surface_rollback_report_def split: sum.splits)
    ultimately show ?thesis by (simp add: engine_fine_def)
  qed
qed

lemma reload_fine:
  assumes "engine_ok E" "engine_fine E" "enumerates (ri_flows i) (lm_states (ct_limiter (en_control E)))"
    and "iterates (tk_ips (ri_tick i))"
  shows "engine_fine (reload pf i E)"
proof -
  have failed: "engine_fine (reload_failed st e E') = engine_fine E'" for st e E'
    by (simp add: reload_failed_def engine_fine_def)
  show ?thesis
  proof (cases "\<exists>bytes cfg. ri_file i = Inr bytes \<and> bytes \<noteq> rd_last_config_bytes (en_reload E)
      \<and> parse_config pf (ri_path i) bytes = Inr cfg")
    case True
    then obtain bytes cfg where p: "ri_file i = Inr bytes" "bytes \<noteq> rd_last_config_bytes (en_reload E)"
      "parse_config pf (ri_path i) bytes = Inr cfg" by blast
    obtain r E1 where a: "apply_config pf i cfg E = (r, E1)" by force
    have fine: "engine_fine E1" by (rule apply_config_fine [OF assms(1,2) p(3) assms(3) a])
    then have "engine_fine (collect_tick pf (ri_tick i) (E1\<lparr>en_reload := rl\<rparr>))" for rl
      by (intro collect_tick_fine [OF _ assms(4)]) (simp add: engine_fine_def)
    with fine p a show ?thesis by (cases r) (simp_all add: reload_def Let_def failed)
  next
    case False
    then have "(\<exists>st e. reload pf i E = reload_failed st e E) \<or> (\<exists>rl. reload pf i E = E\<lparr>en_reload := rl\<rparr>)"
      by (auto simp: reload_def Let_def split: sum.splits)
    moreover have "engine_fine (E\<lparr>en_reload := rl\<rparr>)" for rl using assms(2) by (simp add: engine_fine_def)
    ultimately show ?thesis using assms(2) failed by auto
  qed
qed

lemma operation_fine: "engine_op pf E E' \<Longrightarrow> engine_ok E \<Longrightarrow> engine_fine E \<Longrightarrow> engine_fine E'"
proof (induction rule: engine_op.induct)
  case (watcher E e)
  then show ?case by (simp add: engine_fine_def record_watcher_error_def)
next
  case (push E c)
  then show ?case by (simp add: engine_fine_def)
qed (simp_all add: collect_tick_fine rescan_fine reload_fine)

lemma insert_prefixes_fine: "world_fine w \<Longrightarrow> insert_prefixes pf cs w = (r, w') \<Longrightarrow> world_fine w'"
proof (induction cs arbitrary: w)
  case (Cons c cs)
  obtain r1 w1 where i: "wl_insert (engine_wl pf) c w = (r1, w1)" by force
  from engine_clears(3) [OF Cons.prems(1) i] have "world_fine w1" by (simp add: kept_def)
  with Cons i show ?case by (auto split: sum.splits)
qed simp

lemma start_fine:
  assumes "si_world i = Inr w" "fresh_world w" "\<And>n. clocks_ok (wo_frames w n)" "start_daemon pf i = Inr E"
  shows "engine_fine E"
  using assms(4)
proof (cases rule: start_cases)
  case (1 bytes cfg w' w1 taps plan)
  have w: "w' = w" using 1(1) assms(1) by simp
  have "world_fine w" using assms(2,3) by (simp add: world_fine_def fresh_world_def empty_maps_def maps_fine_def)
  then have "world_fine w1" using insert_prefixes_fine [OF _ 1(3)] by (simp add: w)
  moreover obtain swl where "list_all (range_ok swl) (vc_ranges cfg)" using 1(2) by (rule parsed_ranges)
  from build_index_ok [OF this plan_index [OF 1(4)]]
  have "limiter_index_ok (commit_reload plan (limiter_new (vc_refresh_interval_ms cfg div 1000)))"
    by (simp add: commit_index)
  ultimately show ?thesis by (simp add: 1(5) engine_fine_def engine_new_fields)
qed

subsection \<open>The ceilings on a running daemon\<close>

text \<open>A run in which the frames have sensible clock readings.\<close>

inductive timed_run :: "platform \<Rightarrow> engine \<Rightarrow> bool" for pf where
  timed_start: "si_world i = Inr w \<Longrightarrow> fresh_world w \<Longrightarrow> (\<And>n. clocks_ok (wo_frames w n)) \<Longrightarrow>
    start_daemon pf i = Inr E \<Longrightarrow> timed_run pf E"
| timed_frames: "timed_run pf E \<Longrightarrow> clocks_ok evs \<Longrightarrow> timed_run pf (E\<lparr>en_world := let_frames (pf_lpm pf) evs (en_world E)\<rparr>)"
| timed_op: "timed_run pf E \<Longrightarrow> engine_op pf E E' \<Longrightarrow> timed_run pf E'"

lemma timed_is_run: "timed_run pf E \<Longrightarrow> engine_run pf E"
  by (induction rule: timed_run.induct) (auto intro: engine_run.intros engine_steps engine_step.operation)

lemma timed_fine: "timed_run pf E \<Longrightarrow> engine_fine E"
proof (induction rule: timed_run.induct)
  case (timed_start i w E)
  then show ?case by (rule start_fine)
next
  case (timed_frames E evs)
  then show ?case by (simp add: engine_fine_def let_frames_fine del: let_frames_maps)
next
  case (timed_op E E')
  then show ?case using operation_fine run_ok timed_is_run by blast
qed

end
