(* ===== verification/Ceilings.thy ===== *)
theory Ceilings
  imports Enforcement
begin

section \<open>Ceilings: what a flow can pass on a running daemon\<close>

text \<open>
  The end-to-end statement of the development, and a run of the daemon that reaches it: the daemon
  starts on a document with one range, polls the counters of one VM three times, and installs a
  limit after the third.
\<close>

subsection \<open>The theorem\<close>

text \<open>C1: The ceiling holds end to end: at every moment of a run of the daemon, whatever calls the kernel
  has refused and whatever has been rolled back, degraded or not, a policy in the maps is one that an
  accepted document can configure; and unless its algorithm is the sliding window log, what the
  flow passes, over any traffic that follows, in policeable frames of a monitored address between two
  readings of the clock stays below the ceiling of its algorithm. For the token and the leaky
  bucket that is burst plus rate times the interval, plus less than a nanosecond of the rate for
  each frame passed; for GCRA the rate times the interval and the tolerance, plus a nanosecond of
  the rate for each frame passed (so it is no limit for frames that take less than a nanosecond); for
  the fixed window and the sliding window counter two allowances plus the allowance per window.\<close>

theorem daemon_enforces_ceilings:
  assumes "timed_run pf E" "pf_lpm pf (dp_monitored (wo_maps (en_world E))) ip"
    and "dp_policies (wo_maps (en_world E)) (limit_key_new ip (flow_direction tx)) = Some p"
  shows "enforceable p
    \<and> (lp_algorithm p \<noteq> ALGO_SLIDING_WINDOW_LOG \<longrightarrow> frames_in t0 t1 (flow_frames ip tx evs) \<longrightarrow>
        within_ceiling p t0 t1
          (length (passed_frames ip tx evs (fst (run (pf_lpm pf) evs (wo_maps (en_world E))))))
          (passed_bytes ip tx evs (fst (run (pf_lpm pf) evs (wo_maps (en_world E))))))"
proof (intro conjI impI)
  let ?s = "wo_maps (en_world E)" and ?key = "limit_key_new ip (flow_direction tx)"
  have fine: "maps_fine ?s" using timed_fine [OF assms(1)] by (simp add: engine_fine_def world_fine_def)
  then show p: "enforceable p" using assms(3) by (simp add: maps_fine_def)
  assume alg: "lp_algorithm p \<noteq> ALGO_SLIDING_WINDOW_LOG" and frames: "frames_in t0 t1 (flow_frames ip tx evs)"
  have "dp_limit_state ?s ?key \<noteq> None"
  proof -
    have "engine_limits.all_safe (en_world E)" using run_ok [OF timed_is_run [OF assms(1)]] by (simp add: engine_ok_def)
    then have "slot_safe (slots_of ?s ?key)" by (simp add: engine_limits.all_safe_def world_slots_def slots_safe_def)
    then show ?thesis using assms(3) alg by (simp add: slot_safe_def slots_of_def has_artifact_def)
  qed
  then obtain st where st: "dp_limit_state ?s ?key = Some st" by blast
  have wf: "policer_wf p st" using fine assms(3) st by (simp add: maps_fine_def)
  have "flow_armed (pf_lpm pf) ip tx p ?s" using assms(2,3) enforceable_policy(2) [OF p] by (simp add: flow_armed_def)
  from run_flow(2) [OF this]
  have passed: "passed_frames ip tx evs (fst (run (pf_lpm pf) evs ?s)) = admitted (run_policer p) (flow_frames ip tx evs) st"
    using alg st by (simp add: flow_state_def)
  then have "passed_bytes ip tx evs (fst (run (pf_lpm pf) evs ?s)) = admitted_bytes (run_policer p) (flow_frames ip tx evs) st"
    by (simp add: passed_bytes_def admitted_bytes_def)
  with passed show "within_ceiling p t0 t1 (length (passed_frames ip tx evs (fst (run (pf_lpm pf) evs ?s))))
      (passed_bytes ip tx evs (fst (run (pf_lpm pf) evs ?s)))"
    using enforceable_ceiling [OF p alg wf frames] by simp
qed

subsection \<open>Polls of a busy VM\<close>

definition busy_ip :: u32 where "busy_ip = 167772161"

definition busy_key :: traffic_key where "busy_key = \<lparr>tk_ifindex = 3, tk_ipv4 = busy_ip\<rparr>"

definition busy_value :: "u64 \<Rightarrow> traffic_value" where
  "busy_value n = \<lparr>tv_rx_bytes = n, tv_tx_bytes = 0, tv_rx_packets = 0, tv_tx_packets = 0\<rparr>"

definition busy_tick :: "u64 \<Rightarrow> u64 \<Rightarrow> tick_inputs" where
  "busy_tick secs n = \<lparr>tk_now_secs = secs, tk_now = unat secs * 1000000000,
     tk_orders = \<lparr>or_cur = [busy_key], or_cur6 = [], or_policer = [], or_totals = (\<lambda>_. [])\<rparr>,
     tk_traffic = [Inr (busy_key, [busy_value n])], tk_traffic6 = [], tk_policer = [], tk_oversized = [],
     tk_ips = some_order\<rparr>"

definition busy_poll :: "u64 \<Rightarrow> u64 \<Rightarrow> ip_range list \<Rightarrow> bool \<Rightarrow> collector \<Rightarrow> poll_result \<times> collector" where
  "busy_poll secs n ranges idle co =
     poll (tk_orders (busy_tick secs n)) (tk_now (busy_tick secs n)) (tk_traffic (busy_tick secs n))
       (tk_traffic6 (busy_tick secs n)) (tk_policer (busy_tick secs n)) ranges idle co"

lemma busy_key_ip [simp]: "tk_ipv4 busy_key = busy_ip"
  by (simp add: busy_key_def)

text \<open>A collector that has just read \<open>n\<close> bytes, \<open>rx\<close> of them since its first poll.\<close>

definition polled :: "u64 \<Rightarrow> u64 \<Rightarrow> u64 \<Rightarrow> collector \<Rightarrow> bool" where
  "polled secs n rx co \<longleftrightarrow> co_primed co \<and> co_last_poll co = Some (unat secs * 1000000000)
     \<and> co_prev co = [busy_key \<mapsto> busy_value n] \<and> dom (co_totals co) \<subseteq> {busy_ip}
     \<and> sd_bytes (is_rx (lookup_or ip_stats_default (co_totals co) busy_ip)) = rx"

lemma busy_read: "read_map sum_traffic [Inr (busy_key, [busy_value n])] = ([busy_key \<mapsto> busy_value n], False)"
  "read_map f [] = (Map.empty, False)"
  by (simp_all add: read_map_def sum_traffic_def busy_value_def traffic_value_default_def)

lemma positive_time: "0 < max x (f64_round (1 / 1000))"
proof -
  have "(0::rat) < 1 / 1000" by simp
  then have "0 < f64_round (1 / 1000)" by (rule f64_round_pos)
  then show ?thesis by (simp add: less_max_iff_disj)
qed

lemma first_poll:
  assumes "busy_poll secs n ranges idle collector_new = (res, co)"
  shows "polled secs n 0 co" "pr_totals res = Map.empty" "pr_stale_traffic res = []" "pr_stale_traffic6 res = []"
  using assms
  by (auto simp: busy_poll_def busy_tick_def poll_def busy_read apply_poll_def poll_v4_def poll_v6_def Let_def
      collector_new_def observe_def observe_key_def changed_since_def carry_forward_def polled_def retain_def
      apply_deltas_def lookup_or_def ip_stats_default_def dir_stats_default_def)

lemma next_poll:
  assumes "polled t m rx co" "busy_poll secs n ranges idle co = (res, co')" "m < n"
  shows "polled secs n (rx + (n - m)) co'" "pr_stale_traffic res = []" "pr_stale_traffic6 res = []"
    and "\<exists>T. pr_totals res = [busy_ip \<mapsto> T] \<and> it_rx_bytes T = rx + (n - m)"
proof -
  let ?d = "\<lparr>de_rx_bytes = n - m, de_tx_bytes = 0, de_rx_packets = 0, de_tx_packets = 0\<rparr>"
  have "n - m \<noteq> 0" using assms(3) by auto
  then have d: "key_delta True [busy_key \<mapsto> busy_value m] [busy_key \<mapsto> busy_value n] busy_key = Some ?d"
    using assms(3) by (simp add: key_delta_def base_sample_def delta_between_def busy_value_def sat_sub_def delta_is_zero_def
        less_imp_le not_le)
  have neq: "busy_value m \<noteq> busy_value n" using assms(3) by (auto simp: busy_value_def)
  let ?e = "max (secs_f64 (unat secs * 1000000000 - unat t * 1000000000)) (f64_round (1 / 1000))"
  let ?totals = "\<lambda>ip. map_option zero_rates (retain (\<lambda>ip _. busy_ip = ip) (co_totals co) ip)"
  have co: "co_primed co" "co_last_poll co = Some (unat t * 1000000000)" "co_prev co = [busy_key \<mapsto> busy_value m]"
    "dom (co_totals co) \<subseteq> {busy_ip}" "sd_bytes (is_rx (lookup_or ip_stats_default (co_totals co) busy_ip)) = rx"
    using assms(1) by (simp_all add: polled_def)
  have deltas: "add_key_delta True [busy_key \<mapsto> busy_value m] [busy_key \<mapsto> busy_value n] busy_key Map.empty
      = [busy_ip \<mapsto> ?d]"
    by (simp add: add_key_delta_def d delta_add_def delta_default_def)
  have idle: "retain (\<lambda>k _. k = busy_key) ((co_idle4 co)(busy_key \<mapsto> 0)) = [busy_key \<mapsto> 0]"
    by (auto simp: retain_def split: option.split)
  have v4: "poll_v4 (tk_orders (busy_tick secs n))
        \<lparr>pi_cur = [busy_key \<mapsto> busy_value n], pi_cur6 = Map.empty, pi_cur_policer = Map.empty, pi_incomplete = False\<rparr>
        ?e True (co\<lparr>co_last_poll := x\<rparr>)
      = (apply_deltas ?e [busy_ip \<mapsto> ?d] ?totals, [busy_key \<mapsto> 0], [])" for x
    using co(3) neq deltas
    by (simp add: poll_v4_def busy_tick_def positive_time Let_def observe_def observe_key_def changed_since_def idle)
  have rx: "sd_bytes (is_rx (lookup_or ip_stats_default ?totals busy_ip)) = rx"
    using co(5) by (auto simp: lookup_or_def retain_def zero_rates_def ip_stats_default_def dir_stats_default_def
        split: option.splits)
  let ?T = "apply_deltas ?e [busy_ip \<mapsto> ?d] ?totals"
  have totals: "?T ip = (if ip = busy_ip then Some (apply_delta ?e ?d (lookup_or ip_stats_default ?totals busy_ip)) else None)" for ip
    by (simp add: apply_deltas_def retain_def split: option.split)
  have bytes: "sd_bytes (is_rx (apply_delta ?e ?d s)) = sd_bytes (is_rx s) + (n - m)" for s
    by (simp add: apply_delta_def set_rate_def add_counts_def)
  have done_: "pr_totals res = (\<lambda>ip. map_option ip_totals_of (?T ip))" "pr_stale_traffic res = []" "pr_stale_traffic6 res = []"
    "co_primed co'" "co_last_poll co' = Some (unat secs * 1000000000)" "co_prev co' = [busy_key \<mapsto> busy_value n]"
    "co_totals co' = ?T"
    using assms(2) co(1,2) v4
    by (auto simp: busy_poll_def poll_def busy_tick_def busy_read apply_poll_def poll_v6_def observe_def Let_def
        carry_forward_def)
  show "pr_stale_traffic res = []" "pr_stale_traffic6 res = []" by (rule done_)+
  show "polled secs n (rx + (n - m)) co'"
  proof -
    have "co_totals co' busy_ip = Some (apply_delta ?e ?d (lookup_or ip_stats_default ?totals busy_ip))"
      unfolding done_(7) totals by simp
    from lookup_or_simps(2) [where m = "co_totals co'" and k = busy_ip and d = ip_stats_default, OF this]
    have "sd_bytes (is_rx (lookup_or ip_stats_default (co_totals co') busy_ip)) = rx + (n - m)"
      by (simp add: bytes rx del: lookup_or_simps)
    moreover have "dom (co_totals co') \<subseteq> {busy_ip}" using totals by (auto simp: done_(7) split: if_splits)
    ultimately show ?thesis using done_(4-6) by (simp add: polled_def)
  qed
  show "\<exists>T. pr_totals res = [busy_ip \<mapsto> T] \<and> it_rx_bytes T = rx + (n - m)"
    by (intro exI [of _ "ip_totals_of (apply_delta ?e ?d (lookup_or ip_stats_default ?totals busy_ip))"])
      (auto simp: done_(1) totals fun_eq_iff ip_totals_of_def bytes rx)
qed

subsection \<open>The limiter of a busy VM\<close>

definition busy_flow :: flow_key where "busy_flow = (busy_ip, DIR_RX)"

definition busy_dir :: dir_policy where
  "busy_dir = \<lparr>dpo_threshold_bps = 20000000, dpo_limit_bps = 10000000, dpo_window_secs = 2, dpo_trigger_ratio_pct = 80,
     dpo_limit_duration_secs = 600, dpo_burst_bytes = 65536, dpo_algorithm = ALGO_GCRA, dpo_limit_window_secs = 0\<rparr>"

lemma busy_resolved: "resolve sample_fields_parsed None = Inr \<lparr>ep_rx = Some busy_dir, ep_tx = None\<rparr>"
  by (simp add: resolve_def sample_fields_parsed_def policy_fields_default_def merged_with_def build_dir_def
      is_bucket_algo_def is_window_algo_def algo_defs Let_def busy_dir_def)

text \<open>A limiter that watches the VM and has not limited it: its window holds the samples \<open>xs\<close>.\<close>

definition watching :: "u64 list \<Rightarrow> limiter \<Rightarrow> bool" where
  "watching xs l \<longleftrightarrow> lm_tick_secs l = 2 \<and> effective_policy_of l busy_ip = Some \<lparr>ep_rx = Some busy_dir, ep_tx = None\<rparr>
     \<and> (\<forall>flow. lm_states l flow \<in> {None, Some dir_state_default}) \<and> dom (lm_windows l) \<subseteq> {busy_flow}
     \<and> window_rel xs (unwrap_or (rw_new 2 2) (lm_windows l busy_flow))
     \<and> length (rw_ring (unwrap_or (rw_new 2 2) (lm_windows l busy_flow))) = 1
     \<and> rw_tick_secs (unwrap_or (rw_new 2 2) (lm_windows l busy_flow)) = 2"

lemma busy_order: "some_order ({} :: u32 set) = []" "some_order {ip :: u32} = [ip]"
proof -
  have o: "distinct (some_order A)" "finite A \<Longrightarrow> set (some_order A) = A" for A :: "u32 set"
    using some_order [where 'a = u32] by (simp_all add: iterates_def)
  show "some_order ({} :: u32 set) = []" using o(2) [of "{}"] by simp
  have s: "set (some_order {ip}) = {ip}" "distinct (some_order {ip})" using o(1) o(2) [of "{ip}"] by simp_all
  then have "length (some_order {ip}) = 1" using distinct_card [of "some_order {ip}"] by simp
  then obtain x where "some_order {ip} = [x]" by (auto simp: length_Suc_conv)
  with s(1) show "some_order {ip} = [ip]" by simp
qed

lemma watching_ips:
  assumes "watching xs l"
  shows "tick_ips l [busy_ip \<mapsto> T] = {busy_ip}"
proof -
  have "\<not> is_limited_state (lm_states l flow)" for flow
  proof -
    have "lm_states l flow \<in> {None, Some dir_state_default}" using assms unfolding watching_def by blast
    then show ?thesis by (auto simp: is_limited_state_def dir_state_default_def)
  qed
  moreover have "fst ` dom (lm_windows l) \<subseteq> {busy_ip}" using assms by (auto simp: watching_def busy_flow_def)
  ultimately show ?thesis by (auto simp: tick_ips_def)
qed

lemma watching_tick:
  assumes "watching xs l" "small_samples [d]"
    and "d = (case lm_prev_totals l busy_ip of None \<Rightarrow> 0 | Some p \<Rightarrow> sat_sub (it_rx_bytes T) (it_rx_bytes p))"
    and "tick [busy_ip] now [busy_ip \<mapsto> T] l = (l', as)" "8 * unat d < 2 ^ 53"
  shows "as = (if 32000000 \<le> 8 * unat d then [install_of busy_flow busy_dir] else [])"
    and "lm_prev_totals l' busy_ip = Some T" "as = [] \<Longrightarrow> watching (xs @ [d]) l'"
proof -
  have w: "lm_tick_secs l = 2" "effective_policy_of l busy_ip = Some \<lparr>ep_rx = Some busy_dir, ep_tx = None\<rparr>"
    "dom (lm_windows l) \<subseteq> {busy_flow}" "\<forall>flow. lm_states l flow \<in> {None, Some dir_state_default}"
    using assms(1) unfolding watching_def by blast+
  have st: "unwrap_or dir_state_default (lm_states l busy_flow) = dir_state_default"
    using w(4) [THEN spec, of busy_flow] by (auto simp: unwrap_or_def)
  let ?w = "unwrap_or (rw_new 2 2) (lm_windows l busy_flow)"
  have win: "window_rel xs ?w" "length (rw_ring ?w) = 1" "rw_tick_secs ?w = 2"
    using assms(1) by (simp_all add: watching_def)
  have rel: "window_rel (xs @ [d]) (rw_add d ?w)" using rw_fold_rel [OF win(1) assms(2)] by simp
  have full: "rw_is_full (rw_add d ?w)" using rw_is_full_iff [OF rel] win(2) by simp
  have recent: "recent_bytes 1 (xs @ [d]) = unat d" by (simp add: recent_bytes_def)
  have trigger: "unat (trigger_bps busy_dir) = 16000000" by (simp add: trigger_bps_def busy_dir_def sat_mul_def)
  have avg: "f64_of_nat (unat (trigger_bps busy_dir)) \<le> rw_average_bps (rw_add d ?w) \<longleftrightarrow> 32000000 \<le> 8 * unat d"
    using rw_average_full [OF rel full, of 16000000] win(2,3) recent assms(5)
    by (simp add: trigger window_secs_nat_def)
  have secs: "dpo_window_secs busy_dir = 2" by (simp add: busy_dir_def)
  have phase: "ds_phase dir_state_default = Normal" by (simp add: dir_state_default_def)
  let ?l = "l\<lparr>lm_expired := Map.empty, lm_prev_totals := (lm_prev_totals l)(busy_ip \<mapsto> T)\<rparr>"
  let ?res = "let l1 = ?l\<lparr>lm_windows := (lm_windows l)(busy_flow \<mapsto> rw_add d ?w)\<rparr> in
      if 32000000 \<le> 8 * unat d
      then (l1\<lparr>lm_states := (lm_states l)(busy_flow \<mapsto> \<lparr>ds_phase = Limited, ds_limited_since = now,
             ds_limited_until = sat_add now (dpo_limit_duration_secs busy_dir), ds_applied = Some busy_dir\<rparr>)\<rparr>,
            [install_of busy_flow busy_dir])
      else (l1\<lparr>lm_states := (lm_states l)(busy_flow \<mapsto> dir_state_default)\<rparr>, [])"
  have "tick [busy_ip] now [busy_ip \<mapsto> T] l = eval_dir busy_ip DIR_RX (Some busy_dir) d now (?l, [])"
    using w(2) by (simp add: tick_def tick_ip_def effective_policy_of_def Let_def assms(3) split: option.split)
  also have "\<dots> = ?res"
    using w(1) st full avg by (simp add: eval_dir_def Let_def busy_flow_def [symmetric] secs phase)
  finally have t: "(l', as) = ?res" using assms(4) by simp
  then show "as = (if 32000000 \<le> 8 * unat d then [install_of busy_flow busy_dir] else [])"
    "lm_prev_totals l' busy_ip = Some T"
    by (auto simp: Let_def split: if_splits)
  show "watching (xs @ [d]) l'" if "as = []"
  proof -
    have "l' = l\<lparr>lm_expired := Map.empty, lm_prev_totals := (lm_prev_totals l)(busy_ip \<mapsto> T),
        lm_windows := (lm_windows l)(busy_flow \<mapsto> rw_add d ?w), lm_states := (lm_states l)(busy_flow \<mapsto> dir_state_default)\<rparr>"
      using t that by (simp add: Let_def split: if_splits)
    with w win rel show ?thesis by (auto simp: watching_def effective_policy_of_def)
  qed
qed

subsection \<open>Maps without refusals\<close>

definition calm :: "world \<Rightarrow> bool" where
  "calm w \<longleftrightarrow> wo_refused w = (\<lambda>_. None) \<and> wo_frames w = (\<lambda>_. [])"

lemma calm_call:
  "calm w \<Longrightarrow> syscall lpm f w = (fst (f (wo_maps w)), w\<lparr>wo_maps := snd (f (wo_maps w)), wo_calls := Suc (wo_calls w)\<rparr>)"
  by (simp add: calm_def syscall_def let_frames_def Let_def case_prod_beta)

lemma calm_updates [simp]:
  "calm (w\<lparr>wo_maps := s, wo_calls := n\<rparr>) = calm w"
  by (simp add: calm_def)

lemma calm_prefixes:
  "calm w \<Longrightarrow> \<exists>w'. insert_prefixes pf cs w = (Inr (), w') \<and> calm w' \<and> dp_policies (wo_maps w') = dp_policies (wo_maps w)"
proof (induction cs arbitrary: w)
  case (Cons c cs)
  let ?w = "w\<lparr>wo_maps := (wo_maps w)\<lparr>dp_monitored := insert (trie_key c) (dp_monitored (wo_maps w))\<rparr>, wo_calls := Suc (wo_calls w)\<rparr>"
  have "wl_insert (engine_wl pf) c w = (Inr (), ?w)"
    by (simp add: engine_whitelist_def calm_call [OF Cons.prems] into_error_def)
  with Cons.IH [of ?w] Cons.prems show ?case by simp
qed simp

definition after_call :: "dp_state \<Rightarrow> world \<Rightarrow> world" where
  "after_call s w = w\<lparr>wo_maps := s, wo_calls := Suc (wo_calls w)\<rparr>"

lemma after_call_simps [simp]: "calm (after_call s w) = calm w" "wo_maps (after_call s w) = s"
  by (simp_all add: after_call_def)

lemma calm_operations:
  assumes "calm w"
  shows "get_policy (engine_maps lpm describe) k w = (Inr (dp_policies (wo_maps w) k), after_call (wo_maps w) w)"
    and "a \<noteq> ALGO_SLIDING_WINDOW_LOG \<Longrightarrow> write_fresh_state (engine_maps lpm describe) k a w =
      (Inr (), after_call ((wo_maps w)\<lparr>dp_limit_state := (dp_limit_state (wo_maps w))(k \<mapsto> limit_state_default)\<rparr>) w)"
    and "arm_policy (engine_maps lpm describe) k p w =
      (Inr (), after_call ((wo_maps w)\<lparr>dp_policies := (dp_policies (wo_maps w))(k \<mapsto> p)\<rparr>) w)"
  by (simp_all add: engine_maps_def calm_call [OF assms] map_get_def into_error_def after_call_def split: option.split)

lemma calm_install_limit:
  assumes "calm w" "dp_policies (wo_maps w) k = None" "lp_algorithm p \<noteq> ALGO_SLIDING_WINDOW_LOG"
  shows "\<exists>j' w'. install_limit (engine_maps lpm describe) k p (j, w) = (Inr (), (j', w'))
    \<and> dp_policies (wo_maps w') k = Some p \<and> dp_limit_state (wo_maps w') k = Some limit_state_default"
  using assms
  by (simp add: install_limit_def and_then_def on_maps_def in_journal_def modify_def last_install_def ok_of_def
      calm_operations)

lemma calm_install:
  assumes "calm w" "dp_policies (wo_maps w) (limit_key_new (fst flow) (snd flow)) = None"
    and "dpo_algorithm np \<noteq> ALGO_SLIDING_WINDOW_LOG"
    and "apply_tick_actions (engine_limit_maps pf) (engine_wl pf) [install_of flow np] (l, w) = (fs, l', w')"
  shows "fs = []" "l' = l" "dp_policies (wo_maps w') (limit_key_new (fst flow) (snd flow)) = Some (installed_policy np)"
    "dp_limit_state (wo_maps w') (limit_key_new (fst flow) (snd flow)) = Some limit_state_default"
proof -
  let ?k = "limit_key_new (fst flow) (snd flow)"
  obtain j1 w1 where i: "install_limit (engine_limit_maps pf) ?k (installed_policy np) (tx_journal_default, w) = (Inr (), (j1, w1))"
    "dp_policies (wo_maps w1) ?k = Some (installed_policy np)" "dp_limit_state (wo_maps w1) ?k = Some limit_state_default"
    using calm_install_limit [OF assms(1,2), of "installed_policy np" "pf_lpm pf" "pf_describe pf" tx_journal_default] assms(3)
    by (auto simp: installed_policy_def)
  then have "run_limit_actions (engine_limit_maps pf) [install_of flow np] (tx_journal_default, w) = (Inr (), (j1, w1))"
    by (simp add: run_limit_actions_def install_of_def and_then_def ok_of_def with_context_def installed_policy_def)
  then have "(fs, l', w') = ([], l, w1)"
    using assms(4) by (simp add: apply_tick_actions_def apply_tick_action_def is_remove_def install_of_def split: prod.splits)
  with i(2,3) show "fs = []" "l' = l" "dp_policies (wo_maps w') ?k = Some (installed_policy np)"
    "dp_limit_state (wo_maps w') ?k = Some limit_state_default" by simp_all
qed

subsection \<open>A daemon that limits a flow\<close>

lemma collect_busy:
  assumes "busy_poll secs n (config_ranges (ct_config (en_control E))) (vc_show_idle_ips (ct_config (en_control E)))
      (ct_collector (en_control E)) = (res, co)"
    and "pr_stale_traffic res = []" "pr_stale_traffic6 res = []"
    and "limiter_tick pf (busy_tick secs n) (pr_totals res) (ct_limiter (en_control E), en_world E) = ([], l, w)"
  shows "en_control (collect_tick pf (busy_tick secs n) E) = (en_control E)\<lparr>ct_limiter := l, ct_collector := co\<rparr>"
    and "en_world (collect_tick pf (busy_tick secs n) E) = w"
    and "en_health (collect_tick pf (busy_tick secs n) E) = en_health E"
  using assms
  by (simp_all add: collect_tick_def busy_poll_def Let_def remove_counter_keys_def)

lemma busy_ticks_iterate: "iterates (tk_ips (busy_tick secs n))"
  by (simp add: busy_tick_def some_order)

text \<open>The daemon between its polls.\<close>

definition busy :: "validated_config \<Rightarrow> u64 list \<Rightarrow> engine \<Rightarrow> bool" where
  "busy cfg xs E \<longleftrightarrow> timed_run sample_platform E \<and> \<not> rh_degraded (en_health E) \<and> ct_config (en_control E) = cfg
     \<and> calm (en_world E) \<and> dp_policies (wo_maps (en_world E)) (limit_key_new (fst busy_flow) (snd busy_flow)) = None
     \<and> watching xs (ct_limiter (en_control E))"

lemma busy_started:
  obtains E cfg where "busy cfg [] E" "ct_collector (en_control E) = collector_new"
    "lm_prev_totals (ct_limiter (en_control E)) = Map.empty" "lm_windows (ct_limiter (en_control E)) = Map.empty"
    "config_ranges cfg = [sample_range]"
proof -
  obtain E where E: "start_daemon sample_platform sample_start = Inr E" "\<not> rh_degraded (en_health E)"
    "config_ranges (ct_config (en_control E)) = [sample_range]" "lm_states (ct_limiter (en_control E)) = Map.empty"
    by (rule sample_started)
  have run: "timed_run sample_platform E"
    by (rule timed_start [OF _ _ _ E(1), of sample_world])
      (simp_all add: sample_start_def fresh_world_def sample_world_def clocks_ok_def)
  from E(1) show ?thesis
  proof (cases rule: start_cases)
    case (1 bytes cfg w w1 taps plan)
    let ?l = "limiter_new (vc_refresh_interval_ms cfg div 1000)"
    have parsed: "parse (\<lambda>_. Inr sample_config) (\<lambda>_. Inl []) (map (\<lambda>b. char_of (unat b)) bytes) = Inr cfg"
      using 1(2) by (auto simp: parse_config_def sample_platform_def map_err_def split: if_splits sum.splits)
    have "parse (\<lambda>_. Inr sample_config) (\<lambda>_. Inl []) doc = parse (\<lambda>_. Inr sample_config) (\<lambda>_. Inl []) []" for doc
      by (simp add: parse_def)
    then have cfg: "vc_ranges cfg = [\<lparr>vr_inner = sample_range, vr_policy = sample_fields_parsed, vr_overrides = Map.empty\<rparr>]"
      using sample_parsed parsed by auto
    have tick: "lm_tick_secs ?l = 2"
      using parse_ranges(5) [OF parsed refl] by (simp add: limiter_new_def sample_config_def max_def word_le_nat_alt)
    have plan: "plan = \<lparr>rp_removes = [], rp_installs = [], rp_new_ranges = [\<lparr>pr_start = ir_start sample_range,
        pr_end = ir_end sample_range, pr_policy = \<lparr>ep_rx = Some busy_dir, ep_tx = None\<rparr>\<rparr>], rp_new_overrides = Map.empty,
        rp_flow_resets = [], rp_flow_updates = []\<rparr>"
      using 1(4) by (simp add: plan_reload_def build_index_def cfg index_range_def busy_resolved sample_start_def)
    have l: "ct_limiter (en_control E) = commit_reload plan ?l" "en_world E = w1" "ct_config (en_control E) = cfg"
      "ct_collector (en_control E) = collector_new"
      by (simp_all add: 1(5) engine_new_fields)
    have "lm_tick_secs (commit_reload plan ?l) = 2" "lm_windows (commit_reload plan ?l) = Map.empty"
      "lm_prev_totals (commit_reload plan ?l) = Map.empty"
      "effective_policy_of (commit_reload plan ?l) busy_ip = Some \<lparr>ep_rx = Some busy_dir, ep_tx = None\<rparr>"
      using tick
      by (auto simp: commit_reload_def plan Let_def keep_window_def limiter_new_def retain_def effective_policy_of_def
          lookup_def sample_range_def busy_ip_def ep_is_empty_def fun_eq_iff)
    moreover have "length (rw_ring (rw_new 2 2)) = 1" "rw_tick_secs (rw_new 2 2) = 2"
      by (simp_all add: rw_new_def Let_def MAX_SAMPLES_def max_def word_le_nat_alt)
    ultimately have "watching [] (ct_limiter (en_control E))"
      using E(4) by (simp add: watching_def l(1) rw_new_rel)
    moreover have "w = sample_world" using 1(1) by (simp add: sample_start_def)
    then have "calm w1 \<and> dp_policies (wo_maps w1) = Map.empty"
      using calm_prefixes [of w sample_platform "concat (map (\<lambda>r. cidrs (vr_inner r)) (vc_ranges cfg))"] 1(3)
      by (simp add: calm_def sample_world_def empty_maps_def)
    ultimately have "busy cfg [] E" using run E(2) l(2,3) by (simp add: busy_def)
    with that show ?thesis
      using l E(3) \<open>lm_windows (commit_reload plan ?l) = Map.empty\<close> \<open>lm_prev_totals (commit_reload plan ?l) = Map.empty\<close>
      by simp
  qed
qed

lemma busy_collect:
  assumes "busy cfg xs E" "busy_poll secs n (config_ranges cfg) (vc_show_idle_ips cfg) (ct_collector (en_control E)) = (res, co)"
    and "pr_stale_traffic res = []" "pr_stale_traffic6 res = []"
    and "limiter_tick sample_platform (busy_tick secs n) (pr_totals res) (ct_limiter (en_control E), en_world E) = ([], l, w)"
  obtains E' where "timed_run sample_platform E'" "\<not> rh_degraded (en_health E')" "ct_config (en_control E') = cfg"
    "ct_limiter (en_control E') = l" "ct_collector (en_control E') = co" "en_world E' = w"
proof -
  let ?E = "collect_tick sample_platform (busy_tick secs n) E"
  have "timed_run sample_platform ?E"
    using assms(1) by (intro timed_op [OF _ engine_op.collect] busy_ticks_iterate) (simp add: busy_def)
  moreover have "ct_config (en_control E) = cfg" using assms(1) by (simp add: busy_def)
  note collect_busy [OF assms(2) [folded this] assms(3-5)]
  ultimately show ?thesis using assms(1) by (intro that [of ?E]) (simp_all add: busy_def)
qed

text \<open>The first poll starts the collector, the second shows the limiter the VM, the third its traffic.\<close>

lemma busy_first:
  obtains E cfg where "busy cfg [] E" "polled 2 0 0 (ct_collector (en_control E))"
    "lm_prev_totals (ct_limiter (en_control E)) = Map.empty" "config_ranges cfg = [sample_range]"
proof -
  obtain E cfg where E: "busy cfg [] E" "ct_collector (en_control E) = collector_new"
    "lm_prev_totals (ct_limiter (en_control E)) = Map.empty" "lm_windows (ct_limiter (en_control E)) = Map.empty"
    "config_ranges cfg = [sample_range]" by (rule busy_started)
  let ?l = "ct_limiter (en_control E)"
  obtain res co where p: "busy_poll 2 0 (config_ranges cfg) (vc_show_idle_ips cfg) (ct_collector (en_control E)) = (res, co)"
    by force
  note f = first_poll [OF p [unfolded E(2)]]
  have w: "watching [] ?l" using E(1) by (simp add: busy_def)
  have "\<not> is_limited_state (lm_states ?l flow)" for flow
  proof -
    have "lm_states ?l flow \<in> {None, Some dir_state_default}" using w unfolding watching_def by blast
    then show ?thesis by (auto simp: is_limited_state_def dir_state_default_def)
  qed
  then have "tick_ips ?l Map.empty = {}" by (simp add: tick_ips_def E(4))
  then have "limiter_tick sample_platform (busy_tick 2 0) (pr_totals res) (?l, en_world E)
      = ([], ?l\<lparr>lm_expired := Map.empty\<rparr>, en_world E)"
    by (simp add: limiter_tick_def f(2) busy_tick_def busy_order tick_def)
  from busy_collect [OF E(1) p f(3,4) this] obtain E' where E': "timed_run sample_platform E'"
    "\<not> rh_degraded (en_health E')" "ct_config (en_control E') = cfg"
    "ct_limiter (en_control E') = ?l\<lparr>lm_expired := Map.empty\<rparr>" "ct_collector (en_control E') = co"
    "en_world E' = en_world E" .
  have "busy cfg [] E'" using E(1) E' by (simp add: busy_def watching_def effective_policy_of_def)
  with that show ?thesis using E' f(1) E(3,5) by simp
qed

lemma busy_limiter_tick:
  assumes "watching xs l" "tick [busy_ip] secs [busy_ip \<mapsto> T] l = (l', as)"
  shows "limiter_tick pf (busy_tick secs n) [busy_ip \<mapsto> T] (l, w) =
    (if as = [] then ([], l', w) else apply_tick_actions (engine_limit_maps pf) (engine_wl pf) as (l', w))"
  using assms(2) by (simp add: limiter_tick_def busy_tick_def watching_ips [OF assms(1)] busy_order)

lemma busy_second:
  obtains E cfg T where "busy cfg [0] E" "polled 4 1000 1000 (ct_collector (en_control E))"
    "lm_prev_totals (ct_limiter (en_control E)) busy_ip = Some T" "it_rx_bytes T = 1000" "config_ranges cfg = [sample_range]"
proof -
  obtain E cfg where E: "busy cfg [] E" "polled 2 0 0 (ct_collector (en_control E))"
    "lm_prev_totals (ct_limiter (en_control E)) = Map.empty" "config_ranges cfg = [sample_range]" by (rule busy_first)
  let ?l = "ct_limiter (en_control E)"
  obtain res co where p: "busy_poll 4 1000 (config_ranges cfg) (vc_show_idle_ips cfg) (ct_collector (en_control E)) = (res, co)"
    by force
  have "(0 :: u64) < 1000" by simp
  note n = next_poll [OF E(2) p this]
  obtain T where T: "pr_totals res = [busy_ip \<mapsto> T]" "it_rx_bytes T = 1000" using n(4) by auto
  have w: "watching [] ?l" using E(1) by (simp add: busy_def)
  obtain l as where t: "tick [busy_ip] 4 [busy_ip \<mapsto> T] ?l = (l, as)" by force
  have "0 = (case lm_prev_totals ?l busy_ip of None \<Rightarrow> 0 | Some p \<Rightarrow> sat_sub (it_rx_bytes T) (it_rx_bytes p))"
    by (simp add: E(3))
  note w' = watching_tick [OF w _ this t]
  have as: "as = []" "lm_prev_totals l busy_ip = Some T" "watching [0] l" using w' by (simp_all add: small_samples_def)
  then have "limiter_tick sample_platform (busy_tick 4 1000) (pr_totals res) (?l, en_world E) = ([], l, en_world E)"
    by (simp add: T(1) busy_limiter_tick [OF w t])
  from busy_collect [OF E(1) p n(2,3) this] obtain E' where E': "timed_run sample_platform E'"
    "\<not> rh_degraded (en_health E')" "ct_config (en_control E') = cfg" "ct_limiter (en_control E') = l"
    "ct_collector (en_control E') = co" "en_world E' = en_world E" .
  have "busy cfg [0] E'" using E(1) E' as(3) by (simp add: busy_def)
  with that [of cfg E' T] show ?thesis using E' n(1) as(2) T(2) E(4) by simp
qed

lemma busy_limited:
  obtains E where "timed_run sample_platform E" "\<not> rh_degraded (en_health E)"
    "dp_policies (wo_maps (en_world E)) (limit_key_new busy_ip DIR_RX) = Some (installed_policy busy_dir)"
    "dp_limit_state (wo_maps (en_world E)) (limit_key_new busy_ip DIR_RX) = Some limit_state_default"
    "sample_lpm (dp_monitored (wo_maps (en_world E))) busy_ip"
proof -
  obtain E cfg T0 where E: "busy cfg [0] E" "polled 4 1000 1000 (ct_collector (en_control E))"
    "lm_prev_totals (ct_limiter (en_control E)) busy_ip = Some T0" "it_rx_bytes T0 = 1000"
    "config_ranges cfg = [sample_range]" by (rule busy_second)
  let ?l = "ct_limiter (en_control E)"
  obtain res co where p: "busy_poll 6 10001000 (config_ranges cfg) (vc_show_idle_ips cfg) (ct_collector (en_control E)) = (res, co)"
    by force
  have "(1000 :: u64) < 10001000" by simp
  note n = next_poll [OF E(2) p this]
  obtain T where T: "pr_totals res = [busy_ip \<mapsto> T]" "it_rx_bytes T = 10001000" using n(4) by auto
  have w: "watching [0] ?l" using E(1) by (simp add: busy_def)
  obtain l as where t: "tick [busy_ip] 6 [busy_ip \<mapsto> T] ?l = (l, as)" by force
  have "10000000 = (case lm_prev_totals ?l busy_ip of None \<Rightarrow> 0 | Some p \<Rightarrow> sat_sub (it_rx_bytes T) (it_rx_bytes p))"
    by (simp add: E(3,4) T(2) sat_sub_def)
  note w' = watching_tick [OF w _ this t]
  have as: "as = [install_of busy_flow busy_dir]" using w'(1) by (simp add: small_samples_def)
  obtain fs l' world where a: "apply_tick_actions (engine_limit_maps sample_platform) (engine_wl sample_platform)
      [install_of busy_flow busy_dir] (l, en_world E) = (fs, l', world)" by (metis prod_cases3)
  have calm: "calm (en_world E)" "dp_policies (wo_maps (en_world E)) (limit_key_new (fst busy_flow) (snd busy_flow)) = None"
    using E(1) by (simp_all add: busy_def)
  have "dpo_algorithm busy_dir \<noteq> ALGO_SLIDING_WINDOW_LOG" by (simp add: busy_dir_def algo_defs)
  note i = calm_install [OF calm this a]
  then have "limiter_tick sample_platform (busy_tick 6 10001000) (pr_totals res) (?l, en_world E) = ([], l, world)"
    using a by (simp add: T(1) busy_limiter_tick [OF w t] as)
  from busy_collect [OF E(1) p n(2,3) this] obtain E' where E': "timed_run sample_platform E'"
    "\<not> rh_degraded (en_health E')" "ct_config (en_control E') = cfg" "en_world E' = world" .
  have "world_prefixes (en_world E') = prefix_set cfg"
    using run_ok [OF timed_is_run [OF E'(1)]] E'(2,3) by (simp add: engine_ok_def agrees_def)
  moreover have "lpm_law sample_lpm" by (simp add: lpm_law_def sample_lpm_def)
  ultimately have "sample_lpm (dp_monitored (wo_maps (en_world E'))) busy_ip \<longleftrightarrow>
      (\<exists>vr \<in> set (vc_ranges cfg). range_contains (vr_inner vr) busy_ip)" by (intro monitored_iff_configured)
  moreover have "sample_range \<in> vr_inner ` set (vc_ranges cfg)"
    using arg_cong [OF E(5), of set] by (simp add: config_ranges_def)
  then obtain vr where "vr \<in> set (vc_ranges cfg)" "vr_inner vr = sample_range" by force
  then have "\<exists>vr \<in> set (vc_ranges cfg). range_contains (vr_inner vr) busy_ip"
    by (intro bexI [of _ vr]) (simp_all add: sample_range_def range_contains_def busy_ip_def)
  ultimately have "sample_lpm (dp_monitored (wo_maps (en_world E'))) busy_ip" by simp
  with that [OF E'(1,2)] show ?thesis using i(3,4) E'(4) by (simp add: busy_flow_def)
qed

text \<open>Two frames for the VM on this daemon.\<close>

definition busy_frame :: "u32 \<Rightarrow> tc_context" where
  "busy_frame len = (sample_frame [ETHERTYPE_IPV4] len)\<lparr>load_ipv4 := (\<lambda>off. if off = 14
     then Some \<lparr>src_addr = 10, dst_addr = busy_ip\<rparr> else None)\<rparr>"

definition busy_events :: "event list" where
  "busy_events = [(sample_env 1000, busy_frame 1500, False), (sample_env 2000, busy_frame 60000, False)]"

lemma busy_address: "frame_address (busy_frame len) False = Some busy_ip"
proof -
  have "walk_frame (busy_frame len) = Some (14, ETHERTYPE_IPV4)"
    by (simp add: walk_frame_def busy_frame_def sample_frame_def is_vlan_tag_def vlan_walk_def ethertype_defs)
  then show ?thesis by (simp add: frame_address_def) (simp add: busy_frame_def)
qed

lemma busy_flow_frames: "flow_frames busy_ip False busy_events = [(1000, 1500), (2000, 60000)]"
  by (simp add: flow_frames_def busy_events_def in_flow_def busy_address)
    (simp add: busy_frame_def sample_frame_def sample_env_def policeable_def)

lemma daemon_enforces_ceilings_witness:
  "\<exists>E. timed_run sample_platform E
     \<and> dp_policies (wo_maps (en_world E)) (limit_key_new busy_ip DIR_RX) = Some (installed_policy busy_dir)
     \<and> within_ceiling (installed_policy busy_dir) 1000 2000
         (length (passed_frames busy_ip False busy_events (fst (run sample_lpm busy_events (wo_maps (en_world E))))))
         (passed_bytes busy_ip False busy_events (fst (run sample_lpm busy_events (wo_maps (en_world E)))))"
proof -
  obtain E where E: "timed_run sample_platform E"
    "dp_policies (wo_maps (en_world E)) (limit_key_new busy_ip DIR_RX) = Some (installed_policy busy_dir)"
    "sample_lpm (dp_monitored (wo_maps (en_world E))) busy_ip" by (rule busy_limited) blast
  have h: "pf_lpm sample_platform = sample_lpm" "flow_direction False = DIR_RX"
    "lp_algorithm (installed_policy busy_dir) \<noteq> ALGO_SLIDING_WINDOW_LOG"
    "frames_in 1000 2000 (flow_frames busy_ip False busy_events)"
    by (simp_all add: sample_platform_def flow_direction_def installed_policy_def busy_dir_def algo_defs
        busy_flow_frames frame_ok_def)
  from E h daemon_enforces_ceilings [of sample_platform E busy_ip False "installed_policy busy_dir" 1000 2000 busy_events]
  show ?thesis by auto
qed

text \<open>After one frame of 60000 bytes the next one exceeds the tolerance, and the running daemon's data path
  drops it.\<close>

lemma busy_drops:
  obtains E where "engine_run sample_platform E" "\<not> rh_degraded (en_health E)"
    "fst (handle sample_lpm (sample_env 2000) (busy_frame 60000) False (wo_maps (en_world E))) = TC_ACT_SHOT"
proof -
  obtain E where E: "timed_run sample_platform E" "\<not> rh_degraded (en_health E)"
    "dp_policies (wo_maps (en_world E)) (limit_key_new busy_ip DIR_RX) = Some (installed_policy busy_dir)"
    "dp_limit_state (wo_maps (en_world E)) (limit_key_new busy_ip DIR_RX) = Some limit_state_default"
    "sample_lpm (dp_monitored (wo_maps (en_world E))) busy_ip" by (rule busy_limited)
  let ?s = "wo_maps (en_world E)" and ?p = "installed_policy busy_dir" and ?k = "limit_key_new busy_ip (flow_direction False)"
  let ?s' = "snd (handle sample_lpm (sample_env 1000) (busy_frame 60000) False ?s)"
  let ?E = "E\<lparr>en_world := let_frames (pf_lpm sample_platform) [(sample_env 1000, busy_frame 60000, False)] (en_world E)\<rparr>"
  have lpm: "pf_lpm sample_platform = sample_lpm" by (simp add: sample_platform_def)
  have dir: "flow_direction False = DIR_RX" by (simp add: flow_direction_def)
  have len: "skb_len (busy_frame 60000) = 60000" by (simp add: busy_frame_def sample_frame_def)
  have p: "armed ?p" "lp_algorithm ?p = ALGO_GCRA" "lp_algorithm ?p \<noteq> ALGO_SLIDING_WINDOW_LOG" "run_policer ?p = gcra ?p"
    by (simp_all add: armed_def installed_policy_def busy_dir_def algo_defs run_policer_def fun_eq_iff)
  have armed: "flow_armed sample_lpm busy_ip False ?p ?s" using E(3,5) p by (simp add: flow_armed_def dir)
  have flow: "in_flow busy_ip False (sample_env 1000, busy_frame 60000, False)"
    by (simp add: in_flow_def busy_address len policeable_def)
  have maps: "wo_maps (en_world ?E) = ?s'" by (simp add: lpm Let_def case_prod_beta)
  have st: "dp_limit_state ?s' ?k = Some (snd (gcra ?p limit_state_default 1000 60000))"
    using handle_in_flow(2) [OF armed flow] E(4) p(3) by (simp add: dir p(4) len flow_state_def) (simp add: sample_env_def)
  have "\<not> fst (gcra ?p (snd (gcra ?p limit_state_default 1000 60000)) 2000 60000)"
    by (simp add: gcra_def installed_policy_def busy_dir_def limit_state_default_def unit_defs)
  then have refused: "policer_verdict (sample_env 2000) ?k ?p 60000 ?s' = Some False"
    using st p(2-4) by (simp add: policer_verdict_def) (simp add: sample_env_def)
  have "vm_address (busy_frame 60000) False busy_ip" using busy_address frame_address_iff by blast
  then have "fst (handle sample_lpm (sample_env 2000) (busy_frame 60000) False ?s') = TC_ACT_SHOT"
    unfolding handle_shot_iff using E(3,5) p(1) refused
    by (intro exI [of _ busy_ip] exI [of _ ?p]) (simp add: handle_fields dir len policeable_def)
  moreover have "engine_run sample_platform ?E"
    by (rule timed_is_run [OF timed_frames [OF E(1)]]) (simp add: clocks_ok_def sample_env_def)
  ultimately show ?thesis using E(2) maps by (intro that [of ?E]) simp_all
qed

lemma engine_drops_iff_witness:
  "\<exists>E st. engine_run sample_platform E
     \<and> fst (handle sample_lpm (sample_env 2000) (busy_frame 60000) False (wo_maps (en_world E))) = TC_ACT_SHOT
     \<and> lm_states (ct_limiter (en_control E)) busy_flow = Some st \<and> ds_phase st = Limited"
proof -
  obtain E where E: "engine_run sample_platform E" "\<not> rh_degraded (en_health E)"
    "fst (handle sample_lpm (sample_env 2000) (busy_frame 60000) False (wo_maps (en_world E))) = TC_ACT_SHOT"
    by (rule busy_drops)
  have lpm: "pf_lpm sample_platform = sample_lpm" by (simp add: sample_platform_def)
  have "lpm_law (pf_lpm sample_platform)" by (simp add: lpm_law_def sample_lpm_def lpm)
  from engine_drops_iff [OF E(1,2) this, of "sample_env 2000" "busy_frame 60000" False] E(3)
  obtain ip st where st: "vm_address (busy_frame 60000) False ip"
    "lm_states (ct_limiter (en_control E)) (ip, flow_direction False) = Some st" "ds_phase st = Limited"
    unfolding lpm by blast
  have "ip = busy_ip" using st(1) busy_address [of 60000] by (simp add: frame_address_iff [symmetric])
  then show ?thesis using E(1,3) st(2,3) by (auto simp: busy_flow_def flow_direction_def)
qed

text \<open>The daemon that limits the VM also instantiates the statements on the maps of a run.\<close>

lemma armed_policies_have_state_witness:
  "\<exists>E p. engine_run sample_platform E
     \<and> dp_policies (wo_maps (en_world E)) (limit_key_new busy_ip DIR_RX) = Some p
     \<and> dp_limit_state (wo_maps (en_world E)) (limit_key_new busy_ip DIR_RX) \<noteq> None"
proof -
  obtain E where E: "timed_run sample_platform E"
    "dp_policies (wo_maps (en_world E)) (limit_key_new busy_ip DIR_RX) = Some (installed_policy busy_dir)"
    by (rule busy_limited) blast
  have "lp_algorithm (installed_policy busy_dir) \<noteq> ALGO_SLIDING_WINDOW_LOG"
    by (simp add: installed_policy_def busy_dir_def algo_defs)
  with armed_policies_have_state [OF timed_is_run [OF E(1)] insertI1, of "limit_key_new busy_ip DIR_RX"] E(2)
  have "dp_limit_state (wo_maps (en_world E)) (limit_key_new busy_ip DIR_RX) \<noteq> None" by simp
  with timed_is_run [OF E(1)] E(2) show ?thesis by blast
qed

lemma engine_agrees_with_maps_witness:
  "\<exists>E. engine_run sample_platform E \<and> \<not> rh_degraded (en_health E)
     \<and> armed_policies (ct_limiter (en_control E)) busy_flow = Some (installed_policy busy_dir)
     \<and> {c. trie_key c \<in> dp_monitored (wo_maps (en_world E))} = prefix_set (ct_config (en_control E))"
proof -
  obtain E where E: "timed_run sample_platform E" "\<not> rh_degraded (en_health E)"
    "dp_policies (wo_maps (en_world E)) (limit_key_new busy_ip DIR_RX) = Some (installed_policy busy_dir)"
    by (rule busy_limited) blast
  from engine_agrees_with_maps [OF timed_is_run [OF E(1)] E(2), of busy_ip DIR_RX] E(3)
  have "armed_policies (ct_limiter (en_control E)) busy_flow = Some (installed_policy busy_dir)"
    "{c. trie_key c \<in> dp_monitored (wo_maps (en_world E))} = prefix_set (ct_config (en_control E))"
    by (simp_all add: busy_flow_def)
  with timed_is_run [OF E(1)] E(2) show ?thesis by blast
qed

end
