(* ===== verification/Server.thy ===== *)
theory Server
  imports Engine_Safety
begin

section \<open>Server: connections, the watcher and the loop of the daemon\<close>

text \<open>
  The rest of \<open>vm-bandwidth/src/daemon.rs\<close>: \<open>handle_connection\<close> with \<open>send_response\<close>, the filter of
  \<open>spawn_watcher\<close>, and the loop of \<open>run_daemon\<close> with its queue of reload requests and its deadlines; and
  \<open>raise_fd_limit\<close> of \<open>main.rs\<close>. The frames of a connection come from the codec of \<open>tokio_util\<close>, the file
  events from \<open>notify\<close>. Characters that a \<open>char\<close> cannot hold are written in ASCII.
\<close>

subsection \<open>Responses\<close>

datatype send_failure = EncodeFailure string | TooLarge nat nat | WriteFailure string

definition send_failure_text :: "send_failure \<Rightarrow> string" where
  "send_failure_text e =
     (case e of
        EncodeFailure e \<Rightarrow> ''response serialization failed: '' @ e
      | TooLarge body_len limit \<Rightarrow> ''response body of '' @ show_nat body_len @ '' bytes exceeds the '' @ show_nat limit
          @ ''-byte protocol limit''
      | WriteFailure e \<Rightarrow> ''socket write failed: '' @ e)"

definition too_large_message :: "nat \<Rightarrow> string" where
  "too_large_message n =
     ''response body of '' @ show_nat n @ '' bytes exceeds the '' @ show_nat MAX_RESPONSE_FRAME
     @ ''-byte protocol limit; the range detail is bounded by collector.map_max_entries - reduce it or query a ''
     @ ''smaller range''"

text \<open>\<open>refused\<close> says of the \<open>n\<close>th write to the socket whether it fails; \<open>sent\<close> is what has been written.\<close>

definition write_body :: "(nat \<Rightarrow> string option) \<Rightarrow> bytes \<Rightarrow> bytes list \<Rightarrow> string option \<times> bytes list" where
  "write_body refused body sent =
     (case refused (length sent) of Some e \<Rightarrow> (Some e, sent) | None \<Rightarrow> (None, sent @ [body]))"

definition send_response ::
  "(response \<Rightarrow> string + bytes) \<Rightarrow> (nat \<Rightarrow> string option) \<Rightarrow> response \<Rightarrow> bytes list \<Rightarrow> send_failure option \<times> bytes list" where
  "send_response to_vec refused resp sent =
     (case to_vec resp of
        Inl e \<Rightarrow> (Some (EncodeFailure e), sent)
      | Inr body \<Rightarrow>
          if MAX_RESPONSE_FRAME < length body then
            (case to_vec (ErrorReply (too_large_message (length body))) of
               Inl e \<Rightarrow> (Some (EncodeFailure e), sent)
             | Inr err_body \<Rightarrow>
                 (case write_body refused err_body sent of
                    (Some e, sent) \<Rightarrow> (Some (WriteFailure e), sent)
                  | (None, sent) \<Rightarrow> (Some (TooLarge (length body) MAX_RESPONSE_FRAME), sent)))
          else (case write_body refused body sent of
                  (Some e, sent) \<Rightarrow> (Some (WriteFailure e), sent)
                | (None, sent) \<Rightarrow> (None, sent)))"

text \<open>One connection: the frames the codec reads, each a body or its refusal, in turn. \<open>answer\<close> passes a
  request to the engine, which may be gone.\<close>

fun handle_connection ::
  "(response \<Rightarrow> string + bytes) \<Rightarrow> (bytes \<Rightarrow> string + request) \<Rightarrow> (nat \<Rightarrow> string option)
    \<Rightarrow> (request \<Rightarrow> 's \<Rightarrow> response option \<times> 's) \<Rightarrow> (string + bytes) list \<Rightarrow> bytes list \<times> 's \<Rightarrow> bytes list \<times> 's" where
  "handle_connection to_vec from_slice refused answer [] (sent, s) = (sent, s)"
| "handle_connection to_vec from_slice refused answer (Inl e # frames) (sent, s) =
     (snd (send_response to_vec refused (ErrorReply (''request rejected: '' @ e)) sent), s)"
| "handle_connection to_vec from_slice refused answer (Inr body # frames) (sent, s) =
     (case decode from_slice body of
        Inl e \<Rightarrow>
          (case send_response to_vec refused (ErrorReply e) sent of
             (Some _, sent) \<Rightarrow> (sent, s)
           | (None, sent) \<Rightarrow> handle_connection to_vec from_slice refused answer frames (sent, s))
      | Inr req \<Rightarrow>
          (case answer req s of
             (None, s) \<Rightarrow> (sent, s)
           | (Some resp, s) \<Rightarrow>
               (case send_response to_vec refused resp sent of
                  (Some _, sent) \<Rightarrow> (sent, s)
                | (None, sent) \<Rightarrow> handle_connection to_vec from_slice refused answer frames (sent, s))))"

subsection \<open>The watcher\<close>

datatype event_kind =
    ModifyData
  | ModifyName
  | ModifyOther
  | CreateFile
  | CreateAny
  | CreateOther
  | CloseWrite
  | AccessOther
  | OtherKindOfEvent

datatype watch_msg = ReloadRequest | WatchError string

text \<open>Of a path only its file name matters, if it has one.\<close>

record file_event =
  fv_kind :: event_kind
  fv_file_names :: "string option list"

definition content_change :: "event_kind \<Rightarrow> bool" where
  "content_change kind \<longleftrightarrow> kind \<in> {ModifyData, ModifyName} \<or> kind \<in> {CreateFile, CreateAny} \<or> kind = CloseWrite"

definition relevant :: "string \<Rightarrow> file_event list \<Rightarrow> bool" where
  "relevant target_name events \<longleftrightarrow>
     list_ex (\<lambda>e. content_change (fv_kind e)
       \<and> list_ex (\<lambda>p. case p of None \<Rightarrow> False | Some n \<Rightarrow> n = target_name) (fv_file_names e)) events"

fun join_texts :: "string \<Rightarrow> string list \<Rightarrow> string" where
  "join_texts sep [] = []"
| "join_texts sep [s] = s"
| "join_texts sep (s # ss) = s @ sep @ join_texts sep ss"

text \<open>What one debounced batch makes the watcher send.\<close>

definition watch_message :: "string \<Rightarrow> string list + file_event list \<Rightarrow> watch_msg option" where
  "watch_message target_name batch =
     (case batch of
        Inl errs \<Rightarrow> Some (WatchError (join_texts ''; '' errs))
      | Inr events \<Rightarrow> if relevant target_name events then Some ReloadRequest else None)"

subsection \<open>The loop\<close>

definition RELOAD_QUEUE :: nat where "RELOAD_QUEUE = 8"

record daemon_loop =
  dl_engine :: engine
  dl_queue :: "watch_msg list"
  dl_seen_generation :: u64
  dl_next_collect :: nat
  dl_next_scan :: nat
  dl_next_push :: nat

definition loop_intervals :: "daemon_loop \<Rightarrow> timer_intervals" where
  "loop_intervals L = intervals_of (ct_config (en_control (dl_engine L)))"

text \<open>\<open>try_send\<close> gives up on a full channel; a blocking send waits until there is room, so here it happens
  only when there is.\<close>

definition try_send :: "watch_msg \<Rightarrow> daemon_loop \<Rightarrow> daemon_loop" where
  "try_send msg L = (if length (dl_queue L) < RELOAD_QUEUE then L\<lparr>dl_queue := dl_queue L @ [msg]\<rparr> else L)"

text \<open>The arms of the \<open>select\<close>, with the clock where they read it, and what happens beside the loop: frames,
  messages of the watcher, progress of a push. \<open>None\<close>: the loop ends.\<close>

datatype loop_event =
    Interrupted
  | Terminated
  | HangUp
  | NextMessage reload_inputs
  | ConfigChanged nat
  | IpcRequest "flow_key list" "(map_error + limit_key) list" u64 request
  | CollectDue tick_inputs nat
  | ScanDue scan_inputs nat
  | PushDue "u32 list" "u32 list" int nat
  | WatcherSends watch_msg
  | FramesArrive "event list"
  | PushProgress push_counters

definition next_message :: "platform \<Rightarrow> reload_inputs \<Rightarrow> daemon_loop \<Rightarrow> daemon_loop" where
  "next_message pf i L =
     (case dl_queue L of
        [] \<Rightarrow> L
      | ReloadRequest # msgs \<Rightarrow> L\<lparr>dl_queue := msgs, dl_engine := reload pf i (dl_engine L)\<rparr>
      | WatchError e # msgs \<Rightarrow> L\<lparr>dl_queue := msgs, dl_engine := record_watcher_error e (dl_engine L)\<rparr>)"

definition config_changed :: "nat \<Rightarrow> daemon_loop \<Rightarrow> daemon_loop" where
  "config_changed now L =
     (let p = loop_intervals L
      in L\<lparr>dl_seen_generation := rd_config_watch (en_reload (dl_engine L)),
           dl_next_collect := rescheduled (dl_next_collect L) (ti_collect p) now,
           dl_next_scan := rescheduled (dl_next_scan L) (ti_scan p) now,
           dl_next_push := rescheduled (dl_next_push L) (ti_push p) now\<rparr>)"

text \<open>What an iteration hands out: the reply to a client, or the URL and the payload of the push it spawns.\<close>

datatype loop_output = NoOutput | Answer response | SpawnPush string string

definition loop_arm :: "platform \<Rightarrow> loop_event \<Rightarrow> daemon_loop \<Rightarrow> (daemon_loop \<times> loop_output) option" where
  "loop_arm pf ev L =
     (case ev of
        Interrupted \<Rightarrow> None
      | Terminated \<Rightarrow> None
      | HangUp \<Rightarrow> Some (try_send ReloadRequest L, NoOutput)
      | NextMessage i \<Rightarrow> Some (next_message pf i L, NoOutput)
      | ConfigChanged now \<Rightarrow> Some (config_changed now L, NoOutput)
      | IpcRequest flows swl_keys now req \<Rightarrow> Some (L, Answer (handle_request flows swl_keys now (dl_engine L) req))
      | CollectDue i now \<Rightarrow>
          (let L = L\<lparr>dl_engine := collect_tick pf i (dl_engine L)\<rparr>
           in Some (L\<lparr>dl_next_collect := next_deadline (dl_next_collect L) (ti_collect (loop_intervals L)) now\<rparr>, NoOutput))
      | ScanDue i now \<Rightarrow>
          (let L = L\<lparr>dl_engine := rescan_taps pf i (dl_engine L)\<rparr>
           in Some (L\<lparr>dl_next_scan := next_deadline (dl_next_scan L) (ti_scan (loop_intervals L)) now\<rparr>, NoOutput))
      | PushDue ips policer_ips now_ms now \<Rightarrow>
          Some (L\<lparr>dl_next_push := next_deadline (dl_next_push L) (ti_push (loop_intervals L)) now\<rparr>,
            case push_metrics ips policer_ips now_ms (dl_engine L) of
              None \<Rightarrow> NoOutput | Some (url, lines) \<Rightarrow> SpawnPush url lines)
      | WatcherSends msg \<Rightarrow> Some (try_send msg L, NoOutput)
      | FramesArrive evs \<Rightarrow>
          Some (L\<lparr>dl_engine := (dl_engine L)\<lparr>en_world := let_frames (pf_lpm pf) evs (en_world (dl_engine L))\<rparr>\<rparr>, NoOutput)
      | PushProgress c \<Rightarrow> Some (L\<lparr>dl_engine := (dl_engine L)\<lparr>en_push := c\<rparr>\<rparr>, NoOutput))"

text \<open>When an arm can be taken, and what its inputs are known to be: an iteration over a hash map or a set
  visits each entry once.\<close>

definition arm_ready :: "loop_event \<Rightarrow> daemon_loop \<Rightarrow> bool" where
  "arm_ready ev L \<longleftrightarrow>
     (case ev of
        NextMessage i \<Rightarrow> dl_queue L \<noteq> []
          \<and> enumerates (ri_flows i) (lm_states (ct_limiter (en_control (dl_engine L)))) \<and> iterates (ri_prefixes i)
          \<and> iterates (tk_ips (ri_tick i))
      | ConfigChanged now \<Rightarrow> dl_seen_generation L \<noteq> rd_config_watch (en_reload (dl_engine L))
      | CollectDue i now \<Rightarrow> dl_next_collect L \<le> now \<and> iterates (tk_ips i)
      | ScanDue i now \<Rightarrow> dl_next_scan L \<le> now \<and> iterates (sc_pending i)
      | PushDue ips policer_ips now_ms now \<Rightarrow> dl_next_push L \<le> now
      | WatcherSends msg \<Rightarrow> length (dl_queue L) < RELOAD_QUEUE
      | _ \<Rightarrow> True)"

text \<open>The start of the loop: the watcher may have failed, and the file may have changed since it was read.\<close>

definition loop_start :: "string option \<Rightarrow> string + bytes \<Rightarrow> nat \<Rightarrow> engine \<Rightarrow> daemon_loop" where
  "loop_start watcher_error file start E =
     (let E = (case watcher_error of
            None \<Rightarrow> E | Some e \<Rightarrow> record_watcher_error (''cannot watch the config file: '' @ e) E);
          changed = (case file of Inl _ \<Rightarrow> False | Inr bytes \<Rightarrow> bytes \<noteq> rd_last_config_bytes (en_reload E));
          p = intervals_of (ct_config (en_control E))
      in \<lparr>dl_engine = E, dl_queue = (if changed then [ReloadRequest] else []), dl_seen_generation = 1,
          dl_next_collect = start + ti_collect p, dl_next_scan = start + ti_scan p, dl_next_push = start + ti_push p\<rparr>)"

inductive loop_run :: "platform \<Rightarrow> daemon_loop \<Rightarrow> bool" for pf where
  loop_started: "si_world i = Inr w \<Longrightarrow> fresh_world w \<Longrightarrow> start_daemon pf i = Inr E \<Longrightarrow>
    loop_run pf (loop_start watcher_error file start E)"
| loop_arm: "loop_run pf L \<Longrightarrow> arm_ready ev L \<Longrightarrow> loop_arm pf ev L = Some (L', out) \<Longrightarrow> loop_run pf L'"

subsection \<open>Process limits\<close>

text \<open>\<open>getrlimit\<close> gives the soft and the hard limit, if it succeeds; \<open>allowed\<close>: \<open>setrlimit\<close> does.\<close>

definition raise_fd_limit :: "(u64 \<times> u64) option \<Rightarrow> bool \<Rightarrow> u64" where
  "raise_fd_limit limits allowed =
     (case limits of
        None \<Rightarrow> 0
      | Some (cur, mx) \<Rightarrow>
          let want = min mx (push_bit 20 1) in
          if want \<le> cur then cur else if allowed then want else cur)"

subsection \<open>Texts\<close>

definition degraded_summary :: "nat \<Rightarrow> nat \<Rightarrow> string" where
  "degraded_summary failures attempted =
     ''dataplane DEGRADED after rollback: '' @ show_nat failures @ '' of '' @ show_nat attempted
     @ '' step(s) failed; dataplane state may differ from the active configuration - ''
     @ ''inspect the per-step rollback failures above''"

definition traffic_key_display :: "traffic_key \<Rightarrow> string" where
  "traffic_key_display k = ''ipv4 '' @ show_ipv4 (tk_ipv4 k) @ '' ifindex '' @ show_nat (unat (tk_ifindex k))"

definition traffic6_key_display :: "u32 \<Rightarrow> string" where
  "traffic6_key_display k = ''ipv6-aggregate ifindex '' @ show_nat (unat k)"

definition algorithm_name :: "u32 \<Rightarrow> string" where
  "algorithm_name algorithm =
     (if algorithm = ALGO_TOKEN_BUCKET then ''token_bucket''
      else if algorithm = ALGO_LEAKY_BUCKET then ''leaky_bucket''
      else if algorithm = ALGO_FIXED_WINDOW then ''fixed_window''
      else if algorithm = ALGO_SLIDING_WINDOW_COUNTER then ''sliding_window_counter''
      else if algorithm = ALGO_SLIDING_WINDOW_LOG then ''sliding_window_log''
      else if algorithm = ALGO_GCRA then ''gcra''
      else ''unknown'')"

subsection \<open>Every reply finds its request\<close>

text \<open>The client reads \<open>n\<close> replies from the stream, one after the other.\<close>

primrec read_replies :: "(bytes \<Rightarrow> string + response) \<Rightarrow> nat \<Rightarrow> bytes \<Rightarrow> (string + response) list" where
  "read_replies from_slice 0 stream = []"
| "read_replies from_slice (Suc n) stream =
     (let (reply, rest) = read_reply from_slice stream in reply # read_replies from_slice n rest)"

lemma connection_serves:
  assumes "\<forall>r \<in> set reqs. from_req (enc_req r) = Inr r \<and> length (enc (handle_request flows swl_keys now E r)) \<le> MAX_RESPONSE_FRAME"
  shows "handle_connection (\<lambda>v. Inr (enc v)) from_req (\<lambda>_. None)
      (\<lambda>r E. (Some (handle_request flows swl_keys now E r), E)) (map (\<lambda>r. Inr (enc_req r)) reqs) (sent, E)
    = (sent @ map (\<lambda>r. enc (handle_request flows swl_keys now E r)) reqs, E)"
  using assms
  by (induction reqs arbitrary: sent) (simp_all add: decode_def send_response_def write_body_def not_less)

lemma read_one_reply:
  assumes "from_resp body = Inr v" "length body \<le> MAX_RESPONSE_FRAME"
  shows "read_reply from_resp (to_be_bytes (word_of_nat (length body)) @ body @ rest) = (Inr v, rest)"
proof -
  have "length body < 2 ^ 32" using assms(2) by (simp add: MAX_RESPONSE_FRAME_def)
  then have "unat (word_of_nat (length body) :: u32) = length body" by (simp add: unsigned_of_nat take_bit_nat_eq_self)
  then show ?thesis using assms by (simp add: read_reply_def be_bytes_roundtrip validate_frame_len_def decode_def)
qed

lemma read_all_replies:
  assumes "\<forall>v \<in> set vs. from_resp (enc v) = Inr v \<and> length (enc v) \<le> MAX_RESPONSE_FRAME
    \<and> frame (enc v) = to_be_bytes (word_of_nat (length (enc v))) @ enc v"
  shows "read_replies from_resp (length vs) (concat (map (\<lambda>v. frame (enc v)) vs)) = map Inr vs"
  using assms by (induction vs) (simp_all add: read_one_reply)

text \<open>A conversation keeps its order from end to end. For any requests that the client writes on one
  connection, the bytes the daemon writes back are read by the client as exactly the engine's answers,
  one for each request and in the order of the requests, as long as the answers fit into a frame.
  JSON decoding is assumed to invert the encoding on the messages exchanged, and the writing codec to
  put the length in front of a body.\<close>

theorem conversation_in_order:
  assumes "\<forall>r \<in> set reqs. from_req (enc_req r) = Inr r"
    and "\<forall>r \<in> set reqs. from_resp (enc (handle_request flows swl_keys now E r)) = Inr (handle_request flows swl_keys now E r)
      \<and> length (enc (handle_request flows swl_keys now E r)) \<le> MAX_RESPONSE_FRAME"
    and "\<forall>body. length body \<le> MAX_RESPONSE_FRAME \<longrightarrow> frame body = to_be_bytes (word_of_nat (length body)) @ body"
    and "handle_connection (\<lambda>v. Inr (enc v)) from_req (\<lambda>_. None)
      (\<lambda>r E. (Some (handle_request flows swl_keys now E r), E)) (map (\<lambda>r. Inr (enc_req r)) reqs) ([], E) = (sent, E')"
  shows "E' = E
    \<and> read_replies from_resp (length reqs) (concat (map frame sent)) = map (\<lambda>r. Inr (handle_request flows swl_keys now E r)) reqs"
proof -
  let ?ans = "handle_request flows swl_keys now E"
  have "sent = map (\<lambda>r. enc (?ans r)) reqs" "E' = E"
    using connection_serves [of reqs from_req enc_req enc flows swl_keys now E "[]"] assms(1,2,4) by simp_all
  moreover have "read_replies from_resp (length (map ?ans reqs)) (concat (map (\<lambda>v. frame (enc v)) (map ?ans reqs)))
      = map Inr (map ?ans reqs)"
    by (rule read_all_replies) (use assms(2,3) in simp)
  ultimately show ?thesis by (simp add: comp_def)
qed

subsection \<open>The loop is a run of the engine\<close>

lemma loop_arm_engine:
  assumes "arm_ready ev L" "loop_arm pf ev L = Some (L', out)"
  shows "dl_engine L' = dl_engine L \<or> engine_step pf (dl_engine L) (dl_engine L')"
  using assms
  by (cases ev) (auto simp: loop_arm_def arm_ready_def try_send_def next_message_def config_changed_def Let_def
      intro: engine_steps split: list.splits watch_msg.splits if_splits)

text \<open>Whatever the loop of the daemon does, in whatever order its arms become ready, is a run of the
  engine: the loop adds no change of the engine's state of its own. So everything proved of engine runs
  holds at every iteration of the daemon; a request of a client changes nothing and is answered from the state of that moment; and at most
  \<open>RELOAD_QUEUE\<close> reload requests and watcher errors wait at any time.\<close>

theorem loop_refines_engine:
  assumes "loop_run pf L"
  shows "engine_run pf (dl_engine L) \<and> length (dl_queue L) \<le> RELOAD_QUEUE
    \<and> loop_arm pf (IpcRequest flows swl_keys now req) L = Some (L, Answer (handle_request flows swl_keys now (dl_engine L) req))"
  using assms
proof (induction rule: loop_run.induct)
  case (loop_started i w E watcher_error bytes start)
  then have "engine_run pf E" by (rule engine_run.started)
  then have "engine_run pf (record_watcher_error e E)" for e
    by (rule engine_run.stepped [OF _ engine_step.operation [OF engine_op.watcher]])
  with \<open>engine_run pf E\<close> show ?case
    by (auto simp: loop_start_def Let_def RELOAD_QUEUE_def loop_arm_def split: option.split)
next
  case (loop_arm L ev L' out)
  have "length (dl_queue L') \<le> RELOAD_QUEUE"
    using loop_arm(2,3,4)
    by (cases ev) (auto simp: loop_arm_def try_send_def next_message_def config_changed_def Let_def
        split: list.splits watch_msg.splits if_splits)
  moreover have "engine_run pf (dl_engine L')"
    using loop_arm_engine [OF loop_arm(2,3)] loop_arm(4) by (auto intro: engine_run.stepped)
  ultimately show ?case by (simp add: loop_arm_def)
qed

subsection \<open>A daemon on one host\<close>

lemma loop_refines_engine_witness:
  "\<exists>L. loop_run sample_platform L \<and> engine_run sample_platform (dl_engine L)
     \<and> loop_arm sample_platform (IpcRequest [] [] 0 Overview) L = Some (L, Answer (handle_request [] [] 0 (dl_engine L) Overview))"
proof -
  obtain E where E: "start_daemon sample_platform sample_start = Inr E" by (rule sample_started)
  have "loop_run sample_platform (loop_start None (Inl []) 0 E)"
    by (rule loop_run.loop_started [where w = sample_world, OF _ _ E])
      (simp_all add: sample_start_def sample_world_def fresh_world_def)
  with loop_refines_engine [OF this, of "[]" "[]" 0 Overview] show ?thesis by blast
qed

lemma conversation_in_order_witness:
  "\<exists>E. engine_run sample_platform E
     \<and> read_replies (\<lambda>_. Inr (handle_request [] [] 0 E Overview)) 2
         (concat (map (\<lambda>body. to_be_bytes (word_of_nat (length body)) @ body)
           (fst (handle_connection (\<lambda>_. Inr [1]) (\<lambda>_. Inr Overview) (\<lambda>_. None)
              (\<lambda>r E. (Some (handle_request [] [] 0 E r), E)) (map (\<lambda>r. Inr [7]) [Overview, Overview]) ([], E)))))
       = [Inr (handle_request [] [] 0 E Overview), Inr (handle_request [] [] 0 E Overview)]"
proof -
  obtain E where E: "engine_run sample_platform E" by (rule sample_started)
  let ?frame = "\<lambda>body. to_be_bytes (word_of_nat (length body)) @ body"
  obtain sent E' where c: "handle_connection (\<lambda>_. Inr [1]) (\<lambda>_. Inr Overview) (\<lambda>_. None)
      (\<lambda>r E. (Some (handle_request [] [] 0 E r), E)) (map (\<lambda>r. Inr [7]) [Overview, Overview]) ([], E) = (sent, E')" by force
  from conversation_in_order [where reqs = "[Overview, Overview]" and enc = "\<lambda>_. [1]" and enc_req = "\<lambda>_. [7]"
      and frame = ?frame and from_resp = "\<lambda>_. Inr (handle_request [] [] 0 E Overview)", OF _ _ _ c]
  show ?thesis using E c by (intro exI [of _ E]) (simp add: MAX_RESPONSE_FRAME_def numeral_2_eq_2)
qed

end
