(* ===== verification/Sessions.thy ===== *)
theory Sessions
  imports Server
begin

section \<open>Sessions: many clients beside the loop of the daemon\<close>

text \<open>
  The tasks around the loop of \<open>run_daemon\<close>: the one that accepts connections and waits for a permit,
  and one for each connection (\<open>handle_connection\<close>, here cut at its \<open>await\<close>s), which share the request
  channel \<open>ipc_tx\<close> with the loop. Tasks run in any order and any of them may stay behind; the frames of
  each connection, its end and the writes that fail are whatever the clients and the kernel make of
  them. The lemmas relate each task to the function of Server that runs alone.
\<close>

subsection \<open>The tasks and what they share\<close>

definition IPC_QUEUE :: nat where "IPC_QUEUE = 32"

definition MAX_IPC_CONNECTIONS :: nat where "MAX_IPC_CONNECTIONS = 16"

text \<open>Where the task of a connection waits: for a frame, for room in the channel, for the reply of the
  engine, for the socket to take the reply; or its function has returned. \<open>sn_frames\<close> and \<open>sn_replies\<close>
  record what it has read and which replies of the engine reached it.\<close>

datatype task_point = AtFrame | AtSend request | AtReply request | AtWrite response | Returned

record session =
  sn_point :: task_point
  sn_frames :: "(string + bytes) list"
  sn_replies :: "response list"
  sn_sent :: "bytes list"

definition session_new :: session where
  "session_new = \<lparr>sn_point = AtFrame, sn_frames = [], sn_replies = [], sn_sent = []\<rparr>"

text \<open>The JSON codec, and which writes to a connection fail.\<close>

record ipc_codec =
  ic_to_vec :: "response \<Rightarrow> string + bytes"
  ic_from_slice :: "bytes \<Rightarrow> string + request"
  ic_refused :: "nat \<Rightarrow> nat \<Rightarrow> string option"

definition send_on :: "ipc_codec \<Rightarrow> nat \<Rightarrow> response \<Rightarrow> bytes list \<Rightarrow> send_failure option \<times> bytes list" where
  "send_on ic c = send_response (ic_to_vec ic) (ic_refused ic c)"

definition after_send :: "send_failure option \<times> bytes list \<Rightarrow> session \<Rightarrow> session" where
  "after_send result k =
     k\<lparr>sn_sent := snd result, sn_point := (case fst result of None \<Rightarrow> AtFrame | Some _ \<Rightarrow> Returned)\<rparr>"

text \<open>From one frame, or the end of the stream, to the next \<open>await\<close>.\<close>

definition next_frame :: "ipc_codec \<Rightarrow> nat \<Rightarrow> (string + bytes) option \<Rightarrow> session \<Rightarrow> session" where
  "next_frame ic c frame k =
     (case frame of
        None \<Rightarrow> k\<lparr>sn_point := Returned\<rparr>
      | Some f \<Rightarrow>
          let k = k\<lparr>sn_frames := sn_frames k @ [f]\<rparr> in
          case f of
            Inl e \<Rightarrow> k\<lparr>sn_sent := snd (send_on ic c (ErrorReply (''request rejected: '' @ e)) (sn_sent k)), sn_point := Returned\<rparr>
          | Inr body \<Rightarrow>
              (case decode (ic_from_slice ic) body of
                 Inl e \<Rightarrow> after_send (send_on ic c (ErrorReply e) (sn_sent k)) k
               | Inr req \<Rightarrow> k\<lparr>sn_point := AtSend req\<rparr>))"

text \<open>The daemon: the loop and whether it still runs; the request channel, open until the function of the
  loop returns, with the connection each request came from; the permits left; a connection that was
  accepted and waits for one; and the connections being served.\<close>

record daemon_server =
  ds_loop :: daemon_loop
  ds_running :: bool
  ds_open :: bool
  ds_requests :: "(nat \<times> request) list"
  ds_permits :: nat
  ds_held :: "nat option"
  ds_sessions :: "nat \<rightharpoonup> session"

definition server_start :: "daemon_loop \<Rightarrow> daemon_server" where
  "server_start L = \<lparr>ds_loop = L, ds_running = True, ds_open = True, ds_requests = [],
     ds_permits = MAX_IPC_CONNECTIONS, ds_held = None, ds_sessions = Map.empty\<rparr>"

definition put_session :: "nat \<Rightarrow> session \<Rightarrow> daemon_server \<Rightarrow> daemon_server" where
  "put_session c k S = S\<lparr>ds_sessions := (ds_sessions S)(c \<mapsto> k)\<rparr>"

text \<open>A permit moves into the task of its connection and is dropped with it.\<close>

definition admit :: "nat \<Rightarrow> daemon_server \<Rightarrow> daemon_server" where
  "admit c S = put_session c session_new (S\<lparr>ds_held := None, ds_permits := ds_permits S - 1\<rparr>)"

definition end_session :: "nat \<Rightarrow> daemon_server \<Rightarrow> daemon_server" where
  "end_session c S = S\<lparr>ds_sessions := (ds_sessions S)(c := None), ds_permits := ds_permits S + 1\<rparr>"

definition send_request :: "nat \<Rightarrow> request \<Rightarrow> session \<Rightarrow> daemon_server \<Rightarrow> daemon_server" where
  "send_request c req k S = put_session c (k\<lparr>sn_point := AtReply req\<rparr>) (S\<lparr>ds_requests := ds_requests S @ [(c, req)]\<rparr>)"

definition deliver_reply :: "nat \<Rightarrow> response \<Rightarrow> session \<Rightarrow> daemon_server \<Rightarrow> daemon_server" where
  "deliver_reply c resp k S = put_session c (k\<lparr>sn_point := AtWrite resp, sn_replies := sn_replies k @ [resp]\<rparr>) S"

inductive task_step :: "ipc_codec \<Rightarrow> daemon_server \<Rightarrow> daemon_server \<Rightarrow> bool" for ic S where
  accepted: "ds_held S = None \<Longrightarrow> ds_sessions S c = None \<Longrightarrow> task_step ic S (S\<lparr>ds_held := Some c\<rparr>)"
| admitted: "ds_held S = Some c \<Longrightarrow> 0 < ds_permits S \<Longrightarrow> task_step ic S (admit c S)"
| framed: "ds_sessions S c = Some k \<Longrightarrow> sn_point k = AtFrame \<Longrightarrow> task_step ic S (put_session c (next_frame ic c frame k) S)"
| sent: "ds_sessions S c = Some k \<Longrightarrow> sn_point k = AtSend req \<Longrightarrow> ds_open S \<Longrightarrow> length (ds_requests S) < IPC_QUEUE \<Longrightarrow>
    task_step ic S (send_request c req k S)"
| unsent: "ds_sessions S c = Some k \<Longrightarrow> sn_point k = AtSend req \<Longrightarrow> \<not> ds_open S \<Longrightarrow>
    task_step ic S (put_session c (k\<lparr>sn_point := Returned\<rparr>) S)"
| unanswered: "ds_sessions S c = Some k \<Longrightarrow> sn_point k = AtReply req \<Longrightarrow> \<not> ds_open S \<Longrightarrow>
    task_step ic S (put_session c (k\<lparr>sn_point := Returned\<rparr>) S)"
| written: "ds_sessions S c = Some k \<Longrightarrow> sn_point k = AtWrite resp \<Longrightarrow>
    task_step ic S (put_session c (after_send (send_on ic c resp (sn_sent k)) k) S)"
| ended: "ds_sessions S c = Some k \<Longrightarrow> sn_point k = Returned \<Longrightarrow> task_step ic S (end_session c S)"

text \<open>The loop takes the first request of the channel, or another of its arms; it may leave, and then the
  receiving end of the channel goes with what is in it.\<close>

inductive server_step :: "platform \<Rightarrow> ipc_codec \<Rightarrow> daemon_server \<Rightarrow> daemon_server \<Rightarrow> bool" for pf ic S where
  tasked: "task_step ic S S' \<Longrightarrow> server_step pf ic S S'"
| answered: "ds_running S \<Longrightarrow> ds_requests S = (c, req) # waiting \<Longrightarrow> ds_sessions S c = Some k \<Longrightarrow>
    loop_arm pf (IpcRequest flows swl_keys now req) (ds_loop S) = Some (L, Answer resp) \<Longrightarrow>
    server_step pf ic S (deliver_reply c resp k (S\<lparr>ds_loop := L, ds_requests := waiting\<rparr>))"
| looped: "ds_running S \<Longrightarrow> arm_ready ev (ds_loop S) \<Longrightarrow> (\<And>flows swl_keys now req. ev \<noteq> IpcRequest flows swl_keys now req) \<Longrightarrow>
    loop_arm pf ev (ds_loop S) = Some (L, out) \<Longrightarrow> server_step pf ic S (S\<lparr>ds_loop := L\<rparr>)"
| stopped: "ds_running S \<Longrightarrow> loop_arm pf ev (ds_loop S) = None \<Longrightarrow> server_step pf ic S (S\<lparr>ds_running := False\<rparr>)"
| dropped: "\<not> ds_running S \<Longrightarrow> server_step pf ic S (S\<lparr>ds_open := False, ds_requests := []\<rparr>)"

inductive server_run :: "platform \<Rightarrow> ipc_codec \<Rightarrow> daemon_server \<Rightarrow> bool" for pf ic where
  server_started: "si_world i = Inr w \<Longrightarrow> fresh_world w \<Longrightarrow> start_daemon pf i = Inr E \<Longrightarrow>
    server_run pf ic (server_start (loop_start watcher_error file start E))"
| server_stepped: "server_run pf ic S \<Longrightarrow> server_step pf ic S S' \<Longrightarrow> server_run pf ic S'"

inductive_cases task_stepE [elim]: "task_step ic S S'"
inductive_cases server_stepE [elim]: "server_step pf ic S S'"

subsection \<open>One task against the function it runs\<close>

text \<open>\<open>alone\<close> is \<open>handle_connection\<close> with an engine that gives the listed replies and is gone after the last.\<close>

fun listed :: "request \<Rightarrow> response list \<Rightarrow> response option \<times> response list" where
  "listed req [] = (None, [])"
| "listed req (resp # resps) = (Some resp, resps)"

definition alone :: "ipc_codec \<Rightarrow> nat \<Rightarrow> (string + bytes) list \<Rightarrow> bytes list \<times> response list \<Rightarrow> bytes list \<times> response list" where
  "alone ic c = handle_connection (ic_to_vec ic) (ic_from_slice ic) (ic_refused ic c) listed"

definition caught_up :: "ipc_codec \<Rightarrow> nat \<Rightarrow> (string + bytes) list \<Rightarrow> response list \<Rightarrow> bytes list \<Rightarrow> bool" where
  "caught_up ic c frames resps sent \<longleftrightarrow>
     (\<forall>rest later. alone ic c (frames @ rest) ([], resps @ later) = alone ic c rest (sent, later))"

text \<open>The requests among the frames.\<close>

primrec requests_in :: "ipc_codec \<Rightarrow> (string + bytes) list \<Rightarrow> request list" where
  "requests_in ic [] = []"
| "requests_in ic (f # fs) =
     (case f of Inl _ \<Rightarrow> []
      | Inr body \<Rightarrow> (case decode (ic_from_slice ic) body of Inl _ \<Rightarrow> [] | Inr req \<Rightarrow> [req])) @ requests_in ic fs"

definition asks :: "ipc_codec \<Rightarrow> nat \<Rightarrow> request \<Rightarrow> session \<Rightarrow> bool" where
  "asks ic c req k \<longleftrightarrow> (\<exists>before body. sn_frames k = before @ [Inr body] \<and> decode (ic_from_slice ic) body = Inr req
     \<and> caught_up ic c before (sn_replies k) (sn_sent k) \<and> length (requests_in ic before) = length (sn_replies k))"

definition session_faithful :: "ipc_codec \<Rightarrow> nat \<Rightarrow> session \<Rightarrow> bool" where
  "session_faithful ic c k \<longleftrightarrow>
     (case sn_point k of
        AtFrame \<Rightarrow> caught_up ic c (sn_frames k) (sn_replies k) (sn_sent k)
          \<and> length (requests_in ic (sn_frames k)) = length (sn_replies k)
      | AtSend req \<Rightarrow> asks ic c req k
      | AtReply req \<Rightarrow> asks ic c req k
      | AtWrite resp \<Rightarrow> (\<exists>req resps. sn_replies k = resps @ [resp] \<and> asks ic c req (k\<lparr>sn_replies := resps\<rparr>))
      | Returned \<Rightarrow> fst (alone ic c (sn_frames k) ([], sn_replies k)) = sn_sent k)"

lemma requests_in_append [simp]: "requests_in ic (fs @ gs) = requests_in ic fs @ requests_in ic gs"
  by (induction fs) simp_all

lemma alone_simps [simp]:
  "alone ic c [] (sent, s) = (sent, s)"
  "alone ic c (Inl e # frames) (sent, s) = (snd (send_on ic c (ErrorReply (''request rejected: '' @ e)) sent), s)"
  "decode (ic_from_slice ic) body = Inl e \<Longrightarrow> alone ic c (Inr body # frames) (sent, s)
     = (case send_on ic c (ErrorReply e) sent of (Some _, sent) \<Rightarrow> (sent, s) | (None, sent) \<Rightarrow> alone ic c frames (sent, s))"
  "decode (ic_from_slice ic) body = Inr req \<Longrightarrow> alone ic c (Inr body # frames) (sent, []) = (sent, [])"
  "decode (ic_from_slice ic) body = Inr req \<Longrightarrow> alone ic c (Inr body # frames) (sent, resp # resps)
     = (case send_on ic c resp sent of (Some _, sent) \<Rightarrow> (sent, resps) | (None, sent) \<Rightarrow> alone ic c frames (sent, resps))"
  by (auto simp: alone_def send_on_def split: prod.split option.split)

lemma caught_up_nil [simp]: "caught_up ic c [] [] []"
  by (simp add: caught_up_def)

lemma caught_upD:
  assumes "caught_up ic c frames resps sent"
  shows "alone ic c (frames @ rest) ([], resps @ later) = alone ic c rest (sent, later)"
    and "alone ic c (frames @ rest) ([], resps) = alone ic c rest (sent, [])"
    and "alone ic c frames ([], resps) = (sent, [])"
  using assms [unfolded caught_up_def, rule_format, of rest later] assms [unfolded caught_up_def, rule_format, of rest "[]"]
    assms [unfolded caught_up_def, rule_format, of "[]" "[]"] by simp_all

lemma caught_up_snoc:
  assumes "caught_up ic c frames resps sent"
    and "\<And>rest later. alone ic c (f # rest) (sent, resps' @ later) = alone ic c rest (sent', later)"
  shows "caught_up ic c (frames @ [f]) (resps @ resps') sent'"
  using assms by (simp add: caught_up_def)

lemma faithful_new [simp]: "session_faithful ic c session_new"
  by (simp add: session_faithful_def session_new_def)

lemma faithful_frame:
  assumes "session_faithful ic c k" "sn_point k = AtFrame"
  shows "session_faithful ic c (next_frame ic c frame k)"
proof -
  have up: "caught_up ic c (sn_frames k) (sn_replies k) (sn_sent k)"
    and n: "length (requests_in ic (sn_frames k)) = length (sn_replies k)"
    using assms by (simp_all add: session_faithful_def)
  show ?thesis
  proof (cases frame)
    case None then show ?thesis by (simp add: session_faithful_def next_frame_def caught_upD(3) [OF up])
  next
    case frame: (Some f)
    show ?thesis
    proof (cases f)
      case (Inl e) then show ?thesis
        using frame by (simp add: session_faithful_def next_frame_def caught_upD(2) [OF up])
    next
      case f: (Inr body)
      show ?thesis
      proof (cases "decode (ic_from_slice ic) body")
        case (Inr req) then show ?thesis
          using frame f up n by (auto simp: session_faithful_def next_frame_def asks_def)
      next
        case (Inl e)
        obtain failed sent where r: "send_on ic c (ErrorReply e) (sn_sent k) = (failed, sent)" by force
        have "caught_up ic c (sn_frames k @ [f]) (sn_replies k @ []) sent" if "failed = None"
          by (rule caught_up_snoc [OF up]) (use that r f Inl in simp)
        then show ?thesis
          using frame f Inl r n caught_upD(2) [OF up, of "[f]"]
          by (cases failed) (simp_all add: session_faithful_def next_frame_def after_send_def)
      qed
    qed
  qed
qed

lemma faithful_write:
  assumes "session_faithful ic c k" "sn_point k = AtWrite resp"
  shows "session_faithful ic c (after_send (send_on ic c resp (sn_sent k)) k)"
proof -
  obtain req resps "before" body where k: "sn_replies k = resps @ [resp]" "sn_frames k = before @ [Inr body]"
    "decode (ic_from_slice ic) body = Inr req" "length (requests_in ic before) = length resps"
    and up: "caught_up ic c before resps (sn_sent k)"
    using assms by (auto simp: session_faithful_def asks_def)
  obtain failed sent where r: "send_on ic c resp (sn_sent k) = (failed, sent)" by force
  have "caught_up ic c (before @ [Inr body]) (resps @ [resp]) sent" if "failed = None"
    by (rule caught_up_snoc [OF up]) (use that r k(3) in simp)
  then show ?thesis
    using r k caught_upD(1) [OF up, of "[Inr body]" "[resp]"]
    by (cases failed) (simp_all add: session_faithful_def after_send_def)
qed

lemma faithful_moves:
  "session_faithful ic c k \<Longrightarrow> sn_point k = AtSend req \<Longrightarrow> session_faithful ic c (k\<lparr>sn_point := AtReply req\<rparr>)"
  "session_faithful ic c k \<Longrightarrow> sn_point k = AtSend req \<or> sn_point k = AtReply req \<Longrightarrow> session_faithful ic c (k\<lparr>sn_point := Returned\<rparr>)"
  "session_faithful ic c k \<Longrightarrow> sn_point k = AtReply req \<Longrightarrow>
     session_faithful ic c (k\<lparr>sn_point := AtWrite resp, sn_replies := sn_replies k @ [resp]\<rparr>)"
  by (auto simp: session_faithful_def asks_def caught_upD(2))

subsection \<open>The tasks together\<close>

definition engine_answer :: "platform \<Rightarrow> request \<Rightarrow> response \<Rightarrow> bool" where
  "engine_answer pf req resp \<longleftrightarrow>
     (\<exists>flows swl_keys now L. loop_run pf L \<and> resp = handle_request flows swl_keys now (dl_engine L) req)"

definition replies_ok :: "platform \<Rightarrow> ipc_codec \<Rightarrow> session \<Rightarrow> bool" where
  "replies_ok pf ic k \<longleftrightarrow>
     list_all2 (engine_answer pf) (take (length (sn_replies k)) (requests_in ic (sn_frames k))) (sn_replies k)"

text \<open>Every frame a task has read has its write, save the last one, whose write may be missing.\<close>

definition writes_paired :: "session \<Rightarrow> bool" where
  "writes_paired k \<longleftrightarrow>
     (case sn_point k of
        AtFrame \<Rightarrow> length (sn_frames k) = length (sn_sent k)
      | Returned \<Rightarrow> length (sn_sent k) \<le> length (sn_frames k) \<and> length (sn_frames k) \<le> Suc (length (sn_sent k))
      | _ \<Rightarrow> length (sn_frames k) = Suc (length (sn_sent k)))"

lemma send_on_length:
  "length sent \<le> length (snd (send_on ic c v sent))" "length (snd (send_on ic c v sent)) \<le> Suc (length sent)"
  "fst (send_on ic c v sent) = None \<Longrightarrow> length (snd (send_on ic c v sent)) = Suc (length sent)"
  by (auto simp: send_on_def send_response_def write_body_def split: sum.splits option.splits if_splits)

lemma paired_moves:
  "writes_paired k \<Longrightarrow> sn_point k = AtFrame \<Longrightarrow> writes_paired (next_frame ic c frame k)"
  "writes_paired k \<Longrightarrow> sn_point k = AtSend req \<Longrightarrow> writes_paired (k\<lparr>sn_point := AtReply req\<rparr>)"
  "writes_paired k \<Longrightarrow> sn_point k = AtSend req \<or> sn_point k = AtReply req \<Longrightarrow> writes_paired (k\<lparr>sn_point := Returned\<rparr>)"
  "writes_paired k \<Longrightarrow> sn_point k = AtReply req \<Longrightarrow> writes_paired (k\<lparr>sn_point := AtWrite resp, sn_replies := resps\<rparr>)"
  "writes_paired k \<Longrightarrow> sn_point k = AtWrite resp \<Longrightarrow> writes_paired (after_send (send_on ic c resp (sn_sent k)) k)"
  by (auto simp: writes_paired_def next_frame_def after_send_def Let_def send_on_length split: option.split sum.split)

definition session_ok :: "platform \<Rightarrow> ipc_codec \<Rightarrow> nat \<Rightarrow> session \<Rightarrow> bool" where
  "session_ok pf ic c k \<longleftrightarrow> session_faithful ic c k \<and> replies_ok pf ic k \<and> writes_paired k"

text \<open>A request is in the channel exactly while its task waits for the reply.\<close>

definition requests_ok :: "daemon_server \<Rightarrow> bool" where
  "requests_ok S \<longleftrightarrow> distinct (map fst (ds_requests S))
     \<and> (if ds_open S
        then \<forall>c req. (c, req) \<in> set (ds_requests S) \<longleftrightarrow> (\<exists>k. ds_sessions S c = Some k \<and> sn_point k = AtReply req)
        else ds_requests S = [])"

definition permits_ok :: "daemon_server \<Rightarrow> bool" where
  "permits_ok S \<longleftrightarrow> finite (dom (ds_sessions S)) \<and> card (dom (ds_sessions S)) + ds_permits S = MAX_IPC_CONNECTIONS
     \<and> (\<forall>c. ds_held S = Some c \<longrightarrow> ds_sessions S c = None)"

definition server_ok :: "platform \<Rightarrow> ipc_codec \<Rightarrow> daemon_server \<Rightarrow> bool" where
  "server_ok pf ic S \<longleftrightarrow> loop_run pf (ds_loop S) \<and> (ds_running S \<longrightarrow> ds_open S) \<and> permits_ok S \<and> requests_ok S
     \<and> (\<forall>c k. ds_sessions S c = Some k \<longrightarrow> session_ok pf ic c k)"

lemma list_all2_length_le: "list_all2 P (take n xs) ys \<Longrightarrow> length ys = n \<Longrightarrow> n \<le> length xs"
  by (drule list_all2_lengthD) simp

lemma replies_ok_frame:
  assumes "replies_ok pf ic k"
  shows "replies_ok pf ic (next_frame ic c frame k)"
proof -
  have "length (sn_replies k) \<le> length (requests_in ic (sn_frames k))"
    using assms by (auto simp: replies_ok_def dest: list_all2_length_le)
  then show ?thesis using assms
    by (auto simp: next_frame_def replies_ok_def after_send_def Let_def split: option.split sum.split)
qed

lemma replies_ok_reply:
  assumes "replies_ok pf ic k" "asks ic c req k" "engine_answer pf req resp"
  shows "replies_ok pf ic (k\<lparr>sn_point := p, sn_replies := sn_replies k @ [resp]\<rparr>)"
  using assms by (auto simp: replies_ok_def asks_def intro!: list_all2_appendI)

lemma permits_ok_put [simp]:
  "ds_sessions S c = Some k \<Longrightarrow> permits_ok (put_session c k' S) = permits_ok S"
  by (auto simp: permits_ok_def put_session_def insert_absorb domI)

lemma requests_ok_put:
  "requests_ok S \<Longrightarrow> ds_sessions S c = Some k \<Longrightarrow> (\<And>req. sn_point k' = AtReply req \<longleftrightarrow> sn_point k = AtReply req)
    \<Longrightarrow> requests_ok (put_session c k' S)"
  by (simp add: requests_ok_def put_session_def)

lemma server_ok_put:
  assumes "server_ok pf ic S" "ds_sessions S c = Some k" "session_ok pf ic c k'" "requests_ok (put_session c k' S)"
  shows "server_ok pf ic (put_session c k' S)"
  using assms permits_ok_put [OF assms(2), of k'] by (auto simp: server_ok_def) (auto simp: put_session_def split: if_splits)

lemma requests_of_sessions:
  assumes "requests_ok S" "permits_ok S"
  shows "length (ds_requests S) \<le> card (dom (ds_sessions S))"
proof -
  have "fst ` set (ds_requests S) \<subseteq> dom (ds_sessions S)" using assms(1) by (force simp: requests_ok_def split: if_splits)
  then have "card (set (map fst (ds_requests S))) \<le> card (dom (ds_sessions S))"
    using assms(2) by (intro card_mono) (auto simp: permits_ok_def)
  moreover have "card (set (map fst (ds_requests S))) = length (ds_requests S)"
    using assms(1) distinct_card [of "map fst (ds_requests S)"] by (simp add: requests_ok_def)
  ultimately show ?thesis by simp
qed

lemma session_ok_new [simp]: "session_ok pf ic c session_new"
  by (simp add: session_ok_def replies_ok_def writes_paired_def) (simp add: session_new_def)

lemma no_request_new [simp]: "sn_point session_new \<noteq> AtReply req"
  by (simp add: session_new_def)

lemma next_frame_point [simp]: "sn_point (next_frame ic c frame k) \<noteq> AtReply req" if "sn_point k = AtFrame"
  using that by (auto simp: next_frame_def after_send_def Let_def split: option.split sum.split)

lemma after_send_point [simp]: "sn_point (after_send result k) \<noteq> AtReply req"
  by (simp add: after_send_def split: option.split)

lemma session_ok_moves:
  "session_ok pf ic c k \<Longrightarrow> sn_point k = AtFrame \<Longrightarrow> session_ok pf ic c (next_frame ic c frame k)"
  "session_ok pf ic c k \<Longrightarrow> sn_point k = AtSend req \<Longrightarrow> session_ok pf ic c (k\<lparr>sn_point := AtReply req\<rparr>)"
  "session_ok pf ic c k \<Longrightarrow> sn_point k = AtSend req \<or> sn_point k = AtReply req \<Longrightarrow> session_ok pf ic c (k\<lparr>sn_point := Returned\<rparr>)"
  "session_ok pf ic c k \<Longrightarrow> sn_point k = AtWrite resp \<Longrightarrow> session_ok pf ic c (after_send (send_on ic c resp (sn_sent k)) k)"
  by (auto simp: session_ok_def faithful_frame replies_ok_frame faithful_moves faithful_write paired_moves)
    (simp_all add: replies_ok_def after_send_def)

lemma session_ok_reply:
  assumes "session_ok pf ic c k" "sn_point k = AtReply req" "engine_answer pf req resp"
  shows "session_ok pf ic c (k\<lparr>sn_point := AtWrite resp, sn_replies := sn_replies k @ [resp]\<rparr>)"
proof -
  have "asks ic c req k" using assms(1,2) by (simp add: session_ok_def session_faithful_def)
  then show ?thesis using assms by (simp add: session_ok_def faithful_moves replies_ok_reply paired_moves)
qed

lemma admit_ok:
  assumes "server_ok pf ic S" "ds_held S = Some c" "0 < ds_permits S"
  shows "server_ok pf ic (admit c S)"
proof -
  have new: "ds_sessions S c = None" using assms by (simp add: server_ok_def permits_ok_def)
  then have "card (dom ((ds_sessions S)(c \<mapsto> session_new))) = Suc (card (dom (ds_sessions S)))"
    using assms(1) by (simp add: server_ok_def permits_ok_def domIff)
  then show ?thesis using assms new by (auto simp: server_ok_def permits_ok_def requests_ok_def admit_def put_session_def)
qed

lemma end_session_ok:
  assumes "server_ok pf ic S" "ds_sessions S c = Some k" "sn_point k = Returned"
  shows "server_ok pf ic (end_session c S)"
proof -
  have "card (dom (ds_sessions S)) = Suc (card (dom (ds_sessions S) - {c}))"
    using assms(1,2) by (intro card.remove) (auto simp: server_ok_def permits_ok_def)
  moreover have "dom ((ds_sessions S)(c := None)) = dom (ds_sessions S) - {c}" by simp
  ultimately show ?thesis
    using assms by (auto simp: server_ok_def permits_ok_def requests_ok_def end_session_def)
qed

lemma send_request_ok:
  assumes "server_ok pf ic S" "ds_sessions S c = Some k" "sn_point k = AtSend req" "ds_open S"
  shows "server_ok pf ic (send_request c req k S)"
proof -
  let ?S = "S\<lparr>ds_requests := ds_requests S @ [(c, req)]\<rparr>"
  have r: "distinct (map fst (ds_requests S))"
    "\<And>c req. (c, req) \<in> set (ds_requests S) \<longleftrightarrow> (\<exists>k. ds_sessions S c = Some k \<and> sn_point k = AtReply req)"
    using assms(1,4) by (simp_all add: server_ok_def requests_ok_def)
  have "c \<notin> fst ` set (ds_requests S)" using r(2) assms(2,3) by force
  then have "requests_ok (put_session c (k\<lparr>sn_point := AtReply req\<rparr>) ?S)"
    using r assms by (auto simp: requests_ok_def put_session_def)
  moreover have "session_ok pf ic c (k\<lparr>sn_point := AtReply req\<rparr>)"
    using assms(1-3) by (simp add: server_ok_def session_ok_moves)
  ultimately show ?thesis
    using assms(1,2) permits_ok_put [of ?S c k "k\<lparr>sn_point := AtReply req\<rparr>"]
    by (auto simp: server_ok_def send_request_def) (auto simp: put_session_def permits_ok_def split: if_splits)
qed

lemma task_step_ok:
  assumes "server_ok pf ic S" "task_step ic S S'"
  shows "server_ok pf ic S'"
proof -
  have ok: "requests_ok S" "\<And>c k. ds_sessions S c = Some k \<Longrightarrow> session_ok pf ic c k"
    using assms(1) by (auto simp: server_ok_def)
  have put: "server_ok pf ic (put_session c k' S)"
    if "ds_sessions S c = Some k" "session_ok pf ic c k'" "\<And>req. sn_point k' = AtReply req \<longleftrightarrow> sn_point k = AtReply req" for c k k'
    using server_ok_put [OF assms(1) that(1,2)] requests_ok_put [OF ok(1) that(1,3)] by blast
  have closed: "server_ok pf ic (put_session c k' S)"
    if "ds_sessions S c = Some k" "session_ok pf ic c k'" "\<not> ds_open S" for c k k'
    using server_ok_put [OF assms(1) that(1,2)] ok(1) that(3) by (simp add: requests_ok_def put_session_def)
  from assms(2) show ?thesis
  proof cases
    case (accepted c)
    then show ?thesis using assms(1) by (simp add: server_ok_def permits_ok_def requests_ok_def)
  next
    case (admitted c) then show ?thesis using admit_ok [OF assms(1)] by simp
  next
    case (framed c k frame) then show ?thesis using put [OF framed(2)] ok(2) by (simp add: session_ok_moves)
  next
    case (sent c k req) then show ?thesis using send_request_ok [OF assms(1)] by simp
  next
    case (unsent c k req) then show ?thesis using put [OF unsent(2)] ok(2) by (simp add: session_ok_moves)
  next
    case (unanswered c k req) then show ?thesis using closed [OF unanswered(2)] ok(2) by (simp add: session_ok_moves)
  next
    case (written c k resp) then show ?thesis using put [OF written(2)] ok(2) by (simp add: session_ok_moves)
  next
    case (ended c k) then show ?thesis using end_session_ok [OF assms(1)] by simp
  qed
qed

lemma server_step_ok:
  assumes "server_ok pf ic S" "server_step pf ic S S'"
  shows "server_ok pf ic S'"
  using assms(2)
proof cases
  case tasked then show ?thesis by (rule task_step_ok [OF assms(1)])
next
  case (answered c req waiting k flows swl_keys now L resp)
  have L: "L = ds_loop S" "resp = handle_request flows swl_keys now (dl_engine (ds_loop S)) req"
    using answered(5) by (auto simp: loop_arm_def)
  have r: "distinct (map fst (ds_requests S))"
    "\<And>c req. (c, req) \<in> set (ds_requests S) \<longleftrightarrow> (\<exists>k. ds_sessions S c = Some k \<and> sn_point k = AtReply req)"
    using assms(1) answered(2) by (simp_all add: server_ok_def requests_ok_def)
  have at: "sn_point k = AtReply req" using r(2) [of c req] answered(3,4) by simp
  let ?S = "S\<lparr>ds_loop := L, ds_requests := waiting\<rparr>" and ?k = "k\<lparr>sn_point := AtWrite resp, sn_replies := sn_replies k @ [resp]\<rparr>"
  have "engine_answer pf req resp" using assms(1) L by (auto simp: engine_answer_def server_ok_def)
  then have "session_ok pf ic c ?k"
    using assms(1) answered(4) at by (auto simp: server_ok_def intro: session_ok_reply)
  moreover have "requests_ok (put_session c ?k ?S)"
  proof -
    have "c \<notin> fst ` set waiting" "distinct (map fst waiting)" using r(1) answered(3) by simp_all
    moreover have "(c', req') \<in> set waiting \<longleftrightarrow> (\<exists>k. ds_sessions S c' = Some k \<and> sn_point k = AtReply req')"
      if "c' \<noteq> c" for c' req' using r(2) [of c' req'] that answered(3) by simp
    ultimately show ?thesis using assms(1) answered(2)
      by (auto simp: requests_ok_def put_session_def server_ok_def image_iff)
  qed
  ultimately show ?thesis
    unfolding answered(1) deliver_reply_def
    using assms(1) answered(4) L(1) permits_ok_put [of ?S c k ?k]
    by (auto simp: server_ok_def) (auto simp: put_session_def permits_ok_def split: if_splits)
next
  case (looped ev L out)
  then have "loop_run pf L" using assms(1) by (auto simp: server_ok_def intro: loop_run.loop_arm)
  then show ?thesis using assms(1) looped(1) by (simp add: server_ok_def permits_ok_def requests_ok_def)
next
  case (stopped ev)
  then show ?thesis using assms(1) by (simp add: server_ok_def permits_ok_def requests_ok_def)
next
  case dropped
  then show ?thesis using assms(1) by (simp add: server_ok_def permits_ok_def requests_ok_def)
qed

lemma server_run_ok: "server_run pf ic S \<Longrightarrow> server_ok pf ic S"
proof (induction rule: server_run.induct)
  case (server_started i w E watcher_error bytes start)
  then have "loop_run pf (loop_start watcher_error bytes start E)" by (rule loop_run.loop_started)
  then show ?case by (simp add: server_ok_def server_start_def permits_ok_def requests_ok_def)
next
  case (server_stepped S S')
  then show ?case using server_step_ok by blast
qed

subsection \<open>Every client is served as if alone\<close>

text \<open>C39: The tasks of the connections do not disturb each other. In every interleaving of clients, frames,
  failing writes and arms of the loop, and also while the daemon stops: no more than
  \<open>MAX_IPC_CONNECTIONS\<close> connections are served at once and no permit is lost; the daemon is still a run
  of its loop, and that of the engine; while it runs, a connection that waits for a reply has its request in the channel,
  which is never full, so sending a request never blocks; the \<open>n\<close>th reply that a connection gets is
  what the engine answers, in a state the daemon reached, to the \<open>n\<close>th request of that same connection;
  and a task that has returned has written exactly what \<open>handle_connection\<close> writes on its frames
  alone, given those replies.\<close>

theorem clients_served_alone:
  assumes "server_run pf ic S"
  shows "loop_run pf (ds_loop S) \<and> engine_run pf (dl_engine (ds_loop S))
    \<and> card (dom (ds_sessions S)) + ds_permits S = MAX_IPC_CONNECTIONS \<and> length (ds_requests S) < IPC_QUEUE
    \<and> (\<forall>c k. ds_sessions S c = Some k \<longrightarrow>
        (\<forall>req. sn_point k = AtReply req \<longrightarrow> ds_open S \<longrightarrow> (c, req) \<in> set (ds_requests S))
      \<and> list_all2 (engine_answer pf) (take (length (sn_replies k)) (requests_in ic (sn_frames k))) (sn_replies k)
      \<and> (sn_point k = Returned \<longrightarrow> fst (alone ic c (sn_frames k) ([], sn_replies k)) = sn_sent k))"
proof -
  have ok: "server_ok pf ic S" using assms by (rule server_run_ok)
  then have p: "permits_ok S" "requests_ok S" by (simp_all add: server_ok_def)
  have "length (ds_requests S) < IPC_QUEUE"
    using requests_of_sessions [OF p(2,1)] p(1) by (simp add: permits_ok_def MAX_IPC_CONNECTIONS_def IPC_QUEUE_def)
  moreover have k: "session_faithful ic c k" "replies_ok pf ic k" if "ds_sessions S c = Some k" for c k
    using ok that by (simp_all add: server_ok_def session_ok_def)
  moreover have "fst (alone ic c (sn_frames k) ([], sn_replies k)) = sn_sent k"
    if "ds_sessions S c = Some k" "sn_point k = Returned" for c k
    using k(1) [OF that(1)] that(2) by (simp add: session_faithful_def)
  moreover have "(c, req) \<in> set (ds_requests S)" if "ds_sessions S c = Some k" "sn_point k = AtReply req" "ds_open S" for c k req
    using p(2) that by (simp add: requests_ok_def)
  moreover have "engine_run pf (dl_engine (ds_loop S))" using ok loop_refines_engine by (auto simp: server_ok_def)
  ultimately show ?thesis using ok p(1) by (simp add: server_ok_def permits_ok_def replies_ok_def)
qed

lemma requests_of_bodies:
  "\<forall>r \<in> set reqs. ic_from_slice ic (enc_req r) = Inr r \<Longrightarrow> requests_in ic (map (\<lambda>r. Inr (enc_req r)) reqs) = reqs"
  by (induction reqs) (simp_all add: decode_def)

text \<open>What is written in place of an answer: the error that it is too large, where its encoding exceeds the
  limit.\<close>

definition too_large_reply :: "(response \<Rightarrow> bytes) \<Rightarrow> response \<Rightarrow> response" where
  "too_large_reply enc v = ErrorReply (too_large_message (length (enc v)))"

definition reply_for :: "(response \<Rightarrow> bytes) \<Rightarrow> response \<Rightarrow> response" where
  "reply_for enc v = (if MAX_RESPONSE_FRAME < length (enc v) then too_large_reply enc v else v)"

definition encodes :: "ipc_codec \<Rightarrow> (response \<Rightarrow> bytes) \<Rightarrow> response \<Rightarrow> bool" where
  "encodes ic enc v \<longleftrightarrow> (\<forall>w \<in> {v, too_large_reply enc v}. ic_to_vec ic w = Inr (enc w))"

lemma send_encoded:
  assumes "encodes ic enc v"
  shows "send_on ic c v sent =
     (case ic_refused ic c (length sent) of
        Some e \<Rightarrow> (Some (WriteFailure e), sent)
      | None \<Rightarrow> (if MAX_RESPONSE_FRAME < length (enc v) then Some (TooLarge (length (enc v)) MAX_RESPONSE_FRAME) else None,
          sent @ [enc (reply_for enc v)]))"
  using assms
  by (simp add: encodes_def send_on_def send_response_def write_body_def reply_for_def too_large_reply_def split: option.split)

text \<open>A task writes the encodings of its replies up to the first that fails.\<close>

lemma alone_writes:
  assumes "length resps \<le> length reqs" "\<forall>r \<in> set reqs. ic_from_slice ic (enc_req r) = Inr r" "\<forall>v \<in> set resps. encodes ic enc v"
  shows "\<exists>m \<le> length resps. fst (alone ic c (map (\<lambda>r. Inr (enc_req r)) reqs) (sent, resps))
      = sent @ map (\<lambda>v. enc (reply_for enc v)) (take m resps)
    \<and> (\<forall>i. Suc i < m \<longrightarrow> length (enc (resps ! i)) \<le> MAX_RESPONSE_FRAME)"
  using assms
proof (induction reqs arbitrary: sent resps)
  case (Cons r rs)
  have r: "decode (ic_from_slice ic) (enc_req r) = Inr r" using Cons.prems(2) by (simp add: decode_def)
  show ?case
  proof (cases resps)
    case Nil with r show ?thesis by simp
  next
    case v: (Cons v vs)
    show ?thesis
    proof (cases "ic_refused ic c (length sent) = None \<and> length (enc v) \<le> MAX_RESPONSE_FRAME")
      case True
      obtain m where m: "m \<le> length vs" "fst (alone ic c (map (\<lambda>r. Inr (enc_req r)) rs) (sent @ [enc v], vs))
          = (sent @ [enc v]) @ map (\<lambda>v. enc (reply_for enc v)) (take m vs)"
        "\<forall>i. Suc i < m \<longrightarrow> length (enc (vs ! i)) \<le> MAX_RESPONSE_FRAME"
        using Cons.IH [of vs "sent @ [enc v]"] Cons.prems v by auto
      have "send_on ic c v sent = (None, sent @ [enc v])"
        using True send_encoded [of ic enc v c sent] Cons.prems(3) v by (simp add: reply_for_def not_less)
      with r m True v show ?thesis
        by (intro exI [of _ "Suc m"]) (auto simp: reply_for_def not_less nth_Cons split: nat.split)
    next
      case False
      have e: "encodes ic enc v" using Cons.prems(3) v by simp
      show ?thesis
      proof (cases "ic_refused ic c (length sent)")
        case (Some x)
        with r v e show ?thesis by (intro exI [of _ 0]) (simp add: send_encoded)
      next
        case None
        with r v e False show ?thesis by (intro exI [of _ 1]) (simp add: send_encoded)
      qed
    qed
  qed
qed simp

text \<open>A task that goes on to a further request has written every reply, and each as it is.\<close>

lemma alone_went_on:
  assumes "length resps = length reqs" "\<forall>r \<in> set reqs. ic_from_slice ic (enc_req r) = Inr r" "\<forall>v \<in> set resps. encodes ic enc v"
    and "snd (alone ic c (map (\<lambda>r. Inr (enc_req r)) reqs @ rest) (sent, resps @ [v])) = []"
  shows "fst (alone ic c (map (\<lambda>r. Inr (enc_req r)) reqs) (sent, resps)) = sent @ map enc resps
    \<and> (\<forall>v \<in> set resps. length (enc v) \<le> MAX_RESPONSE_FRAME)"
  using assms
proof (induction resps reqs arbitrary: sent rule: list_induct2)
  case (Cons u us r rs)
  have r: "decode (ic_from_slice ic) (enc_req r) = Inr r" using Cons.prems(1) by (simp add: decode_def)
  have u: "encodes ic enc u" using Cons.prems(2) by simp
  have on: "ic_refused ic c (length sent) = None \<and> length (enc u) \<le> MAX_RESPONSE_FRAME"
    using Cons.prems(3) r by (simp add: send_encoded [OF u] split: option.splits if_splits)
  then have "send_on ic c u sent = (None, sent @ [enc u])" by (simp add: send_encoded [OF u] reply_for_def)
  with r on Cons show ?case by simp
qed simp

lemma caught_up_wrote:
  assumes "caught_up ic c (map (\<lambda>r. Inr (enc_req r)) reqs) resps sent" "length resps = length reqs"
    and "\<forall>r \<in> set reqs. ic_from_slice ic (enc_req r) = Inr r" "\<forall>v \<in> set resps. encodes ic enc v"
  shows "sent = map enc resps \<and> (\<forall>v \<in> set resps. length (enc v) \<le> MAX_RESPONSE_FRAME)"
proof (cases reqs)
  case Nil
  then show ?thesis using caught_upD(3) [OF assms(1)] assms(2) by simp
next
  case (Cons r rs)
  let ?frames = "map (\<lambda>r. Inr (enc_req r)) reqs"
  have r: "decode (ic_from_slice ic) (enc_req r) = Inr r" using assms(3) Cons by (simp add: decode_def)
  then have "snd (alone ic c (?frames @ [Inr (enc_req r)]) ([], resps @ [ErrorReply []])) = []"
    using caught_upD(1) [OF assms(1), of "[Inr (enc_req r)]" "[ErrorReply []]"]
    by (simp split: prod.split option.split)
  from alone_went_on [OF assms(2-4) this] caught_upD(3) [OF assms(1)] show ?thesis by simp
qed

text \<open>What a task has written, wherever it waits.\<close>

lemma session_wrote:
  assumes "session_ok pf ic c k" "sn_frames k = map (\<lambda>r. Inr (enc_req r)) reqs"
    and "\<forall>r \<in> set reqs. ic_from_slice ic (enc_req r) = Inr r" "\<forall>v \<in> set (sn_replies k). encodes ic enc v"
  shows "sn_sent k = map (\<lambda>v. enc (reply_for enc v)) (take (length (sn_sent k)) (sn_replies k))"
    and "i < length (sn_sent k) \<Longrightarrow> MAX_RESPONSE_FRAME < length (enc (sn_replies k ! i))
      \<Longrightarrow> sn_point k = Returned \<and> length (sn_sent k) = Suc i"
proof -
  let ?sent = "sn_sent k" and ?resps = "sn_replies k"
  have reqs: "requests_in ic (sn_frames k) = reqs" using requests_of_bodies [OF assms(3)] by (simp add: assms(2))
  have served: "?sent = map (\<lambda>v. enc (reply_for enc v)) (take (length ?sent) ?resps)
      \<and> (\<forall>i < length ?sent. length (enc (?resps ! i)) \<le> MAX_RESPONSE_FRAME)"
    if up: "caught_up ic c (map (\<lambda>r. Inr (enc_req r)) done_reqs) resps ?sent" "length resps = length done_reqs"
      "set done_reqs \<subseteq> set reqs" "?resps = resps @ more_resps" for done_reqs resps more_resps
  proof -
    have w: "?sent = map enc resps" "\<forall>v \<in> set resps. length (enc v) \<le> MAX_RESPONSE_FRAME"
      using caught_up_wrote [OF up(1,2), of enc] up(3,4) assms(3,4) by (simp_all add: subset_iff)
    then have "length ?sent = length resps" by simp
    with w up(4) show ?thesis by (auto simp: reply_for_def not_less nth_append intro!: map_cong)
  qed
  have asked: "?sent = map (\<lambda>v. enc (reply_for enc v)) (take (length ?sent) ?resps)
      \<and> (\<forall>i < length ?sent. length (enc (?resps ! i)) \<le> MAX_RESPONSE_FRAME)"
    if a: "asks ic c req (k\<lparr>sn_replies := resps\<rparr>)" "?resps = resps @ more_resps" for req resps more_resps
  proof -
    obtain "before" body where b: "sn_frames k = before @ [Inr body]" "caught_up ic c before resps ?sent"
        "length (requests_in ic before) = length resps" using a(1) by (auto simp: asks_def)
    then have "butlast (map (\<lambda>r. Inr (enc_req r)) reqs) = before" using assms(2) by (metis butlast_snoc)
    then have before: "before = map (\<lambda>r. Inr (enc_req r)) (butlast reqs)" by (simp add: map_butlast)
    have in_reqs: "set (butlast reqs) \<subseteq> set reqs" by (auto dest: in_set_butlastD)
    then have "requests_in ic before = butlast reqs"
      unfolding before by (intro requests_of_bodies) (use assms(3) in blast)
    with b before in_reqs a(2) show ?thesis by (intro served) simp_all
  qed
  have k: "session_faithful ic c k" "replies_ok pf ic k" using assms(1) by (simp_all add: session_ok_def)
  have all: "?sent = map (\<lambda>v. enc (reply_for enc v)) (take (length ?sent) ?resps)
      \<and> (\<forall>i < length ?sent. length (enc (?resps ! i)) \<le> MAX_RESPONSE_FRAME)" if "sn_point k \<noteq> Returned"
  proof (cases "sn_point k")
    case AtFrame
    with k(1) reqs show ?thesis by (intro served [of reqs ?resps "[]"]) (simp_all add: session_faithful_def assms(2))
  next
    case (AtSend req)
    with k(1) show ?thesis by (intro asked [of req ?resps "[]"]) (simp_all add: session_faithful_def)
  next
    case (AtReply req)
    with k(1) show ?thesis by (intro asked [of req ?resps "[]"]) (simp_all add: session_faithful_def)
  next
    case (AtWrite resp)
    with k(1) show ?thesis by (auto simp: session_faithful_def dest: asked)
  qed (use that in simp)
  have "length ?resps \<le> length reqs" using k(2) by (auto simp: replies_ok_def reqs dest: list_all2_length_le)
  from alone_writes [OF this assms(3,4), of c "[]"] obtain m where m: "m \<le> length ?resps"
      "fst (alone ic c (sn_frames k) ([], ?resps)) = map (\<lambda>v. enc (reply_for enc v)) (take m ?resps)"
      "\<forall>i. Suc i < m \<longrightarrow> length (enc (?resps ! i)) \<le> MAX_RESPONSE_FRAME"
    by (auto simp: assms(2))
  have "?sent = map (\<lambda>v. enc (reply_for enc v)) (take m ?resps)" "length ?sent = m" if "sn_point k = Returned"
    using m k(1) that by (simp_all add: session_faithful_def) (metis length_map length_take min.absorb2)
  note returned = this
  show "?sent = map (\<lambda>v. enc (reply_for enc v)) (take (length ?sent) ?resps)" using all returned by metis
  show "sn_point k = Returned \<and> length ?sent = Suc i" if "i < length ?sent" "MAX_RESPONSE_FRAME < length (enc (?resps ! i))"
    using all returned(2) m(3) that by (metis Suc_lessI not_less)
qed

text \<open>C40: A conversation keeps its order from end to end, whatever the other clients do. At any moment of
  the daemon serving any number of connections in any interleaving, on a connection whose client
  wrote well-formed requests: the bytes written there so far are read by the client as one reply for
  each request but perhaps the last, in the order of the requests, and no reply is missing while the
  task waits for the next request. Each is the engine's answer to that request in a state the
  daemon reached, save that an answer longer than \<open>MAX_RESPONSE_FRAME\<close> is replaced by the error saying
  so, and the connection is closed then. A write that fails and a daemon that stops end the
  conversation without the last reply. JSON decoding is assumed to invert the encoding on the messages
  exchanged, the error about an answer that is too long to fit itself, and the writing codec to put
  the length in front of a body.\<close>

theorem every_client_in_order:
  assumes "server_run pf ic S" "ds_sessions S c = Some k"
    and "sn_frames k = map (\<lambda>r. Inr (enc_req r)) reqs" "\<forall>r \<in> set reqs. ic_from_slice ic (enc_req r) = Inr r"
    and "\<forall>v \<in> set (sn_replies k). encodes ic enc v \<and> from_resp (enc (reply_for enc v)) = Inr (reply_for enc v)
      \<and> length (enc (too_large_reply enc v)) \<le> MAX_RESPONSE_FRAME"
    and "\<forall>body. length body \<le> MAX_RESPONSE_FRAME \<longrightarrow> frame body = to_be_bytes (word_of_nat (length body)) @ body"
  defines "n \<equiv> length (sn_sent k)"
  shows "n \<le> length reqs \<and> length reqs \<le> Suc n \<and> (sn_point k = AtFrame \<longrightarrow> n = length reqs)
    \<and> list_all2 (engine_answer pf) (take n reqs) (take n (sn_replies k))
    \<and> read_replies from_resp n (concat (map frame (sn_sent k))) = map (\<lambda>v. Inr (reply_for enc v)) (take n (sn_replies k))
    \<and> (\<forall>i < n. MAX_RESPONSE_FRAME < length (enc (sn_replies k ! i)) \<longrightarrow> sn_point k = Returned \<and> n = Suc i)"
proof -
  have ok: "session_ok pf ic c k" using server_run_ok [OF assms(1)] assms(2) by (simp add: server_ok_def)
  have enc: "\<forall>v \<in> set (sn_replies k). encodes ic enc v" using assms(5) by blast
  note wrote = session_wrote [OF ok assms(3,4) enc, folded n_def]
  have paired: "n \<le> length reqs" "length reqs \<le> Suc n" "sn_point k = AtFrame \<longrightarrow> n = length reqs"
    using ok by (auto simp: session_ok_def writes_paired_def n_def assms(3) split: task_point.splits)
  have "n \<le> length (sn_replies k)"
    using arg_cong [OF wrote(1), of length] by (simp add: n_def)
  moreover have "list_all2 (engine_answer pf) (take (length (sn_replies k)) reqs) (sn_replies k)"
    using ok requests_of_bodies [OF assms(4)] by (simp add: session_ok_def replies_ok_def assms(3))
  ultimately have answers: "list_all2 (engine_answer pf) (take n reqs) (take n (sn_replies k))"
    by (metis list_all2_takeI take_take min.absorb1)
  let ?vs = "map (reply_for enc) (take n (sn_replies k))"
  have "read_replies from_resp (length ?vs) (concat (map (\<lambda>v. frame (enc v)) ?vs)) = map Inr ?vs"
    by (rule read_all_replies) (use assms(5,6) in \<open>auto simp: reply_for_def not_less dest!: in_set_takeD\<close>)
  moreover have "length ?vs = n" using \<open>n \<le> length (sn_replies k)\<close> by simp
  moreover have "concat (map (\<lambda>v. frame (enc v)) ?vs) = concat (map frame (sn_sent k))"
    using arg_cong [OF wrote(1), of "\<lambda>xs. concat (map frame xs)"] by (simp add: comp_def)
  ultimately have "read_replies from_resp n (concat (map frame (sn_sent k))) = map (\<lambda>v. Inr (reply_for enc v)) (take n (sn_replies k))"
    by (simp add: comp_def)
  with paired answers wrote(2) show ?thesis by blast
qed

subsection \<open>A conversation\<close>

definition sample_codec :: ipc_codec where
  "sample_codec = \<lparr>ic_to_vec = (\<lambda>_. Inr [1]), ic_from_slice = (\<lambda>_. Inr Overview), ic_refused = (\<lambda>_ _. None)\<rparr>"

definition sample_session :: "task_point \<Rightarrow> response \<Rightarrow> session" where
  "sample_session p resp = \<lparr>sn_point = p, sn_frames = [Inr [7]], sn_replies = [resp], sn_sent = [[1]]\<rparr>"

lemma sample_conversation:
  obtains S resp where "server_run sample_platform sample_codec S" "ds_sessions S 0 = Some (sample_session AtFrame resp)"
    "ds_permits S = 15" "ds_running S"
proof -
  obtain E where E: "start_daemon sample_platform sample_start = Inr E" by (rule sample_started)
  let ?pf = sample_platform and ?ic = sample_codec
  define L where "L = loop_start None (Inl []) 0 E"
  have S0: "server_run ?pf ?ic (server_start L)"
    unfolding L_def by (rule server_run.server_started [where w = sample_world, OF _ _ E])
      (simp_all add: sample_start_def sample_world_def fresh_world_def)
  have go: "server_run ?pf ?ic S'" if "server_run ?pf ?ic S" "task_step ?ic S S'" for S S'
    using that by (blast intro: server_run.server_stepped server_step.tasked)
  let ?resp = "handle_request [] [] 0 (dl_engine L) Overview"
  let ?k = "session_new\<lparr>sn_frames := [Inr [7]], sn_point := AtSend Overview\<rparr>"
  let ?S1 = "(server_start L)\<lparr>ds_held := Some 0\<rparr>" let ?S2 = "admit 0 ?S1"
  let ?S3 = "put_session 0 ?k ?S2" let ?S4 = "send_request 0 Overview ?k ?S3"
  have "server_run ?pf ?ic ?S1" by (rule go [OF S0], rule task_step.accepted) (simp_all add: server_start_def)
  then have "server_run ?pf ?ic ?S2"
    by (rule go, intro task_step.admitted) (simp_all add: server_start_def MAX_IPC_CONNECTIONS_def)
  moreover have "next_frame ?ic 0 (Some (Inr [7])) session_new = ?k"
    by (simp add: next_frame_def session_new_def sample_codec_def decode_def)
  moreover have "task_step ?ic ?S2 (put_session 0 (next_frame ?ic 0 (Some (Inr [7])) session_new) ?S2)"
    by (rule task_step.framed) (simp_all add: admit_def put_session_def session_new_def)
  ultimately have "server_run ?pf ?ic ?S3" using go by metis
  then have S4: "server_run ?pf ?ic ?S4"
    by (rule go, intro task_step.sent) (simp_all add: put_session_def admit_def server_start_def IPC_QUEUE_def)
  let ?k4 = "?k\<lparr>sn_point := AtReply Overview\<rparr>" and ?k5 = "?k\<lparr>sn_point := AtWrite ?resp, sn_replies := [?resp]\<rparr>"
  let ?S5 = "deliver_reply 0 ?resp ?k4 (?S4\<lparr>ds_loop := L, ds_requests := []\<rparr>)"
  have "server_step ?pf ?ic ?S4 ?S5"
    by (rule server_step.answered [where req = Overview and flows = "[]" and swl_keys = "[]" and now = 0])
      (simp_all add: send_request_def put_session_def admit_def server_start_def loop_arm_def)
  then have S5: "server_run ?pf ?ic ?S5" by (rule server_run.server_stepped [OF S4])
  have "ds_sessions ?S5 0 = Some ?k5" by (simp add: deliver_reply_def put_session_def session_new_def)
  moreover have "after_send (send_on ?ic 0 ?resp (sn_sent ?k5)) ?k5 = sample_session AtFrame ?resp"
    by (simp add: after_send_def send_on_def send_response_def write_body_def sample_codec_def sample_session_def session_new_def
        MAX_RESPONSE_FRAME_def)
  ultimately have "task_step ?ic ?S5 (put_session 0 (sample_session AtFrame ?resp) ?S5)"
    using task_step.written [of ?S5 0 ?k5 ?resp ?ic] by simp
  then have "server_run ?pf ?ic (put_session 0 (sample_session AtFrame ?resp) ?S5)" by (rule go [OF S5])
  then show ?thesis
    by (rule that [where resp = ?resp])
      (simp_all add: put_session_def deliver_reply_def send_request_def admit_def server_start_def MAX_IPC_CONNECTIONS_def)
qed

lemma clients_served_alone_witness:
  "\<exists>S resp. server_run sample_platform sample_codec S
     \<and> ds_sessions S 0 = Some (sample_session Returned resp) \<and> card (dom (ds_sessions S)) + ds_permits S = 16
     \<and> engine_answer sample_platform Overview resp \<and> fst (alone sample_codec 0 [Inr [7]] ([], [resp])) = [[1]]"
proof -
  obtain S resp where S: "server_run sample_platform sample_codec S" "ds_sessions S 0 = Some (sample_session AtFrame resp)"
    by (rule sample_conversation)
  let ?k = "next_frame sample_codec 0 None (sample_session AtFrame resp)"
  have k: "?k = sample_session Returned resp" by (simp add: next_frame_def sample_session_def)
  have "task_step sample_codec S (put_session 0 ?k S)"
    by (rule task_step.framed [OF S(2)]) (simp add: sample_session_def)
  then have "server_run sample_platform sample_codec (put_session 0 ?k S)"
    by (intro server_run.server_stepped [OF S(1)] server_step.tasked)
  moreover have "ds_sessions (put_session 0 ?k S) 0 = Some (sample_session Returned resp)" by (simp add: put_session_def k)
  ultimately obtain S' where run: "server_run sample_platform sample_codec S'"
    and at: "ds_sessions S' 0 = Some (sample_session Returned resp)" by blast
  note served = clients_served_alone [OF run, THEN conjunct2, THEN conjunct2, THEN conjunct2, THEN conjunct2, rule_format, OF at]
  have "list_all2 (engine_answer sample_platform) (take 1 (requests_in sample_codec [Inr [7]])) [resp]"
    "fst (alone sample_codec 0 [Inr [7]] ([], [resp])) = [[1]]"
    using served by (simp_all add: sample_session_def)
  moreover from this(1) have "engine_answer sample_platform Overview resp" by (simp add: sample_codec_def decode_def)
  moreover have "card (dom (ds_sessions S')) + ds_permits S' = 16"
    using clients_served_alone [OF run] by (simp add: MAX_IPC_CONNECTIONS_def)
  ultimately show ?thesis using run at by blast
qed

lemma every_client_in_order_witness:
  "\<exists>resp. engine_answer sample_platform Overview resp
     \<and> read_replies (\<lambda>_. Inr resp) 1 (to_be_bytes (word_of_nat 1) @ [1]) = [Inr resp]"
proof -
  obtain S resp where S: "server_run sample_platform sample_codec S" "ds_sessions S 0 = Some (sample_session AtFrame resp)"
    by (rule sample_conversation)
  from every_client_in_order [where reqs = "[Overview]" and enc = "\<lambda>_. [1]" and enc_req = "\<lambda>_. [7]" and c = 0
      and frame = "\<lambda>body. to_be_bytes (word_of_nat (length body)) @ body" and from_resp = "\<lambda>_. Inr resp", OF S]
  show ?thesis
    by (intro exI [of _ resp]) (simp add: sample_session_def sample_codec_def encodes_def reply_for_def MAX_RESPONSE_FRAME_def)
qed

end
