(* ===== verification/Host.thy ===== *)
theory Host
  imports Engine
begin

section \<open>Host: the processes of one host\<close>

text \<open>
  The start and the end of the process: \<open>main.rs\<close>, and the part of \<open>run_daemon\<close> that deals with what all
  processes of a host share, which is the instance lock, the pins that old versions left, and the
  path of the socket. Any number of processes may be started, fail, be killed or leave in any order.
\<close>

subsection \<open>The stages of a daemon\<close>

text \<open>How far \<open>run_daemon\<close> has come; \<open>Released\<close>: its lock is dropped but the runtime, which owns the
  listener, is not; \<open>Ended\<close>: the process is gone.\<close>

datatype stage = Initial | Configured | Locked | Cleared | Unlinked | Bound | Serving | Leaving | Released | Ended

fun stage_rank :: "stage \<Rightarrow> nat" where
  "stage_rank Initial = 0"
| "stage_rank Configured = 1"
| "stage_rank Locked = 2"
| "stage_rank Cleared = 3"
| "stage_rank Unlinked = 4"
| "stage_rank Bound = 5"
| "stage_rank Serving = 6"
| "stage_rank Leaving = 7"
| "stage_rank Released = 8"
| "stage_rank Ended = 9"

lemma stage_rank_inj: "stage_rank a = stage_rank b \<Longrightarrow> a = b"
  by (cases a; cases b) simp_all

instantiation stage :: linorder
begin

definition less_eq_stage :: "stage \<Rightarrow> stage \<Rightarrow> bool" where
  "less_eq_stage a b = (stage_rank a \<le> stage_rank b)"

definition less_stage :: "stage \<Rightarrow> stage \<Rightarrow> bool" where
  "less_stage a b = (stage_rank a < stage_rank b)"

instance
  by standard (auto simp: less_eq_stage_def less_stage_def intro: stage_rank_inj)

end

subsection \<open>The host\<close>

definition SOCK_PATH :: string where "SOCK_PATH = ''/run/vm-bandwidth-monitor.sock''"

definition LOCK_PATH :: string where "LOCK_PATH = ''/run/vm-bandwidth-monitor.lock''"

definition PINS :: "string list" where
  "PINS = [''/sys/fs/bpf/MONITORED_IPS'', ''/sys/fs/bpf/TRAFFIC'', ''/sys/fs/bpf/LIMIT_POLICIES'', ''/sys/fs/bpf/GCRA_STATE'']"

text \<open>The stage of each process started so far; whether the lock file exists and who has locked it (the
  lock goes with the file descriptor, so with the process); whose listener the path of the socket
  names; and the files under the paths of the pins.\<close>

record host =
  ho_stages :: "nat \<rightharpoonup> stage"
  ho_lock_file :: bool
  ho_lock :: "nat option"
  ho_socket :: "nat option"
  ho_pins :: "string set"

definition advance :: "nat \<Rightarrow> stage \<Rightarrow> host \<Rightarrow> host" where
  "advance p s H = H\<lparr>ho_stages := (ho_stages H)(p \<mapsto> s)\<rparr>"

text \<open>\<open>opened\<close> and \<open>flocked\<close> say whether the calls fail for reasons of their own, \<open>would_block\<close> is the error of
  \<open>try_lock\<close> on a file that another descriptor has locked.\<close>

definition acquire_instance_lock ::
  "string \<Rightarrow> nat \<Rightarrow> string option \<Rightarrow> string option \<Rightarrow> string \<Rightarrow> host \<Rightarrow> (string + unit) \<times> host" where
  "acquire_instance_lock path p opened flocked would_block H =
     (case opened of
        Some e \<Rightarrow> (Inl (''cannot create lock file '' @ path @ '': '' @ e), H)
      | None \<Rightarrow>
          let H = H\<lparr>ho_lock_file := True\<rparr> in
          case (if ho_lock H \<noteq> None then Some would_block else flocked) of
            Some e \<Rightarrow> (Inl (''another vm-bandwidth-monitor instance is already running: '' @ e), H)
          | None \<Rightarrow> (Inr (), H\<lparr>ho_lock := Some p\<rparr>))"

text \<open>Each removal of a pin or of the socket may fail, and the code goes on.\<close>

definition remove_pins :: "(string \<Rightarrow> bool) \<Rightarrow> host \<Rightarrow> host" where
  "remove_pins removed H = H\<lparr>ho_pins := fold (\<lambda>pin pins. if removed pin then pins - {pin} else pins) PINS (ho_pins H)\<rparr>"

definition remove_socket :: "bool \<Rightarrow> host \<Rightarrow> host" where
  "remove_socket removed H = (if removed then H\<lparr>ho_socket := None\<rparr> else H)"

text \<open>Binding fails on a path that is in use, and for other reasons.\<close>

definition bind_socket :: "nat \<Rightarrow> string option \<Rightarrow> host \<Rightarrow> (string + unit) \<times> host" where
  "bind_socket p failed H =
     (case (if ho_socket H \<noteq> None then Some ''Address already in use (os error 98)'' else failed) of
        Some e \<Rightarrow> (Inl (''binding '' @ SOCK_PATH @ '': '' @ e), H)
      | None \<Rightarrow> (Inr (), H\<lparr>ho_socket := Some p\<rparr>))"

definition release_lock :: "nat \<Rightarrow> host \<Rightarrow> host" where
  "release_lock p H = (if ho_lock H = Some p then H\<lparr>ho_lock := None\<rparr> else H)"

text \<open>An early return, a crash or a kill closes the descriptors of the process and removes no file.\<close>

definition exit_process :: "nat \<Rightarrow> host \<Rightarrow> host" where
  "exit_process p H = advance p Ended (release_lock p H)"

definition started :: "nat \<Rightarrow> stage \<Rightarrow> string + unit \<Rightarrow> host \<Rightarrow> host" where
  "started p s result H = (case result of Inr _ \<Rightarrow> advance p s H | Inl _ \<Rightarrow> exit_process p H)"

inductive host_step :: "host \<Rightarrow> host \<Rightarrow> bool" for H where
  launched: "ho_stages H p = None \<Longrightarrow> host_step H (advance p Initial H)"
| configured: "ho_stages H p = Some Initial \<Longrightarrow> host_step H (started p Configured result H)"
| locked: "ho_stages H p = Some Configured \<Longrightarrow> acquire_instance_lock LOCK_PATH p opened flocked would_block H = (result, H') \<Longrightarrow>
    host_step H (started p Locked result H')"
| cleared: "ho_stages H p = Some Locked \<Longrightarrow> host_step H (advance p Cleared (remove_pins removed H))"
| unlinked: "ho_stages H p = Some Cleared \<Longrightarrow> host_step H (advance p Unlinked (remove_socket rm H))"
| bound: "ho_stages H p = Some Unlinked \<Longrightarrow> bind_socket p failed H = (result, H') \<Longrightarrow> host_step H (started p Bound result H')"
| serving: "ho_stages H p = Some Bound \<Longrightarrow> host_step H (started p Serving result H)"
| leaving: "ho_stages H p = Some Serving \<Longrightarrow> host_step H (advance p Leaving (remove_socket rm H))"
| released: "ho_stages H p = Some Leaving \<Longrightarrow> host_step H (advance p Released (release_lock p H))"
| exited: "ho_stages H p = Some s \<Longrightarrow> s \<noteq> Ended \<Longrightarrow> host_step H (exit_process p H)"

inductive host_run :: "host \<Rightarrow> bool" where
  booted: "host_run \<lparr>ho_stages = Map.empty, ho_lock_file = lf, ho_lock = None, ho_socket = None, ho_pins = pins\<rparr>"
| stepped: "host_run H \<Longrightarrow> host_step H H' \<Longrightarrow> host_run H'"

inductive_cases host_stepE [elim]: "host_step H H'"

text \<open>The process a client reaches through the path of the socket.\<close>

definition connect :: "host \<Rightarrow> nat option" where
  "connect H =
     (case ho_socket H of
        None \<Rightarrow> None
      | Some p \<Rightarrow> (case ho_stages H p of None \<Rightarrow> None | Some s \<Rightarrow> if Bound \<le> s \<and> s < Ended then Some p else None))"

text \<open>The capacities the maps are loaded with: the trie holds prefixes, and a log ring is large.\<close>

definition map_capacities :: "validated_config \<Rightarrow> nat \<Rightarrow> (string \<times> u32) list" where
  "map_capacities cfg prefixes =
     [(''TRAFFIC'', vc_map_max_entries cfg), (''TRAFFIC6'', vc_map_max_entries cfg),
      (''MONITORED_IPS'', whitelist_capacity_for prefixes), (''LIMIT_POLICIES'', vc_map_max_entries cfg),
      (''LIMIT_STATE'', vc_map_max_entries cfg), (''SWL_LOG'', vc_swl_map_max_entries cfg),
      (''POLICER_STATS'', vc_map_max_entries cfg), (''OVERSIZED'', 4)]"

text \<open>What \<open>main\<close> does with the result of the mode it ran: the line on standard error and the exit code.\<close>

definition main_result :: "bool \<Rightarrow> string + unit \<Rightarrow> string + unit \<Rightarrow> string option \<times> nat" where
  "main_result ui run_ui run_daemon =
     (case (if ui then run_ui else run_daemon) of
        Inl e \<Rightarrow> (Some (''error: '' @ e), 1)
      | Inr () \<Rightarrow> (None, 0))"

subsection \<open>One daemon a host\<close>

definition in_charge :: "host \<Rightarrow> nat \<Rightarrow> bool" where
  "in_charge H p \<longleftrightarrow> (case ho_stages H p of None \<Rightarrow> False | Some s \<Rightarrow> Locked \<le> s \<and> s < Released)"

definition host_ok :: "host \<Rightarrow> bool" where
  "host_ok H \<longleftrightarrow> (\<forall>p. ho_lock H = Some p \<longleftrightarrow> in_charge H p)
     \<and> (\<forall>p. ho_stages H p = Some Bound \<or> ho_stages H p = Some Serving \<longrightarrow> ho_socket H = Some p)"

lemmas stage_order = less_eq_stage_def less_stage_def

lemma in_chargeI:
  "ho_stages H p = Some s \<Longrightarrow> in_charge H p \<longleftrightarrow> Locked \<le> s \<and> s < Released"
  by (simp add: in_charge_def)

lemma host_okD:
  assumes "host_ok H"
  shows "in_charge H p \<Longrightarrow> ho_lock H = Some p" "in_charge H p \<Longrightarrow> in_charge H q \<Longrightarrow> p = q"
    and "ho_stages H p = Some Bound \<Longrightarrow> ho_socket H = Some p" "ho_stages H p = Some Serving \<Longrightarrow> ho_socket H = Some p"
    and "ho_lock H = Some p \<Longrightarrow> in_charge H p"
proof -
  have lock: "ho_lock H = Some p \<longleftrightarrow> in_charge H p" for p using assms by (simp add: host_ok_def)
  then show "in_charge H p \<Longrightarrow> ho_lock H = Some p" "ho_lock H = Some p \<Longrightarrow> in_charge H p" by simp_all
  show "in_charge H p \<Longrightarrow> in_charge H q \<Longrightarrow> p = q" using lock [of p] lock [of q] by simp
  show "ho_stages H p = Some Bound \<Longrightarrow> ho_socket H = Some p" "ho_stages H p = Some Serving \<Longrightarrow> ho_socket H = Some p"
    using assms by (simp_all add: host_ok_def)
qed

text \<open>A process in charge moves on, and may unlink the path or take it; a process not in charge may start,
  or go.\<close>

lemma host_ok_advance:
  assumes "host_ok H" "in_charge H p" "Locked \<le> s" "s < Released"
    and "ho_lock H' = ho_lock H" "ho_stages H' = ho_stages H"
    and "s = Bound \<or> s = Serving \<Longrightarrow> ho_socket H' = Some p"
  shows "host_ok (advance p s H')"
proof -
  have "in_charge (advance p s H') q \<longleftrightarrow> in_charge H q" for q
    using assms(2-4,6) by (simp add: in_charge_def advance_def)
  moreover have "q = p" if "ho_stages H q = Some Bound \<or> ho_stages H q = Some Serving" for q
  proof -
    have "in_charge H q" using that by (auto simp: in_charge_def stage_order)
    then show ?thesis using host_okD(2) [OF assms(1,2)] by blast
  qed
  ultimately show ?thesis using assms by (auto simp: host_ok_def advance_def)
qed

lemma host_ok_exit:
  assumes "host_ok H" "Released \<le> s"
  shows "host_ok (advance p s (release_lock p H))"
proof -
  have "in_charge (advance p s (release_lock p H)) q \<longleftrightarrow> q \<noteq> p \<and> in_charge H q" for q
    using assms(2) by (auto simp: in_charge_def advance_def release_lock_def)
  moreover have "ho_lock (advance p s (release_lock p H)) = Some q \<longleftrightarrow> q \<noteq> p \<and> ho_lock H = Some q" for q
    by (auto simp: advance_def release_lock_def)
  ultimately show ?thesis using assms
    by (auto simp: host_ok_def advance_def release_lock_def stage_order)
qed

lemma host_ok_waiting:
  assumes "host_ok H" "\<not> in_charge H p" "s < Locked"
  shows "host_ok (advance p s H)"
proof -
  have "in_charge (advance p s H) q \<longleftrightarrow> in_charge H q" for q
    using assms(2,3) by (auto simp: in_charge_def advance_def stage_order)
  then show ?thesis using assms by (auto simp: host_ok_def advance_def stage_order)
qed

lemma host_ok_locked:
  assumes "host_ok H" "ho_lock H = None"
  shows "host_ok (advance p Locked (H\<lparr>ho_lock_file := lf, ho_lock := Some p\<rparr>))"
proof -
  have "\<not> in_charge H q" for q using assms host_okD(1) [OF assms(1), of q] by auto
  then have "in_charge (advance p Locked (H\<lparr>ho_lock_file := lf, ho_lock := Some p\<rparr>)) q \<longleftrightarrow> q = p" for q
    by (simp add: in_charge_def advance_def stage_order)
  then show ?thesis using assms(1) by (auto simp: host_ok_def advance_def)
qed

lemma host_ok_lock_file [simp]: "host_ok (H\<lparr>ho_lock_file := lf\<rparr>) = host_ok H"
  by (simp add: host_ok_def in_charge_def)

lemma acquire_outcome:
  assumes "acquire_instance_lock path p opened flocked would_block H = (result, H')"
  obtains lf where "H' = H\<lparr>ho_lock_file := lf\<rparr>" "\<exists>e. result = Inl e"
    | "H' = H\<lparr>ho_lock_file := True, ho_lock := Some p\<rparr>" "result = Inr ()" "ho_lock H = None"
proof (cases opened)
  case (Some e)
  then show thesis by (intro that(1) [of "ho_lock_file H"]) (use assms in \<open>auto simp: acquire_instance_lock_def\<close>)
next
  case None
  show thesis
  proof (cases "if ho_lock H \<noteq> None then Some would_block else flocked")
    case (Some e)
    then show thesis by (intro that(1) [of True]) (use assms None in \<open>auto simp: acquire_instance_lock_def\<close>)
  next
    case free: None
    then show thesis by (intro that(2)) (use assms None in \<open>auto simp: acquire_instance_lock_def split: if_splits\<close>)
  qed
qed

lemma bind_outcome:
  assumes "bind_socket p failed H = (result, H')"
  obtains e where "H' = H" "result = Inl e" | "H' = H\<lparr>ho_socket := Some p\<rparr>" "result = Inr ()"
  using assms by (auto simp: bind_socket_def split: option.splits if_splits)

lemma file_operations [simp]:
  "ho_lock (remove_pins removed H) = ho_lock H" "ho_stages (remove_pins removed H) = ho_stages H"
  "ho_socket (remove_pins removed H) = ho_socket H"
  "ho_lock (remove_socket rm H) = ho_lock H" "ho_stages (remove_socket rm H) = ho_stages H"
  "ho_pins (remove_socket rm H) = ho_pins H"
  by (simp_all add: remove_pins_def remove_socket_def)

lemma moves_keep_files [simp]:
  "ho_socket (advance p s H) = ho_socket H" "ho_pins (advance p s H) = ho_pins H"
  "ho_socket (exit_process p H) = ho_socket H" "ho_pins (exit_process p H) = ho_pins H"
  "ho_socket (started p s result H) = ho_socket H" "ho_pins (started p s result H) = ho_pins H"
  "ho_socket (release_lock p H) = ho_socket H" "ho_pins (release_lock p H) = ho_pins H"
  by (simp_all add: advance_def exit_process_def started_def release_lock_def split: sum.split)

lemma host_step_ok:
  assumes "host_ok H" "host_step H H'"
  shows "host_ok H'"
  using assms(2)
proof cases
  case (launched p)
  then show ?thesis using host_ok_waiting [OF assms(1), of p Initial] by (simp add: in_charge_def stage_order)
next
  case (configured p result)
  then show ?thesis using host_ok_waiting [OF assms(1), of p Configured] host_ok_exit [OF assms(1), of Ended p]
    by (simp add: started_def exit_process_def in_charge_def stage_order split: sum.split)
next
  case (locked p opened flocked would_block result H1)
  from locked(3) show ?thesis
  proof (cases rule: acquire_outcome)
    case (1 lf)
    moreover have "host_ok H1" using assms(1) 1(1) by simp
    ultimately show ?thesis using locked(1) host_ok_exit [of H1 Ended p]
      by (auto simp: started_def exit_process_def stage_order)
  next
    case 2
    then show ?thesis using locked(1) host_ok_locked [OF assms(1)] by (simp add: started_def)
  qed
next
  case (cleared p removed)
  then show ?thesis using host_ok_advance [OF assms(1), of p Cleared "remove_pins removed H"]
    by (simp add: in_charge_def stage_order)
next
  case (unlinked p rm)
  then show ?thesis using host_ok_advance [OF assms(1), of p Unlinked "remove_socket rm H"]
    by (simp add: in_charge_def stage_order)
next
  case (bound p failed result H1)
  from bound(3) show ?thesis
  proof (cases rule: bind_outcome)
    case (1 e)
    then show ?thesis using bound(1) host_ok_exit [OF assms(1), of Ended p]
      by (simp add: started_def exit_process_def stage_order)
  next
    case 2
    then show ?thesis using bound(1,2) host_ok_advance [OF assms(1), of p Bound H1]
      by (simp add: started_def in_charge_def stage_order)
  qed
next
  case (serving p result)
  then show ?thesis
    using host_ok_advance [OF assms(1), of p Serving H] host_ok_exit [OF assms(1), of Ended p] host_okD(3) [OF assms(1)]
    by (simp add: started_def exit_process_def in_charge_def stage_order split: sum.split)
next
  case (leaving p rm)
  then show ?thesis using host_ok_advance [OF assms(1), of p Leaving "remove_socket rm H"]
    by (simp add: in_charge_def stage_order)
next
  case (released p)
  then show ?thesis using host_ok_exit [OF assms(1), of Released p] by (simp add: stage_order)
next
  case (exited p s)
  then show ?thesis using host_ok_exit [OF assms(1), of Ended p] by (simp add: exit_process_def stage_order)
qed

lemma host_run_ok: "host_run H \<Longrightarrow> host_ok H"
proof (induction rule: host_run.induct)
  case (booted lf pins)
  then show ?case by (simp add: host_ok_def in_charge_def)
next
  case (stepped H H')
  then show ?case using host_step_ok by blast
qed

text \<open>Only the process in charge touches the pins and the path of the socket.\<close>

lemma owner_touches_files:
  assumes "host_ok H" "host_step H H'"
  shows "ho_socket H' = ho_socket H \<and> ho_pins H' = ho_pins H
    \<or> (\<exists>p. ho_lock H = Some p \<and> ho_lock H' = Some p \<and> (\<forall>q. q \<noteq> p \<longrightarrow> ho_stages H' q = ho_stages H q))"
proof -
  have lock: "ho_lock H = Some p" if "ho_stages H p = Some s" "Locked \<le> s" "s < Released" for p s
    using host_okD(1) [OF assms(1)] that by (simp add: in_charge_def)
  from assms(2) show ?thesis
  proof cases
    case (locked p opened flocked would_block result H1)
    from locked(3) show ?thesis unfolding locked(1) by (cases rule: acquire_outcome) simp_all
  next
    case (cleared p removed) then show ?thesis using lock [of p Locked] by (simp add: advance_def stage_order)
  next
    case (unlinked p rm) then show ?thesis using lock [of p Cleared] by (simp add: advance_def stage_order)
  next
    case (bound p failed result H1)
    from bound(3) show ?thesis unfolding bound(1) using lock [OF bound(2)]
      by (cases rule: bind_outcome) (simp_all add: started_def advance_def stage_order)
  next
    case (leaving p rm) then show ?thesis using lock [of p Serving] by (simp add: advance_def stage_order)
  qed simp_all
qed

text \<open>C38: A host has one daemon. However processes are started, refused, killed and stopped: the lock is held
  by exactly the process that is between taking and dropping it, so there is at most one; a client that
  connects to the path of the socket reaches that process, and every daemon that serves is reached
  there (a process that could not remove the path may be reached until it is gone); and no other
  process removes a pin, the socket of the daemon or binds its path, in particular not one whose start is
  refused or one that is stopping.\<close>

theorem one_daemon_per_host:
  assumes "host_run H"
  shows "(\<forall>p. ho_lock H = Some p \<longleftrightarrow> in_charge H p) \<and> (\<forall>p q. in_charge H p \<and> in_charge H q \<longrightarrow> p = q)
    \<and> (\<forall>p. ho_stages H p = Some Serving \<longrightarrow> connect H = Some p)
    \<and> (\<forall>p. connect H = Some p \<longrightarrow> ho_lock H = Some p \<or> ho_stages H p = Some Released)
    \<and> (\<forall>H'. host_step H H' \<longrightarrow> ho_socket H' = ho_socket H \<and> ho_pins H' = ho_pins H
        \<or> (\<exists>p. ho_lock H = Some p \<and> ho_lock H' = Some p \<and> (\<forall>q. q \<noteq> p \<longrightarrow> ho_stages H' q = ho_stages H q)))"
proof -
  have ok: "host_ok H" using assms by (rule host_run_ok)
  have "connect H = Some p" if "ho_stages H p = Some Serving" for p
    using host_okD(4) [OF ok that] that by (simp add: connect_def stage_order)
  moreover have "ho_lock H = Some p \<or> ho_stages H p = Some Released" if c: "connect H = Some p" for p
  proof -
    obtain s where s: "ho_stages H p = Some s" "Bound \<le> s" "s < Ended"
      using c by (auto simp: connect_def split: option.splits if_splits)
    show ?thesis
    proof (cases "s < Released")
      case True
      then have "in_charge H p" using s by (simp add: in_charge_def stage_order)
      then show ?thesis using host_okD(1) [OF ok] by simp
    next
      case False
      then have "s = Released" using s(3) by (cases s) (simp_all add: stage_order)
      then show ?thesis using s(1) by simp
    qed
  qed
  moreover have "\<forall>p. ho_lock H = Some p \<longleftrightarrow> in_charge H p" using ok by (simp add: host_ok_def)
  moreover have "\<forall>p q. in_charge H p \<and> in_charge H q \<longrightarrow> p = q" using host_okD(2) [OF ok] by blast
  ultimately show ?thesis using owner_touches_files [OF ok] by blast
qed

subsection \<open>A second start\<close>

text \<open>One daemon has come as far as serving, and another process wants the lock.\<close>

definition sample_host :: "nat \<Rightarrow> bool \<Rightarrow> host" where
  "sample_host n refused =
     \<lparr>ho_stages = [n \<mapsto> Serving, n + 1 \<mapsto> (if refused then Ended else Configured)], ho_lock_file = True,
      ho_lock = Some n, ho_socket = Some n, ho_pins = {}\<rparr>"

lemma sample_host_run: "host_run (sample_host n False)" "host_run (sample_host n True)"
proof -
  let ?H = "\<lambda>s lf l so. \<lparr>ho_stages = s, ho_lock_file = lf, ho_lock = l, ho_socket = so, ho_pins = {}\<rparr>"
  have start: "host_run (?H (s(p \<mapsto> Configured)) lf l so)" if "host_run (?H s lf l so)" "s p = None" for s p lf l so
  proof -
    have "host_run (advance p Initial (?H s lf l so))" by (rule host_run.stepped [OF that(1) host_step.launched]) (simp add: that)
    then have "host_run (started p Configured (Inr ()) (advance p Initial (?H s lf l so)))"
      by (rule host_run.stepped [OF _ host_step.configured]) (simp add: advance_def)
    then show ?thesis by (simp add: advance_def started_def)
  qed
  have "host_run (?H [n \<mapsto> Configured] False None None)" by (rule start [OF host_run.booted]) simp
  then have "host_run (started n Locked (Inr ()) (?H [n \<mapsto> Configured] True (Some n) None))"
    by (rule host_run.stepped [OF _ host_step.locked [where opened = None and flocked = None]])
      (simp_all add: acquire_instance_lock_def)
  then have "host_run (?H [n \<mapsto> Locked] True (Some n) None)" by (simp add: started_def advance_def)
  then have "host_run (advance n Cleared (remove_pins (\<lambda>_. True) (?H [n \<mapsto> Locked] True (Some n) None)))"
    by (rule host_run.stepped [OF _ host_step.cleared]) simp
  then have "host_run (?H [n \<mapsto> Cleared] True (Some n) None)" by (simp add: remove_pins_def PINS_def advance_def)
  then have "host_run (advance n Unlinked (remove_socket True (?H [n \<mapsto> Cleared] True (Some n) None)))"
    by (rule host_run.stepped [OF _ host_step.unlinked]) simp
  then have "host_run (?H [n \<mapsto> Unlinked] True (Some n) None)" by (simp add: remove_socket_def advance_def)
  then have "host_run (started n Bound (Inr ()) (?H [n \<mapsto> Unlinked] True (Some n) (Some n)))"
    by (rule host_run.stepped [OF _ host_step.bound [where failed = None]]) (simp_all add: bind_socket_def)
  then have "host_run (?H [n \<mapsto> Bound] True (Some n) (Some n))" by (simp add: started_def advance_def)
  then have "host_run (started n Serving (Inr ()) (?H [n \<mapsto> Bound] True (Some n) (Some n)))"
    by (rule host_run.stepped [OF _ host_step.serving]) simp
  then have "host_run (?H [n \<mapsto> Serving] True (Some n) (Some n))" by (simp add: started_def advance_def)
  then show two: "host_run (sample_host n False)"
    using start [of "[n \<mapsto> Serving]" True "Some n" "Some n" "n + 1"] by (simp add: sample_host_def)
  have "acquire_instance_lock LOCK_PATH (n + 1) None None [] (sample_host n False)
      = (Inl (''another vm-bandwidth-monitor instance is already running: ''), sample_host n False)"
    by (simp add: acquire_instance_lock_def sample_host_def)
  from host_run.stepped [OF two host_step.locked [OF _ this]] show "host_run (sample_host n True)"
    by (simp add: sample_host_def started_def exit_process_def release_lock_def advance_def fun_upd_twist)
qed

lemma one_daemon_per_host_witness:
  "host_run (sample_host 1 True) \<and> connect (sample_host 1 True) = Some 1 \<and> \<not> in_charge (sample_host 1 True) 2"
proof -
  let ?H = "sample_host 1 True"
  have "ho_lock ?H = Some 1" "ho_stages ?H 1 = Some Serving" by (simp_all add: sample_host_def)
  moreover from this(1) have "ho_lock ?H \<noteq> Some 2" by simp
  ultimately show ?thesis
    using one_daemon_per_host [OF sample_host_run(2) [of 1]] sample_host_run(2) [of 1] by blast
qed

end
