(* ===== verification/Bandwidth.thy ===== *)
theory Bandwidth
  imports F64 Strings
begin

section \<open>Bandwidth: rates and totals for the screen\<close>

text \<open>
  \<open>vm-bandwidth-core/src/bandwidth.rs\<close>. The formatting of an \<open>f64\<close> with a fixed number of decimals
  is the one of the standard library: the exact value rounded to the nearest, ties to even.
\<close>

subsection \<open>Decimals\<close>

definition round_even :: "rat \<Rightarrow> nat" where
  "round_even q =
     (let f = nat \<lfloor>q\<rfloor>; r = q - of_nat f
      in if 1 / 2 < r \<or> r = 1 / 2 \<and> odd f then f + 1 else f)"

definition show_dec :: "nat \<Rightarrow> f64 \<Rightarrow> string" where
  "show_dec decimals v =
     (let n = round_even (v * 10 ^ decimals); digits = show_nat (n mod 10 ^ decimals)
      in if decimals = 0 then show_nat n
         else show_nat (n div 10 ^ decimals) @ ''.'' @ replicate (decimals - length digits) CHR ''0'' @ digits)"

text \<open>\<open>f64::round\<close>: ties away from zero.\<close>

definition f64_nearest :: "f64 \<Rightarrow> f64" where
  "f64_nearest v = of_nat (nat \<lfloor>v + 1 / 2\<rfloor>)"

lemma round_even_of_nat [simp]: "round_even (of_nat n) = n"
  by (simp add: round_even_def)

lemma f64_nearest_of_nat [simp]: "f64_nearest (of_nat n) = of_nat n"
proof -
  have "\<lfloor>(of_nat n :: rat) + 1 / 2\<rfloor> = int n" by linarith
  then show ?thesis by (simp add: f64_nearest_def)
qed

lemma show_dec_of_nat [simp]: "show_dec 0 (of_nat n) = show_nat n"
  using round_even_of_nat [of n] by (simp add: show_dec_def)

subsection \<open>Scaling\<close>

function scale_value :: "f64 \<Rightarrow> nat \<Rightarrow> f64 \<Rightarrow> nat \<Rightarrow> f64 \<times> nat" where
  "scale_value base units value unit =
     (if base \<le> value \<and> unit + 1 < units then scale_value base units (f64_div value base) (unit + 1)
      else (value, unit))"
  by pat_completeness auto
termination
  by (relation "measure (\<lambda>(_, units, _, unit). units - unit)") auto

declare scale_value.simps [simp del]

definition fmt_scaled :: "f64 \<Rightarrow> string list \<Rightarrow> f64 \<Rightarrow> string" where
  "fmt_scaled value units base =
     (let (value, unit) = scale_value base (length units) value 0;
          number = (if unit = 0 \<or> \<bar>value - f64_nearest value\<bar> < f64_round (5 / 100) then show_dec 0 value
                    else show_dec 1 value)
      in if units ! unit = [] then number else number @ '' '' @ units ! unit)"

definition BPS_UNITS :: "string list" where
  "BPS_UNITS = [''bit/s'', ''Kbit/s'', ''Mbit/s'', ''Gbit/s'']"

definition BYTE_UNITS :: "string list" where
  "BYTE_UNITS = [''B'', ''KiB'', ''MiB'', ''GiB'', ''TiB'']"

definition COUNT_UNITS :: "string list" where
  "COUNT_UNITS = [[], ''K'', ''M'', ''G'']"

definition format_bps :: "f64 \<Rightarrow> string" where
  "format_bps bps = (if bps \<le> 0 then ''0 bit/s'' else fmt_scaled bps BPS_UNITS 1000)"

definition format_bytes :: "u64 \<Rightarrow> string" where
  "format_bytes bytes = fmt_scaled (f64_of_nat (unat bytes)) BYTE_UNITS 1024"

definition format_count :: "u64 \<Rightarrow> string" where
  "format_count count = fmt_scaled (f64_of_nat (unat count)) COUNT_UNITS 1000"

subsection \<open>Whole multiples of a unit\<close>

text \<open>The index into the units never leaves them, and the scaling ends in the last unit or below the
  base.\<close>

lemma scale_value_unit:
  "unit < units \<Longrightarrow> scale_value base units x unit = (v, u) \<Longrightarrow> u < units \<and> (u + 1 < units \<longrightarrow> v < base)"
proof (induction base units x unit rule: scale_value.induct)
  case (1 base units x unit)
  then show ?case using scale_value.simps [of base units x unit] by (auto split: if_splits)
qed

lemma scale_value_whole:
  assumes "1 < base" "n < base" "0 < n" "u < units" "n * base ^ u \<le> 2 ^ 53" "base \<le> 2 ^ 53" "k \<le> u"
  shows "scale_value (of_nat base) units (of_nat (n * base ^ k)) (u - k) = (of_nat n, u)"
  using assms(7)
proof (induction k)
  case 0
  then show ?case using assms(2) by (simp add: scale_value.simps)
next
  case (Suc k)
  have "n * base ^ k \<le> n * base ^ u" using Suc.prems assms(1) by (intro mult_le_mono2 power_increasing) simp_all
  then have small: "n * base ^ k \<le> 2 ^ 53" using assms(5) by (rule order_trans)
  have "f64_div (of_nat (n * base ^ Suc k)) (of_nat base) = f64_round (of_nat (n * base ^ k))"
    using assms(1) by (simp add: f64_div_def)
  then have quotient: "f64_div (of_nat (n * base ^ Suc k)) (of_nat base) = of_nat (n * base ^ k)"
    using small by (simp only: f64_round_of_nat)
  have "base * 1 \<le> base * (n * base ^ k)" using assms(1,3) by (intro mult_le_mono2) (simp add: Suc_le_eq)
  then have "(of_nat base :: rat) \<le> of_nat (n * base ^ Suc k)" by (simp only: of_nat_le_iff) (simp add: ac_simps)
  moreover have "u - Suc k + 1 = u - k" "u - Suc k + 1 < units" using Suc.prems assms(4) by simp_all
  ultimately show ?case
    using Suc.IH Suc.prems quotient by (subst scale_value.simps) simp
qed

lemma fmt_scaled_whole:
  assumes "1 < base" "n < base" "0 < n" "u < length units" "n * base ^ u \<le> 2 ^ 53" "base \<le> 2 ^ 53"
  shows "fmt_scaled (of_nat (n * base ^ u)) units (of_nat base)
    = (if units ! u = [] then show_nat n else show_nat n @ '' '' @ units ! u)"
proof -
  have "scale_value (of_nat base) (length units) (of_nat (n * base ^ u)) 0 = (of_nat n, u)"
    using scale_value_whole [OF assms order_refl] by simp
  moreover have "(0 :: rat) < f64_round (5 / 100)" by (rule f64_round_pos) simp
  ultimately show ?thesis by (simp add: fmt_scaled_def)
qed

end
