(* ===== verification/Tui.thy ===== *)
theory Tui
  imports Bandwidth Ipc Metrics Config "HOL-Library.Sorting_Algorithms"
begin

section \<open>Tui: what the screen of the client shows\<close>

text \<open>
  The computing part of \<open>vm-bandwidth/src/tui.rs\<close>: the state of the client, the lines of the header
  and how they are fitted to the terminal, the cells of the tables, the order of the addresses, the
  sparklines. A cell is its list of lines; styles and the drawing of widgets (\<open>ratatui\<close>) are left out,
  and of a \<open>TableState\<close> only the selection is kept. Characters that a \<open>char\<close> cannot hold are written
  in ASCII; a bar of a sparkline is its level.
\<close>

subsection \<open>State of the client\<close>

datatype screen = OverviewScreen | DetailScreen | TrendScreen

definition TREND_WINDOWS :: "(string \<times> u64 \<times> u64) list" where
  "TREND_WINDOWS = [(''1h'', 3600, 60), (''24h'', 86400, 900), (''7d'', 7 * 86400, 3600), (''30d'', 30 * 86400, 10800)]"

datatype trend_kind = BandwidthTrend | PacketsTrend

type_synonym series = "(int \<times> f64) list"

record trend_axis =
  ax_start :: int
  ax_end :: int
  ax_step :: u64

record trend_data =
  td_rx :: series
  td_tx :: series
  td_axis :: trend_axis

datatype trend_target = TargetIp u32 | TargetRange string

record trend_view =
  vw_target :: trend_target
  vw_from :: screen
  vw_win :: nat
  vw_kind :: trend_kind
  vw_data :: "trend_data option"
  vw_fetched_at :: "nat option"
  vw_error :: "string option"

definition clear_for_new_selection :: "trend_view \<Rightarrow> trend_view" where
  "clear_for_new_selection t = t\<lparr>vw_data := None, vw_error := None, vw_fetched_at := None\<rparr>"

text \<open>The fields of \<open>UiState\<close>, those about the daemon and those about the metrics each in a record.
  \<open>um_runtime\<close>: the channel and the runtime of the fetches are there.\<close>

record ui_daemon =
  ud_bridge :: string
  ud_status :: "status option"
  ud_detail :: "range_detail option"
  ud_detail_index :: "nat option"
  ud_error :: "string option"
  ud_protocol_note :: "string option"

record ui_metrics =
  um_enabled :: bool
  um_url :: string
  um_rate_window_secs :: u64
  um_runtime :: bool
  um_trend_seq :: u64

record ui_state =
  ua_daemon :: ui_daemon
  ua_refresh_ms :: nat
  ua_config_warning :: "string option"
  ua_screen :: screen
  ua_overview :: "nat option"
  ua_detail_table :: "nat option"
  ua_sort :: sort_mode
  ua_show_help :: bool
  ua_trend :: "trend_view option"
  ua_metrics :: ui_metrics

definition ui_state_new :: "string \<Rightarrow> nat \<Rightarrow> sort_mode \<Rightarrow> ui_state" where
  "ui_state_new bridge refresh_ms srt =
     \<lparr>ua_daemon = \<lparr>ud_bridge = bridge, ud_status = None, ud_detail = None, ud_detail_index = None, ud_error = None,
        ud_protocol_note = None\<rparr>,
      ua_refresh_ms = refresh_ms, ua_config_warning = None, ua_screen = OverviewScreen, ua_overview = None,
      ua_detail_table = None, ua_sort = srt, ua_show_help = False, ua_trend = None,
      ua_metrics = \<lparr>um_enabled = False, um_url = [], um_rate_window_secs = 120, um_runtime = False,
        um_trend_seq = 0\<rparr>\<rparr>"

subsection \<open>The header\<close>

definition PRIO_PLAIN :: nat where "PRIO_PLAIN = 1"
definition PRIO_NOTE :: nat where "PRIO_NOTE = 3"
definition PRIO_CONFIG_FAILURE :: nat where "PRIO_CONFIG_FAILURE = 4"
definition PRIO_WATCHER :: nat where "PRIO_WATCHER = 5"
definition PRIO_DEGRADED :: nat where "PRIO_DEGRADED = 6"
definition PRIO_ERROR :: nat where "PRIO_ERROR = 7"

lemmas prio_defs = PRIO_PLAIN_def PRIO_NOTE_def PRIO_CONFIG_FAILURE_def PRIO_WATCHER_def PRIO_DEGRADED_def PRIO_ERROR_def

lemma prio_ladder:
  "PRIO_PLAIN < PRIO_NOTE" "PRIO_NOTE < PRIO_CONFIG_FAILURE" "PRIO_CONFIG_FAILURE < PRIO_WATCHER"
  "PRIO_WATCHER < PRIO_DEGRADED" "PRIO_DEGRADED < PRIO_ERROR"
  by (simp_all add: prio_defs)

definition format_duration :: "nat \<Rightarrow> string" where
  "format_duration ms = (if ms mod 1000 = 0 then show_nat (ms div 1000) @ ''s'' else show_nat ms @ ''ms'')"

definition degraded_notice :: "nat \<Rightarrow> string" where
  "degraded_notice failures =
     ''DATAPLANE DEGRADED: '' @ show_nat failures @ '' rollback failure(s) - inspect daemon logs''"

definition reload_line :: "status option \<Rightarrow> bool \<times> string" where
  "reload_line st =
     (let generation = show_nat (case st of None \<Rightarrow> 0 | Some s \<Rightarrow> unat (st_generation s))
      in case st of
           None \<Rightarrow> (False, ''Config generation: '' @ generation)
         | Some s \<Rightarrow>
             let r = st_reload s in
             if rl_last_reload_at r \<noteq> [] then
               (\<not> rl_last_reload_ok r,
                ''Config generation: '' @ generation @ ''    Last reload: '' @ rl_last_reload_at r @ ''    Status: ''
                @ (if rl_last_reload_ok r then ''OK'' else ''FAILED'')
                @ (if \<not> rl_last_reload_ok r \<and> rl_last_reload_error r \<noteq> []
                   then ''    Error: '' @ rl_last_reload_error r else []))
             else (False, ''Config generation: '' @ generation))"

definition opt_line :: "nat \<Rightarrow> string \<Rightarrow> string option \<Rightarrow> (nat \<times> string) list" where
  "opt_line prio label m = (case m of None \<Rightarrow> [] | Some s \<Rightarrow> [(prio, label @ s)])"

definition notice_lines :: "ui_state \<Rightarrow> (nat \<times> string) list" where
  "notice_lines app =
     (let d = ua_daemon app; st = ud_status d;
          taps = (case st of None \<Rightarrow> 0 | Some s \<Rightarrow> ts_tap_count (st_taps s));
          (reload_failed, reload) = reload_line st
      in [(PRIO_PLAIN, ''VM Bandwidth Monitor''),
          (PRIO_PLAIN, ''Bridge: '' @ ud_bridge d @ ''    TAP Interfaces: '' @ show_nat taps @ ''    Refresh: ''
             @ format_duration (ua_refresh_ms app)),
          (if reload_failed then PRIO_CONFIG_FAILURE else PRIO_PLAIN, reload)]
         @ (case st of
              None \<Rightarrow> []
            | Some s \<Rightarrow>
                (if \<not> ws_healthy (st_watcher s)
                 then [(PRIO_WATCHER, ''WATCHER UNHEALTHY: '' @ show_nat (unat (ws_errors_total (st_watcher s)))
                          @ '' error(s), last: '' @ ws_last_error (st_watcher s))] else [])
                @ (if rh_degraded (st_rollback s)
                   then [(PRIO_DEGRADED, degraded_notice (unat (rh_failures_total (st_rollback s))))] else []))
         @ opt_line PRIO_CONFIG_FAILURE ''config: '' (ua_config_warning app)
         @ opt_line PRIO_NOTE ''protocol: '' (ud_protocol_note d))"

definition header_lines :: "ui_state \<Rightarrow> (nat \<times> string) list" where
  "header_lines app = notice_lines app @ opt_line PRIO_ERROR ''daemon: '' (ud_error (ua_daemon app))"

definition ranked_lines :: "(nat \<times> 'a) list \<Rightarrow> nat list" where
  "ranked_lines lines =
     Sorting_Algorithms.sort (key (\<lambda>i. (fst (lines ! i), i)) (prod_lex (reversed default) default)) [0 ..< length lines]"

definition fit_header_lines :: "(nat \<times> 'a) list \<Rightarrow> nat \<Rightarrow> 'a list" where
  "fit_header_lines lines max_content =
     (if length lines \<le> max_content then map snd lines
      else let keep = set (take max_content (ranked_lines lines))
           in map (\<lambda>(_, line). snd line) (filter (\<lambda>(i, _). i \<in> keep) (enumerate 0 lines)))"

text \<open>The rows of \<open>draw\<close>: the height of the header and its lines.\<close>

definition header_layout :: "u16 \<Rightarrow> (nat \<times> 'a) list \<Rightarrow> u16 \<times> 'a list" where
  "header_layout height lines =
     (let header_max = sat_sub height (1 + 1); max_content = unat (sat_sub header_max 2);
          fitted = fit_header_lines lines max_content
      in (min (min (word_of_nat (length fitted) + 2) (max header_max 2)) height, fitted))"

subsection \<open>The overview table\<close>

type_synonym cell = "string list"

datatype table_cols = WideCols | MidCols | MinCols

definition overview_cols :: "u16 \<Rightarrow> table_cols" where
  "overview_cols width = (if 105 \<le> width then WideCols else if 66 \<le> width then MidCols else MinCols)"

definition overview_row :: "range_summary \<Rightarrow> table_cols \<Rightarrow> cell list" where
  "overview_row r cols =
     (let rates = [[format_bps (su_bps (rs_rx r))], [format_bps (su_bps (rs_tx r))]]; limited = [show_nat (rs_limited r)]
      in case cols of
           WideCols \<Rightarrow> [[rs_name r], [rs_range r]] @ rates
             @ [[format_bytes (su_bytes (rs_rx r))], [format_bytes (su_bytes (rs_tx r))], [show_nat (rs_ip_count r)], limited]
         | MidCols \<Rightarrow> [[rs_name r], [rs_range r]] @ rates @ [limited]
         | MinCols \<Rightarrow> [[rs_name r, rs_range r]] @ rates @ [limited])"

record overview_totals =
  ot_rx_bps :: f64
  ot_tx_bps :: f64
  ot_rx_bytes :: u64
  ot_tx_bytes :: u64
  ot_ip_total :: nat
  ot_limited :: nat
  ot_dropped_bps :: f64

definition sum_f64 :: "f64 list \<Rightarrow> f64" where
  "sum_f64 xs = fold (\<lambda>x acc. f64_round (acc + x)) xs 0"

definition totals_of_ranges :: "range_summary list \<Rightarrow> overview_totals" where
  "totals_of_ranges rs =
     \<lparr>ot_rx_bps = sum_f64 (map (\<lambda>r. su_bps (rs_rx r)) rs), ot_tx_bps = sum_f64 (map (\<lambda>r. su_bps (rs_tx r)) rs),
      ot_rx_bytes = fold (\<lambda>r acc. sat_add acc (su_bytes (rs_rx r))) rs 0,
      ot_tx_bytes = fold (\<lambda>r acc. sat_add acc (su_bytes (rs_tx r))) rs 0,
      ot_ip_total = sum_list (map rs_ip_count rs), ot_limited = sum_list (map rs_limited rs),
      ot_dropped_bps = sum_f64 (map (\<lambda>r. f64_round (su_dropped_bps (rs_rx r) + su_dropped_bps (rs_tx r))) rs)\<rparr>"

definition total_row :: "overview_totals \<Rightarrow> table_cols \<Rightarrow> cell list" where
  "total_row t cols =
     (let drop_line = (\<lambda>prefix. if 0 < ot_dropped_bps t then prefix @ ''drop '' @ format_bps (ot_dropped_bps t) else prefix);
          rates = [[format_bps (ot_rx_bps t)], [format_bps (ot_tx_bps t)]]; limited = [show_nat (ot_limited t)];
          ips = show_nat (ot_ip_total t)
      in case cols of
           WideCols \<Rightarrow> [[''Sum All ranges'', drop_line []], [[]]] @ rates
             @ [[format_bytes (ot_rx_bytes t)], [format_bytes (ot_tx_bytes t)], [ips], limited]
         | MidCols \<Rightarrow> [[''Sum All ('' @ ips @ '' IPs)'', drop_line []], [[]]] @ rates @ [limited]
         | MinCols \<Rightarrow> [[''Sum All ranges'', drop_line (ips @ '' IPs - '')]] @ rates @ [limited])"

definition clamp_selection :: "nat option \<Rightarrow> nat \<Rightarrow> nat option" where
  "clamp_selection sel len =
     (if len = 0 then None else Some (case sel of None \<Rightarrow> 0 | Some s \<Rightarrow> min s (len - 1)))"

subsection \<open>The detail table\<close>

definition detail_cols :: "u16 \<Rightarrow> table_cols" where
  "detail_cols width = (if 149 \<le> width then WideCols else if 101 \<le> width then MidCols else MinCols)"

definition fmt_pol :: "u64 \<Rightarrow> string" where
  "fmt_pol v = (if v = 0 then ''-'' else format_bps (f64_of_nat (unat v)))"

definition fmt_remain :: "u64 \<Rightarrow> u64 \<Rightarrow> string" where
  "fmt_remain rx tx =
     (if rx = 0 \<and> tx = 0 then ''-''
      else if tx = 0 then ''rx '' @ show_nat (unat rx) @ ''s''
      else if rx = 0 then ''tx '' @ show_nat (unat tx) @ ''s''
      else show_nat (unat rx) @ ''s/'' @ show_nat (unat tx) @ ''s'')"

definition dir_limited :: "detail_dir \<Rightarrow> bool" where
  "dir_limited d \<longleftrightarrow> lv_state (dd_limit d) = ''LIMITED''"

definition state_cell :: "bool \<Rightarrow> cell" where
  "state_cell limited = [if limited then ''LIMITED'' else ''NORMAL'']"

definition both_states :: "bool \<Rightarrow> bool \<Rightarrow> cell" where
  "both_states rx tx = [if rx \<and> tx then ''BOTH'' else if rx then ''RX'' else if tx then ''TX'' else ''-'']"

definition ip_row :: "ip_detail \<Rightarrow> table_cols \<Rightarrow> cell list" where
  "ip_row ip cols =
     (let r = id_rx ip; t = id_tx ip; rl = dir_limited r; tl = dir_limited t;
          head = [[show_ipv4 (id_ip ip)], [format_bps (dd_bps r)], [format_bps (dd_bps t)]];
          totals = [[format_bytes (dd_bytes r)], [format_bytes (dd_bytes t)]];
          limits = [[fmt_pol (lv_limit (dd_limit r))], [fmt_pol (lv_limit (dd_limit t))]];
          remain = [[fmt_remain (lv_remaining (dd_limit r)) (lv_remaining (dd_limit t))]];
          dropped = sat_add (dd_dropped_bytes r) (dd_dropped_bytes t)
      in case cols of
           WideCols \<Rightarrow> head @ totals @ [[if dropped = 0 then ''-'' else format_bytes dropped]]
             @ [[format_bps (dd_window_bps r)], [format_bps (dd_window_bps t)]] @ limits
             @ [state_cell rl, state_cell tl] @ remain
         | MidCols \<Rightarrow> head @ totals @ limits @ [both_states rl tl] @ remain
         | MinCols \<Rightarrow> head @ [both_states rl tl])"

text \<open>The lines above the table.\<close>

definition detail_header :: "range_detail \<Rightarrow> string list" where
  "detail_header d =
     (let r = de_rx d; t = de_tx d;
          dropped_total = or (or (or (rt_dropped_bytes r) (rt_dropped_bytes t)) (rt_dropped_packets r)) (rt_dropped_packets t)
      in [''Range: '' @ de_name d @ ''    '' @ de_range d,
          ''Range RX: '' @ format_bps (rt_bps r) @ ''    Range TX: '' @ format_bps (rt_bps t)
            @ ''    RX Total: '' @ format_bytes (rt_bytes r) @ ''    TX Total: '' @ format_bytes (rt_bytes t)]
         @ (if 0 < dropped_total
            then [''Dropped RX: '' @ format_bytes (rt_dropped_bytes r) @ '' ('' @ show_nat (unat (rt_dropped_packets r))
                    @ '' pkts)    Dropped TX: '' @ format_bytes (rt_dropped_bytes t) @ '' (''
                    @ show_nat (unat (rt_dropped_packets t)) @ '' pkts)'']
            else []))"

text \<open>\<open>sort_by\<close> is a stable sort by a comparator.\<close>

definition ip_order :: "sort_mode \<Rightarrow> ip_detail comparator" where
  "ip_order mode =
     (let by_rate = (\<lambda>rate. key (\<lambda>i. (rate i, id_ip i)) (prod_lex (reversed default) default)) in
      case mode of
        SortIp \<Rightarrow> key id_ip default
      | SortRx \<Rightarrow> by_rate (\<lambda>i. dd_bps (id_rx i))
      | SortTx \<Rightarrow> by_rate (\<lambda>i. dd_bps (id_tx i))
      | SortTotal \<Rightarrow> by_rate (\<lambda>i. f64_round (dd_bps (id_rx i) + dd_bps (id_tx i))))"

definition sort_ips :: "ip_detail list \<Rightarrow> sort_mode \<Rightarrow> ip_detail list" where
  "sort_ips ips mode = Sorting_Algorithms.sort (ip_order mode) ips"

subsection \<open>What drawing does to the selections\<close>

definition draw_selections :: "ui_state \<Rightarrow> ui_state" where
  "draw_selections app =
     (case ua_screen app of
        OverviewScreen \<Rightarrow>
          (case ud_status (ua_daemon app) of None \<Rightarrow> app
           | Some s \<Rightarrow> app\<lparr>ua_overview := clamp_selection (ua_overview app) (length (st_ranges s))\<rparr>)
      | DetailScreen \<Rightarrow>
          (case ud_detail (ua_daemon app) of None \<Rightarrow> app
           | Some d \<Rightarrow> app\<lparr>ua_detail_table := clamp_selection (ua_detail_table app) (length (de_ips d))\<rparr>)
      | TrendScreen \<Rightarrow> app)"

subsection \<open>Sparklines\<close>

text \<open>\<open>f64\<close> arithmetic on values of either sign, far from the overflow of the format.\<close>

definition f64_signed :: "rat \<Rightarrow> f64" where
  "f64_signed q = (if q < 0 then - f64_round (- q) else f64_round q)"

datatype bar = Gap | Bar nat

definition i64_saturate :: "int \<Rightarrow> int" where
  "i64_saturate n = max (- (2 ^ 63)) (min (2 ^ 63 - 1) n)"

definition spark_span :: "trend_axis \<Rightarrow> nat" where
  "spark_span axis = nat (i64_saturate (ax_end axis - ax_start axis))"

definition spark_columns :: "trend_axis \<Rightarrow> nat \<Rightarrow> nat" where
  "spark_columns axis width = min width (max 1 (spark_span axis div unat (max (ax_step axis) 1) + 1))"

definition spark_column :: "trend_axis \<Rightarrow> nat \<Rightarrow> int \<Rightarrow> nat" where
  "spark_column axis n ts =
     (let offset = min (nat (i64_saturate (ts - ax_start axis))) (spark_span axis)
      in offset * n div (spark_span axis + 1))"

definition add_point :: "trend_axis \<Rightarrow> nat \<Rightarrow> int \<times> f64 \<Rightarrow> f64 list \<times> u32 list \<Rightarrow> f64 list \<times> u32 list" where
  "add_point axis n p acc =
     (let (cols, cnt) = acc; idx = spark_column axis n (fst p)
      in (cols[idx := f64_signed (cols ! idx + snd p)], cnt[idx := cnt ! idx + 1]))"

definition bar_of :: "f64 \<Rightarrow> f64 \<times> u32 \<Rightarrow> bar" where
  "bar_of m col =
     (let (sum, c) = col
      in if c = 0 then Gap
         else let level = f64_signed (f64_signed (f64_signed (sum / of_nat (unat c)) / m) * 7)
              in Bar (min (nat \<lfloor>max level 0 + 1 / 2\<rfloor>) 7))"

text \<open>The bars, or \<open>None\<close> where the text says there is no data; and min, avg and max.\<close>

definition sparkline :: "series \<Rightarrow> trend_axis \<Rightarrow> nat \<Rightarrow> bar list option \<times> f64 \<times> f64 \<times> f64" where
  "sparkline points axis width =
     (if points = [] \<or> width = 0 then (None, 0, 0, 0)
      else let vs = map snd points; mx = max (fold max vs (hd vs)) (f64_round (1 / 10 ^ 9)); mn = fold min vs (hd vs);
               avg = f64_signed (fold (\<lambda>v acc. f64_signed (acc + v)) vs 0 / f64_of_nat (length points));
               n = spark_columns axis width;
               (cols, cnt) = fold (add_point axis n) points (replicate n 0, replicate n 0)
           in (Some (map (bar_of mx) (zip cols cnt)), mn, avg, mx))"

definition fmt_val :: "trend_kind \<Rightarrow> f64 \<Rightarrow> string" where
  "fmt_val kind v =
     (case kind of
        BandwidthTrend \<Rightarrow> format_bps v
      | PacketsTrend \<Rightarrow>
          if 1000000 \<le> v then show_dec 2 (f64_div v 1000000) @ '' Mpps''
          else if 1000 \<le> v then show_dec 1 (f64_div v 1000) @ '' Kpps''
          else (if v < 0 then ''-'' else []) @ show_dec 0 \<bar>v\<bar> @ '' pps'')"

definition trend_title :: "trend_view \<Rightarrow> string" where
  "trend_title t =
     (case vw_target t of
        TargetIp ip \<Rightarrow> ''IP Trend: '' @ show_ipv4 ip @ ''   [''
      | TargetRange name \<Rightarrow> ''Range Trend: '' @ name @ ''   ['')
     @ concat (map (\<lambda>(i, label, _). if i = vw_win t then '' *'' @ label @ ''* '' else '' '' @ label @ '' '')
         (enumerate 0 TREND_WINDOWS))
     @ '']   metric: '' @ (case vw_kind t of BandwidthTrend \<Rightarrow> ''bandwidth (bit/s)'' | PacketsTrend \<Rightarrow> ''packets (pps)'')"

text \<open>The lines of the trend screen: the bars of a direction are a line of their own.\<close>

datatype trend_line = TextLine string | BarsLine string "bar list option"

definition SPARK_LABEL_COLS :: u16 where "SPARK_LABEL_COLS = 4"

definition trend_lines :: "u16 \<Rightarrow> trend_view \<Rightarrow> trend_line list" where
  "trend_lines area_width t =
     (let width = unat (sat_sub area_width (2 + SPARK_LABEL_COLS)); val = fmt_val (vw_kind t) in
      (case vw_data t of
         None \<Rightarrow> if vw_error t = None then [TextLine ''Loading trend data...''] else []
       | Some data \<Rightarrow>
           concat (map (\<lambda>(label, series).
             let (spark, mn, avg, mx) = sparkline series (td_axis data) width
             in [BarsLine (label @ ''  '') spark,
                 TextLine (''     min '' @ val mn @ ''   avg '' @ val avg @ ''   max '' @ val mx @ ''   (''
                   @ show_nat (length series) @ '' points)''),
                 TextLine [] ]) [(''RX'', td_rx data), (''TX'', td_tx data)]))
      @ (case vw_error t of None \<Rightarrow> [] | Some err \<Rightarrow> [TextLine (''VictoriaMetrics: '' @ err)]))"

subsection \<open>Column titles and the footer\<close>

definition overview_titles :: "table_cols \<Rightarrow> string list" where
  "overview_titles cols =
     (case cols of
        WideCols \<Rightarrow> [''Name'', ''IP Range'', ''RX'', ''TX'', ''RX Total'', ''TX Total'', ''IPs'', ''Limited'']
      | MidCols \<Rightarrow> [''Name'', ''IP Range'', ''RX'', ''TX'', ''Limited'']
      | MinCols \<Rightarrow> [''Name / Range'', ''RX'', ''TX'', ''Limited''])"

definition detail_titles :: "table_cols \<Rightarrow> string list" where
  "detail_titles cols =
     (case cols of
        WideCols \<Rightarrow> [''IPv4'', ''RX'', ''TX'', ''RX Total'', ''TX Total'', ''Dropped'', ''RX win'', ''TX win'',
          ''RX limit'', ''TX limit'', ''RX st'', ''TX st'', ''Remain'']
      | MidCols \<Rightarrow> [''IPv4'', ''RX'', ''TX'', ''RX Total'', ''TX Total'', ''RX limit'', ''TX limit'', ''St'', ''Remain'']
      | MinCols \<Rightarrow> [''IPv4'', ''RX'', ''TX'', ''St''])"

definition footer_text :: "ui_state \<Rightarrow> string" where
  "footer_text app =
     (case ua_screen app of
        OverviewScreen \<Rightarrow> ''Up/Down select   Enter detail   t range trend   r refresh   h help   q quit''
      | DetailScreen \<Rightarrow> ''Up/Down select   Enter trend   t range trend   s sort   r refresh   Esc back   q quit''
          @ ''   [sort: '' @ sort_label (ua_sort app) @ '']''
      | TrendScreen \<Rightarrow> ''Left/Right window   b bandwidth   p packets   r refresh   Esc back   q quit'')"

text \<open>Every row has a cell for each title.\<close>

lemma overview_columns:
  "length (overview_row r cols) = length (overview_titles cols)"
  "length (total_row t cols) = length (overview_titles cols)"
  by (cases cols; simp add: overview_row_def total_row_def overview_titles_def Let_def)+

lemma detail_columns: "length (ip_row ip cols) = length (detail_titles cols)"
  by (cases cols; simp add: ip_row_def detail_titles_def both_states_def Let_def)

subsection \<open>The header keeps what matters\<close>

lemma compare_descending:
  "compare (key (\<lambda>i. (f i, g i)) (prod_lex (reversed default) default)) x y \<noteq> Greater
    \<longleftrightarrow> f y < f x \<or> f x = f y \<and> g x \<le> g y" for f :: "'a \<Rightarrow> 'b::linorder" and g :: "'a \<Rightarrow> 'c::linorder"
  by (auto simp: compare_prod_lex_apply split: comp.split)

lemma filter_enumerate_nths:
  "map (\<lambda>(_, x). snd x) (filter (\<lambda>(i, _). i \<in> A) (enumerate k xs)) = map snd (nths xs {i. i + k \<in> A})"
proof (induction xs arbitrary: k)
  case (Cons x xs)
  have "{j. Suc j \<in> {i. i + k \<in> A}} = {i. i + Suc k \<in> A}" by simp
  with Cons.IH [of "Suc k"] show ?case by (simp only: enumerate_simps nths_Cons filter.simps) simp
qed simp

lemma ranked_lines_props:
  "set (ranked_lines lines) = {..<length lines}" "distinct (ranked_lines lines)" "length (ranked_lines lines) = length lines"
proof -
  have m: "mset (ranked_lines lines) = mset [0 ..< length lines]" by (simp add: ranked_lines_def)
  show "set (ranked_lines lines) = {..<length lines}" using mset_eq_setD [OF m] by (simp add: atLeast0LessThan)
  show "distinct (ranked_lines lines)" using mset_eq_imp_distinct_iff [OF m] by simp
  show "length (ranked_lines lines) = length lines" using mset_eq_length [OF m] by simp
qed

definition kept_lines :: "(nat \<times> 'a) list \<Rightarrow> nat \<Rightarrow> nat set" where
  "kept_lines lines m = set (take m (ranked_lines lines))"

lemma kept_lines_props:
  "kept_lines lines m \<subseteq> {..<length lines}" "card (kept_lines lines m) = min (length lines) m"
  "i \<in> kept_lines lines m \<Longrightarrow> j < length lines \<Longrightarrow> j \<notin> kept_lines lines m \<Longrightarrow>
     fst (lines ! j) < fst (lines ! i) \<or> fst (lines ! j) = fst (lines ! i) \<and> i < j"
  "fit_header_lines lines m = map snd (nths lines (kept_lines lines m))"
proof -
  note r = ranked_lines_props [of lines]
  show "kept_lines lines m \<subseteq> {..<length lines}"
    using set_take_subset [of m "ranked_lines lines"] by (simp only: kept_lines_def r(1))
  show "card (kept_lines lines m) = min (length lines) m"
    using distinct_card [OF distinct_take [OF r(2), of m]] r(3) by (simp add: kept_lines_def min.commute)
  show "fst (lines ! j) < fst (lines ! i) \<or> fst (lines ! j) = fst (lines ! i) \<and> i < j"
    if ij: "i \<in> kept_lines lines m" "j < length lines" "j \<notin> kept_lines lines m"
  proof -
    let ?cmp = "key (\<lambda>i. (fst (lines ! i), i)) (prod_lex (reversed default) default)"
    have "j \<in> set (ranked_lines lines)" using ij(2) r(1) by simp
    then have j: "j \<in> set (drop m (ranked_lines lines))"
      using ij(3) set_append [of "take m (ranked_lines lines)" "drop m (ranked_lines lines)"]
      by (simp add: kept_lines_def)
    have "Sorting_Algorithms.sorted ?cmp (take m (ranked_lines lines) @ drop m (ranked_lines lines))"
      by (simp add: ranked_lines_def)
    then have "compare ?cmp i j \<noteq> Greater"
      using ij(1) j unfolding Sorting_Algorithms.sorted_append_iff kept_lines_def by blast
    moreover have "i \<noteq> j" using ij by blast
    ultimately show ?thesis unfolding compare_descending by auto
  qed
  show "fit_header_lines lines m = map snd (nths lines (kept_lines lines m))"
  proof (cases "length lines \<le> m")
    case True
    then have "kept_lines lines m = {..<length lines}" using r(1,3) by (simp add: kept_lines_def)
    with True show ?thesis by (simp add: fit_header_lines_def nths_all)
  next
    case False
    then show ?thesis
      using filter_enumerate_nths [of "kept_lines lines m" 0 lines] by (simp add: fit_header_lines_def kept_lines_def)
  qed
qed

text \<open>The error line comes last and outranks the others.\<close>

lemma length_opt_line: "length (opt_line p label x) \<le> 1"
  by (simp add: opt_line_def split: option.split)

lemma set_opt_line: "l \<in> set (opt_line p label x) \<Longrightarrow> fst l = p"
  by (auto simp: opt_line_def split: option.splits)

lemma notice_lines_props: "length (notice_lines app) \<le> 7" "\<forall>l \<in> set (notice_lines app). fst l < PRIO_ERROR"
proof -
  show "length (notice_lines app) \<le> 7"
    using length_opt_line [of PRIO_CONFIG_FAILURE "''config: ''" "ua_config_warning app"]
      length_opt_line [of PRIO_NOTE "''protocol: ''" "ud_protocol_note (ua_daemon app)"]
    by (simp add: notice_lines_def Let_def split: option.split prod.split)
  show "\<forall>l \<in> set (notice_lines app). fst l < PRIO_ERROR"
    using set_opt_line by (fastforce simp: notice_lines_def Let_def prio_defs split: option.splits prod.splits if_splits)
qed

lemma last_kept:
  assumes "lines = ls @ [(p, x)]" "\<forall>l \<in> set ls. fst l < p" "0 < m"
  shows "length ls \<in> kept_lines lines m"
proof (rule ccontr)
  assume no: "length ls \<notin> kept_lines lines m"
  have "0 < card (kept_lines lines m)" using assms(1,3) by (simp add: kept_lines_props(2))
  then obtain i where i: "i \<in> kept_lines lines m" by (auto simp: card_gt_0_iff)
  then have "i < length lines" using kept_lines_props(1) [of lines m] by blast
  moreover have "i \<noteq> length ls" using i no by blast
  ultimately have "i < length ls" using assms(1) by simp
  then have "fst (lines ! i) < p" using assms(1,2) by (simp add: nth_append)
  with kept_lines_props(3) [OF i _ no] assms(1) show False by simp
qed

lemma unat_min_max: "unat (min a b) = min (unat a) (unat b)" "unat (max a b) = max (unat a) (unat b)"
  by (simp_all add: min_def max_def word_le_nat_alt)

text \<open>C33: Of its lines the header keeps as many as fit into the height less four rows, on a terminal of
  any height: it draws exactly those, in their order, and no line is dropped for a less important
  one, since what is dropped has a lower priority than what is kept, or the same and comes later.
  With five rows or more the header takes its kept lines and its border and leaves the body and the
  footer their row each, and the error of the daemon connection, the most important line, is always
  on the screen. With four rows or fewer no line fits, and the header takes the two rows of its border
  where there are two.\<close>

theorem header_keeps_important:
  assumes "header_layout height (header_lines app) = (rows, fitted)"
  shows "(\<exists>keep \<subseteq> {..<length (header_lines app)}. fitted = map snd (nths (header_lines app) keep)
         \<and> card keep = min (length (header_lines app)) (unat height - 4)
         \<and> (\<forall>i \<in> keep. \<forall>j \<in> {..<length (header_lines app)} - keep.
              fst (header_lines app ! j) < fst (header_lines app ! i)
              \<or> fst (header_lines app ! j) = fst (header_lines app ! i) \<and> i < j))
    \<and> (5 \<le> height \<longrightarrow> unat rows = length fitted + 2 \<and> unat rows + 2 \<le> unat height
         \<and> (\<forall>e. ud_error (ua_daemon app) = Some e \<longrightarrow> ''daemon: '' @ e \<in> set fitted))
    \<and> (height < 5 \<longrightarrow> fitted = [] \<and> unat rows = min 2 (unat height))"
proof -
  let ?ls = "header_lines app"
  define m where "m = unat height - 4"
  define keep where "keep = kept_lines ?ls m"
  have room: "unat (sat_sub (sat_sub height (1 + 1)) 2) = m" "unat (sat_sub height (1 + 1)) = unat height - 2"
    by (simp_all add: unat_sat_sub m_def)
  note kept = kept_lines_props [where lines = ?ls and m = m, folded keep_def]
  have fit: "fitted = map snd (nths ?ls keep)"
    using assms kept(4) room(1) by (simp add: header_layout_def Let_def)
  then have len: "length fitted = min (length ?ls) m"
    using kept(1,2) by (simp add: length_nths Int_absorb1 subset_eq Collect_conj_eq lessThan_def Int_absorb2)
  have short: "length ?ls \<le> 8"
    using notice_lines_props(1) [of app] length_opt_line [of PRIO_ERROR "''daemon: ''" "ud_error (ua_daemon app)"]
    by (simp add: header_lines_def)
  have small: "unat (word_of_nat (length fitted) + 2 :: u16) = length fitted + 2"
    using len short by (simp add: unat_word_ariths unsigned_of_nat take_bit_nat_eq_self mod_less)
  have "rows = min (min (word_of_nat (length fitted) + 2) (max (sat_sub height (1 + 1)) 2)) height"
    using assms room(1) by (auto simp: header_layout_def Let_def)
  then have rows: "unat rows = min (min (length fitted + 2) (max (unat height - 2) 2)) (unat height)"
    by (simp add: unat_min_max small room(2) [simplified])
  have "length fitted \<le> unat height - 4" using len by (simp add: m_def)
  then have tall: "unat rows = length fitted + 2 \<and> unat rows + 2 \<le> unat height" if "5 \<le> unat height"
    using rows that by linarith
  have err: "''daemon: '' @ e \<in> set fitted" if e: "ud_error (ua_daemon app) = Some e" and h: "5 \<le> unat height" for e
  proof -
    have l: "?ls = notice_lines app @ [(PRIO_ERROR, ''daemon: '' @ e)]" using e by (simp add: header_lines_def opt_line_def)
    have "length (notice_lines app) \<in> keep"
      using last_kept [OF l notice_lines_props(2), of m] h by (simp add: keep_def m_def)
    moreover have "length (notice_lines app) < length ?ls" using l by simp
    ultimately have "?ls ! length (notice_lines app) \<in> set (nths ?ls keep)" unfolding set_nths by blast
    then have "snd (?ls ! length (notice_lines app)) \<in> set fitted" unfolding fit set_map by (rule imageI)
    with l show ?thesis by simp
  qed
  have flat: "fitted = [] \<and> unat rows = min 2 (unat height)" if "unat height < 5"
  proof -
    have none: "fitted = []" using len that by (simp add: m_def)
    with rows that show ?thesis by linarith
  qed
  have five: "5 \<le> height \<longleftrightarrow> 5 \<le> unat height" "height < 5 \<longleftrightarrow> unat height < 5"
    by (simp_all add: word_le_nat_alt word_less_nat_alt)
  have best: "\<exists>keep \<subseteq> {..<length ?ls}. fitted = map snd (nths ?ls keep) \<and> card keep = min (length ?ls) (unat height - 4)
      \<and> (\<forall>i \<in> keep. \<forall>j \<in> {..<length ?ls} - keep.
           fst (?ls ! j) < fst (?ls ! i) \<or> fst (?ls ! j) = fst (?ls ! i) \<and> i < j)"
    using kept fit by (intro exI [of _ keep]) (simp add: m_def)
  show ?thesis unfolding five using best tall err flat by blast
qed

subsection \<open>The order of the addresses\<close>

definition rate_of :: "sort_mode \<Rightarrow> ip_detail \<Rightarrow> f64" where
  "rate_of mode i =
     (case mode of SortIp \<Rightarrow> 0 | SortRx \<Rightarrow> dd_bps (id_rx i) | SortTx \<Rightarrow> dd_bps (id_tx i)
      | SortTotal \<Rightarrow> f64_round (dd_bps (id_rx i) + dd_bps (id_tx i)))"

lemma ip_order_iff: "compare (ip_order mode) a b \<noteq> Greater
    \<longleftrightarrow> rate_of mode b < rate_of mode a \<or> rate_of mode a = rate_of mode b \<and> id_ip a \<le> id_ip b"
proof (cases mode)
  case SortIp
  then show ?thesis by (auto simp: ip_order_def rate_of_def Let_def)
qed (simp_all only: ip_order_def rate_of_def Let_def sort_mode.case compare_descending)

text \<open>Distinct addresses are never equivalent.\<close>

lemma only_equal:
  assumes "mset xs = mset ips" "distinct (map id_ip ips)" "y \<in> set xs"
  shows "filter (\<lambda>x. compare (ip_order mode) y x = Equiv) xs = [y]"
proof -
  have "distinct (map id_ip xs)"
    using assms(1,2) mset_eq_imp_distinct_iff [of "map id_ip xs" "map id_ip ips"] by simp
  then have d: "distinct xs" "inj_on id_ip (set xs)" by (simp_all add: distinct_map)
  have eq: "compare (ip_order mode) y x = Equiv \<longleftrightarrow> x = y" if "x \<in> set xs" for x
  proof
    assume e: "compare (ip_order mode) y x = Equiv"
    then have "compare (ip_order mode) x y = Equiv" by (simp add: compare.sym)
    with e have "id_ip x = id_ip y" using ip_order_iff [of mode x y] ip_order_iff [of mode y x] by auto
    with d(2) that assms(3) show "x = y" by (simp add: inj_on_eq_iff)
  qed simp
  have "filter (\<lambda>x. compare (ip_order mode) y x = Equiv) xs = filter (\<lambda>x. x = y) xs"
    using eq by (intro filter_cong) simp_all
  also have "\<dots> = [y]" using d(1) assms(3) by (induction xs) (auto simp: filter_empty_conv)
  finally show ?thesis .
qed

text \<open>The detail table shows every address once, the highest rates of the chosen mode first and equal
  rates by address; since addresses are distinct, the order does not depend on the order in which the
  daemon sent them, so the row that a key press selects is the row that was drawn.\<close>

theorem sort_ips_canonical:
  "mset (sort_ips ips mode) = mset ips
    \<and> (\<forall>i j. i < j \<and> j < length ips \<longrightarrow>
         rate_of mode (sort_ips ips mode ! j) < rate_of mode (sort_ips ips mode ! i)
         \<or> rate_of mode (sort_ips ips mode ! j) = rate_of mode (sort_ips ips mode ! i)
           \<and> id_ip (sort_ips ips mode ! i) \<le> id_ip (sort_ips ips mode ! j))
    \<and> (\<forall>ips'. mset ips' = mset ips \<and> distinct (map id_ip ips) \<longrightarrow> sort_ips ips' mode = sort_ips ips mode)"
proof (intro conjI allI impI)
  let ?cmp = "ip_order mode"
  show "mset (sort_ips ips mode) = mset ips" by (simp add: sort_ips_def)
  have pair: "compare ?cmp (xs ! i) (xs ! j) \<noteq> Greater"
    if "Sorting_Algorithms.sorted ?cmp xs" "i < j" "j < length xs" for xs i j
  proof -
    have "xs = take j xs @ drop j xs" by simp
    with that(1) have "\<forall>x \<in> set (take j xs). \<forall>y \<in> set (drop j xs). compare ?cmp x y \<noteq> Greater"
      using Sorting_Algorithms.sorted_append_iff [of ?cmp "take j xs" "drop j xs"] by simp
    moreover have "xs ! i \<in> set (take j xs)" using that(2,3) by (auto simp: in_set_conv_nth)
    moreover have "xs ! j \<in> set (drop j xs)" using that(3) by (auto simp: in_set_conv_nth intro: exI [of _ 0])
    ultimately show ?thesis by blast
  qed
  show "rate_of mode (sort_ips ips mode ! j) < rate_of mode (sort_ips ips mode ! i)
      \<or> rate_of mode (sort_ips ips mode ! j) = rate_of mode (sort_ips ips mode ! i)
        \<and> id_ip (sort_ips ips mode ! i) \<le> id_ip (sort_ips ips mode ! j)"
    if "i < j \<and> j < length ips" for i j
    using pair [of "sort_ips ips mode" i j] that by (auto simp: sort_ips_def ip_order_iff)
  show "sort_ips ips' mode = sort_ips ips mode" if same: "mset ips' = mset ips \<and> distinct (map id_ip ips)" for ips'
    unfolding sort_ips_def
  proof (rule Sorting_Algorithms.sort_eqI)
    let ?sorted = "Sorting_Algorithms.sort ?cmp ips"
    show perm: "mset ips' = mset ?sorted" using same by simp
    show "Sorting_Algorithms.sorted ?cmp ?sorted" by simp
    show "filter (\<lambda>x. compare ?cmp y x = Equiv) ips' = filter (\<lambda>x. compare ?cmp y x = Equiv) ?sorted"
      if "y \<in> set ips'" for y
      using only_equal [of ips' ips y] only_equal [of ?sorted ips y] same that mset_eq_setD [OF perm] by simp
  qed
qed

subsection \<open>Sparklines stay in their columns\<close>

lemma spark_columns_bounds: "0 < width \<Longrightarrow> 0 < spark_columns axis width \<and> spark_columns axis width \<le> width"
  by (simp add: spark_columns_def)

lemma spark_column_less: "0 < n \<Longrightarrow> spark_column axis n ts < n"
proof -
  assume n: "0 < n"
  let ?o = "min (nat (i64_saturate (ts - ax_start axis))) (spark_span axis)"
  have "?o < spark_span axis + 1" by linarith
  then have "?o * n < n * (spark_span axis + 1)" using n by (simp only: mult.commute [of n] mult_less_cancel2)
  then show ?thesis by (simp add: spark_column_def Let_def div_less_iff_less_mult)
qed

lemma spark_column_mono: "ts \<le> ts' \<Longrightarrow> spark_column axis n ts \<le> spark_column axis n ts'"
proof -
  assume "ts \<le> ts'"
  then have "i64_saturate (ts - ax_start axis) \<le> i64_saturate (ts' - ax_start axis)"
    unfolding i64_saturate_def by (intro max.mono min.mono) simp_all
  then have "min (nat (i64_saturate (ts - ax_start axis))) (spark_span axis)
      \<le> min (nat (i64_saturate (ts' - ax_start axis))) (spark_span axis)"
    by (intro min.mono nat_mono) simp_all
  then show ?thesis unfolding spark_column_def Let_def by (intro div_le_mono mult_le_mono1)
qed

lemma add_points:
  assumes "length cols = n" "length cnt = n" "0 < n" "fold (add_point axis n) ps (cols, cnt) = (cols', cnt')"
  shows "length cols' = n \<and> length cnt' = n
    \<and> (\<forall>i < n. cnt' ! i = cnt ! i + word_of_nat (length (filter (\<lambda>p. spark_column axis n (fst p) = i) ps)))"
  using assms
proof (induction ps arbitrary: cols cnt)
  case (Cons p ps)
  obtain cols1 cnt1 where one: "add_point axis n p (cols, cnt) = (cols1, cnt1)" by force
  then have "length cols1 = n" "length cnt1 = n"
    "\<forall>i < n. cnt1 ! i = cnt ! i + (if spark_column axis n (fst p) = i then 1 else 0)"
    using Cons.prems(1,2) by (auto simp: add_point_def Let_def nth_list_update)
  moreover have "fold (add_point axis n) ps (cols1, cnt1) = (cols', cnt')" using Cons.prems(4) one by simp
  ultimately show ?case using Cons.IH [of cols1 cnt1] Cons.prems(3) by simp
qed simp

text \<open>A sparkline fits its width and cannot index outside it: it has between one and \<open>width\<close> columns,
  every sample, whatever its timestamp, falls into one of them, later samples never to the left of
  earlier ones; a column is blank exactly when no sample falls into it; and a bar never exceeds the
  eighth level, whatever the values.\<close>

theorem sparkline_in_bounds:
  assumes "points \<noteq> []" "0 < width" "length points < 2 ^ 32" "n = spark_columns axis width"
  shows "\<exists>bars. fst (sparkline points axis width) = Some bars \<and> length bars = n \<and> 0 < n \<and> n \<le> width
    \<and> (\<forall>p \<in> set points. spark_column axis n (fst p) < n)
    \<and> (\<forall>p \<in> set points. \<forall>q \<in> set points. fst p \<le> fst q \<longrightarrow> spark_column axis n (fst p) \<le> spark_column axis n (fst q))
    \<and> (\<forall>i < n. bars ! i = Gap \<longleftrightarrow> (\<forall>p \<in> set points. spark_column axis n (fst p) \<noteq> i))
    \<and> (\<forall>level. Bar level \<in> set bars \<longrightarrow> level \<le> 7)"
proof -
  have n: "0 < n" "n \<le> width" using spark_columns_bounds [OF assms(2), of axis] by (simp_all add: assms(4))
  obtain cols cnt where f: "fold (add_point axis n) points (replicate n 0, replicate n 0) = (cols, cnt)" by force
  let ?mx = "max (fold max (map snd points) (hd (map snd points))) (f64_round (1 / 10 ^ 9))"
  let ?bars = "map (bar_of ?mx) (zip cols cnt)"
  have len: "length cols = n" "length cnt = n"
    "\<forall>i < n. cnt ! i = word_of_nat (length (filter (\<lambda>p. spark_column axis n (fst p) = i) points))"
    using add_points [OF _ _ n(1) f] by simp_all
  have "fst (sparkline points axis width) = Some ?bars"
    using assms(1,2) f by (simp add: sparkline_def Let_def assms(4))
  moreover have "?bars ! i = Gap \<longleftrightarrow> (\<forall>p \<in> set points. spark_column axis n (fst p) \<noteq> i)" if "i < n" for i
  proof -
    let ?k = "length (filter (\<lambda>p. spark_column axis n (fst p) = i) points)"
    have "?k < 2 ^ 32" using assms(3) by (rule le_less_trans [OF length_filter_le])
    then have "unat (word_of_nat ?k :: u32) = ?k" by (simp add: unsigned_of_nat take_bit_nat_eq_self)
    then have "cnt ! i = 0 \<longleftrightarrow> ?k = 0" using len(3) that by (metis unat_eq_zero)
    moreover have "?bars ! i = Gap \<longleftrightarrow> cnt ! i = 0" using len that by (simp add: bar_of_def Let_def)
    ultimately show ?thesis by (auto simp: filter_empty_conv)
  qed
  moreover have "level \<le> 7" if "Bar level \<in> set ?bars" for level
    using that by (auto simp: bar_of_def Let_def split: if_splits)
  ultimately show ?thesis
    using n len spark_column_less [OF n(1)] spark_column_mono by (intro exI [of _ ?bars]) simp
qed

subsection \<open>A small terminal, two addresses, two samples\<close>

definition sample_down :: ui_state where
  "sample_down = (ui_state_new ''br0'' 1000 SortIp)
     \<lparr>ua_daemon := (ua_daemon (ui_state_new ''br0'' 1000 SortIp))\<lparr>ud_error := Some ''down''\<rparr>\<rparr>"

lemma header_keeps_important_witness: "header_layout 5 (header_lines sample_down) = (3, [''daemon: down''])"
proof -
  obtain rows fitted where l: "header_layout 5 (header_lines sample_down) = (rows, fitted)" by force
  have e: "ud_error (ua_daemon sample_down) = Some ''down''" by (simp add: sample_down_def)
  have n: "1 \<le> length (header_lines sample_down)" using e by (simp add: header_lines_def opt_line_def)
  note t = header_keeps_important [OF l]
  obtain keep where "fitted = map snd (nths (header_lines sample_down) keep)" "keep \<subseteq> {..<length (header_lines sample_down)}"
    "card keep = 1" using t n by (auto simp: min_def)
  then have "length fitted = 1"
    by (simp add: length_nths Int_absorb1 subset_eq Collect_conj_eq lessThan_def Int_absorb2)
  moreover have "''daemon: down'' \<in> set fitted" using t e by simp
  ultimately have "fitted = [''daemon: down'']" by (cases fitted) auto
  moreover from this have "unat rows = unat (3 :: u16)" using t by simp
  ultimately show ?thesis using l by (simp add: word_unat_eq_iff)
qed

definition sample_detail :: "u32 \<Rightarrow> f64 \<Rightarrow> ip_detail" where
  "sample_detail ip rx =
     (let d = (\<lambda>bps. \<lparr>dd_bps = bps, dd_bytes = 0, dd_packets = 0, dd_window_bps = 0,
        dd_limit = \<lparr>lv_threshold = 0, lv_limit = 0, lv_state = ''NORMAL'', lv_remaining = 0\<rparr>,
        dd_dropped_bytes = 0, dd_dropped_packets = 0\<rparr>)
      in \<lparr>id_ip = ip, id_rx = d rx, id_tx = d 0\<rparr>)"

lemma sort_ips_canonical_witness:
  "sort_ips [sample_detail 1 5, sample_detail 2 7] SortRx = sort_ips [sample_detail 2 7, sample_detail 1 5] SortRx
   \<and> sort_ips [sample_detail 1 5, sample_detail 2 7] SortRx ! 0 = sample_detail 2 7"
proof -
  let ?a = "sample_detail 1 5" and ?b = "sample_detail 2 7" and ?s = "sort_ips [sample_detail 1 5, sample_detail 2 7] SortRx"
  have id: "id_ip ?a = 1" "id_ip ?b = 2" "rate_of SortRx ?a = 5" "rate_of SortRx ?b = 7"
    by (simp_all add: sample_detail_def rate_of_def Let_def)
  note t = sort_ips_canonical [of "[?a, ?b]" SortRx]
  have "mset [?b, ?a] = mset [?a, ?b] \<and> distinct (map id_ip [?a, ?b])" using id by simp
  with t have same: "sort_ips [?b, ?a] SortRx = ?s" by blast
  have m: "mset ?s = mset [?a, ?b]" using t by blast
  then have len: "length ?s = 2" "set ?s = {?a, ?b}" using mset_eq_length [OF m] mset_eq_setD [OF m] by simp_all
  then obtain x y where xy: "?s = [x, y]" by (auto simp: numeral_2_eq_2 length_Suc_conv)
  have "rate_of SortRx (?s ! 1) < rate_of SortRx (?s ! 0) \<or> rate_of SortRx (?s ! 1) = rate_of SortRx (?s ! 0)" using t by auto
  then have "rate_of SortRx y \<le> rate_of SortRx x" using xy by auto
  moreover have "mset [x, y] = {#?a, ?b#}" using m xy by simp
  then have "x = ?a \<and> y = ?b \<or> x = ?b \<and> y = ?a" by (auto simp: add_mset_eq_single add_eq_conv_ex)
  ultimately have "x = ?b" using id by auto
  with same xy show ?thesis by simp
qed

lemma sparkline_in_bounds_witness:
  "\<exists>bars. fst (sparkline [(0, 1), (3600, 2)] \<lparr>ax_start = 0, ax_end = 3600, ax_step = 60\<rparr> 10) = Some bars
     \<and> length bars = 10 \<and> bars ! 0 \<noteq> Gap \<and> bars ! 5 = Gap \<and> bars ! 9 \<noteq> Gap"
proof -
  let ?axis = "\<lparr>ax_start = 0, ax_end = 3600, ax_step = 60\<rparr>"
  have n: "spark_columns ?axis 10 = 10"
    by (simp add: spark_columns_def spark_span_def i64_saturate_def max_def word_le_nat_alt)
  have c: "spark_column ?axis 10 0 = 0" "spark_column ?axis 10 3600 = 9"
    by (simp_all add: spark_column_def spark_span_def i64_saturate_def)
  from sparkline_in_bounds [of "[(0, 1), (3600, 2)]" 10 10 ?axis] n c show ?thesis by auto
qed

end
