(* ===== verification/Ui.thy ===== *)
theory Ui
  imports Tui
begin

section \<open>Ui: the client\<close>

text \<open>
  The client of \<open>vm-bandwidth/src/ui.rs\<close>: keys, the poll of the daemon, the trend fetches and the loop
  that joins them. The connection is a parameter: what a request on it answers and whether a new one
  can be opened. The clocks and the HTTP responses come with each step; JSON text is parsed by
  serde (\<open>from_str\<close>). The terminal itself is left out.
\<close>

subsection \<open>Queries\<close>

definition trend_rate_window :: "u64 \<Rightarrow> u64 \<Rightarrow> u64" where
  "trend_rate_window base_secs step_secs = max base_secs step_secs"

definition show_u64 :: "u64 \<Rightarrow> string" where "show_u64 n = show_nat (unat n)"

definition trend_query :: "trend_target \<Rightarrow> string \<Rightarrow> u64 \<Rightarrow> string \<Rightarrow> string" where
  "trend_query target metric rate_window scale =
     (case target of
        TargetIp ip \<Rightarrow> ''sum(rate('' @ metric @ ''{ip='' @ quoted (show_ipv4 ip) @ ''}['' @ show_u64 rate_window @ ''s]))'' @ scale
      | TargetRange name \<Rightarrow>
          ''sum(rate('' @ metric @ ''{range='' @ quoted (escape_label name) @ ''}['' @ show_u64 rate_window @ ''s]))'' @ scale)"

text \<open>What \<open>fetch_trend\<close> hands to the spawned task.\<close>

record fetch =
  fe_seq :: u64
  fe_base :: string
  fe_rx_query :: string
  fe_tx_query :: string
  fe_start :: int
  fe_end :: int
  fe_step :: u64

definition fetch_of :: "ui_metrics \<Rightarrow> trend_view \<Rightarrow> int \<Rightarrow> fetch" where
  "fetch_of m t now_unix =
     (let (_, span, step) = TREND_WINDOWS ! vw_win t;
          (rx_metric, tx_metric) = (case vw_kind t of
             BandwidthTrend \<Rightarrow> (''vmbw_rx_bytes_total'', ''vmbw_tx_bytes_total'')
           | PacketsTrend \<Rightarrow> (''vmbw_rx_packets_total'', ''vmbw_tx_packets_total''));
          scale = (case vw_kind t of BandwidthTrend \<Rightarrow> '' * 8'' | PacketsTrend \<Rightarrow> []);
          rate_window = trend_rate_window (um_rate_window_secs m) step
      in \<lparr>fe_seq = um_trend_seq m + 1, fe_base = um_url m,
          fe_rx_query = trend_query (vw_target t) rx_metric rate_window scale,
          fe_tx_query = trend_query (vw_target t) tx_metric rate_window scale,
          fe_start = now_unix - int (unat span), fe_end = now_unix, fe_step = step\<rparr>)"

definition fetch_trend :: "nat \<Rightarrow> int \<Rightarrow> ui_state \<Rightarrow> ui_state \<times> fetch option" where
  "fetch_trend now now_unix app =
     (case ua_trend app of
        None \<Rightarrow> (app, None)
      | Some t \<Rightarrow>
          let t = t\<lparr>vw_fetched_at := Some now, vw_error := None\<rparr>; m = ua_metrics app in
          if \<not> um_enabled m then
            (app\<lparr>ua_trend := Some (t\<lparr>vw_error := Some
               ''metrics disabled: set [metrics] enabled = true in config.toml and restart''\<rparr>)\<rparr>, None)
          else if \<not> um_runtime m then
            (app\<lparr>ua_trend := Some (t\<lparr>vw_error := Some ''trend fetch runtime unavailable''\<rparr>)\<rparr>, None)
          else
            (app\<lparr>ua_trend := Some t, ua_metrics := m\<lparr>um_trend_seq := um_trend_seq m + 1\<rparr>\<rparr>,
             Some (fetch_of m t now_unix)))"

subsection \<open>Responses of the metrics store\<close>

datatype json = JNull | JBool bool | JNumber f64 | JString string | JArray "json list" | JObject "(string \<times> json) list"

text \<open>\<open>Value\<close> indexed by a name or a position: \<open>Null\<close> where there is nothing.\<close>

definition json_field :: "json \<Rightarrow> string \<Rightarrow> json" where
  "json_field v name = (case v of JObject fs \<Rightarrow> (case map_of fs name of None \<Rightarrow> JNull | Some x \<Rightarrow> x) | _ \<Rightarrow> JNull)"

definition json_at :: "json \<Rightarrow> nat \<Rightarrow> json" where
  "json_at v i = (case v of JArray xs \<Rightarrow> if i < length xs then xs ! i else JNull | _ \<Rightarrow> JNull)"

definition json_items :: "json \<Rightarrow> json list" where
  "json_items v = (case v of JArray xs \<Rightarrow> xs | _ \<Rightarrow> [])"

text \<open>A number cast to \<open>i64\<close>: cut towards zero, saturating.\<close>

definition i64_of_f64 :: "f64 \<Rightarrow> int" where
  "i64_of_f64 x = i64_saturate (if x < 0 then - \<lfloor>- x\<rfloor> else \<lfloor>x\<rfloor>)"

text \<open>\<open>parse_f64\<close> is \<open>f64::from_str\<close>: \<open>None\<close> for no number, \<open>Some None\<close> for an infinity or NaN.\<close>

definition series_point :: "(string \<Rightarrow> f64 option option) \<Rightarrow> json \<Rightarrow> (int \<times> f64) list" where
  "series_point parse_f64 point =
     (let ts = i64_of_f64 (case json_at point 0 of JNumber x \<Rightarrow> x | _ \<Rightarrow> 0);
          val = (case json_at point 1 of JString s \<Rightarrow> (case parse_f64 s of None \<Rightarrow> Some 0 | Some v \<Rightarrow> v) | _ \<Rightarrow> Some 0)
      in case val of None \<Rightarrow> [] | Some v \<Rightarrow> [(ts, v)])"

definition parse_series ::
  "(string \<Rightarrow> string + json) \<Rightarrow> (json \<Rightarrow> string) \<Rightarrow> (string \<Rightarrow> f64 option option) \<Rightarrow> string \<Rightarrow> string + series" where
  "parse_series from_str show_json parse_f64 body =
     (case from_str body of
        Inl e \<Rightarrow> Inl (''bad JSON from metrics: '' @ e)
      | Inr v \<Rightarrow>
          if json_field v ''status'' \<noteq> JString ''success'' then
            Inl (''metrics query failed: '' @ show_json (json_field v ''error''))
          else Inr (concat (map (\<lambda>s. concat (map (series_point parse_f64) (json_items (json_field s ''values''))))
                 (json_items (json_field (json_field v ''data'') ''result'')))))"

text \<open>A response is an error of the transport or a status and the chunks of a body.\<close>

definition fetch_series ::
  "(string \<Rightarrow> string + json) \<Rightarrow> (json \<Rightarrow> string) \<Rightarrow> (string \<Rightarrow> f64 option option)
    \<Rightarrow> string + nat \<times> (string + string) list \<Rightarrow> string + series" where
  "fetch_series from_str show_json parse_f64 resp =
     (case resp of
        Inl e \<Rightarrow> Inl (''metrics GET failed: '' @ e)
      | Inr (status, chunks) \<Rightarrow>
          try_bind (body_capped [] chunks) (\<lambda>body.
          if \<not> (200 \<le> status \<and> status < 300) then Inl (''HTTP '' @ show_nat status @ '': '' @ take 200 body)
          else parse_series from_str show_json parse_f64 body))"

text \<open>Both directions at once; if both fail, the error is the one that comes first.\<close>

definition fetch_pair :: "bool \<Rightarrow> string + series \<Rightarrow> string + series \<Rightarrow> fetch \<Rightarrow> string + trend_data" where
  "fetch_pair rx_first rx tx f =
     (case (rx, tx) of
        (Inr rx, Inr tx) \<Rightarrow> Inr \<lparr>td_rx = rx, td_tx = tx,
          td_axis = \<lparr>ax_start = fe_start f, ax_end = fe_end f, ax_step = fe_step f\<rparr>\<rparr>
      | (Inl e, Inr _) \<Rightarrow> Inl e
      | (Inr _, Inl e) \<Rightarrow> Inl e
      | (Inl e, Inl e') \<Rightarrow> Inl (if rx_first then e else e'))"

subsection \<open>Keys\<close>

datatype key_code = KeyChar char | KeyUp | KeyDown | KeyLeft | KeyRight | KeyEnter | KeyEsc | KeyOther

record key_event =
  ke_press :: bool
  ke_control :: bool
  ke_code :: key_code

datatype ui_action = NoAction | Quit | Refresh

definition move_selection :: "nat option \<Rightarrow> nat \<Rightarrow> int \<Rightarrow> nat option" where
  "move_selection sel len delta =
     (if len = 0 then None
      else Some (nat (max 0 (min (int len - 1) (int (case sel of None \<Rightarrow> 0 | Some s \<Rightarrow> s) + delta)))))"

definition move_row :: "int \<Rightarrow> ui_state \<Rightarrow> ui_state" where
  "move_row delta app =
     (case ua_screen app of
        OverviewScreen \<Rightarrow>
          app\<lparr>ua_overview := move_selection (ua_overview app)
            (case ud_status (ua_daemon app) of None \<Rightarrow> 0 | Some s \<Rightarrow> length (st_ranges s)) delta\<rparr>
      | DetailScreen \<Rightarrow>
          app\<lparr>ua_detail_table := move_selection (ua_detail_table app)
            (case ud_detail (ua_daemon app) of None \<Rightarrow> 0 | Some d \<Rightarrow> length (de_ips d)) delta\<rparr>
      | TrendScreen \<Rightarrow> app)"

definition new_trend :: "trend_target \<Rightarrow> screen \<Rightarrow> trend_view" where
  "new_trend target from_screen =
     \<lparr>vw_target = target, vw_from = from_screen, vw_win = 0, vw_kind = BandwidthTrend, vw_data = None,
      vw_fetched_at = None, vw_error = None\<rparr>"

definition choose_window :: "(nat \<Rightarrow> nat) \<Rightarrow> ui_state \<Rightarrow> ui_action \<times> ui_state" where
  "choose_window next app =
     (case ua_trend app of
        None \<Rightarrow> (NoAction, app)
      | Some t \<Rightarrow>
          if next (vw_win t) \<noteq> vw_win t then
            (Refresh, app\<lparr>ua_trend := Some (clear_for_new_selection (t\<lparr>vw_win := next (vw_win t)\<rparr>))\<rparr>)
          else (NoAction, app))"

definition next_window :: "ui_state \<Rightarrow> ui_action \<times> ui_state" where
  "next_window app =
     (case ua_trend app of
        None \<Rightarrow> (NoAction, app)
      | Some t \<Rightarrow>
          (Refresh, app\<lparr>ua_trend := Some (clear_for_new_selection
             (t\<lparr>vw_win := (vw_win t + 1) mod length TREND_WINDOWS\<rparr>))\<rparr>))"

definition choose_kind :: "trend_kind \<Rightarrow> ui_state \<Rightarrow> ui_action \<times> ui_state" where
  "choose_kind kind app =
     (case ua_trend app of
        None \<Rightarrow> (NoAction, app)
      | Some t \<Rightarrow>
          if vw_kind t \<noteq> kind then
            (Refresh, app\<lparr>ua_trend := Some (clear_for_new_selection (t\<lparr>vw_kind := kind\<rparr>))\<rparr>)
          else (NoAction, app))"

definition nth_range :: "ui_state \<Rightarrow> nat \<Rightarrow> range_summary option" where
  "nth_range app i =
     (case ud_status (ua_daemon app) of
        None \<Rightarrow> None
      | Some s \<Rightarrow> if i < length (st_ranges s) then Some (st_ranges s ! i) else None)"

definition open_detail :: "ui_state \<Rightarrow> ui_action \<times> ui_state" where
  "open_detail app =
     (case ua_overview app of
        None \<Rightarrow> (NoAction, app)
      | Some sel \<Rightarrow>
          if map_option rs_name (nth_range app sel) = Some IPV6_RANGE_NAME then (NoAction, app)
          else (Refresh, app\<lparr>ua_screen := DetailScreen, ua_daemon := (ua_daemon app)\<lparr>ud_detail_index := Some sel\<rparr>,
                           ua_detail_table := Some 0\<rparr>))"

definition open_trend :: "trend_target option \<Rightarrow> ui_state \<Rightarrow> ui_action \<times> ui_state" where
  "open_trend target app =
     (case target of
        None \<Rightarrow> (NoAction, app)
      | Some tg \<Rightarrow> (Refresh, app\<lparr>ua_trend := Some (new_trend tg (ua_screen app)), ua_screen := TrendScreen\<rparr>))"

definition selected_ip :: "ui_state \<Rightarrow> u32 option" where
  "selected_ip app =
     (case (ud_detail (ua_daemon app), ua_detail_table app) of
        (Some d, Some sel) \<Rightarrow>
          let ips = sort_ips (de_ips d) (ua_sort app) in if sel < length ips then Some (id_ip (ips ! sel)) else None
      | _ \<Rightarrow> None)"

definition selected_range :: "ui_state \<Rightarrow> string option" where
  "selected_range app =
     (case ua_screen app of
        OverviewScreen \<Rightarrow> Option.bind (ua_overview app) (\<lambda>sel. map_option rs_name (nth_range app sel))
      | _ \<Rightarrow> map_option de_name (ud_detail (ua_daemon app)))"

definition leave_detail :: "ui_state \<Rightarrow> ui_state" where
  "leave_detail app = app\<lparr>ua_daemon := (ua_daemon app)\<lparr>ud_detail := None, ud_detail_index := None\<rparr>\<rparr>"

definition press_esc :: "ui_state \<Rightarrow> ui_action \<times> ui_state" where
  "press_esc app =
     (case ua_screen app of
        DetailScreen \<Rightarrow> (NoAction, leave_detail (app\<lparr>ua_screen := OverviewScreen\<rparr>))
      | TrendScreen \<Rightarrow>
          let to = (case ua_trend app of None \<Rightarrow> DetailScreen | Some t \<Rightarrow> vw_from t);
              app = app\<lparr>ua_trend := None, ua_screen := to\<rparr>
          in (Refresh, if to = OverviewScreen then leave_detail app else app)
      | OverviewScreen \<Rightarrow> (NoAction, app))"

definition refresh_now :: "ui_state \<Rightarrow> ui_state" where
  "refresh_now app =
     (case ua_trend app of
        Some t \<Rightarrow> if ua_screen app = TrendScreen then app\<lparr>ua_trend := Some (t\<lparr>vw_fetched_at := None\<rparr>)\<rparr> else app
      | None \<Rightarrow> app)"

text \<open>The match on the key, arm by arm.\<close>

definition press_key :: "key_code \<Rightarrow> ui_state \<Rightarrow> ui_action \<times> ui_state" where
  "press_key code app =
     (let scr = ua_screen app in
      if code = KeyChar CHR ''q'' then (Quit, app)
      else if code = KeyChar CHR ''r'' then (Refresh, refresh_now app)
      else if code = KeyChar CHR ''h'' \<and> scr = OverviewScreen then (NoAction, app\<lparr>ua_show_help := True\<rparr>)
      else if code = KeyUp then (NoAction, move_row (- 1) app)
      else if code = KeyDown then (NoAction, move_row 1 app)
      else if code = KeyLeft \<and> scr = TrendScreen then
        choose_window (\<lambda>win. (win + length TREND_WINDOWS - 1) mod length TREND_WINDOWS) app
      else if code \<in> KeyChar ` {CHR ''1'', CHR ''2'', CHR ''3'', CHR ''4''} \<and> scr = TrendScreen then
        choose_window (\<lambda>_. case code of KeyChar d \<Rightarrow> of_char d - of_char CHR ''1'' | _ \<Rightarrow> 0) app
      else if code = KeyRight \<and> scr = TrendScreen then next_window app
      else if code = KeyChar CHR ''b'' \<and> scr = TrendScreen then choose_kind BandwidthTrend app
      else if code = KeyChar CHR ''p'' \<and> scr = TrendScreen then choose_kind PacketsTrend app
      else if code = KeyEnter \<and> scr = OverviewScreen then open_detail app
      else if code = KeyEnter \<and> scr = DetailScreen then open_trend (map_option TargetIp (selected_ip app)) app
      else if code = KeyChar CHR ''t'' \<and> (scr = OverviewScreen \<or> scr = DetailScreen) then
        open_trend (map_option TargetRange (selected_range app)) app
      else if code = KeyEsc then press_esc app
      else if code = KeyChar CHR ''s'' \<and> scr = DetailScreen then (NoAction, app\<lparr>ua_sort := sort_next (ua_sort app)\<rparr>)
      else (NoAction, app))"

definition handle_key :: "key_event \<Rightarrow> ui_state \<Rightarrow> ui_action \<times> ui_state" where
  "handle_key k app =
     (if \<not> ke_press k then (NoAction, app)
      else if ke_control k \<and> ke_code k = KeyChar CHR ''c'' then (Quit, app)
      else if ua_show_help app then (NoAction, app\<lparr>ua_show_help := False\<rparr>)
      else press_key (ke_code k) app)"

subsection \<open>The poll\<close>

text \<open>What one poll meets: the monotonic clock in nanoseconds, the wall clock, whether a new connection can
  be opened, and what a request on a connection answers.\<close>

record 'c poll_inputs =
  pl_now :: nat
  pl_unix :: int
  pl_connect :: "'c option"
  pl_request :: "request \<Rightarrow> 'c \<Rightarrow> (string + response) \<times> 'c"

definition trend_due :: "nat \<Rightarrow> ui_state \<Rightarrow> bool" where
  "trend_due now app =
     (case Option.bind (ua_trend app) vw_fetched_at of None \<Rightarrow> True | Some t \<Rightarrow> 30 * 10 ^ 9 < now - t)"

definition set_error :: "string option \<Rightarrow> ui_state \<Rightarrow> ui_state" where
  "set_error e app = app\<lparr>ua_daemon := (ua_daemon app)\<lparr>ud_error := e\<rparr>\<rparr>"

definition protocol_note :: "u32 \<Rightarrow> string option" where
  "protocol_note v =
     (if v = 0 then Some ''daemon predates protocol versioning (legacy)''
      else if PROTOCOL_VERSION < v then
        Some (''daemon protocol v'' @ show_nat (unat v) @ '' is newer than this UI (v'' @ show_nat (unat PROTOCOL_VERSION)
          @ '') - upgrade the UI'')
      else None)"

definition poll_overview :: "'c poll_inputs \<Rightarrow> 'c \<Rightarrow> ui_state \<Rightarrow> 'c option \<times> ui_state" where
  "poll_overview i c app =
     (case pl_request i Overview c of
        (Inr (StatusReply s), c) \<Rightarrow>
          (Some c, app\<lparr>ua_daemon := (ua_daemon app)\<lparr>ud_bridge := ts_bridge (st_taps s),
             ud_protocol_note := protocol_note (st_protocol_version s), ud_status := Some s, ud_error := None\<rparr>\<rparr>)
      | (Inr _, _) \<Rightarrow> (None, set_error (Some ''unexpected reply to Overview; reconnecting'') app)
      | (Inl e, _) \<Rightarrow> (None, set_error (Some e) app))"

definition set_detail :: "range_detail option \<Rightarrow> ui_state \<Rightarrow> ui_state" where
  "set_detail d app = app\<lparr>ua_daemon := (ua_daemon app)\<lparr>ud_detail := d\<rparr>\<rparr>"

definition poll_detail :: "'c poll_inputs \<Rightarrow> 'c \<Rightarrow> ui_state \<Rightarrow> 'c option \<times> ui_state" where
  "poll_detail i c app =
     (if ua_screen app \<noteq> DetailScreen then (Some c, app)
      else case (case ud_detail_index (ua_daemon app) of None \<Rightarrow> ua_overview app | Some idx \<Rightarrow> Some idx) of
        None \<Rightarrow> (Some c, app)
      | Some idx \<Rightarrow>
          (case pl_request i (RangeDetail idx) c of
             (Inr (DetailReply d), c) \<Rightarrow>
               (Some c, app\<lparr>ua_daemon := (ua_daemon app)\<lparr>ud_detail := Some d, ud_detail_index := Some idx\<rparr>\<rparr>)
           | (Inr (ErrorReply message), c) \<Rightarrow> (Some c, set_error (Some message) (set_detail None app))
           | (Inr _, _) \<Rightarrow>
               (None, set_error (Some ''unexpected reply to RangeDetail; reconnecting'') (set_detail None app))
           | (Inl e, _) \<Rightarrow> (None, set_error (Some e) (set_detail None app))))"

definition poll_daemon :: "'c poll_inputs \<Rightarrow> 'c option \<times> ui_state \<Rightarrow> 'c option \<times> ui_state" where
  "poll_daemon i ca =
     (let (client, app) = ca;
          (client, app) = (case client of
             Some c \<Rightarrow> (Some c, app)
           | None \<Rightarrow> (case pl_connect i of Some c \<Rightarrow> (Some c, set_error None app) | None \<Rightarrow> (None, app)))
      in case client of
           None \<Rightarrow>
             (None, app\<lparr>ua_daemon := (ua_daemon app)\<lparr>ud_error := Some ''daemon not reachable'', ud_status := None,
                ud_detail := None\<rparr>\<rparr>)
         | Some c \<Rightarrow>
             (case poll_overview i c app of
                (None, app) \<Rightarrow> (None, app)
              | (Some c, app) \<Rightarrow> poll_detail i c app))"

definition ui_poll :: "'c poll_inputs \<Rightarrow> 'c option \<times> ui_state \<Rightarrow> ('c option \<times> ui_state) \<times> fetch option" where
  "ui_poll i ca =
     (let (client, app) = ca;
          (app, spawned) = (if ua_screen app = TrendScreen \<and> trend_due (pl_now i) app
                            then fetch_trend (pl_now i) (pl_unix i) app else (app, None))
      in (poll_daemon i (client, app), spawned))"

subsection \<open>The loop\<close>

datatype ui_event = KeyEvent key_event | OtherEvent | EventTimeout | EventsGone

definition deliver :: "u64 \<times> (string + trend_data) \<Rightarrow> ui_state \<Rightarrow> ui_state" where
  "deliver result app =
     (case (result, ua_trend app) of
        ((seq, res), Some t) \<Rightarrow>
          if seq = um_trend_seq (ua_metrics app) then
            app\<lparr>ua_trend := Some (case res of
              Inr d \<Rightarrow> t\<lparr>vw_data := Some d, vw_error := None\<rparr>
            | Inl e \<Rightarrow> t\<lparr>vw_data := None, vw_error := Some e\<rparr>)\<rparr>
          else app
      | (_, None) \<Rightarrow> app)"

record 'c ui_loop =
  ul_app :: ui_state
  ul_client :: "'c option"
  ul_next_poll :: nat

definition REFRESH :: nat where "REFRESH = 10 ^ 9"

text \<open>One round of the loop after the screen is drawn: the event that came, when it was handled, the fetch
  results waiting in the channel, and what a poll would meet. The result is the next state and the
  fetch that was spawned, or \<open>None\<close> when the loop ends.\<close>

record 'c round_inputs =
  ro_event :: ui_event
  ro_handled_at :: nat
  ro_results :: "(u64 \<times> (string + trend_data)) list"
  ro_poll :: "'c poll_inputs"
  ro_polled_at :: nat

definition ui_round :: "'c round_inputs \<Rightarrow> 'c ui_loop \<Rightarrow> ('c ui_loop \<times> fetch option) option" where
  "ui_round i st =
     (let app = draw_selections (ul_app st);
          (action, app) = (case ro_event i of
             KeyEvent k \<Rightarrow> handle_key k app
           | OtherEvent \<Rightarrow> (NoAction, app)
           | EventTimeout \<Rightarrow> (NoAction, app)
           | EventsGone \<Rightarrow> (Quit, app))
      in if action = Quit then None
         else let next_poll = (if action = Refresh then ro_handled_at i else ul_next_poll st);
                  app = fold deliver (ro_results i) app
              in if next_poll \<le> pl_now (ro_poll i) then
                   let ((client, app), spawned) = ui_poll (ro_poll i) (ul_client st, app)
                   in Some (\<lparr>ul_app = app, ul_client = client, ul_next_poll = ro_polled_at i + REFRESH\<rparr>, spawned)
                 else Some (\<lparr>ul_app = app, ul_client = ul_client st, ul_next_poll = next_poll\<rparr>, None))"

text \<open>Before the loop: the configuration, if it could be read, and the first poll.\<close>

definition ui_start :: "validated_config option \<Rightarrow> (string + 'c) \<Rightarrow> 'c poll_inputs \<Rightarrow> nat \<Rightarrow> 'c ui_loop \<times> fetch option" where
  "ui_start cfg connection i polled_at =
     (let app = ui_state_new ''br0'' 1000 (case cfg of None \<Rightarrow> SortIp | Some c \<Rightarrow> vc_default_sort c);
          app = (case cfg of
             Some c \<Rightarrow> app\<lparr>ua_metrics := (ua_metrics app)\<lparr>um_enabled := vc_metrics_enabled c, um_url := vc_metrics_url c,
                 um_rate_window_secs := max (vc_metrics_push_interval_secs c * 2) 120\<rparr>\<rparr>
           | None \<Rightarrow> app\<lparr>ua_config_warning := Some ''config unreadable: trend screen disabled (daemon data still shown)''\<rparr>);
          app = app\<lparr>ua_metrics := (ua_metrics app)\<lparr>um_runtime := True\<rparr>\<rparr>;
          (client, app) = (case connection of Inr c \<Rightarrow> (Some c, app) | Inl e \<Rightarrow> (None, set_error (Some e) app));
          ((client, app), spawned) = ui_poll i (client, app)
      in (\<lparr>ul_app = app, ul_client = client, ul_next_poll = polled_at + REFRESH\<rparr>, spawned))"

subsection \<open>Runs\<close>

text \<open>A fetch result answers a spawned fetch: it has its number, and data carries the axis of its query.\<close>

definition answers :: "fetch \<Rightarrow> u64 \<times> (string + trend_data) \<Rightarrow> bool" where
  "answers f r \<longleftrightarrow> fst r = fe_seq f
     \<and> (case snd r of Inl _ \<Rightarrow> True
        | Inr d \<Rightarrow> td_axis d = \<lparr>ax_start = fe_start f, ax_end = fe_end f, ax_step = fe_step f\<rparr>)"

lemma fetch_pair_answers: "fetch_pair rx_first rx tx f = res \<Longrightarrow> answers f (fe_seq f, res)"
  by (auto simp: fetch_pair_def answers_def split: sum.splits)

inductive ui_run :: "'c ui_loop \<Rightarrow> fetch list \<Rightarrow> bool" where
  started: "ui_start cfg connection i polled_at = (st, spawned) \<Longrightarrow> ui_run st (case spawned of None \<Rightarrow> [] | Some f \<Rightarrow> [f])"
| round: "ui_run st fs \<Longrightarrow> \<forall>r \<in> set (ro_results i). \<exists>f \<in> set fs. answers f r \<Longrightarrow>
    ui_round i st = Some (st', spawned) \<Longrightarrow> ui_run st' (fs @ (case spawned of None \<Rightarrow> [] | Some f \<Rightarrow> [f]))"

definition ui_ok :: "ui_state \<Rightarrow> bool" where
  "ui_ok app \<longleftrightarrow>
     (case ua_trend app of
        None \<Rightarrow> ua_screen app \<noteq> TrendScreen
          \<and> (if ua_screen app = DetailScreen then ud_detail_index (ua_daemon app) \<noteq> None
             else ud_detail_index (ua_daemon app) = None \<and> ud_detail (ua_daemon app) = None)
      | Some t \<Rightarrow> ua_screen app = TrendScreen \<and> vw_win t < length TREND_WINDOWS \<and> vw_from t \<noteq> TrendScreen
          \<and> (if vw_from t = DetailScreen then ud_detail_index (ua_daemon app) \<noteq> None
             else ud_detail_index (ua_daemon app) = None \<and> ud_detail (ua_daemon app) = None))"

lemma length_TREND_WINDOWS [simp]: "length TREND_WINDOWS = 4"
  by (simp add: TREND_WINDOWS_def)

lemma ui_ok_cong:
  assumes "ui_ok app" "ua_trend app' = ua_trend app" "ua_screen app' = ua_screen app" "ua_daemon app' = ua_daemon app"
  shows "ui_ok app'"
  using assms(1) unfolding ui_ok_def assms(2-4) .

lemma ui_ok_move [simp]: "ui_ok app \<Longrightarrow> ui_ok (move_row delta app)"
  by (erule ui_ok_cong) (simp_all add: move_row_def split: screen.split)

lemma ui_ok_draw [simp]: "ui_ok app \<Longrightarrow> ui_ok (draw_selections app)"
  by (erule ui_ok_cong) (simp_all add: draw_selections_def split: screen.split option.split)

lemma ui_ok_trend:
  assumes "ui_ok app" "ua_trend app = Some t" "vw_win t' < 4" "vw_from t' = vw_from t"
  shows "ui_ok (app\<lparr>ua_trend := Some t'\<rparr>)"
  using assms by (simp add: ui_ok_def)

lemma ui_ok_deliver [simp]: "ui_ok app \<Longrightarrow> ui_ok (deliver r app)"
proof (cases "ua_trend app")
  case (Some t)
  assume ok: "ui_ok app"
  then have "vw_win t < 4" using Some by (simp add: ui_ok_def)
  then show ?thesis
    using ok ui_ok_trend [OF ok Some] by (auto simp: deliver_def Some split: prod.split sum.split)
qed (simp add: deliver_def split: prod.split)

lemma ui_ok_fetch [simp]: "ui_ok app \<Longrightarrow> ui_ok (fst (fetch_trend now now_unix app))"
proof (cases "ua_trend app")
  case (Some t)
  assume "ui_ok app"
  then show ?thesis by (simp add: fetch_trend_def Some Let_def ui_ok_def)
qed (simp add: fetch_trend_def)

lemma ui_ok_choices:
  assumes "ui_ok app"
  shows "(\<And>win. win < 4 \<Longrightarrow> next win < 4) \<Longrightarrow> ui_ok (snd (choose_window next app))"
    "ui_ok (snd (next_window app))" "ui_ok (snd (choose_kind kind app))" "ui_ok (refresh_now app)"
proof -
  have win: "vw_win t < 4" if "ua_trend app = Some t" for t using assms that by (simp add: ui_ok_def)
  show "ui_ok (snd (choose_window next app))" if "\<And>win. win < 4 \<Longrightarrow> next win < 4"
    using assms win that
    by (cases "ua_trend app") (auto simp: choose_window_def clear_for_new_selection_def intro!: ui_ok_trend)
  show "ui_ok (snd (next_window app))" "ui_ok (snd (choose_kind kind app))" "ui_ok (refresh_now app)"
    using assms win
    by (cases "ua_trend app"; auto simp: next_window_def choose_kind_def refresh_now_def clear_for_new_selection_def
        intro!: ui_ok_trend)+
qed

lemma ui_ok_open:
  assumes "ui_ok app"
  shows "ua_screen app = OverviewScreen \<Longrightarrow> ui_ok (snd (open_detail app))"
    "ua_screen app \<noteq> TrendScreen \<Longrightarrow> ui_ok (snd (open_trend target app))" "ui_ok (snd (press_esc app))"
  using assms
  by (auto simp: open_detail_def open_trend_def press_esc_def leave_detail_def new_trend_def ui_ok_def Let_def
      split: option.splits screen.splits if_splits)

lemma ui_ok_press:
  assumes "ui_ok app"
  shows "ui_ok (snd (press_key code app))"
proof -
  have digit: "(case code of KeyChar d \<Rightarrow> of_char d - of_char CHR ''1'' | _ \<Rightarrow> 0) < (4 :: nat)"
    if "code \<in> KeyChar ` {CHR ''1'', CHR ''2'', CHR ''3'', CHR ''4''}"
    using that by auto
  have left: "(win + length TREND_WINDOWS - 1) mod length TREND_WINDOWS < 4" for win by simp
  have flags: "ui_ok (app\<lparr>ua_show_help := True\<rparr>)" "ui_ok (app\<lparr>ua_sort := srt\<rparr>)" for srt
    by (rule ui_ok_cong [OF assms]; simp)+
  note parts = assms flags ui_ok_move [OF assms] ui_ok_choices [OF assms] ui_ok_open [OF assms] digit left
  show ?thesis
    unfolding press_key_def Let_def
    by (intro if_split [where P = "\<lambda>x. ui_ok (snd x)", THEN iffD2] conjI impI)
      (simp_all add: parts, elim conjE disjE, simp_all add: parts)
qed

lemma ui_ok_key:
  assumes "ui_ok app"
  shows "ui_ok (snd (handle_key k app))"
proof -
  have "ui_ok (app\<lparr>ua_show_help := False\<rparr>)" by (rule ui_ok_cong [OF assms]) simp_all
  then show ?thesis using assms by (simp add: handle_key_def ui_ok_press)
qed

lemma ui_ok_daemon:
  assumes "ui_ok app" "ua_trend app' = ua_trend app" "ua_screen app' = ua_screen app"
    and "ud_detail_index (ua_daemon app') = ud_detail_index (ua_daemon app)"
    and "ud_detail (ua_daemon app') = ud_detail (ua_daemon app) \<or> ud_detail (ua_daemon app') = None"
  shows "ui_ok app'"
  using assms by (auto simp: ui_ok_def split: option.splits if_splits)

lemma ui_ok_poll_daemon:
  assumes "ui_ok app" "poll_daemon i (client, app) = (client', app')"
  shows "ui_ok app'"
proof -
  define app1 where "app1 = (if client = None \<and> pl_connect i \<noteq> None then set_error None app else app)"
  have 1: "ui_ok app1" by (rule ui_ok_daemon [OF assms(1)]) (simp_all add: app1_def set_error_def)
  define c1 where "c1 = (if client = None then pl_connect i else client)"
  have run: "(case c1 of
      None \<Rightarrow> (None, app1\<lparr>ua_daemon := (ua_daemon app1)\<lparr>ud_error := Some ''daemon not reachable'', ud_status := None,
          ud_detail := None\<rparr>\<rparr>)
    | Some c \<Rightarrow> (case poll_overview i c app1 of (None, app) \<Rightarrow> (None, app) | (Some c, app) \<Rightarrow> poll_detail i c app))
    = (client', app')"
    using assms(2) by (auto simp: poll_daemon_def app1_def c1_def Let_def split: option.splits)
  show ?thesis
  proof (cases c1)
    case None
    with run show ?thesis by (auto intro!: ui_ok_daemon [OF 1])
  next
    case (Some c)
    obtain c2 app2 where o: "poll_overview i c app1 = (c2, app2)" by force
    have 2: "ui_ok app2"
      using o by (intro ui_ok_daemon [OF 1]) (auto simp: poll_overview_def set_error_def split: prod.splits sum.splits response.splits)
    show ?thesis
    proof (cases c2)
      case None
      with run Some o 2 show ?thesis by simp
    next
      case c: (Some c)
      then have d: "poll_detail i c app2 = (client', app')" using run Some o by simp
      show ?thesis
        using d 2 by (auto simp: poll_detail_def ui_ok_def set_error_def set_detail_def
            split: prod.splits sum.splits response.splits option.splits if_splits)
    qed
  qed
qed

lemma ui_ok_poll:
  assumes "ui_ok app" "ui_poll i (client, app) = ((client', app'), spawned)"
  shows "ui_ok app'"
proof -
  let ?due = "ua_screen app = TrendScreen \<and> trend_due (pl_now i) app"
  let ?app1 = "fst (if ?due then fetch_trend (pl_now i) (pl_unix i) app else (app, None))"
  have "poll_daemon i (client, ?app1) = (client', app')"
    using assms(2) by (simp add: ui_poll_def Let_def case_prod_beta split: if_splits)
  then show ?thesis by (rule ui_ok_poll_daemon [rotated]) (simp add: assms(1))
qed

lemma ui_ok_fold: "ui_ok app \<Longrightarrow> ui_ok (fold deliver rs app)"
  by (induction rs arbitrary: app) simp_all

lemma ui_ok_round:
  assumes "ui_ok (ul_app st)" "ui_round i st = Some (st', spawned)"
  shows "ui_ok (ul_app st')"
proof -
  define ev where "ev = (case ro_event i of
       KeyEvent k \<Rightarrow> handle_key k (draw_selections (ul_app st))
     | OtherEvent \<Rightarrow> (NoAction, draw_selections (ul_app st))
     | EventTimeout \<Rightarrow> (NoAction, draw_selections (ul_app st))
     | EventsGone \<Rightarrow> (Quit, draw_selections (ul_app st)))"
  obtain action app where ea: "ev = (action, app)" by force
  have "ui_ok (snd ev)" using assms(1) by (simp add: ev_def ui_ok_key split: ui_event.split)
  then have ok: "ui_ok (fold deliver (ro_results i) app)" using ea by (simp add: ui_ok_fold)
  obtain client' app' sp where poll: "ui_poll (ro_poll i) (ul_client st, fold deliver (ro_results i) app) = ((client', app'), sp)"
    by (metis prod.collapse)
  show ?thesis
    using assms(2) ok ui_ok_poll [OF ok poll] poll ea
    by (auto simp: ui_round_def Let_def ev_def [symmetric] split: if_splits)
qed

lemma ui_ok_start:
  assumes "ui_start cfg connection i polled_at = (st, spawned)"
  shows "ui_ok (ul_app st)"
proof -
  have new: "ui_ok app" if "ua_trend app = None" "ua_screen app = OverviewScreen"
    "ud_detail_index (ua_daemon app) = None" "ud_detail (ua_daemon app) = None" for app
    using that by (simp add: ui_ok_def)
  show ?thesis
    using assms
    by (auto simp: ui_start_def Let_def ui_state_new_def set_error_def
        intro!: ui_ok_poll [OF new] split: option.splits sum.splits prod.splits)
qed

text \<open>C34: Whatever keys are pressed and whatever the daemon and the metrics store answer, the client's state
  stays consistent: there is a trend exactly on the trend screen, its window is one of the four, so
  the table of windows is never indexed outside, and Esc leads from it to a screen that is not the
  trend screen; on the detail screen, and behind a trend opened from it, the index of the range is
  known, so every poll asks for the range on the screen; and no detail survives on the overview.\<close>

theorem ui_state_consistent:
  assumes "ui_run st fs"
  shows "(ua_screen (ul_app st) = TrendScreen \<longleftrightarrow> ua_trend (ul_app st) \<noteq> None)
    \<and> (\<forall>t. ua_trend (ul_app st) = Some t \<longrightarrow> vw_win t < length TREND_WINDOWS \<and> vw_from t \<noteq> TrendScreen)
    \<and> (ua_screen (ul_app st) = DetailScreen \<longrightarrow> ud_detail_index (ua_daemon (ul_app st)) \<noteq> None)
    \<and> (ua_screen (ul_app st) = OverviewScreen \<longrightarrow> ud_detail (ua_daemon (ul_app st)) = None)"
proof -
  have "ui_ok (ul_app st)" using assms by (induction rule: ui_run.induct) (auto intro: ui_ok_start ui_ok_round)
  then show ?thesis by (auto simp: ui_ok_def split: option.splits if_splits)
qed

subsection \<open>A stream out of step\<close>

definition polled_index :: "ui_state \<Rightarrow> nat option" where
  "polled_index app =
     (if ua_screen app \<noteq> DetailScreen then None
      else case ud_detail_index (ua_daemon app) of None \<Rightarrow> ua_overview app | Some idx \<Rightarrow> Some idx)"

lemma poll_overview_result:
  assumes "poll_overview i c app = (client', app')"
  shows "case client' of
      None \<Rightarrow> ud_error (ua_daemon app') \<noteq> None
    | Some c1 \<Rightarrow> \<exists>s. pl_request i Overview c = (Inr (StatusReply s), c1) \<and> ud_status (ua_daemon app') = Some s
        \<and> polled_index app' = polled_index app"
  using assms
  by (auto simp: poll_overview_def set_error_def polled_index_def
      split: prod.splits sum.splits response.splits option.split)

lemma poll_detail_result:
  assumes "poll_detail i c1 app = (client', app')"
  shows "case client' of
      None \<Rightarrow> ud_error (ua_daemon app') \<noteq> None
    | Some c' \<Rightarrow> ud_status (ua_daemon app') = ud_status (ua_daemon app)
        \<and> (case polled_index app of
             None \<Rightarrow> c' = c1
           | Some idx \<Rightarrow>
               (\<exists>d. pl_request i (RangeDetail idx) c1 = (Inr (DetailReply d), c')
                  \<and> ud_detail (ua_daemon app') = Some d \<and> ud_detail_index (ua_daemon app') = Some idx)
               \<or> (\<exists>message. pl_request i (RangeDetail idx) c1 = (Inr (ErrorReply message), c')
                  \<and> ud_detail (ua_daemon app') = None \<and> ud_error (ua_daemon app') = Some message))"
  using assms
  by (auto simp: poll_detail_def set_error_def set_detail_def polled_index_def
      split: prod.splits sum.splits response.splits option.splits if_splits)

text \<open>C35: A poll keeps the connection only if every reply it read was one to the request it had just sent:
  a status to the overview request, then a detail or an error to the detail request for the range
  on the screen. Any other reply and any failure drops the connection and leaves an error on the
  screen, so replies are never read one request late; and an error the daemon replies with is shown.\<close>

theorem poll_stays_in_step:
  assumes "poll_daemon i (client, app) = (client', app')" "client = Some c \<or> client = None \<and> pl_connect i = Some c"
  shows "case client' of
      None \<Rightarrow> ud_error (ua_daemon app') \<noteq> None
    | Some c' \<Rightarrow> \<exists>s c1. pl_request i Overview c = (Inr (StatusReply s), c1) \<and> ud_status (ua_daemon app') = Some s
        \<and> (case polled_index app of
             None \<Rightarrow> c' = c1
           | Some idx \<Rightarrow>
               (\<exists>d. pl_request i (RangeDetail idx) c1 = (Inr (DetailReply d), c')
                  \<and> ud_detail (ua_daemon app') = Some d \<and> ud_detail_index (ua_daemon app') = Some idx)
               \<or> (\<exists>message. pl_request i (RangeDetail idx) c1 = (Inr (ErrorReply message), c')
                  \<and> ud_detail (ua_daemon app') = None \<and> ud_error (ua_daemon app') = Some message))"
proof -
  define app1 where "app1 = (if client = None then set_error None app else app)"
  have same: "polled_index app1 = polled_index app"
    by (simp add: app1_def set_error_def polled_index_def split: option.split)
  obtain c1 app2 where o: "poll_overview i c app1 = (c1, app2)" by force
  have run: "(case c1 of None \<Rightarrow> (None, app2) | Some c \<Rightarrow> poll_detail i c app2) = (client', app')"
    using assms o by (auto simp: poll_daemon_def app1_def Let_def)
  show ?thesis
  proof (cases c1)
    case None
    with run poll_overview_result [OF o] show ?thesis by simp
  next
    case (Some c1')
    with run have d: "poll_detail i c1' app2 = (client', app')" by simp
    from poll_overview_result [OF o] Some same obtain s where s: "pl_request i Overview c = (Inr (StatusReply s), c1')"
      "ud_status (ua_daemon app2) = Some s" "polled_index app2 = polled_index app" by auto
    show ?thesis
    proof (cases client')
      case None
      with poll_detail_result [OF d] show ?thesis by simp
    next
      case (Some c')
      with poll_detail_result [OF d] s show ?thesis by simp
    qed
  qed
qed

subsection \<open>Leaving\<close>

lemma help_kept:
  "ua_show_help (draw_selections app) = ua_show_help app" "ua_show_help (deliver r app) = ua_show_help app"
  "ua_show_help (fst (fetch_trend now now_unix app)) = ua_show_help app"
  by (simp_all add: draw_selections_def deliver_def fetch_trend_def Let_def
      split: screen.split option.split prod.split sum.split)

lemma help_fold: "ua_show_help (fold deliver rs app) = ua_show_help app"
  by (induction rs arbitrary: app) (simp_all add: help_kept)

lemma help_overview: "poll_overview i c app = (c', app') \<Longrightarrow> ua_show_help app' = ua_show_help app"
  by (auto simp: poll_overview_def set_error_def split: prod.splits sum.splits response.splits)

lemma help_detail: "ua_show_help (snd (poll_detail i c app)) = ua_show_help app"
  by (simp add: poll_detail_def set_error_def set_detail_def
      split: prod.split sum.split response.split option.split)

lemma help_poll: "ua_show_help (snd (fst (ui_poll i (client, app)))) = ua_show_help app"
proof -
  have "ua_show_help (snd (poll_daemon i (client, app))) = ua_show_help app" for app
    by (auto simp: poll_daemon_def set_error_def help_detail split: option.split prod.split dest!: help_overview)
  then show ?thesis by (simp add: ui_poll_def Let_def case_prod_beta help_kept)
qed

text \<open>C36: The client can always be left: Ctrl-C ends the loop in any state, and so does \<open>q\<close>, except that
  the first press of a key while the help is open only closes the help.\<close>

theorem ui_can_quit:
  assumes "ro_event i = KeyEvent \<lparr>ke_press = True, ke_control = ctl, ke_code = code\<rparr>"
  shows "(ctl \<and> code = KeyChar CHR ''c'' \<longrightarrow> ui_round i st = None)
    \<and> (code = KeyChar CHR ''q'' \<and> \<not> ua_show_help (ul_app st) \<longrightarrow> ui_round i st = None)
    \<and> (code = KeyChar CHR ''q'' \<and> ua_show_help (ul_app st) \<longrightarrow>
         (\<exists>st' spawned. ui_round i st = Some (st', spawned) \<and> \<not> ua_show_help (ul_app st')))"
proof (intro conjI impI)
  let ?app = "draw_selections (ul_app st)"
  show "ui_round i st = None" if "ctl \<and> code = KeyChar CHR ''c''"
    using that assms by (simp add: ui_round_def handle_key_def Let_def)
  show "ui_round i st = None" if "code = KeyChar CHR ''q'' \<and> \<not> ua_show_help (ul_app st)"
    using that assms by (simp add: ui_round_def handle_key_def press_key_def help_kept Let_def)
  show "\<exists>st' spawned. ui_round i st = Some (st', spawned) \<and> \<not> ua_show_help (ul_app st')"
    if q: "code = KeyChar CHR ''q'' \<and> ua_show_help (ul_app st)"
  proof -
    have key: "handle_key \<lparr>ke_press = True, ke_control = ctl, ke_code = code\<rparr> ?app = (NoAction, ?app\<lparr>ua_show_help := False\<rparr>)"
      using q by (simp add: handle_key_def help_kept)
    let ?app' = "fold deliver (ro_results i) (?app\<lparr>ua_show_help := False\<rparr>)"
    have "\<not> ua_show_help ?app'" by (simp add: help_fold)
    moreover obtain client app2 sp where p: "ui_poll (ro_poll i) (ul_client st, ?app') = ((client, app2), sp)"
      by (metis prod.collapse)
    moreover have "ua_show_help app2 = ua_show_help ?app'" using help_poll [of "ro_poll i" "ul_client st" ?app'] p by simp
    ultimately show ?thesis using assms key by (simp add: ui_round_def Let_def)
  qed
qed

subsection \<open>Late results\<close>

text \<open>Only a spawned fetch changes the number that results are compared with.\<close>

lemma metrics_kept:
  "ua_metrics (draw_selections app) = ua_metrics app" "ua_metrics (deliver r app) = ua_metrics app"
  "ua_metrics (set_error e app) = ua_metrics app" "ua_metrics (set_detail d app) = ua_metrics app"
  by (simp_all add: draw_selections_def deliver_def set_error_def set_detail_def
      split: screen.split option.split prod.split sum.split)

lemma metrics_fold: "ua_metrics (fold deliver rs app) = ua_metrics app"
  by (induction rs arbitrary: app) (simp_all add: metrics_kept)

lemma metrics_keys:
  "ua_metrics (move_row d app) = ua_metrics app" "ua_metrics (snd (choose_window next app)) = ua_metrics app"
  "ua_metrics (snd (next_window app)) = ua_metrics app" "ua_metrics (snd (choose_kind kind app)) = ua_metrics app"
  "ua_metrics (refresh_now app) = ua_metrics app" "ua_metrics (snd (open_detail app)) = ua_metrics app"
  "ua_metrics (snd (open_trend target app)) = ua_metrics app" "ua_metrics (snd (press_esc app)) = ua_metrics app"
  by (simp_all add: move_row_def choose_window_def next_window_def choose_kind_def refresh_now_def open_detail_def
      open_trend_def press_esc_def leave_detail_def Let_def split: screen.split option.split)

lemma metrics_handled: "ua_metrics (snd (handle_key k app)) = ua_metrics app"
  by (simp add: handle_key_def press_key_def Let_def metrics_keys)

lemma metrics_poll_daemon: "ua_metrics (snd (poll_daemon i (client, app))) = ua_metrics app"
proof -
  have "ua_metrics app' = ua_metrics app" if "poll_overview i c app = (c', app')" for c c' app app'
    using that by (auto simp: poll_overview_def metrics_kept split: prod.splits sum.splits response.splits)
  moreover have "ua_metrics (snd (poll_detail i c app)) = ua_metrics app" for c app
    by (simp add: poll_detail_def metrics_kept split: prod.split sum.split response.split option.split)
  ultimately show ?thesis
    by (auto simp: poll_daemon_def metrics_kept split: option.split prod.split)
qed

text \<open>A poll that spawns a fetch gives it the next number.\<close>

definition numbered :: "ui_state \<Rightarrow> fetch list \<Rightarrow> bool" where
  "numbered app fs \<longleftrightarrow> um_trend_seq (ua_metrics app) = word_of_nat (length fs)
     \<and> (\<forall>i < length fs. fe_seq (fs ! i) = word_of_nat (Suc i))"

lemma numbered_poll:
  assumes "numbered app fs" "ui_poll i (client, app) = ((client', app'), spawned)"
  shows "numbered app' (fs @ (case spawned of None \<Rightarrow> [] | Some f \<Rightarrow> [f]))"
proof -
  let ?r = "if ua_screen app = TrendScreen \<and> trend_due (pl_now i) app
      then fetch_trend (pl_now i) (pl_unix i) app else (app, None)"
  have fetched: "numbered (fst ?r) (fs @ (case snd ?r of None \<Rightarrow> [] | Some f \<Rightarrow> [f]))"
    using assms(1)
    by (auto simp: fetch_trend_def fetch_of_def numbered_def Let_def nth_append less_Suc_eq split: option.split prod.split)
  have "poll_daemon i (client, fst ?r) = (client', app')" "spawned = snd ?r"
    using assms(2) by (auto simp: ui_poll_def Let_def split: prod.splits)
  with fetched metrics_poll_daemon [of i client "fst ?r"] show ?thesis by (simp add: numbered_def)
qed

lemma numbered_cong: "ua_metrics app' = ua_metrics app \<Longrightarrow> numbered app' fs = numbered app fs"
  by (simp add: numbered_def)

lemma ui_run_numbered: "ui_run st fs \<Longrightarrow> numbered (ul_app st) fs"
proof (induction rule: ui_run.induct)
  case (started cfg connection i polled_at st spawned)
  have new: "numbered app' (case sp of None \<Rightarrow> [] | Some f \<Rightarrow> [f])"
    if "ui_poll i (client, app) = ((client', app'), sp)" "um_trend_seq (ua_metrics app) = 0" for client app client' app' sp
    using numbered_poll [OF _ that(1), of "[]"] that(2) by (simp add: numbered_def)
  define app where "app = (let app = ui_state_new ''br0'' 1000 (case cfg of None \<Rightarrow> SortIp | Some c \<Rightarrow> vc_default_sort c);
      app = (case cfg of
         Some c \<Rightarrow> app\<lparr>ua_metrics := (ua_metrics app)\<lparr>um_enabled := vc_metrics_enabled c, um_url := vc_metrics_url c,
             um_rate_window_secs := max (vc_metrics_push_interval_secs c * 2) 120\<rparr>\<rparr>
       | None \<Rightarrow> app\<lparr>ua_config_warning := Some ''config unreadable: trend screen disabled (daemon data still shown)''\<rparr>)
      in app\<lparr>ua_metrics := (ua_metrics app)\<lparr>um_runtime := True\<rparr>\<rparr>)"
  define ca where "ca = (case connection of Inr c \<Rightarrow> (Some c, app) | Inl e \<Rightarrow> (None, set_error (Some e) app))"
  have zero: "um_trend_seq (ua_metrics (snd ca)) = 0"
    by (simp add: ca_def app_def ui_state_new_def Let_def metrics_kept split: sum.split option.split)
  obtain client' app' sp where poll: "ui_poll i ca = ((client', app'), sp)" by (metis prod.collapse)
  then have "ul_app st = app'" "spawned = sp"
    using started unfolding ui_start_def Let_def app_def [unfolded Let_def, symmetric] ca_def [symmetric] by auto
  with new [of "fst ca" "snd ca"] poll zero show ?case by simp
next
  case (round st fs i st' spawned)
  define ev where "ev = (case ro_event i of
       KeyEvent k \<Rightarrow> handle_key k (draw_selections (ul_app st))
     | OtherEvent \<Rightarrow> (NoAction, draw_selections (ul_app st))
     | EventTimeout \<Rightarrow> (NoAction, draw_selections (ul_app st))
     | EventsGone \<Rightarrow> (Quit, draw_selections (ul_app st)))"
  obtain action app where ea: "ev = (action, app)" by force
  have "ua_metrics (snd ev) = ua_metrics (ul_app st)"
    by (simp add: ev_def metrics_handled metrics_kept split: ui_event.split)
  then have "ua_metrics (fold deliver (ro_results i) app) = ua_metrics (ul_app st)" using ea by (simp add: metrics_fold)
  from numbered_cong [OF this] round.IH have ok: "numbered (fold deliver (ro_results i) app) fs" by blast
  obtain client' app' sp where poll: "ui_poll (ro_poll i) (ul_client st, fold deliver (ro_results i) app) = ((client', app'), sp)"
    by (metis prod.collapse)
  show ?case
    using round.hyps(3) ok numbered_poll [OF ok poll] poll ea
    by (auto simp: ui_round_def Let_def ev_def [symmetric] split: if_splits)
qed

text \<open>A key that selects another trend clears the chart.\<close>

definition selection :: "trend_view \<Rightarrow> trend_target \<times> nat \<times> trend_kind" where
  "selection t = (vw_target t, vw_win t, vw_kind t)"

definition kept_or_cleared :: "ui_state \<Rightarrow> ui_state \<Rightarrow> bool" where
  "kept_or_cleared app app' \<longleftrightarrow> (\<forall>t t'. ua_trend app = Some t \<longrightarrow> ua_trend app' = Some t' \<longrightarrow>
     selection t' = selection t \<or> vw_data t' = None)"

lemma kept_same: "ua_trend app' = ua_trend app \<Longrightarrow> kept_or_cleared app app'"
  by (simp add: kept_or_cleared_def)

lemma kept_steps:
  "kept_or_cleared app (move_row d app)" "kept_or_cleared app (snd (choose_window next app))"
  "kept_or_cleared app (snd (next_window app))" "kept_or_cleared app (snd (choose_kind kind app))"
  "kept_or_cleared app (refresh_now app)" "kept_or_cleared app (snd (open_detail app))"
  "kept_or_cleared app (snd (open_trend target app))" "kept_or_cleared app (snd (press_esc app))"
  "kept_or_cleared app (app\<lparr>ua_show_help := h\<rparr>)" "kept_or_cleared app (app\<lparr>ua_sort := m\<rparr>)" "kept_or_cleared app app"
  by (auto simp: kept_or_cleared_def move_row_def choose_window_def next_window_def choose_kind_def refresh_now_def
      open_detail_def open_trend_def press_esc_def leave_detail_def clear_for_new_selection_def new_trend_def selection_def
      Let_def split: screen.splits option.splits if_splits)

lemma kept_key: "kept_or_cleared app (snd (handle_key k app))"
  by (simp add: handle_key_def press_key_def Let_def kept_steps)

text \<open>C37: Results of trend fetches come late and in any order; only that of the latest fetch can reach the
  chart. In a run with fewer than \<open>2 ^ 64\<close> fetches, after any key, the result of a fetch that is
  not the last one spawned changes nothing. A key that selects another window, metric or target
  clears the chart. But it does not advance the number: the result of the latest fetch is accepted
  in any state with a trend, also when it was spawned for the selection before the key, and is then
  shown under the title of the selection after it.\<close>

theorem only_latest_fetch_shown:
  fixes k :: key_event
  assumes "ui_run st fs" "length fs < 2 ^ 64" "f \<in> set fs" "answers f r"
  defines "app \<equiv> snd (handle_key k (draw_selections (ul_app st)))"
  shows "(f \<noteq> last fs \<longrightarrow> deliver r app = app)
    \<and> (\<forall>t t'. ua_trend (ul_app st) = Some t \<longrightarrow> ua_trend app = Some t' \<longrightarrow> selection t' \<noteq> selection t \<longrightarrow> vw_data t' = None)
    \<and> (\<forall>t d. f = last fs \<longrightarrow> ua_trend app = Some t \<longrightarrow> snd r = Inr d \<longrightarrow>
         ua_trend (deliver r app) = Some (t\<lparr>vw_data := Some d, vw_error := None\<rparr>))"
proof -
  have "ua_metrics app = ua_metrics (ul_app st)" by (simp add: app_def metrics_handled metrics_kept)
  with ui_run_numbered [OF assms(1)] have n: "um_trend_seq (ua_metrics app) = word_of_nat (length fs)"
      "\<forall>i < length fs. fe_seq (fs ! i) = word_of_nat (Suc i)" by (simp_all add: numbered_def)
  obtain i where i: "i < length fs" "f = fs ! i" using assms(3) by (auto simp: in_set_conv_nth)
  have "fe_seq f = um_trend_seq (ua_metrics app) \<longleftrightarrow> Suc i = length fs"
    unfolding n(1) i(2) n(2) [rule_format, OF i(1)] using i(1) assms(2)
    by (simp add: word_unat_eq_iff unsigned_of_nat take_bit_nat_eq_self del: of_nat_Suc)
  moreover have last: "last fs = fs ! (length fs - 1)" using i by (intro last_conv_nth) auto
  ultimately have late: "fe_seq f = um_trend_seq (ua_metrics app) \<longrightarrow> f = last fs" using i(2) by (metis diff_Suc_1)
  have seq: "fe_seq (last fs) = um_trend_seq (ua_metrics app)" using n i last by (cases fs) auto
  have r: "fst r = fe_seq f" using assms(4) by (simp add: answers_def)
  have "ua_trend (draw_selections (ul_app st)) = ua_trend (ul_app st)"
    by (simp add: draw_selections_def split: screen.split option.split)
  with kept_key [of "draw_selections (ul_app st)" k]
  have "selection t' = selection t \<or> vw_data t' = None" if "ua_trend (ul_app st) = Some t" "ua_trend app = Some t'" for t t'
    using that by (simp add: kept_or_cleared_def app_def)
  moreover have "deliver r app = app" if "f \<noteq> last fs"
    using late that r by (auto simp: deliver_def split: prod.split option.split)
  moreover have "ua_trend (deliver r app) = Some (t\<lparr>vw_data := Some d, vw_error := None\<rparr>)"
    if "f = last fs" "ua_trend app = Some t" "snd r = Inr d" for t d
    using seq that r by (cases r) (simp add: deliver_def)
  ultimately show ?thesis by blast
qed

subsection \<open>A client at work\<close>

definition sample_range_summary :: range_summary where
  "sample_range_summary =
     (let d = \<lparr>su_bps = 0, su_bytes = 0, su_dropped_bps = 0, su_dropped_bytes = 0\<rparr>
      in \<lparr>rs_name = ''a'', rs_range = [], rs_rx = d, rs_tx = d, rs_ip_count = 0, rs_limited = 0\<rparr>)"

definition sample_status :: status where
  "sample_status = \<lparr>st_protocol_version = 1, st_generation = 1,
     st_reload = \<lparr>rl_config_loaded_at = [], rl_last_reload_at = [], rl_last_reload_ok = True, rl_last_reload_error = []\<rparr>,
     st_taps = \<lparr>ts_bridge = ''br0'', ts_tap_count = 0, ts_attach_failures_total = 0\<rparr>,
     st_watcher = \<lparr>ws_healthy = True, ws_errors_total = 0, ws_last_error = []\<rparr>,
     st_rollback = \<lparr>rh_degraded = False, rh_failures_total = 0\<rparr>,
     st_ops = \<lparr>op_push = \<lparr>pu_successes = 0, pu_failures = 0, pu_skipped = 0\<rparr>,
       op_oversized = \<lparr>ov_rx_packets = 0, ov_rx_bytes = 0, ov_tx_packets = 0, ov_tx_bytes = 0\<rparr>,
       op_swl_map_capacity = 0, op_swl_map_used = 0\<rparr>,
     st_ranges = [sample_range_summary]\<rparr>"

text \<open>A daemon that always answers with its status, polled at a given time.\<close>

definition sample_poll :: "nat \<Rightarrow> unit poll_inputs" where
  "sample_poll now = \<lparr>pl_now = now, pl_unix = 0, pl_connect = Some (),
     pl_request = (\<lambda>_ c. (Inr (StatusReply sample_status), c))\<rparr>"

definition press :: "key_code \<Rightarrow> nat \<Rightarrow> (u64 \<times> (string + trend_data)) list \<Rightarrow> unit round_inputs" where
  "press code now results = \<lparr>ro_event = KeyEvent \<lparr>ke_press = True, ke_control = False, ke_code = code\<rparr>,
     ro_handled_at = now, ro_results = results, ro_poll = sample_poll now, ro_polled_at = now\<rparr>"

definition sample_cfg :: validated_config where
  "sample_cfg = \<lparr>vc_bridge = ''br0'', vc_refresh_interval_ms = 2000, vc_scan_interval_secs = 5,
     vc_map_max_entries = 1024, vc_swl_map_max_entries = 16, vc_show_interface = False, vc_show_packets = False,
     vc_show_idle_ips = False, vc_default_sort = SortIp, vc_metrics_enabled = True, vc_metrics_url = ''http://m'',
     vc_metrics_push_interval_secs = 60, vc_ranges = []\<rparr>"

text \<open>The client opens the trend of the range; while the fetch for the first window is in flight, the
  next window is chosen, and the result that has arrived by then is put on the screen.\<close>

definition sample_loop :: "unit ui_loop" where
  "sample_loop = fst (ui_start (Some sample_cfg) (Inr ()) (sample_poll 0) 0)"

definition old_data :: trend_data where
  "old_data = \<lparr>td_rx = [], td_tx = [], td_axis = \<lparr>ax_start = - 3600, ax_end = 0, ax_step = 60\<rparr>\<rparr>"

definition sample_app :: ui_state where
  "sample_app = \<lparr>ua_daemon = \<lparr>ud_bridge = ''br0'', ud_status = Some sample_status, ud_detail = None, ud_detail_index = None,
       ud_error = None, ud_protocol_note = None\<rparr>,
     ua_refresh_ms = 1000, ua_config_warning = None, ua_screen = OverviewScreen, ua_overview = None,
     ua_detail_table = None, ua_sort = SortIp, ua_show_help = False, ua_trend = None,
     ua_metrics = \<lparr>um_enabled = True, um_url = ''http://m'', um_rate_window_secs = 120, um_runtime = True, um_trend_seq = 0\<rparr>\<rparr>"

lemma sample_loop_eq: "sample_loop = \<lparr>ul_app = sample_app, ul_client = Some (), ul_next_poll = REFRESH\<rparr>"
  by (simp add: sample_loop_def ui_start_def sample_cfg_def ui_state_new_def ui_poll_def sample_poll_def poll_daemon_def
      poll_overview_def poll_detail_def sample_app_def sample_status_def protocol_note_def PROTOCOL_VERSION_def
      Let_def max_def word_le_nat_alt)

definition opened_app :: ui_state where
  "opened_app = sample_app\<lparr>ua_screen := TrendScreen, ua_overview := Some 0,
     ua_trend := Some ((new_trend (TargetRange ''a'') OverviewScreen)\<lparr>vw_fetched_at := Some 1\<rparr>),
     ua_metrics := (ua_metrics sample_app)\<lparr>um_trend_seq := 1\<rparr>\<rparr>"

lemma opened_eq:
  "\<exists>f. ui_round (press (KeyChar CHR ''t'') 1 []) sample_loop
     = Some (\<lparr>ul_app = opened_app, ul_client = Some (), ul_next_poll = 1 + REFRESH\<rparr>, Some f)
   \<and> answers f (1, Inr old_data)"
  by (simp add: sample_loop_eq ui_round_def press_def handle_key_def press_key_def draw_selections_def clamp_selection_def
      open_trend_def selected_range_def nth_range_def sample_range_summary_def new_trend_def Let_def
      ui_poll_def sample_poll_def poll_daemon_def trend_due_def fetch_trend_def fetch_of_def TREND_WINDOWS_def
      poll_overview_def poll_detail_def sample_app_def sample_status_def protocol_note_def PROTOCOL_VERSION_def
      opened_app_def answers_def old_data_def)

definition switched_app :: ui_state where
  "switched_app = opened_app\<lparr>
     ua_trend := Some ((new_trend (TargetRange ''a'') OverviewScreen)\<lparr>vw_win := 1, vw_data := Some old_data, vw_fetched_at := Some 2\<rparr>),
     ua_metrics := (ua_metrics sample_app)\<lparr>um_trend_seq := 2\<rparr>\<rparr>"

lemma switched_eq:
  "\<exists>f. ui_round (press KeyRight 2 [(1, Inr old_data)])
      \<lparr>ul_app = opened_app, ul_client = Some (), ul_next_poll = 1 + REFRESH\<rparr>
    = Some (\<lparr>ul_app = switched_app, ul_client = Some (), ul_next_poll = 2 + REFRESH\<rparr>, Some f)"
  by (simp add: ui_round_def press_def handle_key_def press_key_def draw_selections_def
      next_window_def clear_for_new_selection_def deliver_def new_trend_def Let_def
      ui_poll_def sample_poll_def poll_daemon_def trend_due_def fetch_trend_def fetch_of_def TREND_WINDOWS_def
      poll_overview_def poll_detail_def sample_app_def sample_status_def protocol_note_def PROTOCOL_VERSION_def
      opened_app_def switched_app_def)

lemma sample_opened:
  obtains f where "ui_run \<lparr>ul_app = opened_app, ul_client = Some (), ul_next_poll = 1 + REFRESH\<rparr> [f]" "answers f (1, Inr old_data)"
proof -
  have start: "ui_start (Some sample_cfg) (Inr ()) (sample_poll 0) 0 = (sample_loop, None)"
    by (simp add: sample_loop_def ui_start_def sample_cfg_def ui_state_new_def ui_poll_def Let_def case_prod_beta)
  have 0: "ui_run sample_loop []" using ui_run.started [OF start] by simp
  obtain f where f: "ui_round (press (KeyChar CHR ''t'') 1 []) sample_loop
      = Some (\<lparr>ul_app = opened_app, ul_client = Some (), ul_next_poll = 1 + REFRESH\<rparr>, Some f)"
    "answers f (1, Inr old_data)" using opened_eq by blast
  have "ui_run \<lparr>ul_app = opened_app, ul_client = Some (), ul_next_poll = 1 + REFRESH\<rparr> [f]"
    using ui_run.round [OF 0 _ f(1)] by (simp add: press_def)
  then show ?thesis using f(2) by (rule that)
qed

lemma sample_switched:
  obtains fs where "ui_run \<lparr>ul_app = switched_app, ul_client = Some (), ul_next_poll = 2 + REFRESH\<rparr> fs"
proof -
  obtain f where 1: "ui_run \<lparr>ul_app = opened_app, ul_client = Some (), ul_next_poll = 1 + REFRESH\<rparr> [f]"
    and f: "answers f (1, Inr old_data)" by (rule sample_opened)
  obtain f' where f': "ui_round (press KeyRight 2 [(1, Inr old_data)])
      \<lparr>ul_app = opened_app, ul_client = Some (), ul_next_poll = 1 + REFRESH\<rparr>
    = Some (\<lparr>ul_app = switched_app, ul_client = Some (), ul_next_poll = 2 + REFRESH\<rparr>, Some f')" using switched_eq by blast
  have "\<forall>r \<in> set (ro_results (press KeyRight 2 [(1, Inr old_data)])). \<exists>f \<in> set [f]. answers f r"
    using f by (simp add: press_def)
  from ui_run.round [OF 1 this f']
  have "ui_run \<lparr>ul_app = switched_app, ul_client = Some (), ul_next_poll = 2 + REFRESH\<rparr> ([f] @ [f'])" by simp
  then show ?thesis by (rule that)
qed

text \<open>The result for the first window arrives after the next window was chosen.\<close>

lemma only_latest_fetch_shown_witness:
  "\<exists>(st :: unit ui_loop) f t. ui_run st [f] \<and> answers f (1, Inr old_data)
     \<and> ua_trend (deliver (1, Inr old_data) (snd (handle_key \<lparr>ke_press = True, ke_control = False, ke_code = KeyRight\<rparr>
           (draw_selections (ul_app st))))) = Some t
     \<and> vw_win t = 1 \<and> vw_data t = Some old_data"
proof -
  let ?st = "\<lparr>ul_app = opened_app, ul_client = Some (), ul_next_poll = 1 + REFRESH\<rparr>"
  let ?k = "\<lparr>ke_press = True, ke_control = False, ke_code = KeyRight\<rparr>"
  obtain f where f: "ui_run ?st [f]" "answers f (1, Inr old_data)" by (rule sample_opened)
  have "ua_trend (snd (handle_key ?k (draw_selections (ul_app ?st))))
      = Some ((new_trend (TargetRange ''a'') OverviewScreen)\<lparr>vw_win := 1\<rparr>)"
    by (simp add: handle_key_def press_key_def draw_selections_def next_window_def clear_for_new_selection_def
        opened_app_def sample_app_def new_trend_def TREND_WINDOWS_def)
  with only_latest_fetch_shown [OF f(1) _ _ f(2), of ?k] f show ?thesis
    by (intro exI [of _ ?st] exI [of _ f]) simp
qed

lemma ui_state_consistent_witness:
  "\<exists>(st :: unit ui_loop) fs. ui_run st fs \<and> ua_screen (ul_app st) = TrendScreen
     \<and> (\<forall>t. ua_trend (ul_app st) = Some t \<longrightarrow> vw_win t < length TREND_WINDOWS)"
proof -
  let ?st = "\<lparr>ul_app = switched_app, ul_client = Some (), ul_next_poll = 2 + REFRESH\<rparr>"
  obtain fs where run: "ui_run ?st fs" by (rule sample_switched)
  have "ua_screen (ul_app ?st) = TrendScreen" by (simp add: switched_app_def opened_app_def)
  with run ui_state_consistent [OF run] show ?thesis by blast
qed

lemma poll_stays_in_step_witness:
  "ud_error (ua_daemon (snd (poll_daemon ((sample_poll 0)\<lparr>pl_request := (\<lambda>_ c. (Inr (ErrorReply ''late''), c))\<rparr>)
     (Some (), sample_app)))) \<noteq> None"
proof -
  let ?i = "(sample_poll 0)\<lparr>pl_request := (\<lambda>_ c. (Inr (ErrorReply ''late''), c))\<rparr>"
  obtain client app where p: "poll_daemon ?i (Some (), sample_app) = (client, app)" by force
  from poll_stays_in_step [OF p, of "()"] p show ?thesis by (cases client) simp_all
qed

lemma ui_can_quit_witness: "ui_round (press (KeyChar CHR ''q'') 1 []) sample_loop = None"
proof -
  have "ro_event (press (KeyChar CHR ''q'') 1 [])
      = KeyEvent \<lparr>ke_press = True, ke_control = False, ke_code = KeyChar CHR ''q''\<rparr>" by (simp add: press_def)
  from ui_can_quit [OF this, of sample_loop] show ?thesis by (simp add: sample_loop_eq sample_app_def)
qed

end
