(* ===== verification/Spec2Isabelle.thy ===== *)
theory Spec2Isabelle
  imports Limiter_Agreement Collector_Counts Tc_Safety Ceilings Sessions Host Ui
begin

text \<open>
  A verification library of vm-bandwidth, the per-address bandwidth monitor and rate limiter for virtual
  machines behind a Linux bridge.

  The program. Two eBPF classifiers on every TAP interface count each frame of a monitored address and drop the
  frames a policer refuses (\<open>vm-bandwidth-ebpf\<close>). The daemon (\<open>vm-bandwidth\<close>) owns the
  BPF maps: it attaches the classifiers, reads the counters on a timer, lets the limiter decide which flows to
  limit, writes policies and policer state in transactions, reloads its configuration while running, answers the
  client over a socket and pushes metrics. The decisions are in a library of pure code
  (\<open>vm-bandwidth-core\<close>), the shared data layout in \<open>vm-bandwidth-common\<close>. The daemon
  and the classifiers meet only in the maps: the limiter never writes one, it returns actions; the transactions
  apply them; the classifiers read the result.

  Where to find what. Data path: Common (the shared structs), Policers (token and leaky bucket, fixed window,
  sliding window counter, gcra), Swl (the log ring of \<open>swl_police\<close> and the model of
  \<open>core/swl.rs\<close>), Datapath (\<open>handle\<close> and all it calls, on the state
  \<open>dp_state\<close> of the maps). Configuration: Strings and F64 (the parts of the Rust library it uses),
  Units, Ip_Range, Policy, Config. Control: Window (\<open>window.rs\<close>), Limiter
  (\<open>limiter.rs\<close>), Policy_Index (its index), Collector (\<open>collector.rs\<close>), Txmaps
  (\<open>txmaps.rs\<close>), Reload (the free functions of \<open>daemon.rs\<close> that drive the
  transactions), Tc (\<open>tc.rs\<close>, \<open>interface.rs\<close>), Timers, Timefmt, Metrics, Ipc. The
  daemon: Engine_Maps (\<open>EngineMaps\<close>, \<open>EngineWhitelist\<close>,
  \<open>PendingRemovals\<close>), Engine (\<open>Engine\<close> with tick, scan, reload, replies and start),
  Server (a connection, the watcher's filter, the loop of \<open>run_daemon\<close>,
  \<open>raise_fd_limit\<close>), Sessions (the accept loop, the tasks of many connections and the channel they
  share with the loop), Host (\<open>main.rs\<close>, and the lock, socket path and pins that processes of a
  host share). The client: Bandwidth (display of rates and totals), Tui (\<open>tui.rs\<close>: what each screen
  says), Ui (\<open>ui.rs\<close>: keys, poll, trend queries, loop). A definition has the name of the function
  it models; parts of a long function have their own definitions. Structs are records, large ones split into
  records of what belongs together; \<open>Result\<close> is a sum, \<open>Option\<close> an option.

  Words and numbers. \<open>u8\<close> to \<open>u128\<close> are words of that width, so arithmetic wraps as
  compiled; the saturating and checked operations of the source are definitions of Prelude. \<open>f64\<close>
  is a rational with rounding to 53 bits at each operation (F64), far from overflow; the theorems that use it
  state the ranges in which it is exact. Strings are lists of 8-bit characters; text that needs others is ASCII.

  What stands outside. The kernel, aya and the file system answer through the \<open>world\<close>s of
  Engine_Maps and Tc: every system call may be refused, with any message, and any frames may arrive before it.
  The longest-prefix lookup is a parameter with its documented law (\<open>lpm_law\<close>). TOML, URL and JSON
  parsers, the HTTP client, the codec of the socket, clocks and the iteration order of hash maps and sets are
  arguments of the definitions that use them.

  What is proved. Policer_Arith and Rate_Bounds: within the bounds of the configuration no product wraps, and
  over any frames and clock readings a limit admits at most burst plus rate times time (locale
  \<open>policer\<close>, interpreted for five algorithms; Swl for the sixth). Datapath: when a frame is
  dropped, what is counted, and that no flow disturbs the policing of another, for all six algorithms. Ip_Range, Config, Policy_Index: an
  accepted document has disjoint ranges that their prefixes cover exactly, and every indexed policy is within
  the bounds the first group assumes. Window, Limiter_Agreement: when a limit is installed and removed, and that
  the limiter agrees with what its actions leave in the maps, failed actions included. Collector_Counts: totals
  grow by what each key counted from poll to poll, so that they count each byte once while no key is removed
  (locale \<open>counter_field\<close>, interpreted for the four counters). Tx_Safety,
  Reload_Safety: the promises of the transactions over any maps that keep the contracts
  \<open>limit_maps\<close> and \<open>tx_maps\<close>, which Engine_Laws discharges for the maps of the daemon
  under any refusals. Engine_Safety joins them: over every run of the engine the maps agree with the limiter and
  the configuration in force unless the engine reports itself degraded, an armed policy always has its state,
  and a failed reload keeps the old configuration in force; hence which frames are dropped, from the configuration to the wire.
  Arming states a second contract of the maps (locale \<open>guarded_maps\<close>: a policy is put into them
  only over state that its policer can start from), which the transactions and their rollback keep and
  Enforcement discharges for the maps of the daemon; Ceilings concludes that whatever was refused and rolled
  back, degraded or not, a flow limited by any algorithm but the log passes no more than the ceiling of its
  policy, up to the rounding of each passed frame, and has a run of the
  daemon from a document to the first dropped frame, on which several theorems are applied. Server: the loop of
  the daemon is such a run, and a connection answers requests in order. Sessions: with any number of clients in
  any interleaving each connection is served as by \<open>handle_connection\<close> alone, within the limit on
  connections, and a client reads the engine's answers to its own requests. Host: one daemon at a time holds the
  lock, and only it touches the socket clients connect to. Tc_Safety: reconciliation attaches what it finds and
  leaves no link behind but those whose detach failed (locale \<open>attach_contract\<close>). Metrics, Timers, Timefmt, Bandwidth: labels, single
  flight of pushes, cadence, calendar, scaling. Tui, Ui: what a short header keeps, the order of tables, charts
  inside the screen, the consistency of the client's state over all runs, that replies are never read one
  request late, and which late trend results can reach the chart.

  Runs and bounds. The engine, the daemon's loop, its tasks, the processes of a host, the pushes and the client
  are inductive step relations; their invariants are by rule induction, over runs of any length. Every function
  is total: recursion is structural, or on a measure (the prefix decomposition, the unit scaling); no fuel is
  used. The VLAN walk looks at the two tags the source unrolls; the log ring has \<open>SWL_LOG_CAP\<close>
  entries. The ceilings of Ceilings assume that the nanosecond clock is above zero and at most \<open>2 ^
  63\<close> (292 years of uptime), and leave out the sliding window log, whose ceiling is per window and stated
  in Swl.

  Not modelled, because it has no state or decision of this program: argument parsing and logger setup, the
  layout, styles and help page of the terminal, raw mode and the panic hook, loading and verification of the
  eBPF object, build scripts and packaging. Log lines are left out except those whose text is a function of its
  own. The spin lock of the log ring is modelled as the atomicity of \<open>swl_step\<close>; updates of one
  flow by two processors at once, which the other policers do not exclude, are interleaved frame by frame.
\<close>

end
